(* ===== verification/RB_Prelude.thy ===== *)
theory RB_Prelude
  imports Main "HOL-Library.Word" "HOL-Library.Monad_Syntax"
begin

text \<open>
  Shared ground of the development: the machine types of the C sources, the partiality monad in
  which the models run, memory blocks with indeterminate bytes, byte orders, C strings and the
  generic lemmas the component theories draw on.

  A C function that may abort (a failed \<^verbatim>\<open>assert\<close>) or run into undefined behaviour (an
  access outside a block, a use of an indeterminate byte, signed overflow, a NULL dereference)
  is modelled with the result type \<open>'a run\<close>: \<open>None\<close> is the execution that aborts or is
  undefined, \<open>Some r\<close> the execution that returns \<open>r\<close>. The error codes of the sources are
  ordinary results inside \<open>Some\<close>.
\<close>

unbundle bit_operations_syntax

named_theorems codec_simps \<open>unfolding rules for byte-level readers and writers\<close>
named_theorems inv_intros \<open>preservation rules of the components' invariants\<close>

section \<open>Machine types\<close>

type_synonym u8 = "8 word"
type_synonym u16 = "16 word"
type_synonym u32 = "32 word"
type_synonym u64 = "64 word"
type_synonym 'a run = "'a option"
type_synonym mem = "u8 option list"
type_synonym addr = nat

text \<open>C \<open>int\<close> is 32 bits wide; an operation whose result leaves its range is undefined.\<close>

definition int_range :: "int \<Rightarrow> bool" where
  "int_range i \<longleftrightarrow> - (2 ^ 31) \<le> i \<and> i < 2 ^ 31"

definition cint :: "int \<Rightarrow> int run" where
  "cint i = (if int_range i then Some i else None)"

text \<open>Division and remainder of C truncate towards zero.\<close>

definition cdiv :: "int \<Rightarrow> int \<Rightarrow> int" where
  "cdiv a b = sgn a * sgn b * (\<bar>a\<bar> div \<bar>b\<bar>)"

lemma cint_Some [simp]: "int_range i \<Longrightarrow> cint i = Some i"
  by (simp add: cint_def)

lemma cint_eq_Some_iff: "cint i = Some j \<longleftrightarrow> int_range i \<and> j = i"
  by (auto simp: cint_def)

lemma cdiv_nonneg: "0 \<le> a \<Longrightarrow> 0 < b \<Longrightarrow> cdiv a b = a div b"
  by (auto simp: cdiv_def sgn_if)

lemma int_rangeI: "0 \<le> i \<Longrightarrow> i < 2147483648 \<Longrightarrow> int_range i"
  by (simp add: int_range_def)

text \<open>Return codes of the rtMessage library.\<close>

definition RT_OK :: int where "RT_OK = 0"
definition RT_ERROR :: int where "RT_ERROR = 1"
definition RT_FAIL :: int where "RT_FAIL = 1"
definition RT_ERROR_INVALID_ARG :: int where "RT_ERROR_INVALID_ARG = 3"
definition RT_ERROR_INVALID_EXPRESSION :: int where "RT_ERROR_INVALID_EXPRESSION = 12"
definition RT_ERROR_DUPLICATE_ENTRY :: int where "RT_ERROR_DUPLICATE_ENTRY = 1001"
definition RT_ERROR_PROTOCOL_ERROR :: int where "RT_ERROR_PROTOCOL_ERROR = 1003"
definition RT_ENOMEM :: int where "RT_ENOMEM = 12 + 0x80000000"

text \<open>Error codes of the rbus library (\<open>rbusError_t\<close>).\<close>

definition RBUS_ERROR_SUCCESS :: int where "RBUS_ERROR_SUCCESS = 0"
definition RBUS_ERROR_BUS_ERROR :: int where "RBUS_ERROR_BUS_ERROR = 1"
definition RBUS_ERROR_INVALID_INPUT :: int where "RBUS_ERROR_INVALID_INPUT = 2"
definition RBUS_ERROR_INVALID_OPERATION :: int where "RBUS_ERROR_INVALID_OPERATION = 9"
definition RBUS_ERROR_SESSION_ALREADY_EXIST :: int where "RBUS_ERROR_SESSION_ALREADY_EXIST = 12"
definition RBUS_ERROR_ELEMENT_DOES_NOT_EXIST :: int where "RBUS_ERROR_ELEMENT_DOES_NOT_EXIST = 17"
definition RBUS_ERROR_ACCESS_NOT_ALLOWED :: int where "RBUS_ERROR_ACCESS_NOT_ALLOWED = 18"
definition RBUS_ERROR_NOSUBSCRIBERS :: int where "RBUS_ERROR_NOSUBSCRIBERS = 23"
definition RBUS_ERROR_SUBSCRIPTION_ALREADY_EXIST :: int where "RBUS_ERROR_SUBSCRIPTION_ALREADY_EXIST = 24"

section \<open>Memory blocks\<close>

text \<open>
  A block of memory is the list of its bytes; \<open>None\<close> is an indeterminate byte (memory from
  \<open>malloc\<close> that has not been written, or struct padding). Copying indeterminate bytes is
  allowed, using them as a value is not.
\<close>

definition mem_read :: "mem \<Rightarrow> int \<Rightarrow> int \<Rightarrow> mem run" where
  "mem_read m off len =
     (if 0 \<le> off \<and> 0 \<le> len \<and> off + len \<le> int (length m)
      then Some (take (nat len) (drop (nat off) m)) else None)"

definition mem_write :: "mem \<Rightarrow> int \<Rightarrow> mem \<Rightarrow> mem run" where
  "mem_write m off src =
     (if 0 \<le> off \<and> off + int (length src) \<le> int (length m)
      then Some (take (nat off) m @ src @ drop (nat off + length src) m) else None)"

text \<open>The determined contents of a block, when every byte of it is determined.\<close>

fun det :: "mem \<Rightarrow> u8 list option" where
  "det [] = Some []"
| "det (None # m) = None"
| "det (Some b # m) = map_option ((#) b) (det m)"

lemma det_map_Some [simp]: "det (map Some bs) = Some bs"
  by (induction bs) auto

lemma det_append: "det (m @ n) = (case det m of None \<Rightarrow> None | Some xs \<Rightarrow> map_option ((@) xs) (det n))"
  by (induction m rule: det.induct) (cases "det n"; auto split: option.splits)+

lemma det_eq_Some_iff: "det m = Some bs \<longleftrightarrow> m = map Some bs"
  by (induction m arbitrary: bs rule: det.induct) auto

lemma length_mem_write: "mem_write m off src = Some m' \<Longrightarrow> length m' = length m"
  by (auto simp: mem_write_def split: if_splits)

lemma mem_read_at:
  "0 \<le> off \<Longrightarrow> n = int (length xs) \<Longrightarrow> nat off = length pre \<Longrightarrow>
   mem_read (pre @ xs @ post) off n = Some xs"
  by (auto simp: mem_read_def)

section \<open>Byte orders\<close>

fun le_bytes :: "nat \<Rightarrow> 'a::len word \<Rightarrow> u8 list" where
  "le_bytes 0 w = []"
| "le_bytes (Suc n) w = ucast w # le_bytes n (drop_bit 8 w)"

fun of_le_bytes :: "u8 list \<Rightarrow> 'a::len word" where
  "of_le_bytes [] = 0"
| "of_le_bytes (b # bs) = ucast b OR push_bit 8 (of_le_bytes bs)"

definition be_bytes :: "nat \<Rightarrow> 'a::len word \<Rightarrow> u8 list" where
  "be_bytes n w = rev (le_bytes n w)"

definition of_be_bytes :: "u8 list \<Rightarrow> 'a::len word" where
  "of_be_bytes bs = of_le_bytes (rev bs)"

lemma length_le_bytes [simp]: "length (le_bytes n w) = n"
  by (induction n arbitrary: w) auto

lemma le_bytes_Nil_iff [simp]: "le_bytes n w = [] \<longleftrightarrow> n = 0"
  by (metis length_0_conv length_le_bytes)

lemma length_be_bytes [simp]: "length (be_bytes n w) = n"
  by (simp add: be_bytes_def)

lemma of_le_le_bytes_take: "of_le_bytes (le_bytes n (w :: 'a::len word)) = take_bit (8 * n) w"
proof (induction n arbitrary: w)
  case 0
  then show ?case by simp
next
  case (Suc n)
  have "of_le_bytes (le_bytes (Suc n) w)
      = ucast (ucast w :: u8) OR push_bit 8 (take_bit (8 * n) (drop_bit 8 w))"
    by (simp add: Suc.IH)
  also have "\<dots> = take_bit (8 * Suc n) w"
    by (rule bit_word_eqI) (auto simp: bit_simps)
  finally show ?case .
qed

lemma of_le_le_bytes [simp]:
  "LENGTH('a) \<le> 8 * n \<Longrightarrow> of_le_bytes (le_bytes n (w :: 'a::len word)) = w"
  by (simp add: of_le_le_bytes_take take_bit_word_eq_self)

lemma of_be_be_bytes [simp]:
  "LENGTH('a) \<le> 8 * n \<Longrightarrow> of_be_bytes (be_bytes n (w :: 'a::len word)) = w"
  by (simp add: of_be_bytes_def be_bytes_def)

section \<open>C strings\<close>

text \<open>
  A C string in memory runs up to its terminating zero byte; scanning for it past the end of
  the block, or over an indeterminate byte, is undefined. Names are modelled as HOL strings.
\<close>

fun cstr :: "mem \<Rightarrow> u8 list run" where
  "cstr [] = None"
| "cstr (None # m) = None"
| "cstr (Some b # m) = (if b = 0 then Some [] else map_option ((#) b) (cstr m))"

definition strlen :: "mem \<Rightarrow> int run" where
  "strlen m = map_option (\<lambda>bs. int (length bs)) (cstr m)"

text \<open>
  The sign of \<open>strcmp\<close> and \<open>memcmp\<close>: the C standard fixes no more than that, and the
  sources test no more than that.
\<close>

fun lexcmp :: "'a::linorder list \<Rightarrow> 'a list \<Rightarrow> int" where
  "lexcmp [] [] = 0"
| "lexcmp [] (y # ys) = - 1"
| "lexcmp (x # xs) [] = 1"
| "lexcmp (x # xs) (y # ys) = (if x = y then lexcmp xs ys else if x < y then - 1 else 1)"

definition char_codes :: "string \<Rightarrow> nat list" where
  "char_codes s = map of_char s"

definition strcmp :: "string \<Rightarrow> string \<Rightarrow> int" where
  "strcmp s t = lexcmp (char_codes s) (char_codes t)"

definition isdigit :: "char \<Rightarrow> bool" where
  "isdigit c \<longleftrightarrow> 48 \<le> (of_char c :: nat) \<and> (of_char c :: nat) \<le> 57"

lemma cstr_terminated [simp]:
  "0 \<notin> set bs \<Longrightarrow> cstr (map Some bs @ Some 0 # rest) = Some bs"
  by (induction bs) auto

lemma cstr_zeros [simp]: "0 < n \<Longrightarrow> cstr (replicate n (Some 0)) = Some []"
  by (cases n) auto

lemma cstr_SomeD: "cstr m = Some bs \<Longrightarrow> 0 \<notin> set bs \<and> (\<exists>rest. m = map Some bs @ Some 0 # rest)"
  by (induction m arbitrary: bs rule: cstr.induct) (auto split: if_splits)

lemma lexcmp_eq_0_iff [simp]: "lexcmp xs ys = 0 \<longleftrightarrow> xs = ys"
  by (induction xs ys rule: lexcmp.induct) auto

lemma lexcmp_sym: "lexcmp ys xs = - lexcmp xs ys"
  by (induction xs ys rule: lexcmp.induct) auto

lemma lexcmp_range: "lexcmp xs ys \<in> {- 1, 0, 1}"
  by (induction xs ys rule: lexcmp.induct) auto

lemma lexcmp_Nil_le [simp]: "lexcmp [] ys \<le> 0"
  by (cases ys) auto

lemma lexcmp_le_trans: "lexcmp xs ys \<le> 0 \<Longrightarrow> lexcmp ys zs \<le> 0 \<Longrightarrow> lexcmp xs zs \<le> 0"
proof (induction xs ys arbitrary: zs rule: lexcmp.induct)
  case (4 x xs y ys)
  then show ?case
    by (cases zs) (auto split: if_splits)
qed (auto elim: lexcmp.elims split: if_splits)

lemma char_codes_inject [simp]: "char_codes s = char_codes t \<longleftrightarrow> s = t"
  by (simp add: char_codes_def inj_map_eq_map inj_on_def)

lemma strcmp_eq_0_iff [simp]: "strcmp s t = 0 \<longleftrightarrow> s = t"
  by (simp add: strcmp_def)

section \<open>Cursors\<close>

text \<open>A cursor into a block: the block with the offset of the next byte to write or read.\<close>

type_synonym cursor = "mem \<times> int"

definition put_bytes :: "cursor \<Rightarrow> mem \<Rightarrow> cursor run" where
  "put_bytes c bs = (case c of (m, p) \<Rightarrow> do { m \<leftarrow> mem_write m p bs; Some (m, p + int (length bs)) })"

definition take_bytes :: "cursor \<Rightarrow> int \<Rightarrow> (mem \<times> cursor) run" where
  "take_bytes c n = (case c of (m, p) \<Rightarrow> do { bs \<leftarrow> mem_read m p n; Some (bs, (m, p + n)) })"

text \<open>\<open>at c xs\<close>: from the cursor on, the block holds \<open>xs\<close>.\<close>

definition at :: "cursor \<Rightarrow> mem \<Rightarrow> bool" where
  "at c xs \<longleftrightarrow> (case c of (m, p) \<Rightarrow> 0 \<le> p \<and> p \<le> int (length m) \<and> drop (nat p) m = xs)"

definition skip :: "nat \<Rightarrow> cursor \<Rightarrow> cursor" where
  "skip n c = (case c of (m, p) \<Rightarrow> (m, p + int n))"

lemma put_bytes_append:
  "Option.bind (put_bytes c a) (\<lambda>c. put_bytes c b) = put_bytes c (a @ b)"
proof (cases c)
  case (Pair m p)
  show ?thesis
  proof (cases "0 \<le> p \<and> p + int (length a) \<le> int (length m)")
    case True
    then obtain k where k: "p = int k" "k + length a \<le> length m"
      by (metis nat_int nonneg_int_cases of_nat_add of_nat_le_iff)
    let ?m = "take k m @ a @ drop (k + length a) m"
    have "nat (int k + int (length a)) = k + length a" by simp
    then show ?thesis
      using k by (simp add: Pair put_bytes_def mem_write_def algebra_simps)
  next
    case False
    then show ?thesis
      by (auto simp: Pair put_bytes_def mem_write_def)
  qed
qed

lemma put_bytes_bind:
  "Option.bind (put_bytes c a) (\<lambda>c. Option.bind (put_bytes c b) f) = Option.bind (put_bytes c (a @ b)) f"
  by (simp flip: put_bytes_append)

lemma skip_skip [simp]: "skip n (skip k c) = skip (k + n) c"
  by (cases c) (simp add: skip_def)

lemma at_take:
  assumes "at c (bs @ rest)" "n = int (length bs)"
  shows "take_bytes c n = Some (bs, skip (length bs) c)" "at (skip (length bs) c) rest"
proof -
  obtain m p where c: "c = (m, p)" by (cases c)
  have d: "drop (nat p) m = bs @ rest" "0 \<le> p" "p \<le> int (length m)"
    using assms(1) by (auto simp: at_def c)
  have l: "int (length m) = p + int (length bs) + int (length rest)"
    using arg_cong [OF d(1), of length] d(2,3) by simp
  then show "take_bytes c n = Some (bs, skip (length bs) c)"
    using d assms(2) by (simp add: take_bytes_def mem_read_def skip_def c)
  have "drop (nat (p + int (length bs))) m = drop (length bs) (drop (nat p) m)"
    using d(2) by (simp add: nat_add_distrib add.commute)
  then show "at (skip (length bs) c) rest"
    using l d(1,2) by (simp add: at_def skip_def c)
qed

end
