(* ===== verification/RB_Buffer.thy ===== *)
theory RB_Buffer
  imports RB_Prelude
begin

text \<open>
  The growable byte buffer of \<^verbatim>\<open>src/src/rbus/rbus_buffer.c\<close>: a block of memory with a write
  and a read position, the type-length-value writers and the typed readers. The definitions
  take the struct a non-NULL \<open>rbusBuffer_t\<close> points at; a call with a NULL buffer returns at
  once (\<open>VERIFY_NULL\<close>) and has no model. Second half: the invariant of the struct, what it
  means to append to and to consume from a buffer, and the interface \<open>wire_format\<close> against
  which the value and filter codecs are verified.
\<close>

section \<open>The buffer\<close>

text \<open>
  \<open>onBlock1\<close> says whether \<open>data\<close> points at the embedded array \<open>block1\<close> or at a block
  of its own; \<open>data\<close> is the contents of the block it points at.
\<close>

record rbusBuffer =
  lenAlloc :: int
  posWrite :: int
  posRead :: int
  onBlock1 :: bool
  data :: mem

definition BUFFER_BLOCK_SIZE :: int where
  "BUFFER_BLOCK_SIZE = 64"

definition rbusBuffer_Create :: rbusBuffer where
  "rbusBuffer_Create =
     \<lparr>lenAlloc = BUFFER_BLOCK_SIZE, posWrite = 0, posRead = 0, onBlock1 = True,
      data = replicate (nat BUFFER_BLOCK_SIZE) None\<rparr>"

text \<open>\<open>rbusBuffer_Destroy\<close> frees the block; what is left to model is its assertion.\<close>

definition rbusBuffer_Destroy :: "rbusBuffer \<Rightarrow> unit run" where
  "rbusBuffer_Destroy b =
     (if \<not> onBlock1 b \<and> \<not> lenAlloc b > BUFFER_BLOCK_SIZE then None else Some ())"

definition rt_malloc :: "int \<Rightarrow> mem" where
  "rt_malloc n = replicate (nat n) None"

definition rt_realloc :: "mem \<Rightarrow> int \<Rightarrow> mem" where
  "rt_realloc m n = take (nat n) m @ replicate (nat n - length m) None"

definition rbusBuffer_Reserve :: "rbusBuffer \<Rightarrow> int \<Rightarrow> rbusBuffer run" where
  "rbusBuffer_Reserve b len =
     do { posNext \<leftarrow> cint (posWrite b + len);
          if posNext > lenAlloc b
          then do { n \<leftarrow> cint ((cdiv posNext BUFFER_BLOCK_SIZE + 1) * BUFFER_BLOCK_SIZE);
                    if onBlock1 b
                    then do { old \<leftarrow> (if posWrite b > 0 then mem_read (data b) 0 (posWrite b) else Some []);
                              d \<leftarrow> mem_write (rt_malloc n) 0 old;
                              Some (b\<lparr>lenAlloc := n, onBlock1 := False, data := d\<rparr>) }
                    else Some (b\<lparr>lenAlloc := n, data := rt_realloc (data b) n\<rparr>) }
          else Some b }"

text \<open>The source operand is a pointer: \<open>None\<close> is NULL, which makes the call return at once.\<close>

definition rbusBuffer_Write :: "rbusBuffer \<Rightarrow> mem option \<Rightarrow> int \<Rightarrow> rbusBuffer run" where
  "rbusBuffer_Write b src len =
     (case src of
        None \<Rightarrow> Some b
      | Some s \<Rightarrow>
          do { b \<leftarrow> rbusBuffer_Reserve b len;
               s' \<leftarrow> mem_read s 0 len;
               d \<leftarrow> mem_write (data b) (posWrite b) s';
               p \<leftarrow> cint (posWrite b + len);
               Some (b\<lparr>data := d, posWrite := p\<rparr>) })"

section \<open>Value types and the typed writers\<close>

datatype rbusValueType =
    RBUS_BOOLEAN | RBUS_CHAR | RBUS_BYTE | RBUS_INT8 | RBUS_UINT8 | RBUS_INT16 | RBUS_UINT16
  | RBUS_INT32 | RBUS_UINT32 | RBUS_INT64 | RBUS_UINT64 | RBUS_SINGLE | RBUS_DOUBLE
  | RBUS_DATETIME | RBUS_STRING | RBUS_BYTES | RBUS_PROPERTY | RBUS_OBJECT | RBUS_NONE

fun vtype_code :: "rbusValueType \<Rightarrow> int" where
  "vtype_code RBUS_BOOLEAN = 0x500" | "vtype_code RBUS_CHAR = 0x501"
| "vtype_code RBUS_BYTE = 0x502" | "vtype_code RBUS_INT8 = 0x503"
| "vtype_code RBUS_UINT8 = 0x504" | "vtype_code RBUS_INT16 = 0x505"
| "vtype_code RBUS_UINT16 = 0x506" | "vtype_code RBUS_INT32 = 0x507"
| "vtype_code RBUS_UINT32 = 0x508" | "vtype_code RBUS_INT64 = 0x509"
| "vtype_code RBUS_UINT64 = 0x50A" | "vtype_code RBUS_SINGLE = 0x50B"
| "vtype_code RBUS_DOUBLE = 0x50C" | "vtype_code RBUS_DATETIME = 0x50D"
| "vtype_code RBUS_STRING = 0x50E" | "vtype_code RBUS_BYTES = 0x50F"
| "vtype_code RBUS_PROPERTY = 0x510" | "vtype_code RBUS_OBJECT = 0x511"
| "vtype_code RBUS_NONE = 0x512"

definition all_vtypes :: "rbusValueType list" where
  "all_vtypes =
     [RBUS_BOOLEAN, RBUS_CHAR, RBUS_BYTE, RBUS_INT8, RBUS_UINT8, RBUS_INT16, RBUS_UINT16,
      RBUS_INT32, RBUS_UINT32, RBUS_INT64, RBUS_UINT64, RBUS_SINGLE, RBUS_DOUBLE,
      RBUS_DATETIME, RBUS_STRING, RBUS_BYTES, RBUS_PROPERTY, RBUS_OBJECT, RBUS_NONE]"

text \<open>The type a 16-bit code read from a buffer stands for, if any.\<close>

definition vtype_of_code :: "u16 \<Rightarrow> rbusValueType option" where
  "vtype_of_code c = find (\<lambda>t. vtype_code t = uint c) all_vtypes"

text \<open>
  The sources are read with a \<open>long\<close> of 64 bits, so \<open>rbusDateTime_t\<close> is nine \<open>int32_t\<close> of
  broken-down time, two of time zone, a \<open>bool\<close> and three bytes of padding.
\<close>

record rbusDateTime =
  tm_sec :: u32
  tm_min :: u32
  tm_hour :: u32
  tm_mday :: u32
  tm_mon :: u32
  tm_year :: u32
  tm_wday :: u32
  tm_yday :: u32
  tm_isdst :: u32
  m_tzhour :: u32
  m_tzmin :: u32
  m_isWest :: bool

definition bytes16 :: "u16 \<Rightarrow> mem" where "bytes16 w = map Some (le_bytes 2 w)"
definition bytes32 :: "u32 \<Rightarrow> mem" where "bytes32 w = map Some (le_bytes 4 w)"
definition bytes64 :: "u64 \<Rightarrow> mem" where "bytes64 w = map Some (le_bytes 8 w)"
definition bytes8 :: "u8 \<Rightarrow> mem" where "bytes8 w = [Some w]"
definition byteB :: "bool \<Rightarrow> mem" where "byteB x = [Some (if x then 1 else 0)]"

definition rbusBuffer_WriteTypeLengthValue ::
  "rbusBuffer \<Rightarrow> rbusValueType \<Rightarrow> u16 \<Rightarrow> mem option \<Rightarrow> rbusBuffer run" where
  "rbusBuffer_WriteTypeLengthValue b ty len value =
     do { b \<leftarrow> rbusBuffer_Write b (Some (bytes16 (word_of_int (vtype_code ty)))) 2;
          b \<leftarrow> rbusBuffer_Write b (Some (bytes16 len)) 2;
          rbusBuffer_Write b value (uint len) }"

text \<open>
  The length parameter of the string and byte writers is an \<open>int\<close>, converted to the
  \<open>uint16_t\<close> of the length field by reduction modulo 65536.
\<close>

definition rbusBuffer_WriteStringTLV :: "rbusBuffer \<Rightarrow> mem option \<Rightarrow> int \<Rightarrow> rbusBuffer run" where
  "rbusBuffer_WriteStringTLV b s len =
     rbusBuffer_WriteTypeLengthValue b RBUS_STRING (word_of_int len) s"

definition rbusBuffer_WriteBooleanTLV :: "rbusBuffer \<Rightarrow> bool \<Rightarrow> rbusBuffer run" where
  "rbusBuffer_WriteBooleanTLV b x =
     rbusBuffer_WriteTypeLengthValue b RBUS_BOOLEAN 1 (Some (byteB x))"

definition rbusBuffer_WriteCharTLV :: "rbusBuffer \<Rightarrow> u8 \<Rightarrow> rbusBuffer run" where
  "rbusBuffer_WriteCharTLV b c = rbusBuffer_WriteTypeLengthValue b RBUS_CHAR 1 (Some (bytes8 c))"

definition rbusBuffer_WriteByteTLV :: "rbusBuffer \<Rightarrow> u8 \<Rightarrow> rbusBuffer run" where
  "rbusBuffer_WriteByteTLV b u = rbusBuffer_WriteTypeLengthValue b RBUS_BYTE 1 (Some (bytes8 u))"

definition rbusBuffer_WriteInt8TLV :: "rbusBuffer \<Rightarrow> u8 \<Rightarrow> rbusBuffer run" where
  "rbusBuffer_WriteInt8TLV b i8 = rbusBuffer_WriteTypeLengthValue b RBUS_INT8 1 (Some (bytes8 i8))"

definition rbusBuffer_WriteUInt8TLV :: "rbusBuffer \<Rightarrow> u8 \<Rightarrow> rbusBuffer run" where
  "rbusBuffer_WriteUInt8TLV b u8 = rbusBuffer_WriteTypeLengthValue b RBUS_UINT8 1 (Some (bytes8 u8))"

definition rbusBuffer_WriteInt16TLV :: "rbusBuffer \<Rightarrow> u16 \<Rightarrow> rbusBuffer run" where
  "rbusBuffer_WriteInt16TLV b i16 =
     rbusBuffer_WriteTypeLengthValue b RBUS_INT16 2 (Some (bytes16 i16))"

definition rbusBuffer_WriteUInt16TLV :: "rbusBuffer \<Rightarrow> u16 \<Rightarrow> rbusBuffer run" where
  "rbusBuffer_WriteUInt16TLV b u16 =
     rbusBuffer_WriteTypeLengthValue b RBUS_UINT16 2 (Some (bytes16 u16))"

definition rbusBuffer_WriteInt32TLV :: "rbusBuffer \<Rightarrow> u32 \<Rightarrow> rbusBuffer run" where
  "rbusBuffer_WriteInt32TLV b i32 =
     rbusBuffer_WriteTypeLengthValue b RBUS_INT32 4 (Some (bytes32 i32))"

definition rbusBuffer_WriteUInt32TLV :: "rbusBuffer \<Rightarrow> u32 \<Rightarrow> rbusBuffer run" where
  "rbusBuffer_WriteUInt32TLV b u32 =
     rbusBuffer_WriteTypeLengthValue b RBUS_UINT32 4 (Some (bytes32 u32))"

definition rbusBuffer_WriteInt64TLV :: "rbusBuffer \<Rightarrow> u64 \<Rightarrow> rbusBuffer run" where
  "rbusBuffer_WriteInt64TLV b i64 =
     rbusBuffer_WriteTypeLengthValue b RBUS_INT64 8 (Some (bytes64 i64))"

definition rbusBuffer_WriteUInt64TLV :: "rbusBuffer \<Rightarrow> u64 \<Rightarrow> rbusBuffer run" where
  "rbusBuffer_WriteUInt64TLV b u64 =
     rbusBuffer_WriteTypeLengthValue b RBUS_UINT64 8 (Some (bytes64 u64))"

text \<open>A \<open>float\<close> and a \<open>double\<close> are modelled by their bit patterns.\<close>

definition rbusBuffer_WriteSingleTLV :: "rbusBuffer \<Rightarrow> u32 \<Rightarrow> rbusBuffer run" where
  "rbusBuffer_WriteSingleTLV b f32 =
     rbusBuffer_WriteTypeLengthValue b RBUS_SINGLE 4 (Some (bytes32 f32))"

definition rbusBuffer_WriteDoubleTLV :: "rbusBuffer \<Rightarrow> u64 \<Rightarrow> rbusBuffer run" where
  "rbusBuffer_WriteDoubleTLV b f64 =
     rbusBuffer_WriteTypeLengthValue b RBUS_DOUBLE 8 (Some (bytes64 f64))"

definition datetime_image :: "rbusDateTime \<Rightarrow> mem" where
  "datetime_image t =
     bytes32 (tm_sec t) @ bytes32 (tm_min t) @ bytes32 (tm_hour t) @ bytes32 (tm_mday t) @
     bytes32 (tm_mon t) @ bytes32 (tm_year t) @ bytes32 (tm_wday t) @ bytes32 (tm_yday t) @
     bytes32 (tm_isdst t) @ bytes32 (m_tzhour t) @ bytes32 (m_tzmin t) @
     byteB (m_isWest t) @ [None, None, None]"

definition datetime_bytes :: "rbusDateTime \<Rightarrow> u8 list" where
  "datetime_bytes t =
     le_bytes 4 (tm_sec t) @ le_bytes 4 (tm_min t) @ le_bytes 4 (tm_hour t) @
     le_bytes 4 (tm_mday t) @ le_bytes 4 (tm_mon t) @ le_bytes 4 (tm_year t) @
     le_bytes 4 (tm_wday t) @ le_bytes 4 (tm_yday t) @ le_bytes 4 (tm_isdst t) @
     le_bytes 4 (m_tzhour t) @ le_bytes 4 (m_tzmin t) @ [if m_isWest t then 1 else 0]"

definition rbusBuffer_WriteDateTimeTLV :: "rbusBuffer \<Rightarrow> rbusDateTime option \<Rightarrow> rbusBuffer run" where
  "rbusBuffer_WriteDateTimeTLV b tv =
     (case tv of
        None \<Rightarrow> Some b
      | Some t \<Rightarrow> rbusBuffer_WriteTypeLengthValue b RBUS_DATETIME 48 (Some (datetime_image t)))"

definition rbusBuffer_WriteBytesTLV :: "rbusBuffer \<Rightarrow> mem option \<Rightarrow> int \<Rightarrow> rbusBuffer run" where
  "rbusBuffer_WriteBytesTLV b bytes len =
     rbusBuffer_WriteTypeLengthValue b RBUS_BYTES (word_of_int len) bytes"

section \<open>The typed readers\<close>

text \<open>
  A reader returns the return code of the C function, the value left in the caller's variable
  (\<open>None\<close> when it is indeterminate) and the buffer. \<open>rbusBuffer_Read\<close> returns the bytes
  copied out; on failure it copies none.
\<close>

definition rbusBuffer_Read :: "rbusBuffer \<Rightarrow> int \<Rightarrow> (int \<times> mem \<times> rbusBuffer) run" where
  "rbusBuffer_Read b len =
     do { e \<leftarrow> cint (posRead b + len);
          if \<not> e < lenAlloc b then Some (- 1, [], b)
          else do { bs \<leftarrow> mem_read (data b) (posRead b) len;
                    Some (0, bs, b\<lparr>posRead := e\<rparr>) } }"

text \<open>
  The shape all fixed-size readers share: read \<open>n\<close> bytes into a local, convert the local
  and store it into the caller's variable, return the code of the read. A failed read leaves
  the local indeterminate.
\<close>

definition read_fixed ::
  "(u8 list \<Rightarrow> 'a option) \<Rightarrow> int \<Rightarrow> rbusBuffer \<Rightarrow> (int \<times> 'a option \<times> rbusBuffer) run" where
  "read_fixed conv n b =
     do { (rc, bs, b) \<leftarrow> rbusBuffer_Read b n;
          Some (rc, (if rc = 0 then Option.bind (det bs) conv else None), b) }"

text \<open>A \<open>bool\<close> object whose byte is neither 0 nor 1 has no value.\<close>

definition conv_bool :: "u8 list \<Rightarrow> bool option" where
  "conv_bool bs = (if bs = [0] then Some False else if bs = [1] then Some True else None)"

definition conv_word :: "u8 list \<Rightarrow> 'a::len word option" where
  "conv_word bs = Some (of_le_bytes bs)"

definition rbusBuffer_ReadBoolean :: "rbusBuffer \<Rightarrow> (int \<times> bool option \<times> rbusBuffer) run" where
  "rbusBuffer_ReadBoolean = read_fixed conv_bool 1"

definition rbusBuffer_ReadChar :: "rbusBuffer \<Rightarrow> (int \<times> u8 option \<times> rbusBuffer) run" where
  "rbusBuffer_ReadChar = read_fixed conv_word 1"

definition rbusBuffer_ReadByte :: "rbusBuffer \<Rightarrow> (int \<times> u8 option \<times> rbusBuffer) run" where
  "rbusBuffer_ReadByte = read_fixed conv_word 1"

definition rbusBuffer_ReadInt8 :: "rbusBuffer \<Rightarrow> (int \<times> u8 option \<times> rbusBuffer) run" where
  "rbusBuffer_ReadInt8 = read_fixed conv_word 1"

definition rbusBuffer_ReadUInt8 :: "rbusBuffer \<Rightarrow> (int \<times> u8 option \<times> rbusBuffer) run" where
  "rbusBuffer_ReadUInt8 = read_fixed conv_word 1"

definition rbusBuffer_ReadInt16 :: "rbusBuffer \<Rightarrow> (int \<times> u16 option \<times> rbusBuffer) run" where
  "rbusBuffer_ReadInt16 = read_fixed conv_word 2"

definition rbusBuffer_ReadUInt16 :: "rbusBuffer \<Rightarrow> (int \<times> u16 option \<times> rbusBuffer) run" where
  "rbusBuffer_ReadUInt16 = read_fixed conv_word 2"

definition rbusBuffer_ReadInt32 :: "rbusBuffer \<Rightarrow> (int \<times> u32 option \<times> rbusBuffer) run" where
  "rbusBuffer_ReadInt32 = read_fixed conv_word 4"

definition rbusBuffer_ReadUInt32 :: "rbusBuffer \<Rightarrow> (int \<times> u32 option \<times> rbusBuffer) run" where
  "rbusBuffer_ReadUInt32 = read_fixed conv_word 4"

definition rbusBuffer_ReadInt64 :: "rbusBuffer \<Rightarrow> (int \<times> u64 option \<times> rbusBuffer) run" where
  "rbusBuffer_ReadInt64 = read_fixed conv_word 8"

definition rbusBuffer_ReadUInt64 :: "rbusBuffer \<Rightarrow> (int \<times> u64 option \<times> rbusBuffer) run" where
  "rbusBuffer_ReadUInt64 = read_fixed conv_word 8"

definition rbusBuffer_ReadSingle :: "rbusBuffer \<Rightarrow> (int \<times> u32 option \<times> rbusBuffer) run" where
  "rbusBuffer_ReadSingle = read_fixed conv_word 4"

definition rbusBuffer_ReadDouble :: "rbusBuffer \<Rightarrow> (int \<times> u64 option \<times> rbusBuffer) run" where
  "rbusBuffer_ReadDouble = read_fixed conv_word 8"

text \<open>
  The date-time reader copies the 48 bytes of the struct and converts field by field; the
  padding is never looked at.
\<close>

definition conv_datetime :: "u8 list \<Rightarrow> rbusDateTime option" where
  "conv_datetime bs =
     (let f = (\<lambda>i. of_le_bytes (take 4 (drop (4 * i) bs)))
      in map_option
           (\<lambda>w. \<lparr>tm_sec = f 0, tm_min = f 1, tm_hour = f 2, tm_mday = f 3, tm_mon = f 4,
                 tm_year = f 5, tm_wday = f 6, tm_yday = f 7, tm_isdst = f 8,
                 m_tzhour = f 9, m_tzmin = f 10, m_isWest = w\<rparr>)
           (conv_bool (drop 44 bs)))"

definition rbusBuffer_ReadDateTime :: "rbusBuffer \<Rightarrow> (int \<times> rbusDateTime option \<times> rbusBuffer) run" where
  "rbusBuffer_ReadDateTime b =
     do { (rc, bs, b) \<leftarrow> rbusBuffer_Read b 48;
          Some (rc, (if rc = 0 then Option.bind (det (take 45 bs)) conv_datetime else None), b) }"

text \<open>
  \<open>rbusBuffer_ReadString\<close> takes the number of bytes already read as the length to read.
\<close>

definition rbusBuffer_ReadString :: "rbusBuffer \<Rightarrow> (int \<times> mem \<times> int \<times> rbusBuffer) run" where
  "rbusBuffer_ReadString b =
     do { n \<leftarrow> cint (posRead b + 1);
          (rc, bs, b') \<leftarrow> rbusBuffer_Read b (posRead b);
          s \<leftarrow> mem_write (rt_malloc n) 0 bs;
          Some (rc, s, posRead b, b') }"

text \<open>
  \<open>rbusBuffer_ReadBytes\<close> allocates a block for the bytes but then hands
  \<open>rbusBuffer_Read\<close> the address of the caller's pointer variable instead of the block, so
  the bytes overwrite that variable (8 bytes on a 64-bit machine) and what follows it. The
  result is the code, the length, the contents of the 8 bytes of the pointer variable
  (\<open>None\<close> when the read failed and it still points at the fresh block) and the buffer.
\<close>

definition rbusBuffer_ReadBytes :: "rbusBuffer \<Rightarrow> (int \<times> int \<times> mem option \<times> rbusBuffer) run" where
  "rbusBuffer_ReadBytes b =
     do { (rc, bs, b') \<leftarrow> rbusBuffer_Read b (posWrite b);
          if rc \<noteq> 0 then Some (rc, posWrite b, None, b')
          else if length bs > 8 then None
          else Some (rc, posWrite b, Some bs, b') }"

section \<open>Invariant, contents and room\<close>

definition buf_inv :: "rbusBuffer \<Rightarrow> bool" where
  "buf_inv b \<longleftrightarrow>
     int (length (data b)) = lenAlloc b \<and> 64 dvd lenAlloc b \<and> 64 \<le> lenAlloc b \<and>
     lenAlloc b < 2 ^ 31 \<and> (onBlock1 b \<longleftrightarrow> lenAlloc b = 64) \<and>
     0 \<le> posWrite b \<and> posWrite b \<le> lenAlloc b \<and> 0 \<le> posRead b \<and> posRead b \<le> lenAlloc b"

definition written :: "rbusBuffer \<Rightarrow> mem" where
  "written b = take (nat (posWrite b)) (data b)"

definition unread :: "rbusBuffer \<Rightarrow> mem" where
  "unread b = drop (nat (posRead b)) (written b)"

text \<open>
  \<open>room n b\<close>: writing \<open>n\<close> more bytes keeps every size computed within \<open>int\<close>.
  \<open>not_full b\<close>: the write position has not reached the end of the block, the case in which
  \<open>rbusBuffer_Read\<close> refuses to read the last bytes.
\<close>

definition room :: "nat \<Rightarrow> rbusBuffer \<Rightarrow> bool" where
  "room n b \<longleftrightarrow> posWrite b + int n \<le> 2147483583"

definition not_full :: "rbusBuffer \<Rightarrow> bool" where
  "not_full b \<longleftrightarrow> posWrite b < lenAlloc b"

definition appended :: "rbusBuffer \<Rightarrow> mem \<Rightarrow> rbusBuffer \<Rightarrow> bool" where
  "appended b s b' \<longleftrightarrow>
     buf_inv b' \<and> written b' = written b @ s \<and>
     posWrite b' = posWrite b + int (length s) \<and> posRead b' = posRead b"

definition advance :: "nat \<Rightarrow> rbusBuffer \<Rightarrow> rbusBuffer" where
  "advance n b = b\<lparr>posRead := posRead b + int n\<rparr>"

text \<open>
  \<open>writes b s m\<close>: the write action \<open>m\<close> started on \<open>b\<close> returns, and it appends exactly
  \<open>s\<close>. \<open>tlv\<close> is the wire image of a type-length-value triple.
\<close>

definition writes :: "rbusBuffer \<Rightarrow> mem \<Rightarrow> rbusBuffer run \<Rightarrow> bool" where
  "writes b s m \<longleftrightarrow> (\<exists>b'. m = Some b' \<and> appended b s b')"

definition tlv :: "rbusValueType \<Rightarrow> mem \<Rightarrow> mem" where
  "tlv ty value =
     bytes16 (word_of_int (vtype_code ty)) @ bytes16 (word_of_nat (length value)) @ value"

lemma buf_inv_Create [inv_intros, simp]: "buf_inv rbusBuffer_Create"
  by (simp add: buf_inv_def rbusBuffer_Create_def BUFFER_BLOCK_SIZE_def)

lemma Create_contents [simp]:
  "written rbusBuffer_Create = []" "posRead rbusBuffer_Create = 0" "posWrite rbusBuffer_Create = 0"
  by (simp_all add: written_def rbusBuffer_Create_def)

lemma length_written: "buf_inv b \<Longrightarrow> int (length (written b)) = posWrite b"
  by (auto simp: buf_inv_def written_def min_def)

lemma grown_size:
  fixes p :: int
  assumes "0 \<le> p" "p \<le> 2147483583"
  defines "n \<equiv> (cdiv p BUFFER_BLOCK_SIZE + 1) * BUFFER_BLOCK_SIZE"
  shows "p < n" "n \<le> p + 64" "64 dvd n" "int_range n"
  using assms by (auto simp: cdiv_nonneg BUFFER_BLOCK_SIZE_def int_range_def)

lemma Reserve_ok:
  assumes inv: "buf_inv b" and len: "0 \<le> len" and rm: "posWrite b + len \<le> 2147483583"
  shows "\<exists>b'. rbusBuffer_Reserve b len = Some b' \<and> buf_inv b' \<and> written b' = written b \<and>
     posWrite b' = posWrite b \<and> posRead b' = posRead b \<and> posWrite b + len \<le> lenAlloc b' \<and>
     (lenAlloc b < posWrite b + len \<longrightarrow> posWrite b + len < lenAlloc b')"
proof (cases "posWrite b + len > lenAlloc b")
  case False
  have "int_range (posWrite b + len)"
    using inv len rm by (intro int_rangeI) (auto simp: buf_inv_def)
  with False inv show ?thesis
    by (simp add: rbusBuffer_Reserve_def)
next
  case True
  define p where "p = posWrite b + len"
  define n where "n = (cdiv p BUFFER_BLOCK_SIZE + 1) * BUFFER_BLOCK_SIZE"
  have p: "0 \<le> p" "p \<le> 2147483583" "lenAlloc b < p" "int_range p"
    using inv len rm True by (auto simp: p_def buf_inv_def intro!: int_rangeI)
  note n = grown_size [OF p(1,2), folded n_def]
  have w: "0 \<le> posWrite b" "posWrite b \<le> lenAlloc b" "int (length (data b)) = lenAlloc b"
    using inv by (auto simp: buf_inv_def)
  show ?thesis
  proof (cases "onBlock1 b")
    case on: True
    let ?d = "written b @ drop (nat (posWrite b)) (rt_malloc n)"
    have len_w: "length (written b) = nat (posWrite b)"
      using length_written [OF inv] by simp
    have "rbusBuffer_Reserve b len = Some (b\<lparr>lenAlloc := n, onBlock1 := False, data := ?d\<rparr>)"
      using p n w on len_w
      by (simp add: rbusBuffer_Reserve_def p_def [symmetric] n_def [symmetric] mem_read_def
          mem_write_def rt_malloc_def written_def)
    moreover have "buf_inv (b\<lparr>lenAlloc := n, onBlock1 := False, data := ?d\<rparr>)"
      using p n w len_w inv by (simp add: buf_inv_def rt_malloc_def int_range_def)
    ultimately show ?thesis
      using p n len_w by (simp add: written_def p_def)
  next
    case off: False
    let ?b = "b\<lparr>lenAlloc := n, data := rt_realloc (data b) n\<rparr>"
    have "rbusBuffer_Reserve b len = Some ?b"
      using p n off by (simp add: rbusBuffer_Reserve_def p_def [symmetric] n_def [symmetric])
    moreover have "buf_inv ?b"
      using p n w off inv by (simp add: buf_inv_def rt_realloc_def int_range_def)
    moreover have "written ?b = written b"
      using p n w by (simp add: written_def rt_realloc_def min_def)
    ultimately show ?thesis
      using p n by (simp add: p_def)
  qed
qed

lemma Write_ok:
  assumes inv: "buf_inv b" and rm: "room (length s) b" and n: "n = int (length s)"
  shows "writes b s (rbusBuffer_Write b (Some s) n)"
proof -
  from Reserve_ok [OF inv, of "int (length s)"] rm obtain b1 where
    b1: "rbusBuffer_Reserve b (int (length s)) = Some b1" "buf_inv b1" "written b1 = written b"
      "posWrite b1 = posWrite b" "posRead b1 = posRead b" "posWrite b + int (length s) \<le> lenAlloc b1"
    by (auto simp: room_def)
  have d: "0 \<le> posWrite b" "int (length (data b1)) = lenAlloc b1" "nat (posWrite b) \<le> length (data b)"
    using inv b1 by (auto simp: buf_inv_def)
  have rng: "int_range (posWrite b + int (length s))"
    using d rm by (intro int_rangeI) (auto simp: room_def)
  let ?d = "take (nat (posWrite b)) (data b1) @ s @ drop (nat (posWrite b) + length s) (data b1)"
  let ?b = "b1\<lparr>data := ?d, posWrite := posWrite b + int (length s)\<rparr>"
  have "rbusBuffer_Write b (Some s) n = Some ?b"
    using b1 d rng n by (simp add: rbusBuffer_Write_def mem_read_def mem_write_def)
  moreover have "buf_inv ?b"
    using b1 d by (simp add: buf_inv_def)
  moreover have "written ?b = written b @ s"
    using b1 d by (simp add: written_def nat_add_distrib)
  ultimately show ?thesis
    using b1 by (simp add: writes_def appended_def)
qed

lemma appended_trans: "appended b s b' \<Longrightarrow> appended b' t b'' \<Longrightarrow> appended b (s @ t) b''"
  by (simp add: appended_def)

lemma appended_inv [inv_intros]: "appended b s b' \<Longrightarrow> buf_inv b'"
  by (simp add: appended_def)

lemma appended_room: "appended b s b' \<Longrightarrow> room n b' \<longleftrightarrow> room (length s + n) b"
  by (simp add: appended_def room_def add.assoc)

lemma room_mono: "room n b \<Longrightarrow> m \<le> n \<Longrightarrow> room m b"
  by (simp add: room_def)

lemma appended_unread:
  "buf_inv b \<Longrightarrow> appended b s b' \<Longrightarrow> posRead b \<le> posWrite b \<Longrightarrow> unread b' = unread b @ s"
  by (simp add: appended_def unread_def length_written [symmetric])

text \<open>Two writes in a row append both pieces: the shape of every composite writer.\<close>

lemma writes_bind:
  assumes "writes b s m" "\<And>b'. appended b s b' \<Longrightarrow> writes b' t (f b')"
  shows "writes b (s @ t) (Option.bind m f)"
  using assms by (fastforce simp: writes_def intro: appended_trans)

lemma writes_Nil: "buf_inv b \<Longrightarrow> writes b [] (Some b)"
  by (simp add: writes_def appended_def)

lemma length_bytes [simp]:
  "length (bytes8 c) = 1" "length (byteB x) = 1" "length (bytes16 w) = 2"
  "length (bytes32 d) = 4" "length (bytes64 q) = 8" "length (datetime_image t) = 48"
  by (simp_all add: bytes8_def byteB_def bytes16_def bytes32_def bytes64_def datetime_image_def)

lemma bytes_not_Nil [simp]:
  "bytes8 c \<noteq> []" "byteB x \<noteq> []" "bytes16 w \<noteq> []" "bytes32 d \<noteq> []" "bytes64 q \<noteq> []"
  "datetime_image t \<noteq> []" "tlv ty value \<noteq> []"
  by (simp_all add: bytes8_def byteB_def bytes16_def bytes32_def bytes64_def datetime_image_def tlv_def)

lemma length_tlv [simp]: "length (tlv ty value) = 4 + length value"
  by (simp add: tlv_def)

text \<open>
  Writing a type-length-value triple appends its wire image, provided the length field is the
  length of the value (for a longer value the 16-bit field cannot hold it).
\<close>

lemma Write_take:
  "n \<le> length p \<Longrightarrow> rbusBuffer_Write b (Some p) (int n) = rbusBuffer_Write b (Some (take n p)) (int n)"
  by (simp add: rbusBuffer_Write_def mem_read_def cong: option.case_cong)

lemma WriteTLV_prefix:
  assumes "buf_inv b" "room (4 + n) b" "n < 65536" "n \<le> length p" "len = word_of_nat n"
  shows "writes b (tlv ty (take n p)) (rbusBuffer_WriteTypeLengthValue b ty len (Some p))"
proof -
  have len: "uint len = int n"
    using assms(3,5) by (simp add: unsigned_of_nat take_bit_nat_eq_self)
  have "writes b (bytes16 (word_of_int (vtype_code ty)) @ bytes16 len @ take n p)
      (rbusBuffer_WriteTypeLengthValue b ty len (Some p))"
    unfolding rbusBuffer_WriteTypeLengthValue_def len Write_take [OF assms(4)]
    by (intro writes_bind Write_ok)
      (use assms(1,2,4) in \<open>auto simp: appended_inv appended_room intro: room_mono\<close>)
  then show ?thesis
    using assms(4,5) by (simp add: tlv_def)
qed

lemma WriteTLV_ok:
  assumes "buf_inv b" "room (4 + length value) b" "length value < 65536"
    and "len = word_of_nat (length value)"
  shows "writes b (tlv ty value) (rbusBuffer_WriteTypeLengthValue b ty len (Some value))"
  using WriteTLV_prefix [OF assms(1-3) order_refl assms(4)] by simp

section \<open>Reading back\<close>

lemma unread_split:
  assumes "buf_inv b" "unread b = s @ rest"
  shows "s = [] \<or> posRead b + int (length s) \<le> posWrite b"
    "s \<noteq> [] \<Longrightarrow> mem_read (data b) (posRead b) (int (length s)) = Some s"
    "s \<noteq> [] \<Longrightarrow> unread (advance (length s) b) = rest"
proof -
  have l: "length (unread b) = nat (posWrite b) - nat (posRead b)" "length (data b) = nat (lenAlloc b)"
    using assms(1) by (auto simp: unread_def written_def buf_inv_def)
  have "length s \<le> nat (posWrite b) - nat (posRead b)"
    using l assms(2) by simp
  then show le: "s = [] \<or> posRead b + int (length s) \<le> posWrite b"
    using assms(1) by (cases s) (auto simp: buf_inv_def)
  have "take (length s) (drop (nat (posRead b)) (data b)) = take (length s) (unread b)" if "s \<noteq> []"
    using le that assms(1) by (auto simp: unread_def written_def drop_take min_def buf_inv_def)
  then show "mem_read (data b) (posRead b) (int (length s)) = Some s" if "s \<noteq> []"
    using le that assms by (auto simp: mem_read_def buf_inv_def)
  have "unread (advance (length s) b) = drop (length s) (unread b)"
    using assms(1)
    by (simp add: unread_def advance_def written_def nat_add_distrib buf_inv_def add.commute)
  then show "unread (advance (length s) b) = rest" if "s \<noteq> []"
    by (simp add: assms(2))
qed

lemma Read_ok:
  assumes "buf_inv b" "not_full b" "unread b = s @ rest" "s \<noteq> []"
  shows "rbusBuffer_Read b (int (length s)) = Some (0, s, advance (length s) b)"
proof -
  have "posRead b + int (length s) < lenAlloc b"
    using unread_split(1) [OF assms(1,3)] assms(2,4) by (auto simp: not_full_def)
  moreover from this have "int_range (posRead b + int (length s))"
    using assms(1) by (intro int_rangeI) (auto simp: buf_inv_def)
  ultimately show ?thesis
    using unread_split(2) [OF assms(1,3,4)] by (simp add: rbusBuffer_Read_def advance_def)
qed

lemma advance_inv [simp]:
  assumes "buf_inv b" "unread b = s @ rest"
  shows "buf_inv (advance (length s) b)"
  using unread_split(1) [OF assms] assms(1)
  by (auto simp: buf_inv_def advance_def)

lemma advance_simps [simp]:
  "not_full (advance n b) = not_full b" "advance n (advance m b) = advance (m + n) b"
  "posWrite (advance n b) = posWrite b" "written (advance n b) = written b" "advance 0 b = b"
  "lenAlloc (advance n b) = lenAlloc b" "data (advance n b) = data b"
  by (simp_all add: not_full_def advance_def written_def)

lemma read_fixed_ok:
  assumes "buf_inv b" "not_full b" "unread b = map Some bs @ rest" "bs \<noteq> []"
  shows "read_fixed conv (int (length bs)) b = Some (0, conv bs, advance (length bs) b)"
  using Read_ok [of b "map Some bs" rest] assms by (simp add: read_fixed_def)

text \<open>A full buffer: \<open>rbusBuffer_Read\<close> refuses the read that reaches the end of the block.\<close>

lemma Read_full:
  assumes "buf_inv b" "posRead b + len = lenAlloc b"
  shows "rbusBuffer_Read b len = Some (- 1, [], b)"
  using assms by (auto simp: rbusBuffer_Read_def buf_inv_def int_range_def)

text \<open>The 45 determined bytes of a date-time determine it.\<close>

lemma datetime_image_eq: "datetime_image t = map Some (datetime_bytes t) @ [None, None, None]"
  by (simp add: datetime_image_def datetime_bytes_def bytes32_def byteB_def)

lemma length_datetime_bytes [simp]: "length (datetime_bytes t) = 45"
  by (simp add: datetime_bytes_def)

lemma conv_datetime_bytes [simp]: "conv_datetime (datetime_bytes t) = Some t"
  by (cases t) (simp add: conv_datetime_def datetime_bytes_def conv_bool_def Let_def)

section \<open>The interface of a wire format\<close>

text \<open>
  What a codec promises to its clients: \<open>put\<close> appends the wire image of an object that is
  well-formed, and \<open>get\<close>, at the start of that image, returns an object related to it and
  moves the read position just behind the image. The client lemmas carry this over to
  sequences of objects, the way the sources write several fields one after the other.
\<close>

fun put_all :: "(rbusBuffer \<Rightarrow> 'a \<Rightarrow> rbusBuffer run) \<Rightarrow> rbusBuffer \<Rightarrow> 'a list \<Rightarrow> rbusBuffer run" where
  "put_all put b [] = Some b"
| "put_all put b (x # xs) = do { b \<leftarrow> put b x; put_all put b xs }"

fun get_all :: "(rbusBuffer \<Rightarrow> ('b \<times> rbusBuffer) run) \<Rightarrow> nat \<Rightarrow> rbusBuffer \<Rightarrow> ('b list \<times> rbusBuffer) run" where
  "get_all get 0 b = Some ([], b)"
| "get_all get (Suc n) b =
     do { (y, b) \<leftarrow> get b; (ys, b) \<leftarrow> get_all get n b; Some (y # ys, b) }"

locale wire_format =
  fixes wire :: "'a \<Rightarrow> mem"
    and wf :: "'a \<Rightarrow> bool"
    and put :: "rbusBuffer \<Rightarrow> 'a \<Rightarrow> rbusBuffer run"
    and get :: "rbusBuffer \<Rightarrow> ('b \<times> rbusBuffer) run"
    and rel :: "'a \<Rightarrow> 'b \<Rightarrow> bool"
  assumes put_writes: "wf x \<Longrightarrow> buf_inv b \<Longrightarrow> room (length (wire x)) b \<Longrightarrow> writes b (wire x) (put b x)"
    and get_reads: "wf x \<Longrightarrow> buf_inv b \<Longrightarrow> not_full b \<Longrightarrow> unread b = wire x @ rest \<Longrightarrow>
      \<exists>y. get b = Some (y, advance (length (wire x)) b) \<and> rel x y"
    and wire_nonempty: "wf x \<Longrightarrow> wire x \<noteq> []"
begin

lemma put_all_writes:
  assumes "\<forall>x\<in>set xs. wf x" "buf_inv b" "room (length (concat (map wire xs))) b"
  shows "writes b (concat (map wire xs)) (put_all put b xs)"
  using assms
proof (induction xs arbitrary: b)
  case Nil
  then show ?case by (simp add: writes_Nil)
next
  case (Cons x xs)
  show ?case
    unfolding put_all.simps list.map concat.simps
    by (intro writes_bind put_writes Cons.IH)
      (use Cons.prems in \<open>auto simp: appended_inv appended_room intro: room_mono\<close>)
qed

lemma get_all_reads:
  assumes "\<forall>x\<in>set xs. wf x" "buf_inv b" "not_full b" "unread b = concat (map wire xs) @ rest"
  shows "\<exists>ys. get_all get (length xs) b = Some (ys, advance (length (concat (map wire xs))) b) \<and>
    list_all2 rel xs ys"
  using assms
proof (induction xs arbitrary: b)
  case Nil
  then show ?case by simp
next
  case (Cons x xs)
  let ?b = "advance (length (wire x)) b"
  have u: "unread b = wire x @ (concat (map wire xs) @ rest)" "wf x"
    using Cons.prems by auto
  then obtain y where y: "get b = Some (y, ?b)" "rel x y"
    using get_reads Cons.prems(2,3) by blast
  moreover have "buf_inv ?b" "unread ?b = concat (map wire xs) @ rest"
    using u Cons.prems(2) advance_inv unread_split(3) wire_nonempty by blast+
  ultimately show ?case
    using Cons.IH [of ?b] Cons.prems by auto
qed

text \<open>
  A sequence written into a fresh buffer is read back element by element, unless the bytes
  fill the last block exactly.
\<close>

lemma sequence_roundtrip:
  assumes "\<forall>x\<in>set xs. wf x" "room (length (concat (map wire xs))) rbusBuffer_Create"
    and "put_all put rbusBuffer_Create xs = Some b" "not_full b"
  shows "\<exists>ys b'. get_all get (length xs) b = Some (ys, b') \<and> list_all2 rel xs ys \<and> unread b' = []"
proof -
  have a: "appended rbusBuffer_Create (concat (map wire xs)) b"
    using put_all_writes [OF assms(1) buf_inv_Create assms(2)] assms(3) by (auto simp: writes_def)
  then have b: "buf_inv b" "unread b = concat (map wire xs) @ []"
    by (auto simp: appended_def unread_def)
  obtain ys where ys: "get_all get (length xs) b = Some (ys, advance (length (concat (map wire xs))) b)"
      "list_all2 rel xs ys"
    using get_all_reads [OF assms(1) b(1) assms(4) b(2)] by blast
  moreover have "unread (advance (length (concat (map wire xs))) b) = []"
    using a by (simp add: unread_def advance_def appended_def written_def)
  ultimately show ?thesis by blast
qed

end

text \<open>The plain 16- and 32-bit fields the codecs put between values are such formats.\<close>

definition got :: "(int \<times> 'a option \<times> rbusBuffer) run \<Rightarrow> ('a \<times> rbusBuffer) run" where
  "got r = (case r of Some (rc, Some x, b) \<Rightarrow> if rc = 0 then Some (x, b) else None | _ \<Rightarrow> None)"

lemma ReadUInt16_ok:
  assumes "buf_inv b" "not_full b" "unread b = bytes16 w @ rest"
  shows "rbusBuffer_ReadUInt16 b = Some (0, Some w, advance 2 b)"
  using read_fixed_ok [OF assms(1,2), of "le_bytes 2 w" rest "conv_word :: _ \<Rightarrow> u16 option"] assms(3)
  by (simp add: rbusBuffer_ReadUInt16_def bytes16_def conv_word_def)

lemma ReadUInt32_ok:
  assumes "buf_inv b" "not_full b" "unread b = bytes32 w @ rest"
  shows "rbusBuffer_ReadUInt32 b = Some (0, Some w, advance 4 b)"
  using read_fixed_ok [OF assms(1,2), of "le_bytes 4 w" rest "conv_word :: _ \<Rightarrow> u32 option"] assms(3)
  by (simp add: rbusBuffer_ReadUInt32_def bytes32_def conv_word_def)

interpretation field16: wire_format bytes16 "\<lambda>_. True"
  "\<lambda>b w. rbusBuffer_Write b (Some (bytes16 w)) 2" "\<lambda>b. got (rbusBuffer_ReadUInt16 b)" "(=)"
  by unfold_locales (auto simp: Write_ok ReadUInt16_ok got_def)

interpretation field32: wire_format bytes32 "\<lambda>_. True"
  "\<lambda>b w. rbusBuffer_Write b (Some (bytes32 w)) 4" "\<lambda>b. got (rbusBuffer_ReadUInt32 b)" "(=)"
  by unfold_locales (auto simp: Write_ok ReadUInt32_ok got_def)

end
