(* ===== verification/RB_Value.thy ===== *)
theory RB_Value
  imports RB_Buffer
begin

text \<open>
  The variant values of \<^verbatim>\<open>src/src/rbus/rbus_value.c\<close>: data model, setters, getters, copying
  and comparison, with the comparison of properties (\<^verbatim>\<open>rbus_property.c\<close>) and objects
  (\<^verbatim>\<open>rbus_object.c\<close>) that values may hold. The invariant \<open>val_inv\<close> says that buffers inside
  values are well-formed and strings are terminated where their length says.
\<close>

section \<open>Values, properties and objects\<close>

text \<open>
  A pointer to a struct is modelled by its address and a snapshot of the struct it points at,
  or by the constructor for NULL; the address is there because the comparison functions test
  pointers for identity. The union \<open>d\<close> and the tag \<open>type\<close> are always written together, so a
  constructor of \<open>rbusData\<close> stands for both. Reference counts and the parent pointer of an
  object are not part of the snapshot.
\<close>

datatype rbusObjectType = RBUS_OBJECT_SINGLE_INSTANCE | RBUS_OBJECT_MULTI_INSTANCE

datatype rbusValue_t = NullV | Value (vaddr: addr) (vdata: rbusData)
and rbusData =
    DBoolean bool | DChar u8 | DByte u8 | DInt8 u8 | DUInt8 u8 | DInt16 u16 | DUInt16 u16
  | DInt32 u32 | DUInt32 u32 | DInt64 u64 | DUInt64 u64 | DSingle u32 | DDouble u64
  | DDateTime rbusDateTime | DString "rbusBuffer option" | DBytes "rbusBuffer option"
  | DProperty rbusProperty_t | DObject rbusObject_t | DNone
and rbusProperty_t =
    NullP | Property (paddr: addr) (pname: "string option") (pvalue: rbusValue_t) (pnext: rbusProperty_t)
and rbusObject_t =
    NullO | Object (oaddr: addr) (oname: "string option") (otype: rbusObjectType)
      (oproperties: rbusProperty_t) (ochildren: rbusObject_t) (onext: rbusObject_t)

datatype rbusValueError =
  RBUS_VALUE_ERROR_SUCCESS | RBUS_VALUE_ERROR_TYPE | RBUS_VALUE_ERROR_NOT_FOUND | RBUS_VALUE_ERROR_NULL

fun data_type :: "rbusData \<Rightarrow> rbusValueType" where
  "data_type (DBoolean _) = RBUS_BOOLEAN" | "data_type (DChar _) = RBUS_CHAR"
| "data_type (DByte _) = RBUS_BYTE" | "data_type (DInt8 _) = RBUS_INT8"
| "data_type (DUInt8 _) = RBUS_UINT8" | "data_type (DInt16 _) = RBUS_INT16"
| "data_type (DUInt16 _) = RBUS_UINT16" | "data_type (DInt32 _) = RBUS_INT32"
| "data_type (DUInt32 _) = RBUS_UINT32" | "data_type (DInt64 _) = RBUS_INT64"
| "data_type (DUInt64 _) = RBUS_UINT64" | "data_type (DSingle _) = RBUS_SINGLE"
| "data_type (DDouble _) = RBUS_DOUBLE" | "data_type (DDateTime _) = RBUS_DATETIME"
| "data_type (DString _) = RBUS_STRING" | "data_type (DBytes _) = RBUS_BYTES"
| "data_type (DProperty _) = RBUS_PROPERTY" | "data_type (DObject _) = RBUS_OBJECT"
| "data_type DNone = RBUS_NONE"

definition rbusValue_GetType :: "rbusValue_t \<Rightarrow> rbusValueType" where
  "rbusValue_GetType v = (case v of NullV \<Rightarrow> RBUS_NONE | Value _ d \<Rightarrow> data_type d)"

section \<open>Setters\<close>

definition destroy_opt :: "rbusBuffer option \<Rightarrow> unit run" where
  "destroy_opt bo = (case bo of None \<Rightarrow> Some () | Some b \<Rightarrow> rbusBuffer_Destroy b)"

text \<open>
  \<open>rbusValue_FreeInternal\<close> frees a buffer and ends by overwriting the first eight bytes of
  the union with a NULL pointer: a scalar becomes zero, a date-time loses its first two fields.
\<close>

fun rbusValue_FreeInternal :: "rbusData \<Rightarrow> rbusData run" where
  "rbusValue_FreeInternal (DString bo) = do { _ \<leftarrow> destroy_opt bo; Some (DString None) }"
| "rbusValue_FreeInternal (DBytes bo) = do { _ \<leftarrow> destroy_opt bo; Some (DBytes None) }"
| "rbusValue_FreeInternal (DProperty _) = Some (DProperty NullP)"
| "rbusValue_FreeInternal (DObject _) = Some (DObject NullO)"
| "rbusValue_FreeInternal (DBoolean _) = Some (DBoolean False)"
| "rbusValue_FreeInternal (DChar _) = Some (DChar 0)"
| "rbusValue_FreeInternal (DByte _) = Some (DByte 0)"
| "rbusValue_FreeInternal (DInt8 _) = Some (DInt8 0)"
| "rbusValue_FreeInternal (DUInt8 _) = Some (DUInt8 0)"
| "rbusValue_FreeInternal (DInt16 _) = Some (DInt16 0)"
| "rbusValue_FreeInternal (DUInt16 _) = Some (DUInt16 0)"
| "rbusValue_FreeInternal (DInt32 _) = Some (DInt32 0)"
| "rbusValue_FreeInternal (DUInt32 _) = Some (DUInt32 0)"
| "rbusValue_FreeInternal (DInt64 _) = Some (DInt64 0)"
| "rbusValue_FreeInternal (DUInt64 _) = Some (DUInt64 0)"
| "rbusValue_FreeInternal (DSingle _) = Some (DSingle 0)"
| "rbusValue_FreeInternal (DDouble _) = Some (DDouble 0)"
| "rbusValue_FreeInternal (DDateTime t) = Some (DDateTime (t\<lparr>tm_sec := 0, tm_min := 0\<rparr>))"
| "rbusValue_FreeInternal DNone = Some DNone"

text \<open>The argument is the address of the block \<open>rt_calloc\<close> returned.\<close>

definition rbusValue_Init :: "addr \<Rightarrow> rbusValue_t" where
  "rbusValue_Init a = Value a DNone"

text \<open>
  \<open>DEFINE_VALUE_TYPE_FUNCS\<close> generates the functions of the scalar types; its parameters are
  the constructor and the selector of the union member. These functions do not test for NULL.
\<close>

definition macro_Set :: "('a \<Rightarrow> rbusData) \<Rightarrow> rbusValue_t \<Rightarrow> 'a \<Rightarrow> rbusValue_t run" where
  "macro_Set con v x =
     (case v of NullV \<Rightarrow> None
      | Value a d \<Rightarrow> do { _ \<leftarrow> rbusValue_FreeInternal d; Some (Value a (con x)) })"

definition macro_Init :: "('a \<Rightarrow> rbusData) \<Rightarrow> addr \<Rightarrow> 'a \<Rightarrow> rbusValue_t run" where
  "macro_Init con a x = macro_Set con (rbusValue_Init a) x"

definition macro_Get :: "(rbusData \<Rightarrow> 'a option) \<Rightarrow> rbusValue_t \<Rightarrow> 'a run" where
  "macro_Get sel v = (case v of NullV \<Rightarrow> None | Value _ d \<Rightarrow> sel d)"

definition macro_GetEx :: "(rbusData \<Rightarrow> 'a option) \<Rightarrow> rbusValue_t \<Rightarrow> (rbusValueError \<times> 'a option) run" where
  "macro_GetEx sel v =
     (case v of NullV \<Rightarrow> None
      | Value _ d \<Rightarrow> Some (case sel d of None \<Rightarrow> (RBUS_VALUE_ERROR_TYPE, None)
                                     | Some x \<Rightarrow> (RBUS_VALUE_ERROR_SUCCESS, Some x)))"

fun sel_b :: "rbusData \<Rightarrow> bool option" where "sel_b (DBoolean x) = Some x" | "sel_b _ = None"
fun sel_c :: "rbusData \<Rightarrow> u8 option" where "sel_c (DChar x) = Some x" | "sel_c _ = None"
fun sel_u :: "rbusData \<Rightarrow> u8 option" where "sel_u (DByte x) = Some x" | "sel_u _ = None"
fun sel_i8 :: "rbusData \<Rightarrow> u8 option" where "sel_i8 (DInt8 x) = Some x" | "sel_i8 _ = None"
fun sel_u8 :: "rbusData \<Rightarrow> u8 option" where "sel_u8 (DUInt8 x) = Some x" | "sel_u8 _ = None"
fun sel_i16 :: "rbusData \<Rightarrow> u16 option" where "sel_i16 (DInt16 x) = Some x" | "sel_i16 _ = None"
fun sel_u16 :: "rbusData \<Rightarrow> u16 option" where "sel_u16 (DUInt16 x) = Some x" | "sel_u16 _ = None"
fun sel_i32 :: "rbusData \<Rightarrow> u32 option" where "sel_i32 (DInt32 x) = Some x" | "sel_i32 _ = None"
fun sel_u32 :: "rbusData \<Rightarrow> u32 option" where "sel_u32 (DUInt32 x) = Some x" | "sel_u32 _ = None"
fun sel_i64 :: "rbusData \<Rightarrow> u64 option" where "sel_i64 (DInt64 x) = Some x" | "sel_i64 _ = None"
fun sel_u64 :: "rbusData \<Rightarrow> u64 option" where "sel_u64 (DUInt64 x) = Some x" | "sel_u64 _ = None"
fun sel_f32 :: "rbusData \<Rightarrow> u32 option" where "sel_f32 (DSingle x) = Some x" | "sel_f32 _ = None"
fun sel_f64 :: "rbusData \<Rightarrow> u64 option" where "sel_f64 (DDouble x) = Some x" | "sel_f64 _ = None"

definition rbusValue_SetTime :: "rbusValue_t \<Rightarrow> rbusDateTime \<Rightarrow> rbusValue_t run" where
  "rbusValue_SetTime v tv =
     (case v of NullV \<Rightarrow> Some NullV
      | Value a d \<Rightarrow> do { _ \<leftarrow> rbusValue_FreeInternal d; Some (Value a (DDateTime tv)) })"

fun sel_bytes :: "rbusData \<Rightarrow> rbusBuffer option" where
  "sel_bytes (DString bo) = bo"
| "sel_bytes (DBytes bo) = bo"
| "sel_bytes _ = None"

text \<open>
  The buffer operations work on \<open>rbusData\<close>; \<open>con\<close> is \<open>DString\<close> or \<open>DBytes\<close>. A buffer the
  value already owns is reused after resetting its positions.
\<close>

definition rbusValue_SetBufferData ::
  "rbusData \<Rightarrow> mem \<Rightarrow> int \<Rightarrow> (rbusBuffer option \<Rightarrow> rbusData) \<Rightarrow> rbusData run" where
  "rbusValue_SetBufferData d p len con =
     do { b \<leftarrow> (case sel_bytes d of
                 Some b \<Rightarrow> if lenAlloc b > 0 then Some (b\<lparr>posWrite := 0, posRead := 0\<rparr>) else None
               | None \<Rightarrow> Some rbusBuffer_Create);
          b \<leftarrow> rbusBuffer_Write b (Some p) len;
          Some (con (Some b)) }"

definition string_length_ok :: "rbusBuffer \<Rightarrow> bool" where
  "string_length_ok b \<longleftrightarrow>
     (case strlen (data b) of None \<Rightarrow> False | Some n \<Rightarrow> n + 1 = posWrite b)"

text \<open>
  A string argument is a pointer: NULL, or the memory from the pointer to the end of its block.
\<close>

definition data_SetString :: "rbusData \<Rightarrow> mem option \<Rightarrow> rbusData run" where
  "data_SetString d s =
     (case s of
        None \<Rightarrow> do { _ \<leftarrow> rbusValue_FreeInternal d; Some (DString None) }
      | Some p \<Rightarrow>
          do { n \<leftarrow> strlen p;
               l \<leftarrow> cint (n + 1);
               d \<leftarrow> rbusValue_SetBufferData d p l DString;
               b \<leftarrow> sel_bytes d;
               if string_length_ok b \<and> n + 1 = posWrite b then Some d else None })"

definition rbusValue_SetString :: "rbusValue_t \<Rightarrow> mem option \<Rightarrow> rbusValue_t run" where
  "rbusValue_SetString v s =
     (case v of NullV \<Rightarrow> Some NullV | Value a d \<Rightarrow> map_option (Value a) (data_SetString d s))"

definition data_SetBytes :: "rbusData \<Rightarrow> mem option \<Rightarrow> int \<Rightarrow> rbusData run" where
  "data_SetBytes d p len =
     (case p of
        None \<Rightarrow> do { _ \<leftarrow> rbusValue_FreeInternal d; Some (DBytes None) }
      | Some q \<Rightarrow> rbusValue_SetBufferData d q len DBytes)"

definition rbusValue_SetBytes :: "rbusValue_t \<Rightarrow> mem option \<Rightarrow> int \<Rightarrow> rbusValue_t run" where
  "rbusValue_SetBytes v p len =
     (case v of NullV \<Rightarrow> Some NullV | Value a d \<Rightarrow> map_option (Value a) (data_SetBytes d p len))"

definition rbusValue_SetProperty :: "rbusValue_t \<Rightarrow> rbusProperty_t \<Rightarrow> rbusValue_t run" where
  "rbusValue_SetProperty v p =
     (case v of NullV \<Rightarrow> Some NullV
      | Value a d \<Rightarrow> do { _ \<leftarrow> rbusValue_FreeInternal d; Some (Value a (DProperty p)) })"

definition rbusValue_SetObject :: "rbusValue_t \<Rightarrow> rbusObject_t \<Rightarrow> rbusValue_t run" where
  "rbusValue_SetObject v obj =
     (case v of NullV \<Rightarrow> Some NullV
      | Value a d \<Rightarrow> do { _ \<leftarrow> rbusValue_FreeInternal d; Some (Value a (DObject obj)) })"

definition rbusValue_InitString :: "addr \<Rightarrow> mem option \<Rightarrow> rbusValue_t run" where
  "rbusValue_InitString a s = rbusValue_SetString (rbusValue_Init a) s"

definition rbusValue_InitBytes :: "addr \<Rightarrow> mem option \<Rightarrow> int \<Rightarrow> rbusValue_t run" where
  "rbusValue_InitBytes a p len = rbusValue_SetBytes (rbusValue_Init a) p len"

definition rbusValue_InitProperty :: "addr \<Rightarrow> rbusProperty_t \<Rightarrow> rbusValue_t run" where
  "rbusValue_InitProperty a p = rbusValue_SetProperty (rbusValue_Init a) p"

definition rbusValue_InitObject :: "addr \<Rightarrow> rbusObject_t \<Rightarrow> rbusValue_t run" where
  "rbusValue_InitObject a obj = rbusValue_SetObject (rbusValue_Init a) obj"

definition rbusValue_InitTime :: "addr \<Rightarrow> rbusDateTime \<Rightarrow> rbusValue_t run" where
  "rbusValue_InitTime a tv = rbusValue_SetTime (rbusValue_Init a) tv"

section \<open>Getters\<close>

text \<open>
  Whether the first eight bytes of the union, read as the pointer \<open>d.bytes\<close>, are NULL. The
  bytes of the union behind a shorter scalar are zero: the value comes from \<open>calloc\<close> and
  every setter of a scalar first clears the eight bytes.
\<close>

fun bytes_null :: "rbusData \<Rightarrow> bool" where
  "bytes_null (DString bo) = (bo = None)" | "bytes_null (DBytes bo) = (bo = None)"
| "bytes_null (DProperty p) = (p = NullP)" | "bytes_null (DObject obj) = (obj = NullO)"
| "bytes_null (DBoolean x) = (\<not> x)" | "bytes_null (DChar w) = (w = 0)"
| "bytes_null (DByte w) = (w = 0)" | "bytes_null (DInt8 w) = (w = 0)"
| "bytes_null (DUInt8 w) = (w = 0)" | "bytes_null (DInt16 h) = (h = 0)"
| "bytes_null (DUInt16 h) = (h = 0)" | "bytes_null (DInt32 i) = (i = 0)"
| "bytes_null (DUInt32 i) = (i = 0)" | "bytes_null (DSingle i) = (i = 0)"
| "bytes_null (DInt64 q) = (q = 0)" | "bytes_null (DUInt64 q) = (q = 0)"
| "bytes_null (DDouble q) = (q = 0)" | "bytes_null (DDateTime t) = (tm_sec t = 0 \<and> tm_min t = 0)"
| "bytes_null DNone = True"

text \<open>
  The result is the pointer (NULL or the block of the buffer) and the length, \<open>None\<close> where the
  caller's variable is left as it was. A union that is
  not a buffer and not zero is either dereferenced as a pointer or caught by the assertion on
  the type: no result.
\<close>

definition rbusValue_GetBytes :: "rbusValue_t \<Rightarrow> (mem option \<times> int option) run" where
  "rbusValue_GetBytes v =
     (case v of
        NullV \<Rightarrow> Some (None, None)
      | Value _ d \<Rightarrow>
          if bytes_null d then Some (None, Some 0)
          else (case d of
                  DString (Some b) \<Rightarrow> if string_length_ok b then Some (Some (data b), Some (posWrite b)) else None
                | DBytes (Some b) \<Rightarrow> Some (Some (data b), Some (posWrite b))
                | _ \<Rightarrow> None))"

definition rbusValue_GetString :: "rbusValue_t \<Rightarrow> (mem option \<times> int option) run" where
  "rbusValue_GetString v =
     do { (p, len) \<leftarrow> rbusValue_GetBytes v;
          case (p, len) of
            (Some q, Some n) \<Rightarrow>
              if rbusValue_GetType v = RBUS_STRING then do { n' \<leftarrow> cint (n - 1); Some (p, Some n') }
              else Some (p, len)
          | _ \<Rightarrow> Some (p, len) }"

definition rbusValue_GetStringEx :: "rbusValue_t \<Rightarrow> (rbusValueError \<times> (mem option \<times> int option) option) run" where
  "rbusValue_GetStringEx v =
     (case v of
        NullV \<Rightarrow> Some (RBUS_VALUE_ERROR_NULL, None)
      | Value _ d \<Rightarrow>
          if data_type d \<noteq> RBUS_STRING \<and> data_type d \<noteq> RBUS_BYTES
          then Some (RBUS_VALUE_ERROR_TYPE, None)
          else do { r \<leftarrow> rbusValue_GetString v; Some (RBUS_VALUE_ERROR_SUCCESS, Some r) })"

definition rbusValue_GetBytesEx :: "rbusValue_t \<Rightarrow> (rbusValueError \<times> (mem option \<times> int option) option) run" where
  "rbusValue_GetBytesEx v =
     (case v of
        NullV \<Rightarrow> Some (RBUS_VALUE_ERROR_NULL, None)
      | Value _ d \<Rightarrow>
          if data_type d \<noteq> RBUS_STRING \<and> data_type d \<noteq> RBUS_BYTES
          then Some (RBUS_VALUE_ERROR_TYPE, None)
          else do { r \<leftarrow> rbusValue_GetBytes v; Some (RBUS_VALUE_ERROR_SUCCESS, Some r) })"

definition rbusValue_GetProperty :: "rbusValue_t \<Rightarrow> rbusProperty_t run" where
  "rbusValue_GetProperty v = (case v of Value _ (DProperty p) \<Rightarrow> Some p | _ \<Rightarrow> None)"

definition rbusValue_GetPropertyEx :: "rbusValue_t \<Rightarrow> rbusValueError \<times> rbusProperty_t option" where
  "rbusValue_GetPropertyEx v =
     (case v of NullV \<Rightarrow> (RBUS_VALUE_ERROR_NULL, None)
      | Value _ (DProperty p) \<Rightarrow> (RBUS_VALUE_ERROR_SUCCESS, Some p)
      | Value _ _ \<Rightarrow> (RBUS_VALUE_ERROR_TYPE, None))"

definition rbusValue_GetObject :: "rbusValue_t \<Rightarrow> rbusObject_t run" where
  "rbusValue_GetObject v = (case v of Value _ (DObject obj) \<Rightarrow> Some obj | _ \<Rightarrow> None)"

definition rbusValue_GetObjectEx :: "rbusValue_t \<Rightarrow> rbusValueError \<times> rbusObject_t option" where
  "rbusValue_GetObjectEx v =
     (case v of NullV \<Rightarrow> (RBUS_VALUE_ERROR_NULL, None)
      | Value _ (DObject obj) \<Rightarrow> (RBUS_VALUE_ERROR_SUCCESS, Some obj)
      | Value _ _ \<Rightarrow> (RBUS_VALUE_ERROR_TYPE, None))"

definition rbusValue_GetTime :: "rbusValue_t \<Rightarrow> rbusDateTime option run" where
  "rbusValue_GetTime v =
     (case v of NullV \<Rightarrow> Some None | Value _ (DDateTime t) \<Rightarrow> Some (Some t) | _ \<Rightarrow> None)"

definition rbusValue_GetTimeEx :: "rbusValue_t \<Rightarrow> rbusValueError \<times> rbusDateTime option" where
  "rbusValue_GetTimeEx v =
     (case v of NullV \<Rightarrow> (RBUS_VALUE_ERROR_NULL, None)
      | Value _ (DDateTime t) \<Rightarrow> (RBUS_VALUE_ERROR_SUCCESS, Some t)
      | Value _ _ \<Rightarrow> (RBUS_VALUE_ERROR_TYPE, None))"

section \<open>Comparison\<close>

text \<open>
  Numbers are compared as doubles. A double is NaN, an infinity, or a finite number, which is
  represented exactly by the integer it becomes when scaled by $2^{1074}$. Conversion from a
  64-bit integer rounds to 53 significant bits, to nearest, ties to even.
\<close>

datatype dbl = NaN | NInf | PInf | Fin int

fun bitlen :: "nat \<Rightarrow> nat" where
  "bitlen n = (if n = 0 then 0 else Suc (bitlen (n div 2)))"

declare bitlen.simps [simp del]

definition round53 :: "int \<Rightarrow> int" where
  "round53 i =
     (let n = nat \<bar>i\<bar>; k = bitlen n - 53; q = n div 2 ^ k; r = n mod 2 ^ k;
          up = (k > 0 \<and> (2 * r > 2 ^ k \<or> 2 * r = 2 ^ k \<and> odd q))
      in sgn i * int ((if up then q + 1 else q) * 2 ^ k))"

definition dbl_of_int :: "int \<Rightarrow> dbl" where
  "dbl_of_int i = Fin (round53 i * 2 ^ 1074)"

definition sgn_if :: "bool \<Rightarrow> int \<Rightarrow> int" where
  "sgn_if neg i = (if neg then - i else i)"

definition dbl_of_bits64 :: "u64 \<Rightarrow> dbl" where
  "dbl_of_bits64 w =
     (let e = unat (take_bit 11 (drop_bit 52 w)); m = uint (take_bit 52 w); neg = bit w 63
      in if e = 2047 then (if m \<noteq> 0 then NaN else if neg then NInf else PInf)
         else if e = 0 then Fin (sgn_if neg m)
         else Fin (sgn_if neg ((2 ^ 52 + m) * 2 ^ (e - 1))))"

definition dbl_of_bits32 :: "u32 \<Rightarrow> dbl" where
  "dbl_of_bits32 w =
     (let e = unat (take_bit 8 (drop_bit 23 w)); m = uint (take_bit 23 w); neg = bit w 31
      in if e = 255 then (if m \<noteq> 0 then NaN else if neg then NInf else PInf)
         else if e = 0 then Fin (sgn_if neg (m * 2 ^ 925))
         else Fin (sgn_if neg ((2 ^ 23 + m) * 2 ^ (e - 1 + 925))))"

fun dbl_eq :: "dbl \<Rightarrow> dbl \<Rightarrow> bool" where
  "dbl_eq NaN _ = False"
| "dbl_eq _ NaN = False"
| "dbl_eq x y = (x = y)"

fun dbl_less :: "dbl \<Rightarrow> dbl \<Rightarrow> bool" where
  "dbl_less NaN _ = False"
| "dbl_less _ NaN = False"
| "dbl_less NInf y = (y \<noteq> NInf)"
| "dbl_less _ NInf = False"
| "dbl_less PInf _ = False"
| "dbl_less _ PInf = True"
| "dbl_less (Fin i) (Fin j) = (i < j)"

text \<open>
  The getters called here assert the type, which the default branch of the source (\<open>RBUS_DOUBLE\<close>)
  meets only for a double. Plain \<open>char\<close> is signed.
\<close>

fun rbusValue_CoerceNumericToDouble :: "rbusData \<Rightarrow> dbl run" where
  "rbusValue_CoerceNumericToDouble (DInt32 i) = Some (dbl_of_int (sint i))"
| "rbusValue_CoerceNumericToDouble (DUInt32 i) = Some (dbl_of_int (uint i))"
| "rbusValue_CoerceNumericToDouble (DBoolean x) = Some (dbl_of_int (if x then 1 else 0))"
| "rbusValue_CoerceNumericToDouble (DChar w) = Some (dbl_of_int (sint w))"
| "rbusValue_CoerceNumericToDouble (DByte w) = Some (dbl_of_int (uint w))"
| "rbusValue_CoerceNumericToDouble (DInt8 w) = Some (dbl_of_int (sint w))"
| "rbusValue_CoerceNumericToDouble (DUInt8 w) = Some (dbl_of_int (uint w))"
| "rbusValue_CoerceNumericToDouble (DInt16 h) = Some (dbl_of_int (sint h))"
| "rbusValue_CoerceNumericToDouble (DUInt16 h) = Some (dbl_of_int (uint h))"
| "rbusValue_CoerceNumericToDouble (DInt64 q) = Some (dbl_of_int (sint q))"
| "rbusValue_CoerceNumericToDouble (DUInt64 q) = Some (dbl_of_int (uint q))"
| "rbusValue_CoerceNumericToDouble (DSingle i) = Some (dbl_of_bits32 i)"
| "rbusValue_CoerceNumericToDouble (DDouble q) = Some (dbl_of_bits64 q)"
| "rbusValue_CoerceNumericToDouble _ = None"

text \<open>
  \<open>memcmp\<close> over \<open>n\<close> bytes: undefined when a block is shorter, or when an indeterminate byte is
  reached before the first difference.
\<close>

fun memcmp_bytes :: "mem \<Rightarrow> mem \<Rightarrow> int run" where
  "memcmp_bytes (Some x # xs) (Some y # ys) =
     (if x = y then memcmp_bytes xs ys else Some (if x < y then - 1 else 1))"
| "memcmp_bytes [] [] = Some 0"
| "memcmp_bytes _ _ = None"

definition memcmp :: "mem \<Rightarrow> mem \<Rightarrow> int \<Rightarrow> int run" where
  "memcmp p q n = do { x \<leftarrow> mem_read p 0 n; y \<leftarrow> mem_read q 0 n; memcmp_bytes x y }"

text \<open>
  The time-zone arithmetic of the date-time branch, in \<open>int\<close>: a sum outside its range is
  undefined. \<open>mktime\<close> depends on the time zone of the process and is a parameter.
\<close>

definition tz_signed :: "bool \<Rightarrow> u32 \<Rightarrow> int run" where
  "tz_signed west w = cint (if west then sint w * - 1 else sint w)"

definition apply_timezone :: "rbusDateTime \<Rightarrow> rbusDateTime run" where
  "apply_timezone dt =
     do { zh \<leftarrow> tz_signed (m_isWest dt) (m_tzhour dt);
          h \<leftarrow> cint (sint (tm_hour dt) + zh);
          zm \<leftarrow> tz_signed (m_isWest dt) (m_tzmin dt);
          m \<leftarrow> cint (sint (tm_min dt) + zm);
          let m = (if m < 0 then m + 60 else m);
          let m = (if m \<ge> 60 then m - 60 else m);
          Some (dt\<lparr>tm_hour := word_of_int h, tm_min := word_of_int m\<rparr>) }"

text \<open>\<open>memcmp\<close> of the two structs; their padding bytes are taken to be equal.\<close>

definition datetime_Compare :: "(rbusDateTime \<Rightarrow> int) \<Rightarrow> rbusDateTime \<Rightarrow> rbusDateTime \<Rightarrow> int run" where
  "datetime_Compare mktime t1 t2 =
     do { c \<leftarrow> memcmp (datetime_image t1) (datetime_image t2) 45;
          if c \<noteq> 0 then Some 0
          else do { dt1 \<leftarrow> apply_timezone t1;
                    dt2 \<leftarrow> apply_timezone t2;
                    let diff = mktime dt1 - mktime dt2;
                    Some (if diff = 0 then 0 else if diff < 0 then - 1 else 1) } }"

definition bytes_Compare :: "rbusBuffer option \<Rightarrow> rbusBuffer option \<Rightarrow> int run" where
  "bytes_Compare bo1 bo2 =
     do { b1 \<leftarrow> bo1; b2 \<leftarrow> bo2;
          c \<leftarrow> memcmp (data b1) (data b2) (posWrite b1);
          Some (if posWrite b1 < posWrite b2 \<and> c = 0 then - 1
                else if posWrite b1 > posWrite b2 \<and> c = 0 then 1
                else c) }"

definition string_Compare :: "rbusBuffer option \<Rightarrow> rbusBuffer option \<Rightarrow> int run" where
  "string_Compare bo1 bo2 =
     do { b1 \<leftarrow> bo1; b2 \<leftarrow> bo2; s1 \<leftarrow> cstr (data b1); s2 \<leftarrow> cstr (data b2);
          Some (lexcmp s1 s2) }"

text \<open>
  Looking for a name in a list of properties or of sibling objects, the inner loops of
  \<open>rbusObject_Compare\<close> and the loop of \<open>rbusObject_GetProperty\<close>. A missing name is handed to
  \<open>strcmp\<close> as NULL, which is undefined.
\<close>

fun property_find :: "string option \<Rightarrow> rbusProperty_t \<Rightarrow> rbusProperty_t run" where
  "property_find n NullP = Some NullP"
| "property_find n (Property a n' v nx) =
     do { s \<leftarrow> n; s' \<leftarrow> n';
          if strcmp s s' = 0 then Some (Property a n' v nx) else property_find n nx }"

fun object_find :: "string option \<Rightarrow> rbusObject_t \<Rightarrow> rbusObject_t run" where
  "object_find n NullO = Some NullO"
| "object_find n (Object a n' t ps ch nx) =
     do { s \<leftarrow> n; s' \<leftarrow> n';
          if strcmp s s' = 0 then Some (Object a n' t ps ch nx) else object_find n nx }"

fun properties_covered :: "rbusProperty_t \<Rightarrow> rbusProperty_t \<Rightarrow> int run" where
  "properties_covered NullP ps = Some 0"
| "properties_covered (Property a n v nx) ps =
     do { p \<leftarrow> property_find n ps; if p = NullP then Some (- 1) else properties_covered nx ps }"

fun objects_covered :: "rbusObject_t \<Rightarrow> rbusObject_t \<Rightarrow> int run" where
  "objects_covered NullO os = Some 0"
| "objects_covered (Object a n t ps ch nx) os =
     do { p \<leftarrow> object_find n os; if p = NullO then Some (- 1) else objects_covered nx os }"

definition numeric :: "rbusData \<Rightarrow> bool" where
  "numeric d \<longleftrightarrow> vtype_code (data_type d) \<le> vtype_code RBUS_DOUBLE"

definition numeric_Compare :: "rbusData \<Rightarrow> rbusData \<Rightarrow> int run" where
  "numeric_Compare e1 e2 =
     do { d1 \<leftarrow> rbusValue_CoerceNumericToDouble e1;
          d2 \<leftarrow> rbusValue_CoerceNumericToDouble e2;
          Some (if dbl_eq d1 d2 then 0 else if dbl_less d1 d2 then - 1 else 1) }"

text \<open>
  The three comparison functions call each other, so they are defined together; the
  recursion is on the first argument. \<open>data_Compare\<close> is the part of \<open>rbusValue_Compare\<close> behind
  the NULL tests, \<open>properties_Compare\<close> and \<open>objects_Compare\<close> are the first loops of
  \<open>rbusObject_Compare\<close> over properties and over children (0 when every element of the first
  list has an equal partner in the second, otherwise the value the function returns).
\<close>

function (sequential) rbusValue_Compare :: "(rbusDateTime \<Rightarrow> int) \<Rightarrow> rbusValue_t \<Rightarrow> rbusValue_t \<Rightarrow> int run"
  and data_Compare :: "(rbusDateTime \<Rightarrow> int) \<Rightarrow> rbusData \<Rightarrow> rbusData \<Rightarrow> int run"
  and rbusProperty_Compare :: "(rbusDateTime \<Rightarrow> int) \<Rightarrow> rbusProperty_t \<Rightarrow> rbusProperty_t \<Rightarrow> int run"
  and properties_Compare :: "(rbusDateTime \<Rightarrow> int) \<Rightarrow> rbusProperty_t \<Rightarrow> rbusProperty_t \<Rightarrow> int run"
  and rbusObject_Compare :: "(rbusDateTime \<Rightarrow> int) \<Rightarrow> rbusObject_t \<Rightarrow> rbusObject_t \<Rightarrow> bool \<Rightarrow> int run"
  and objects_Compare :: "(rbusDateTime \<Rightarrow> int) \<Rightarrow> rbusObject_t \<Rightarrow> rbusObject_t \<Rightarrow> int run"
where
  "rbusValue_Compare mk NullV v2 = Some (if v2 = NullV then 0 else - 1)"
| "rbusValue_Compare mk (Value a1 d1) v2 =
     (case v2 of NullV \<Rightarrow> Some (- 1)
      | Value a2 d2 \<Rightarrow> if a1 = a2 then Some 0 else data_Compare mk d1 d2)"
| "data_Compare mk d1 d2 =
     (if numeric d1 \<and> numeric d2 then numeric_Compare d1 d2
      else if data_type d1 \<noteq> data_type d2
      then Some (if vtype_code (data_type d1) < vtype_code (data_type d2) then - 1 else 1)
      else case d1 of
        DString bo1 \<Rightarrow> string_Compare bo1 (sel_bytes d2)
      | DBytes bo1 \<Rightarrow> bytes_Compare bo1 (sel_bytes d2)
      | DDateTime t1 \<Rightarrow> (case d2 of DDateTime t2 \<Rightarrow> datetime_Compare mk t1 t2 | _ \<Rightarrow> None)
      | DProperty p1 \<Rightarrow>
          (case d2 of
             DProperty p2 \<Rightarrow>
               if p1 \<noteq> NullP \<and> p2 \<noteq> NullP then rbusProperty_Compare mk p1 p2
               else Some (if p1 \<noteq> NullP then 1 else - 1)
           | _ \<Rightarrow> None)
      | DObject o1 \<Rightarrow>
          (case d2 of
             DObject o2 \<Rightarrow>
               if o1 \<noteq> NullO \<and> o2 \<noteq> NullO then rbusObject_Compare mk o1 o2 True
               else Some (if o1 \<noteq> NullO then 1 else - 1)
           | _ \<Rightarrow> None)
      | _ \<Rightarrow> Some 0)"
| "rbusProperty_Compare mk NullP p2 = Some (if p2 = NullP then 0 else - 1)"
| "rbusProperty_Compare mk (Property a1 n1 v1 nx1) p2 =
     (case p2 of NullP \<Rightarrow> Some (- 1)
      | Property a2 n2 v2 nx2 \<Rightarrow>
          if a1 = a2 then Some 0
          else do { s1 \<leftarrow> n1; s2 \<leftarrow> n2;
                    let rc = strcmp s1 s2;
                    if rc \<noteq> 0 then Some rc else rbusValue_Compare mk v1 v2 })"
| "properties_Compare mk NullP ps2 = Some 0"
| "properties_Compare mk (Property a1 n1 v1 nx1) ps2 =
     do { p2 \<leftarrow> property_find n1 ps2;
          if p2 = NullP then Some 1
          else do { rc \<leftarrow> rbusProperty_Compare mk (Property a1 n1 v1 nx1) p2;
                    if rc \<noteq> 0 then Some rc else properties_Compare mk nx1 ps2 } }"
| "rbusObject_Compare mk NullO o2 rec = Some (if o2 = NullO then 0 else - 1)"
| "rbusObject_Compare mk (Object a1 n1 t1 ps1 ch1 nx1) o2 rec =
     (case o2 of NullO \<Rightarrow> Some 1
      | Object a2 n2 t2 ps2 ch2 nx2 \<Rightarrow>
          if a1 = a2 then Some 0
          else do { s1 \<leftarrow> n1; s2 \<leftarrow> n2;
                    let rc = strcmp s1 s2;
                    if rc \<noteq> 0 then Some rc
                    else do { rc \<leftarrow> properties_Compare mk ps1 ps2;
                              if rc \<noteq> 0 then Some rc
                              else do { rc \<leftarrow> properties_covered ps2 ps1;
                                        if rc \<noteq> 0 then Some rc
                                        else if rec
                                        then do { rc \<leftarrow> objects_Compare mk ch1 ch2;
                                                  if rc \<noteq> 0 then Some rc else objects_covered ch2 ch1 }
                                        else Some 0 } } })"
| "objects_Compare mk NullO os2 = Some 0"
| "objects_Compare mk (Object a1 n1 t1 ps1 ch1 nx1) os2 =
     do { o2 \<leftarrow> object_find n1 os2;
          if o2 = NullO then Some 1
          else do { rc \<leftarrow> rbusObject_Compare mk (Object a1 n1 t1 ps1 ch1 nx1) o2 True;
                    if rc \<noteq> 0 then Some rc else objects_Compare mk nx1 os2 } }"
  by pat_completeness auto

termination
  by size_change

declare rbusValue_Compare.simps [simp del] data_Compare.simps [simp del]
  rbusProperty_Compare.simps [simp del] properties_Compare.simps [simp del]
  rbusObject_Compare.simps [simp del] objects_Compare.simps [simp del]

section \<open>Copying\<close>

definition rbusValue_Copy :: "(rbusDateTime \<Rightarrow> int) \<Rightarrow> rbusValue_t \<Rightarrow> rbusValue_t \<Rightarrow> rbusValue_t run" where
  "rbusValue_Copy mk dest source =
     (case dest of NullV \<Rightarrow> Some dest
      | Value a d \<Rightarrow>
        (case source of NullV \<Rightarrow> Some dest
         | Value a' d' \<Rightarrow>
             if a = a' then Some dest
             else do { d \<leftarrow> rbusValue_FreeInternal d;
                       d \<leftarrow> (case d' of
                              DString _ \<Rightarrow> do { (p, len) \<leftarrow> rbusValue_GetString source; data_SetString d p }
                            | DBytes _ \<Rightarrow>
                                do { (p, len) \<leftarrow> rbusValue_GetBytes source; n \<leftarrow> len; data_SetBytes d p n }
                            | DProperty _ \<Rightarrow> Some d
                            | DObject _ \<Rightarrow> Some d
                            | _ \<Rightarrow> Some d');
                       rc \<leftarrow> rbusValue_Compare mk (Value a d) source;
                       if rc = 0 then Some (Value a d) else None }))"

section \<open>Invariant and contents\<close>

fun data_inv :: "rbusData \<Rightarrow> bool" where
  "data_inv (DString (Some b)) \<longleftrightarrow> buf_inv b \<and> posRead b = 0 \<and> string_length_ok b"
| "data_inv (DBytes (Some b)) \<longleftrightarrow> buf_inv b \<and> posRead b = 0"
| "data_inv _ \<longleftrightarrow> True"

definition val_inv :: "rbusValue_t \<Rightarrow> bool" where
  "val_inv v \<longleftrightarrow> (case v of NullV \<Rightarrow> True | Value _ d \<Rightarrow> data_inv d)"

text \<open>Two unions hold the same data: same type, same scalar or same bytes.\<close>

fun same_data :: "rbusData \<Rightarrow> rbusData \<Rightarrow> bool" where
  "same_data (DString (Some b)) (DString (Some c)) \<longleftrightarrow> written b = written c"
| "same_data (DBytes (Some b)) (DBytes (Some c)) \<longleftrightarrow> written b = written c"
| "same_data d e \<longleftrightarrow> d = e"

definition same_value :: "rbusValue_t \<Rightarrow> rbusValue_t \<Rightarrow> bool" where
  "same_value v w \<longleftrightarrow>
     (case (v, w) of (Value _ d, Value _ e) \<Rightarrow> same_data d e | _ \<Rightarrow> v = w)"

text \<open>The largest string or byte block whose buffer size still fits an \<open>int\<close>.\<close>

definition MAX_BLOCK :: nat where
  "MAX_BLOCK = 2147483583"

lemma Destroy_ok: "buf_inv b \<Longrightarrow> rbusBuffer_Destroy b = Some ()"
  by (auto simp: buf_inv_def rbusBuffer_Destroy_def BUFFER_BLOCK_SIZE_def)

lemma FreeInternal_ok:
  assumes "data_inv d"
  obtains d' where "rbusValue_FreeInternal d = Some d'" "data_inv d'" "sel_bytes d' = None"
    "data_type d' = data_type d"
  using assms
  by (cases d rule: data_inv.cases) (auto simp: destroy_opt_def Destroy_ok)

lemma written_reset [simp]: "posWrite (b\<lparr>posWrite := 0, posRead := 0\<rparr>) = 0"
  "written (b\<lparr>posWrite := 0, posRead := 0\<rparr>) = []"
  by (simp_all add: written_def)

lemma buf_inv_reset: "buf_inv b \<Longrightarrow> buf_inv (b\<lparr>posWrite := 0, posRead := 0\<rparr>)"
  by (simp add: buf_inv_def)

lemma SetBufferData_ok:
  assumes "data_inv d" "n \<le> length p" "n \<le> MAX_BLOCK"
  obtains b where "rbusValue_SetBufferData d p (int n) con = Some (con (Some b))"
    "buf_inv b" "posRead b = 0" "written b = take n p" "posWrite b = int n"
proof -
  define b0 where "b0 = (case sel_bytes d of Some b \<Rightarrow> b\<lparr>posWrite := 0, posRead := 0\<rparr> | None \<Rightarrow> rbusBuffer_Create)"
  have inv: "buf_inv b0" and z: "posWrite b0 = 0" "posRead b0 = 0" "written b0 = []"
    using assms(1) by (auto simp: b0_def buf_inv_reset split: option.splits elim!: sel_bytes.elims)
  have la: "lenAlloc b > 0" if "sel_bytes d = Some b" for b
    using assms(1) that by (cases d rule: data_inv.cases) (auto simp: buf_inv_def)
  have "room n b0"
    using z assms(3) by (simp add: room_def MAX_BLOCK_def)
  then have "writes b0 (take n p) (rbusBuffer_Write b0 (Some p) (int n))"
    unfolding Write_take [OF assms(2), of b0] using inv assms(2) by (intro Write_ok) simp_all
  then obtain b where "rbusBuffer_Write b0 (Some p) (int n) = Some b" "appended b0 (take n p) b"
    by (auto simp: writes_def)
  moreover have "rbusValue_SetBufferData d p (int n) con
      = Option.bind (rbusBuffer_Write b0 (Some p) (int n)) (\<lambda>b. Some (con (Some b)))"
    using la by (auto simp: rbusValue_SetBufferData_def b0_def split: option.split)
  ultimately show thesis
    using z assms(2) by (intro that [of b]) (simp_all add: appended_def)
qed

lemma written_prefix: "buf_inv b \<Longrightarrow> \<exists>rest. data b = written b @ rest"
  by (metis append_take_drop_id written_def)

lemma written_string_ok:
  assumes "buf_inv b" "written b = map Some s @ [Some 0]" "0 \<notin> set s"
  shows "string_length_ok b" "cstr (data b) = Some s"
proof -
  obtain rest where "data b = map Some s @ Some 0 # rest"
    using written_prefix [OF assms(1)] assms(2) by auto
  then show c: "cstr (data b) = Some s"
    using assms(3) by simp
  show "string_length_ok b"
    using c length_written [OF assms(1)] assms(2) by (simp add: string_length_ok_def strlen_def)
qed

lemma SetString_ok:
  assumes "data_inv d" "cstr p = Some s" "Suc (length s) \<le> MAX_BLOCK"
  obtains b where "data_SetString d (Some p) = Some (DString (Some b))"
    "data_inv (DString (Some b))" "written b = map Some s @ [Some 0]" "cstr (data b) = Some s"
    "posWrite b = int (length s) + 1"
proof -
  obtain rest where p: "p = map Some s @ Some 0 # rest" and nz: "0 \<notin> set s"
    using cstr_SomeD [OF assms(2)] by blast
  obtain b where b: "rbusValue_SetBufferData d p (int (Suc (length s))) DString = Some (DString (Some b))"
      "buf_inv b" "posRead b = 0" "written b = map Some s @ [Some 0]" "posWrite b = int (Suc (length s))"
    using SetBufferData_ok [OF assms(1) _ assms(3), of p DString] p by auto
  note ok = written_string_ok [OF b(2,4) nz]
  have "int_range (int (length s) + 1)"
    using assms(3) by (intro int_rangeI) (auto simp: MAX_BLOCK_def)
  then have "data_SetString d (Some p) = Some (DString (Some b))"
    using b ok assms(2) by (simp add: data_SetString_def strlen_def add.commute)
  then show thesis
    using b ok by (intro that [of b]) auto
qed

section \<open>What the setters and getters guarantee\<close>

text \<open>
  C26. Setting a value, of any type, to a string and getting the string returns a copy of the
  string with its length, and leaves the value well-formed.
\<close>

theorem SetString_GetString:
  assumes "val_inv (Value a d)" "cstr p = Some s" "Suc (length s) \<le> MAX_BLOCK"
  shows "\<exists>v q. rbusValue_SetString (Value a d) (Some p) = Some v \<and> val_inv v \<and>
    rbusValue_GetType v = RBUS_STRING \<and>
    rbusValue_GetString v = Some (Some q, Some (int (length s))) \<and> cstr q = Some s"
proof -
  obtain b where b: "data_SetString d (Some p) = Some (DString (Some b))"
    "data_inv (DString (Some b))" "cstr (data b) = Some s" "posWrite b = int (length s) + 1"
    using SetString_ok [OF _ assms(2,3), of d] assms(1) by (auto simp: val_inv_def)
  have "int_range (int (length s))"
    using assms(3) by (intro int_rangeI) (auto simp: MAX_BLOCK_def)
  then show ?thesis
    using b by (auto simp: rbusValue_SetString_def val_inv_def rbusValue_GetType_def
        rbusValue_GetString_def rbusValue_GetBytes_def)
qed

theorem SetString_GetString_witness:
  "\<exists>v q. rbusValue_SetString (Value 1 (DInt32 7)) (Some [Some 104, Some 105, Some 0]) = Some v \<and>
    val_inv v \<and> rbusValue_GetType v = RBUS_STRING \<and>
    rbusValue_GetString v = Some (Some q, Some 2) \<and> cstr q = Some [104, 105]"
  using SetString_GetString [of 1 "DInt32 7" "[Some 104, Some 105, Some 0]" "[104, 105]"]
  by (simp add: val_inv_def MAX_BLOCK_def)

text \<open>
  Setting a value to a block of bytes and getting the bytes returns the block and its
  length, whatever the value held before, including zero bytes inside the block.
\<close>

theorem SetBytes_GetBytes:
  assumes "val_inv (Value a d)" "n \<le> length p" "n \<le> MAX_BLOCK"
  shows "\<exists>v q. rbusValue_SetBytes (Value a d) (Some p) (int n) = Some v \<and> val_inv v \<and>
    rbusValue_GetType v = RBUS_BYTES \<and>
    rbusValue_GetBytes v = Some (Some q, Some (int n)) \<and> take n q = take n p"
proof -
  obtain b where "rbusValue_SetBufferData d p (int n) DBytes = Some (DBytes (Some b))"
    "buf_inv b" "posRead b = 0" "written b = take n p" "posWrite b = int n"
    using SetBufferData_ok [OF _ assms(2,3), of d] assms(1) by (auto simp: val_inv_def)
  then show ?thesis
    by (auto simp: rbusValue_SetBytes_def data_SetBytes_def val_inv_def rbusValue_GetType_def
        rbusValue_GetBytes_def written_def)
qed

theorem SetBytes_GetBytes_witness:
  "\<exists>v q. rbusValue_SetBytes (Value 1 DNone) (Some [Some 0, Some 9, None]) 2 = Some v \<and>
    val_inv v \<and> rbusValue_GetType v = RBUS_BYTES \<and>
    rbusValue_GetBytes v = Some (Some q, Some 2) \<and> take 2 q = [Some 0, Some 9]"
  using SetBytes_GetBytes [of 1 DNone 2 "[Some 0, Some 9, None]"]
  by (simp add: val_inv_def MAX_BLOCK_def)

text \<open>The scalar functions of the macro: what is set is what is got.\<close>

lemma macro_Set_Get:
  assumes "data_inv d" "sel (con x) = Some x" "data_inv (con x)"
  shows "\<exists>v. macro_Set con (Value a d) x = Some v \<and> val_inv v \<and> macro_Get sel v = Some x \<and>
    macro_GetEx sel v = Some (RBUS_VALUE_ERROR_SUCCESS, Some x)"
proof -
  obtain d' where "rbusValue_FreeInternal d = Some d'"
    using FreeInternal_ok [OF assms(1)] by blast
  with assms(2,3) show ?thesis
    by (simp add: macro_Set_def macro_Get_def macro_GetEx_def val_inv_def)
qed

section \<open>What the comparison guarantees\<close>

lemma Compare_Value [simp]:
  "a1 \<noteq> a2 \<Longrightarrow> rbusValue_Compare mk (Value a1 d1) (Value a2 d2) = data_Compare mk d1 d2"
  "rbusValue_Compare mk (Value a1 d1) (Value a1 d2) = Some 0"
  by (simp_all add: rbusValue_Compare.simps)

lemma data_Compare_cases:
  "numeric d \<Longrightarrow> numeric e \<Longrightarrow> data_Compare mk d e = numeric_Compare d e"
  "\<not> (numeric d \<and> numeric e) \<Longrightarrow> data_type d \<noteq> data_type e \<Longrightarrow> data_Compare mk d e =
     Some (if vtype_code (data_type d) < vtype_code (data_type e) then - 1 else 1)"
  "data_Compare mk (DString bo1) (DString bo2) = string_Compare bo1 bo2"
  "data_Compare mk (DBytes bo1) (DBytes bo2) = bytes_Compare bo1 bo2"
  "data_Compare mk (DDateTime t1) (DDateTime t2) = datetime_Compare mk t1 t2"
  "data_Compare mk DNone DNone = Some 0"
  "data_Compare mk (DProperty p1) (DProperty p2) =
     (if p1 \<noteq> NullP \<and> p2 \<noteq> NullP then rbusProperty_Compare mk p1 p2
      else Some (if p1 \<noteq> NullP then 1 else - 1))"
  "data_Compare mk (DObject o1) (DObject o2) =
     (if o1 \<noteq> NullO \<and> o2 \<noteq> NullO then rbusObject_Compare mk o1 o2 True
      else Some (if o1 \<noteq> NullO then 1 else - 1))"
  by (auto simp: data_Compare.simps numeric_def)

lemma bitlen_le: "n < 2 ^ k \<Longrightarrow> bitlen n \<le> k"
proof (induction k arbitrary: n)
  case (Suc k)
  then have "n div 2 < 2 ^ k" by auto
  with Suc.IH show ?case by (subst bitlen.simps) auto
qed (simp add: bitlen.simps)

lemma round53_exact: "\<bar>i\<bar> < 2 ^ 53 \<Longrightarrow> round53 i = i"
proof -
  assume "\<bar>i\<bar> < 2 ^ 53"
  then have "nat \<bar>i\<bar> < 2 ^ 53" by simp
  then have "bitlen (nat \<bar>i\<bar>) - 53 = 0" using bitlen_le by (metis diff_is_0_eq)
  then show ?thesis by (simp add: round53_def Let_def sgn_mult_abs)
qed

text \<open>The integer a value of one of the integral types stands for.\<close>

fun int_of_data :: "rbusData \<Rightarrow> int option" where
  "int_of_data (DBoolean x) = Some (if x then 1 else 0)"
| "int_of_data (DChar w) = Some (sint w)"
| "int_of_data (DByte w) = Some (uint w)"
| "int_of_data (DInt8 w) = Some (sint w)"
| "int_of_data (DUInt8 w) = Some (uint w)"
| "int_of_data (DInt16 h) = Some (sint h)"
| "int_of_data (DUInt16 h) = Some (uint h)"
| "int_of_data (DInt32 i) = Some (sint i)"
| "int_of_data (DUInt32 i) = Some (uint i)"
| "int_of_data (DInt64 q) = Some (sint q)"
| "int_of_data (DUInt64 q) = Some (uint q)"
| "int_of_data _ = None"

lemma int_of_data_numeric: "int_of_data d = Some i \<Longrightarrow>
    numeric d \<and> rbusValue_CoerceNumericToDouble d = Some (dbl_of_int i)"
  by (cases d) (auto simp: numeric_def)



lemma string_contents:
  assumes "data_inv (DString (Some b))"
  obtains s where "cstr (data b) = Some s" "written b = map Some s @ [Some 0]" "0 \<notin> set s"
    "posWrite b = int (length s) + 1"
proof -
  obtain s where s: "cstr (data b) = Some s" "int (length s) + 1 = posWrite b"
    using assms by (auto simp: string_length_ok_def strlen_def split: option.splits)
  with cstr_SomeD [OF s(1)] obtain rest where
    d: "data b = map Some s @ Some 0 # rest" "0 \<notin> set s" by blast
  have "nat (posWrite b) = length s + 1" using s(2) by linarith
  then have "written b = map Some s @ [Some 0]"
    using d(1) by (simp add: written_def)
  then show thesis using that s d by simp
qed

text \<open>
  C28. Two string values compare like their contents in the order of \<open>strcmp\<close>; they are equal
  exactly when they hold the same bytes.
\<close>

theorem Compare_strings:
  assumes "data_inv (DString (Some b1))" "data_inv (DString (Some b2))" "a1 \<noteq> a2"
  shows "\<exists>s1 s2. cstr (data b1) = Some s1 \<and> cstr (data b2) = Some s2 \<and>
    rbusValue_Compare mk (Value a1 (DString (Some b1))) (Value a2 (DString (Some b2)))
      = Some (lexcmp s1 s2) \<and>
    (lexcmp s1 s2 = 0 \<longleftrightarrow> same_data (DString (Some b1)) (DString (Some b2)))"
proof -
  obtain s1 where "cstr (data b1) = Some s1" "written b1 = map Some s1 @ [Some 0]"
    using string_contents [OF assms(1)] by metis
  moreover obtain s2 where "cstr (data b2) = Some s2" "written b2 = map Some s2 @ [Some 0]"
    using string_contents [OF assms(2)] by metis
  ultimately show ?thesis
    using assms(3) by (auto simp: data_Compare_cases string_Compare_def inj_map_eq_map)
qed

lemma string_example: "data_inv (DString (Some (rbusBuffer_Create\<lparr>data := [Some c, Some 0] @ replicate 62 None, posWrite := 2\<rparr>)))"
  if "c \<noteq> 0"
  using that by (simp add: rbusBuffer_Create_def buf_inv_def BUFFER_BLOCK_SIZE_def
      string_length_ok_def strlen_def)

theorem Compare_strings_witness:
  "\<exists>s1 s2. cstr ([Some 97, Some 0] @ replicate 62 None) = Some s1 \<and>
    cstr ([Some 98, Some 0] @ replicate 62 None) = Some s2 \<and>
    rbusValue_Compare (\<lambda>_. 0)
      (Value 1 (DString (Some (rbusBuffer_Create\<lparr>data := [Some 97, Some 0] @ replicate 62 None, posWrite := 2\<rparr>))))
      (Value 2 (DString (Some (rbusBuffer_Create\<lparr>data := [Some 98, Some 0] @ replicate 62 None, posWrite := 2\<rparr>))))
      = Some (lexcmp s1 s2)"
  using Compare_strings [OF string_example [of 97] string_example [of 98], of 1 2 "\<lambda>_. 0"]
  by auto

lemma memcmp_bytes_det: "length x = length y \<Longrightarrow> memcmp_bytes (map Some x) (map Some y) = Some (lexcmp x y)"
  by (induction x y rule: lexcmp.induct) auto

lemma lexcmp_take:
  "length x \<le> length y \<Longrightarrow>
   (let c = lexcmp x (take (length x) y) in if length x < length y \<and> c = 0 then - 1 else c) = lexcmp x y"
  by (induction x y rule: lexcmp.induct) (auto simp: Let_def)

lemma memcmp_written:
  assumes "buf_inv b1" "buf_inv b2" "written b1 = map Some x" "written b2 = map Some y"
    and "length x \<le> length y"
  shows "memcmp (data b1) (data b2) (posWrite b1) = Some (lexcmp x (take (length x) y))"
proof -
  have l: "posWrite b1 = int (length x)" "posWrite b2 = int (length y)"
    using length_written [OF assms(1)] length_written [OF assms(2)] assms(3,4) by auto
  obtain r1 where d1: "data b1 = map Some x @ r1"
    using written_prefix [OF assms(1)] assms(3) by auto
  obtain r2 where d2: "data b2 = map Some y @ r2"
    using written_prefix [OF assms(2)] assms(4) by auto
  have "mem_read (data b1) 0 (int (length x)) = Some (map Some x)"
    by (simp add: mem_read_def d1)
  moreover have "mem_read (data b2) 0 (int (length x)) = Some (map Some (take (length x) y))"
    using assms(5) by (simp add: mem_read_def d2 take_map)
  ultimately show ?thesis
    using assms(5) memcmp_bytes_det [of x "take (length x) y"] by (simp add: memcmp_def l)
qed

text \<open>
  Two byte values compare in the lexicographic order of their contents when the first is
  not longer than the second. (For a longer first value the comparison reads behind the end
  of the second.)
\<close>

theorem Compare_bytes:
  assumes "data_inv (DBytes (Some b1))" "data_inv (DBytes (Some b2))"
    and "written b1 = map Some x" "written b2 = map Some y" "length x \<le> length y" "a1 \<noteq> a2"
  shows "rbusValue_Compare mk (Value a1 (DBytes (Some b1))) (Value a2 (DBytes (Some b2)))
      = Some (lexcmp x y)"
proof -
  have inv: "buf_inv b1" "buf_inv b2" using assms(1,2) by auto
  have l: "posWrite b1 = int (length x)" "posWrite b2 = int (length y)"
    using length_written [OF inv(1)] length_written [OF inv(2)] assms(3,4) by auto
  then have "\<not> posWrite b1 > posWrite b2" using assms(5) by simp
  then have "bytes_Compare (Some b1) (Some b2) = Some (lexcmp x y)"
    using memcmp_written [OF inv assms(3-5)]
    by (simp add: bytes_Compare_def l lexcmp_take [OF assms(5), symmetric] Let_def
        cong: if_cong split del: if_split)
  then show ?thesis using assms(6) by (simp add: data_Compare_cases)
qed

theorem Compare_bytes_witness:
  "rbusValue_Compare (\<lambda>_. 0) (Value 1 (DBytes (Some rbusBuffer_Create)))
     (Value 2 (DBytes (Some rbusBuffer_Create))) = Some (lexcmp ([] :: u8 list) [])"
  using Compare_bytes [of rbusBuffer_Create rbusBuffer_Create "[]" "[]" 1 2 "\<lambda>_. 0"] by simp

lemma datetime_memcmp:
  "memcmp (datetime_image t1) (datetime_image t2) 45 = Some (lexcmp (datetime_bytes t1) (datetime_bytes t2))"
  by (simp add: memcmp_def datetime_image_eq mem_read_def memcmp_bytes_det)

text \<open>
  The comparison of two date-times never tells them apart: for different date-times it
  returns 0, because the test on \<open>memcmp\<close> is the wrong way round, and for equal ones it
  returns 0 unless the time-zone arithmetic overflows.
\<close>

theorem Compare_datetime_blind:
  "rbusValue_Compare mk (Value a1 (DDateTime t1)) (Value a2 (DDateTime t2)) =
     (if t1 = t2 \<and> a1 \<noteq> a2 \<and> apply_timezone t1 = None then None else Some 0)"
proof -
  have "datetime_bytes t1 = datetime_bytes t2 \<longleftrightarrow> t1 = t2"
    by (metis conv_datetime_bytes option.inject)
  then show ?thesis
    by (cases "a1 = a2"; cases "apply_timezone t1")
      (auto simp: data_Compare_cases datetime_Compare_def datetime_memcmp)
qed

section \<open>What copying guarantees\<close>

text \<open>
  The values \<open>rbusValue_Copy\<close> can copy: not those holding a property or an object, not a NULL
  string or byte block, not a NaN (which compares unequal to its copy).
\<close>

fun copyable :: "rbusData \<Rightarrow> bool" where
  "copyable (DString bo) \<longleftrightarrow> bo \<noteq> None"
| "copyable (DBytes bo) \<longleftrightarrow> (case bo of None \<Rightarrow> False | Some b \<Rightarrow> det (written b) \<noteq> None)"
| "copyable (DProperty _) \<longleftrightarrow> False"
| "copyable (DObject _) \<longleftrightarrow> False"
| "copyable (DDateTime t) \<longleftrightarrow> apply_timezone t \<noteq> None"
| "copyable (DSingle w) \<longleftrightarrow> dbl_of_bits32 w \<noteq> NaN"
| "copyable (DDouble w) \<longleftrightarrow> dbl_of_bits64 w \<noteq> NaN"
| "copyable _ \<longleftrightarrow> True"

lemma dbl_eq_refl: "dbl_eq x x \<longleftrightarrow> x \<noteq> NaN"
  by (cases x) auto

lemma numeric_Compare_refl:
  "numeric d \<Longrightarrow> \<exists>c. numeric_Compare d d = Some c \<and> (c = 0 \<longleftrightarrow> copyable d)"
  by (cases d) (auto simp: numeric_Compare_def numeric_def dbl_eq_refl dbl_of_int_def)

text \<open>The last step of the copy: the comparison of the copy with its source.\<close>

lemma Compare_scalar_refl:
  assumes "sel_bytes d = None" "\<not> (\<exists>p. d = DProperty p)" "\<not> (\<exists>x. d = DObject x)"
    "d \<noteq> DString None" "d \<noteq> DBytes None"
  shows "data_Compare mk d d = Some 0 \<longleftrightarrow> copyable d"
proof (cases "numeric d")
  case True
  then show ?thesis using numeric_Compare_refl [OF True] by (auto simp: data_Compare_cases)
next
  case False
  then show ?thesis using assms
    by (cases d) (auto simp: data_Compare_cases numeric_def datetime_Compare_def datetime_memcmp
        split: bind_splits)
qed

lemma Compare_freed:
  assumes "sel_bytes d = None" "rbusValue_FreeInternal d0 = Some d"
  shows "data_Compare mk d (DProperty p) \<noteq> Some 0" "data_Compare mk d (DObject x) \<noteq> Some 0"
  using assms(2) by (cases d0; auto simp: data_Compare_cases numeric_def split: bind_splits)+

text \<open>The copy of a string and of a byte block, before the comparison.\<close>

lemma copy_string:
  assumes "data_inv d" "data_inv (DString (Some b))" "posWrite b \<le> int MAX_BLOCK"
  obtains c where "data_SetString d (Some (data b)) = Some (DString (Some c))"
    "data_inv (DString (Some c))" "written c = written b"
    "string_Compare (Some c) (Some b) = Some 0"
proof -
  obtain s where s: "cstr (data b) = Some s" "written b = map Some s @ [Some 0]" "posWrite b = int (length s) + 1"
    using string_contents [OF assms(2)] by metis
  moreover have "Suc (length s) \<le> MAX_BLOCK" using s(3) assms(3) by simp
  ultimately obtain c where "data_SetString d (Some (data b)) = Some (DString (Some c))"
    "data_inv (DString (Some c))" "written c = map Some s @ [Some 0]" "cstr (data c) = Some s"
    using SetString_ok [OF assms(1)] by blast
  then show thesis using that [of c] s by (simp add: string_Compare_def)
qed

lemma memcmp_bytes_0_det: "memcmp_bytes m m = Some 0 \<longleftrightarrow> det m \<noteq> None"
  by (induction m rule: det.induct) auto

lemma copy_bytes:
  assumes "data_inv d" "data_inv (DBytes (Some b))" "posWrite b \<le> int MAX_BLOCK"
  obtains c where "data_SetBytes d (Some (data b)) (posWrite b) = Some (DBytes (Some c))"
    "data_inv (DBytes (Some c))" "written c = written b"
    "bytes_Compare (Some c) (Some b) = Some 0 \<longleftrightarrow> det (written b) \<noteq> None"
proof -
  have n: "nat (posWrite b) \<le> length (data b)" "0 \<le> posWrite b" "nat (posWrite b) \<le> MAX_BLOCK"
    using assms by (auto simp: buf_inv_def)
  obtain c where c: "data_SetBytes d (Some (data b)) (posWrite b) = Some (DBytes (Some c))"
    "buf_inv c" "posRead c = 0" "written c = written b" "posWrite c = posWrite b"
    using SetBufferData_ok [OF assms(1) n(1,3), of DBytes] n(2)
    by (auto simp: data_SetBytes_def written_def)
  then have "memcmp (data c) (data b) (posWrite c) = memcmp_bytes (written b) (written b)"
    using n(1,2) unfolding memcmp_def mem_read_def buf_inv_def by (auto simp: written_def)
  then have "bytes_Compare (Some c) (Some b) = Some 0 \<longleftrightarrow> det (written b) \<noteq> None"
    using c(5) memcmp_bytes_0_det [of "written b"] by (auto simp: bytes_Compare_def split: bind_splits)
  then show thesis using that [of c] c by simp
qed

lemma Copy_unfold:
  assumes "rbusValue_FreeInternal d = Some d1" "a \<noteq> a'"
  shows "rbusValue_Copy mk (Value a d) (Value a' d') =
    do { e \<leftarrow> (case d' of
                DString _ \<Rightarrow> do { (p, len) \<leftarrow> rbusValue_GetString (Value a' d'); data_SetString d1 p }
              | DBytes _ \<Rightarrow>
                  do { (p, len) \<leftarrow> rbusValue_GetBytes (Value a' d'); n \<leftarrow> len; data_SetBytes d1 p n }
              | DProperty _ \<Rightarrow> Some d1
              | DObject _ \<Rightarrow> Some d1
              | _ \<Rightarrow> Some d');
         rc \<leftarrow> data_Compare mk e d';
         if rc = 0 then Some (Value a e) else None }"
  using assms by (simp add: rbusValue_Copy_def)

lemma Copy_null_or_nested:
  assumes "data_inv d" "a \<noteq> a'"
    and "d' \<in> {DString None, DBytes None} \<or> (\<exists>p. d' = DProperty p) \<or> (\<exists>x. d' = DObject x)"
  shows "rbusValue_Copy mk (Value a d) (Value a' d') = None"
proof -
  obtain d1 where d1: "rbusValue_FreeInternal d = Some d1" "data_inv d1" "sel_bytes d1 = None"
    using FreeInternal_ok [OF assms(1)] by metis
  obtain d2 where d2: "rbusValue_FreeInternal d1 = Some d2"
    using FreeInternal_ok [OF d1(2)] by metis
  note nz = Compare_freed [OF d1(3,1)]
  show ?thesis
    using assms(3) nz
    by (auto simp: Copy_unfold [OF d1(1) assms(2)] rbusValue_GetString_def rbusValue_GetBytes_def
        data_SetString_def data_SetBytes_def d2 data_Compare_cases string_Compare_def
        bytes_Compare_def split: bind_splits)
qed



section \<open>Objects as named sets of properties\<close>

text \<open>
  The abstract view of a property list (and of a list of children): the first element for
  each name. Two objects are equal when they have the same name and these views agree.
\<close>

fun props :: "rbusProperty_t \<Rightarrow> rbusProperty_t list" where
  "props NullP = []"
| "props (Property a n v nx) = Property a n v nx # props nx"

fun objs :: "rbusObject_t \<Rightarrow> rbusObject_t list" where
  "objs NullO = []"
| "objs (Object a n t ps ch nx) = Object a n t ps ch nx # objs nx"

definition props_named :: "rbusProperty_t \<Rightarrow> bool" where
  "props_named ps \<longleftrightarrow> (\<forall>p\<in>set (props ps). pname p \<noteq> None)"

definition objs_named :: "rbusObject_t \<Rightarrow> bool" where
  "objs_named os \<longleftrightarrow> (\<forall>x\<in>set (objs os). oname x \<noteq> None)"

definition prop_view :: "rbusProperty_t \<Rightarrow> string \<Rightarrow> rbusProperty_t option" where
  "prop_view ps s = find (\<lambda>p. pname p = Some s) (props ps)"

definition obj_view :: "rbusObject_t \<Rightarrow> string \<Rightarrow> rbusObject_t option" where
  "obj_view os s = find (\<lambda>x. oname x = Some s) (objs os)"

lemma named_simps [simp]:
  "props_named NullP" "props_named (Property a n v nx) \<longleftrightarrow> n \<noteq> None \<and> props_named nx"
  "objs_named NullO" "objs_named (Object a n t ps ch nx') \<longleftrightarrow> n \<noteq> None \<and> objs_named nx'"
  by (auto simp: props_named_def objs_named_def)

lemma view_simps [simp]:
  "prop_view NullP s = None" "obj_view NullO s = None"
  "prop_view (Property a n v nx) s = (if n = Some s then Some (Property a n v nx) else prop_view nx s)"
  "obj_view (Object a n t ps ch nx') s = (if n = Some s then Some (Object a n t ps ch nx') else obj_view nx' s)"
  by (simp_all add: prop_view_def obj_view_def)

lemma prop_view_SomeD: "prop_view ps s = Some p \<Longrightarrow> p \<noteq> NullP \<and> pname p = Some s \<and> p \<in> set (props ps)"
  by (induction ps rule: props.induct) (auto split: if_splits)

lemma obj_view_SomeD: "obj_view os s = Some x \<Longrightarrow> x \<noteq> NullO \<and> oname x = Some s \<and> x \<in> set (objs os)"
  by (induction os rule: objs.induct) (auto split: if_splits)

lemma property_find_view:
  "props_named ps \<Longrightarrow> property_find (Some s) ps = Some (case prop_view ps s of None \<Rightarrow> NullP | Some p \<Rightarrow> p)"
  by (induction ps rule: props.induct) (auto split: if_splits)

lemma object_find_view:
  "objs_named os \<Longrightarrow> object_find (Some s) os = Some (case obj_view os s of None \<Rightarrow> NullO | Some x \<Rightarrow> x)"
  by (induction os rule: objs.induct) (auto split: if_splits)

lemma properties_covered_iff:
  assumes "props_named ps" "props_named qs"
  shows "properties_covered ps qs = Some 0 \<longleftrightarrow> (\<forall>p\<in>set (props ps). prop_view qs (the (pname p)) \<noteq> None)"
  using assms
  by (induction ps rule: props.induct)
    (auto simp: property_find_view dest: prop_view_SomeD split: option.splits if_splits)

lemma objects_covered_iff:
  assumes "objs_named os" "objs_named rs"
  shows "objects_covered os rs = Some 0 \<longleftrightarrow> (\<forall>x\<in>set (objs os). obj_view rs (the (oname x)) \<noteq> None)"
  using assms
  by (induction os rule: objs.induct)
    (auto simp: object_find_view dest: obj_view_SomeD split: option.splits if_splits)

lemma properties_Compare_iff:
  assumes "props_named ps" "props_named qs"
  shows "properties_Compare mk ps qs = Some 0 \<longleftrightarrow>
    (\<forall>p\<in>set (props ps). \<exists>q. prop_view qs (the (pname p)) = Some q \<and> rbusProperty_Compare mk p q = Some 0)"
  using assms
proof (induction ps rule: props.induct)
  case 1
  then show ?case by (simp add: properties_Compare.simps)
next
  case (2 a n v nx)
  obtain s where n: "n = Some s" and nx: "props_named nx"
    using "2.prems"(1) by auto
  show ?case
    using "2.IH" [OF nx "2.prems"(2)] "2.prems"(2)
    by (auto simp: properties_Compare.simps property_find_view n dest: prop_view_SomeD
        split: option.splits bind_splits if_splits)
qed

lemma objects_Compare_iff:
  assumes "objs_named os" "objs_named rs"
  shows "objects_Compare mk os rs = Some 0 \<longleftrightarrow>
    (\<forall>x\<in>set (objs os). \<exists>y. obj_view rs (the (oname x)) = Some y \<and> rbusObject_Compare mk x y True = Some 0)"
  using assms
proof (induction os rule: objs.induct)
  case 1
  then show ?case by (simp add: objects_Compare.simps)
next
  case (2 a n t ps ch nx)
  obtain s where n: "n = Some s" and nx: "objs_named nx"
    using "2.prems"(1) by auto
  show ?case
    using "2.IH" [OF nx "2.prems"(2)] "2.prems"(2)
    by (auto simp: objects_Compare.simps object_find_view n dest: obj_view_SomeD
        split: option.splits bind_splits if_splits)
qed

lemma prop_view_dom: "props_named ps \<Longrightarrow> dom (prop_view ps) = (\<lambda>p. the (pname p)) ` set (props ps)"
  by (induction ps rule: props.induct) (auto simp: dom_def set_eq_iff split: if_splits)

lemma obj_view_dom: "objs_named os \<Longrightarrow> dom (obj_view os) = (\<lambda>x. the (oname x)) ` set (objs os)"
  by (induction os rule: objs.induct) (auto simp: dom_def set_eq_iff split: if_splits)

lemma covered_dom:
  "props_named ps \<Longrightarrow> props_named qs \<Longrightarrow>
   properties_covered ps qs = Some 0 \<longleftrightarrow> dom (prop_view ps) \<subseteq> dom (prop_view qs)"
  "objs_named os \<Longrightarrow> objs_named rs \<Longrightarrow>
   objects_covered os rs = Some 0 \<longleftrightarrow> dom (obj_view os) \<subseteq> dom (obj_view rs)"
  by (auto simp: properties_covered_iff objects_covered_iff prop_view_dom [of ps] obj_view_dom [of os]
      image_subset_iff)

text \<open>
  The specification of equality of two lists of properties, and of two lists of children:
  the same names, and for every element of the first list an equal one in the view of the
  second.
\<close>

definition same_properties :: "(rbusDateTime \<Rightarrow> int) \<Rightarrow> rbusProperty_t \<Rightarrow> rbusProperty_t \<Rightarrow> bool" where
  "same_properties mk ps qs \<longleftrightarrow> dom (prop_view ps) = dom (prop_view qs) \<and>
     (\<forall>p\<in>set (props ps). \<exists>q. prop_view qs (the (pname p)) = Some q \<and> rbusProperty_Compare mk p q = Some 0)"

definition same_children :: "(rbusDateTime \<Rightarrow> int) \<Rightarrow> rbusObject_t \<Rightarrow> rbusObject_t \<Rightarrow> bool" where
  "same_children mk os rs \<longleftrightarrow> dom (obj_view os) = dom (obj_view rs) \<and>
     (\<forall>x\<in>set (objs os). \<exists>y. obj_view rs (the (oname x)) = Some y \<and> rbusObject_Compare mk x y True = Some 0)"

lemma same_properties_iff:
  assumes "props_named ps" "props_named qs"
  shows "same_properties mk ps qs \<longleftrightarrow> properties_Compare mk ps qs = Some 0 \<and> properties_covered qs ps = Some 0"
  unfolding same_properties_def properties_Compare_iff [OF assms] covered_dom(1) [OF assms(2,1)]
  by (auto simp: prop_view_dom [OF assms(1)])

lemma same_children_iff:
  assumes "objs_named os" "objs_named rs"
  shows "same_children mk os rs \<longleftrightarrow> objects_Compare mk os rs = Some 0 \<and> objects_covered rs os = Some 0"
  unfolding same_children_def objects_Compare_iff [OF assms] covered_dom(2) [OF assms(2,1)]
  by (auto simp: obj_view_dom [OF assms(1)])

text \<open>
  C24. Two different objects whose elements all have names compare equal exactly when they have
  the same name, equal properties under the same names and, when asked to go into the
  children, equal children under the same names; the order of the lists plays no role.
\<close>

theorem Object_Compare_equal:
  assumes "a1 \<noteq> a2" "props_named ps1" "props_named ps2" "objs_named ch1" "objs_named ch2"
  shows "rbusObject_Compare mk (Object a1 (Some n1) t1 ps1 ch1 nx1) (Object a2 (Some n2) t2 ps2 ch2 nx2) recur
      = Some 0 \<longleftrightarrow>
    n1 = n2 \<and> same_properties mk ps1 ps2 \<and> (recur \<longrightarrow> same_children mk ch1 ch2)"
  using assms
  by (auto simp: rbusObject_Compare.simps same_properties_iff same_children_iff
      split: bind_splits if_splits)

theorem Object_Compare_equal_witness:
  "rbusObject_Compare (\<lambda>_. 0)
     (Object 1 (Some ''o'') RBUS_OBJECT_SINGLE_INSTANCE
        (Property 3 (Some ''p'') (Value 4 (DInt32 1)) (Property 5 (Some ''q'') NullV NullP)) NullO NullO)
     (Object 2 (Some ''o'') RBUS_OBJECT_SINGLE_INSTANCE
        (Property 6 (Some ''q'') NullV (Property 7 (Some ''p'') (Value 8 (DUInt8 1)) NullP)) NullO NullO) True
   = Some 0"
proof -
  have v: "rbusValue_Compare (\<lambda>_. 0) (Value 4 (DInt32 1)) (Value 8 (DUInt8 1)) = Some 0"
    by (simp add: data_Compare_cases numeric_def numeric_Compare_def dbl_of_int_def)
  show ?thesis
    by (subst Object_Compare_equal)
      (auto simp: same_properties_def same_children_def dom_def rbusProperty_Compare.simps v
        rbusValue_Compare.simps(1))
qed

end
