(* ===== verification/RB_ValueCodec.thy ===== *)
theory RB_ValueCodec
  imports RB_Value
begin

text \<open>
  The wire form of values: \<open>rbusValue_Encode\<close>, \<open>rbusValue_Decode\<close> and the raw access functions
  \<open>GetV\<close>, \<open>GetL\<close>, \<open>SetTLV\<close> of \<^verbatim>\<open>src/src/rbus/rbus_value.c\<close>. The codec is an instance of the
  interface \<open>wire_format\<close>, from which the round trip of a sequence of values follows.
\<close>

section \<open>Encoding\<close>

definition encode_buffer ::
  "(rbusBuffer \<Rightarrow> mem option \<Rightarrow> int \<Rightarrow> rbusBuffer run) \<Rightarrow> (rbusBuffer \<Rightarrow> bool) \<Rightarrow>
   rbusBuffer option \<Rightarrow> rbusBuffer \<Rightarrow> rbusBuffer run" where
  "encode_buffer write ok bo buff =
     (case bo of
        None \<Rightarrow> None
      | Some c \<Rightarrow> if posWrite c \<le> lenAlloc c \<and> posRead c = 0 \<and> ok c
                then write buff (Some (data c)) (posWrite c) else None)"

definition rbusValue_Encode :: "rbusBuffer \<Rightarrow> rbusValue_t \<Rightarrow> rbusBuffer run" where
  "rbusValue_Encode buff v =
     (case v of NullV \<Rightarrow> Some buff
      | Value _ d \<Rightarrow>
        (case d of
           DString bo \<Rightarrow> encode_buffer rbusBuffer_WriteStringTLV string_length_ok bo buff
         | DBytes bo \<Rightarrow> encode_buffer rbusBuffer_WriteBytesTLV (\<lambda>_. True) bo buff
         | DBoolean x \<Rightarrow> rbusBuffer_WriteBooleanTLV buff x
         | DInt32 i \<Rightarrow> rbusBuffer_WriteInt32TLV buff i
         | DUInt32 i \<Rightarrow> rbusBuffer_WriteUInt32TLV buff i
         | DChar w \<Rightarrow> rbusBuffer_WriteCharTLV buff w
         | DByte w \<Rightarrow> rbusBuffer_WriteByteTLV buff w
         | DInt8 w \<Rightarrow> rbusBuffer_WriteInt8TLV buff w
         | DUInt8 w \<Rightarrow> rbusBuffer_WriteUInt8TLV buff w
         | DInt16 h \<Rightarrow> rbusBuffer_WriteInt16TLV buff h
         | DUInt16 h \<Rightarrow> rbusBuffer_WriteUInt16TLV buff h
         | DInt64 q \<Rightarrow> rbusBuffer_WriteInt64TLV buff q
         | DUInt64 q \<Rightarrow> rbusBuffer_WriteUInt64TLV buff q
         | DSingle i \<Rightarrow> rbusBuffer_WriteSingleTLV buff i
         | DDouble q \<Rightarrow> rbusBuffer_WriteDoubleTLV buff q
         | DDateTime t \<Rightarrow> rbusBuffer_WriteDateTimeTLV buff (Some t)
         | _ \<Rightarrow> None))"

section \<open>Decoding\<close>

text \<open>
  The result is the return code, the value (\<open>None\<close> when it has been released again) and the
  buffer. A value read from indeterminate bytes, or a boolean from a byte other than 0 and 1,
  is not a value: the model has no result there.
\<close>

type_synonym decoded = "int \<times> rbusValue_t option \<times> rbusBuffer"

definition decode_scalar ::
  "addr \<Rightarrow> ('a \<Rightarrow> rbusData) \<Rightarrow> (int \<times> 'a option \<times> rbusBuffer) run \<Rightarrow> decoded run" where
  "decode_scalar a con r =
     do { (rc, x, buff) \<leftarrow> r;
          if rc \<noteq> 0 then Some (- 1, None, buff)
          else do { x \<leftarrow> x; Some (rc, Some (Value a (con x)), buff) } }"

text \<open>The memory the pointer \<open>buff->data + buff->posRead\<close> points at.\<close>

definition read_ptr :: "rbusBuffer \<Rightarrow> mem" where
  "read_ptr buff = drop (nat (posRead buff)) (data buff)"

definition decode_buffer :: "addr \<Rightarrow> u16 \<Rightarrow> (mem \<Rightarrow> rbusData run) \<Rightarrow> rbusBuffer \<Rightarrow> decoded run" where
  "decode_buffer a len put buff =
     do { e \<leftarrow> cint (posRead buff + uint len);
          if \<not> e \<le> lenAlloc buff then Some (- 1, None, buff)
          else do { d \<leftarrow> put (read_ptr buff);
                    Some (uint len, Some (Value a d), buff\<lparr>posRead := e\<rparr>) } }"

definition decode_string :: "u16 \<Rightarrow> mem \<Rightarrow> rbusData run" where
  "decode_string len p =
     do { n \<leftarrow> strlen p;
          if n + 1 = uint len then data_SetString (DString None) (Some p) else None }"

text \<open>The \<open>switch\<close> on the type, after both header fields have been read.\<close>

definition decode_payload :: "addr \<Rightarrow> rbusValueType \<Rightarrow> u16 \<Rightarrow> rbusBuffer \<Rightarrow> decoded run" where
  "decode_payload a t len buff =
     (case t of
        RBUS_STRING \<Rightarrow> decode_buffer a len (decode_string len) buff
      | RBUS_BYTES \<Rightarrow> decode_buffer a len (\<lambda>p. data_SetBytes (DBytes None) (Some p) (uint len)) buff
      | RBUS_BOOLEAN \<Rightarrow> decode_scalar a DBoolean (rbusBuffer_ReadBoolean buff)
      | RBUS_INT32 \<Rightarrow> decode_scalar a DInt32 (rbusBuffer_ReadInt32 buff)
      | RBUS_UINT32 \<Rightarrow> decode_scalar a DUInt32 (rbusBuffer_ReadUInt32 buff)
      | RBUS_CHAR \<Rightarrow> decode_scalar a DChar (rbusBuffer_ReadChar buff)
      | RBUS_BYTE \<Rightarrow> decode_scalar a DByte (rbusBuffer_ReadByte buff)
      | RBUS_INT8 \<Rightarrow> decode_scalar a DInt8 (rbusBuffer_ReadInt8 buff)
      | RBUS_UINT8 \<Rightarrow> decode_scalar a DUInt8 (rbusBuffer_ReadUInt8 buff)
      | RBUS_INT16 \<Rightarrow> decode_scalar a DInt16 (rbusBuffer_ReadInt16 buff)
      | RBUS_UINT16 \<Rightarrow> decode_scalar a DUInt16 (rbusBuffer_ReadUInt16 buff)
      | RBUS_INT64 \<Rightarrow> decode_scalar a DInt64 (rbusBuffer_ReadInt64 buff)
      | RBUS_UINT64 \<Rightarrow> decode_scalar a DUInt64 (rbusBuffer_ReadUInt64 buff)
      | RBUS_SINGLE \<Rightarrow> decode_scalar a DSingle (rbusBuffer_ReadSingle buff)
      | RBUS_DOUBLE \<Rightarrow> decode_scalar a DDouble (rbusBuffer_ReadDouble buff)
      | RBUS_DATETIME \<Rightarrow> decode_scalar a DDateTime (rbusBuffer_ReadDateTime buff)
      | _ \<Rightarrow> None)"

definition rbusValue_Decode :: "addr \<Rightarrow> rbusBuffer \<Rightarrow> decoded run" where
  "rbusValue_Decode a buff =
     do { (rc, ty, buff) \<leftarrow> rbusBuffer_ReadUInt16 buff;
          if rc \<noteq> 0 then Some (- 1, None, buff)
          else do {
            (rc, len, buff) \<leftarrow> rbusBuffer_ReadUInt16 buff;
            if rc \<noteq> 0 then Some (- 1, None, buff)
            else do { ty \<leftarrow> ty; len \<leftarrow> len; t \<leftarrow> vtype_of_code ty; decode_payload a t len buff } } }"

section \<open>Raw access\<close>

text \<open>
  The bytes of the union member the type selects, on a little-endian machine; for a date-time
  with its padding.
\<close>

fun data_image :: "rbusData \<Rightarrow> mem" where
  "data_image (DBoolean x) = byteB x" | "data_image (DChar w) = bytes8 w"
| "data_image (DByte w) = bytes8 w" | "data_image (DInt8 w) = bytes8 w"
| "data_image (DUInt8 w) = bytes8 w" | "data_image (DInt16 h) = bytes16 h"
| "data_image (DUInt16 h) = bytes16 h" | "data_image (DInt32 i) = bytes32 i"
| "data_image (DUInt32 i) = bytes32 i" | "data_image (DInt64 q) = bytes64 q"
| "data_image (DUInt64 q) = bytes64 q" | "data_image (DSingle i) = bytes32 i"
| "data_image (DDouble q) = bytes64 q" | "data_image (DDateTime t) = datetime_image t"
| "data_image (DString (Some b)) = written b" | "data_image (DBytes (Some b)) = written b"
| "data_image _ = []"

definition rbusValue_GetV :: "rbusValue_t \<Rightarrow> mem option run" where
  "rbusValue_GetV v =
     (case v of NullV \<Rightarrow> Some None
      | Value _ (DString bo) \<Rightarrow> map_option (\<lambda>b. Some (data b)) bo
      | Value _ (DBytes bo) \<Rightarrow> map_option (\<lambda>b. Some (data b)) bo
      | Value _ d \<Rightarrow> Some (Some (data_image d)))"

definition rbusValue_GetL :: "rbusValue_t \<Rightarrow> u32 run" where
  "rbusValue_GetL v =
     (case v of NullV \<Rightarrow> Some 1
      | Value _ (DString bo) \<Rightarrow> map_option (\<lambda>b. word_of_int (posWrite b)) bo
      | Value _ (DBytes bo) \<Rightarrow> map_option (\<lambda>b. word_of_int (posWrite b)) bo
      | Value _ d \<Rightarrow> Some (word_of_nat (length (data_image d))))"

text \<open>
  \<open>SetTLV\<close> copies the bytes into the union, which is cleared before, and then asserts that
  the length is the length of the type.
\<close>

definition data_of_bytes :: "rbusValueType \<Rightarrow> mem \<Rightarrow> rbusData run" where
  "data_of_bytes ty m =
     (case ty of
        RBUS_BOOLEAN \<Rightarrow> do { x \<leftarrow> Option.bind (det m) conv_bool; Some (DBoolean x) }
      | RBUS_CHAR \<Rightarrow> do { x \<leftarrow> det m; Some (DChar (of_le_bytes x)) }
      | RBUS_BYTE \<Rightarrow> do { x \<leftarrow> det m; Some (DByte (of_le_bytes x)) }
      | RBUS_INT8 \<Rightarrow> do { x \<leftarrow> det m; Some (DInt8 (of_le_bytes x)) }
      | RBUS_UINT8 \<Rightarrow> do { x \<leftarrow> det m; Some (DUInt8 (of_le_bytes x)) }
      | RBUS_INT16 \<Rightarrow> do { x \<leftarrow> det m; Some (DInt16 (of_le_bytes x)) }
      | RBUS_UINT16 \<Rightarrow> do { x \<leftarrow> det m; Some (DUInt16 (of_le_bytes x)) }
      | RBUS_INT32 \<Rightarrow> do { x \<leftarrow> det m; Some (DInt32 (of_le_bytes x)) }
      | RBUS_UINT32 \<Rightarrow> do { x \<leftarrow> det m; Some (DUInt32 (of_le_bytes x)) }
      | RBUS_INT64 \<Rightarrow> do { x \<leftarrow> det m; Some (DInt64 (of_le_bytes x)) }
      | RBUS_UINT64 \<Rightarrow> do { x \<leftarrow> det m; Some (DUInt64 (of_le_bytes x)) }
      | RBUS_SINGLE \<Rightarrow> do { x \<leftarrow> det m; Some (DSingle (of_le_bytes x)) }
      | RBUS_DOUBLE \<Rightarrow> do { x \<leftarrow> det m; Some (DDouble (of_le_bytes x)) }
      | RBUS_DATETIME \<Rightarrow> do { x \<leftarrow> Option.bind (det (take 45 m)) conv_datetime; Some (DDateTime x) }
      | RBUS_PROPERTY \<Rightarrow> Some (DProperty NullP)
      | RBUS_OBJECT \<Rightarrow> Some (DObject NullO)
      | RBUS_NONE \<Rightarrow> Some DNone
      | _ \<Rightarrow> None)"

definition rbusValue_SetTLV ::
  "rbusValue_t \<Rightarrow> rbusValueType \<Rightarrow> u32 \<Rightarrow> mem option \<Rightarrow> rbusValue_t run" where
  "rbusValue_SetTLV v ty len value =
     (case v of NullV \<Rightarrow> Some v
      | Value a d \<Rightarrow>
        (case value of None \<Rightarrow> Some v
         | Some p \<Rightarrow>
             do { d \<leftarrow> (case ty of
                         RBUS_STRING \<Rightarrow> data_SetString d (Some p)
                       | RBUS_BYTES \<Rightarrow> data_SetBytes d (Some p) (sint len)
                       | _ \<Rightarrow> do { _ \<leftarrow> rbusValue_FreeInternal d;
                                  m \<leftarrow> mem_read p 0 (uint len);
                                  data_of_bytes ty m });
                  l \<leftarrow> rbusValue_GetL (Value a d);
                  if l = len then Some (Value a d) else None }))"

section \<open>The wire format of values\<close>

fun encodable :: "rbusData \<Rightarrow> bool" where
  "encodable (DString bo) \<longleftrightarrow> data_inv (DString bo) \<and> (case bo of None \<Rightarrow> False | Some b \<Rightarrow> posWrite b < 65536)"
| "encodable (DBytes bo) \<longleftrightarrow> data_inv (DBytes bo) \<and> (case bo of None \<Rightarrow> False | Some b \<Rightarrow> posWrite b < 65536)"
| "encodable (DProperty _) \<longleftrightarrow> False"
| "encodable (DObject _) \<longleftrightarrow> False"
| "encodable DNone \<longleftrightarrow> False"
| "encodable _ \<longleftrightarrow> True"

definition wf_value :: "rbusValue_t \<Rightarrow> bool" where
  "wf_value v \<longleftrightarrow> (case v of NullV \<Rightarrow> False | Value _ d \<Rightarrow> encodable d)"

definition wire_value :: "rbusValue_t \<Rightarrow> mem" where
  "wire_value v = (case v of NullV \<Rightarrow> [] | Value _ d \<Rightarrow> tlv (data_type d) (data_image d))"

lemma vtype_of_code_inv [simp]: "vtype_of_code (word_of_int (vtype_code t)) = Some t"
  by (cases t) (simp_all add: vtype_of_code_def all_vtypes_def)

lemma encodable_image: "encodable d \<Longrightarrow> length (data_image d) < 65536"
  by (cases d) (auto dest!: length_written split: option.splits)

lemmas tlv_writer_defs =
  rbusBuffer_WriteStringTLV_def rbusBuffer_WriteBooleanTLV_def rbusBuffer_WriteCharTLV_def
  rbusBuffer_WriteByteTLV_def rbusBuffer_WriteInt8TLV_def rbusBuffer_WriteUInt8TLV_def
  rbusBuffer_WriteInt16TLV_def rbusBuffer_WriteUInt16TLV_def rbusBuffer_WriteInt32TLV_def
  rbusBuffer_WriteUInt32TLV_def rbusBuffer_WriteInt64TLV_def rbusBuffer_WriteUInt64TLV_def
  rbusBuffer_WriteSingleTLV_def rbusBuffer_WriteDoubleTLV_def rbusBuffer_WriteDateTimeTLV_def
  rbusBuffer_WriteBytesTLV_def

lemmas reader_defs =
  rbusBuffer_ReadBoolean_def rbusBuffer_ReadChar_def rbusBuffer_ReadByte_def
  rbusBuffer_ReadInt8_def rbusBuffer_ReadUInt8_def rbusBuffer_ReadInt16_def
  rbusBuffer_ReadUInt16_def rbusBuffer_ReadInt32_def rbusBuffer_ReadUInt32_def
  rbusBuffer_ReadInt64_def rbusBuffer_ReadUInt64_def rbusBuffer_ReadSingle_def
  rbusBuffer_ReadDouble_def

lemma encode_buffer_writes:
  assumes "buf_inv b" "buf_inv c" "posRead c = 0" "ok c" "posWrite c < 65536"
    and "room (4 + length (written c)) b"
    and w: "\<And>b p n. wr b p n = rbusBuffer_WriteTypeLengthValue b ty (word_of_int n) p"
  shows "writes b (tlv ty (written c)) (encode_buffer wr ok (Some c) b)"
proof -
  have pos: "0 \<le> posWrite c" and n: "posWrite c = int (nat (posWrite c))"
    "nat (posWrite c) \<le> length (data c)" "posWrite c \<le> lenAlloc c"
    using assms(2) by (auto simp: buf_inv_def)
  have wn: "word_of_int (posWrite c) = (word_of_nat (nat (posWrite c)) :: u16)"
    using pos by (metis int_nat_eq of_int_of_nat_eq)
  have l: "length (written c) = nat (posWrite c)"
    using length_written [OF assms(2)] by simp
  have "writes b (tlv ty (take (nat (posWrite c)) (data c)))
      (rbusBuffer_WriteTypeLengthValue b ty (word_of_int (posWrite c)) (Some (data c)))"
    unfolding wn by (rule WriteTLV_prefix) (use assms(1,5,6) n(2) l pos in simp_all)
  then show ?thesis
    using assms n by (simp add: encode_buffer_def written_def)
qed

lemma Encode_writes:
  assumes "wf_value v" "buf_inv b" "room (length (wire_value v)) b"
  shows "writes b (wire_value v) (rbusValue_Encode b v)"
proof -
  obtain a d where v: "v = Value a d" "encodable d"
    using assms(1) by (auto simp: wf_value_def split: rbusValue_t.splits)
  have rm: "room (4 + length (data_image d)) b"
    using assms(3) v by (simp add: wire_value_def)
  consider c where "d = DString (Some c)" | c where "d = DBytes (Some c)" | "sel_bytes d = None" "encodable d"
    using v(2) by (cases d) (auto split: option.splits)
  then show ?thesis
  proof cases
    case 1
    then show ?thesis
      using v rm assms(2)
      by (auto simp: rbusValue_Encode_def wire_value_def tlv_writer_defs intro!: encode_buffer_writes)
  next
    case 2
    then show ?thesis
      using v rm assms(2)
      by (auto simp: rbusValue_Encode_def wire_value_def tlv_writer_defs intro!: encode_buffer_writes)
  next
    case 3
    then show ?thesis
      using v rm assms(2)
      by (cases d) (auto simp: rbusValue_Encode_def wire_value_def tlv_writer_defs
          split: option.splits intro!: WriteTLV_ok)
  qed
qed

text \<open>
  Reading back: the two header fields, then the data. \<open>not_full\<close> is needed because
  \<open>rbusBuffer_Read\<close> refuses to read up to the very end of the block.
\<close>

lemma tlv_header:
  assumes "buf_inv b" "not_full b" "unread b = tlv ty img @ rest"
  shows "rbusBuffer_ReadUInt16 b = Some (0, Some (word_of_int (vtype_code ty)), advance 2 b)"
    "rbusBuffer_ReadUInt16 (advance 2 b) = Some (0, Some (word_of_nat (length img)), advance 4 b)"
    "buf_inv (advance 4 b)" "unread (advance 4 b) = img @ rest"
proof -
  have u: "unread b = bytes16 (word_of_int (vtype_code ty)) @ bytes16 (word_of_nat (length img)) @ img @ rest"
    using assms(3) by (simp add: tlv_def)
  show "rbusBuffer_ReadUInt16 b = Some (0, Some (word_of_int (vtype_code ty)), advance 2 b)"
    using ReadUInt16_ok [OF assms(1,2) u] .
  note s1 = unread_split(3) [OF assms(1) u] advance_inv [OF assms(1) u]
  have u1: "unread (advance 2 b) = bytes16 (word_of_nat (length img)) @ img @ rest" "buf_inv (advance 2 b)"
    using s1 by simp_all
  show "rbusBuffer_ReadUInt16 (advance 2 b) = Some (0, Some (word_of_nat (length img)), advance 4 b)"
    using ReadUInt16_ok [OF u1(2) _ u1(1)] assms(2) by simp
  show "buf_inv (advance 4 b)" "unread (advance 4 b) = img @ rest"
    using unread_split(3) [OF u1(2,1)] advance_inv [OF u1(2,1)] by simp_all
qed

lemma decode_scalar_read:
  assumes "buf_inv b" "not_full b" "unread b = map Some bs @ rest" "bs \<noteq> []" "conv bs = Some x"
    and "n = int (length bs)"
  shows "decode_scalar a con (read_fixed conv n b) = Some (0, Some (Value a (con x)), advance (length bs) b)"
  using read_fixed_ok [OF assms(1-4), of conv] assms(5,6) by (simp add: decode_scalar_def)

lemma decode_datetime_read:
  assumes "buf_inv b" "not_full b" "unread b = datetime_image t @ rest"
  shows "decode_scalar a con (rbusBuffer_ReadDateTime b) = Some (0, Some (Value a (con t)), advance 48 b)"
proof -
  have "rbusBuffer_Read b 48 = Some (0, datetime_image t, advance 48 b)"
    using Read_ok [OF assms(1,2,3)] by simp
  moreover have "take 45 (datetime_image t) = map Some (datetime_bytes t)"
    by (simp add: datetime_image_eq)
  ultimately show ?thesis
    by (simp add: decode_scalar_def rbusBuffer_ReadDateTime_def)
qed

lemma read_ptr_unread:
  assumes "buf_inv b" "unread b = img @ rest"
  shows "\<exists>xs. read_ptr b = img @ xs" "posRead b + int (length img) \<le> lenAlloc b"
    "int_range (posRead b + int (length img))"
proof -
  show le: "posRead b + int (length img) \<le> lenAlloc b"
    using unread_split(1) [OF assms] assms(1) by (auto simp: buf_inv_def)
  then show "int_range (posRead b + int (length img))"
    using assms(1) by (intro int_rangeI) (auto simp: buf_inv_def)
  have "read_ptr b = drop (nat (posRead b)) (written b @ drop (nat (posWrite b)) (data b))"
    by (simp add: read_ptr_def written_def)
  then show "\<exists>xs. read_ptr b = img @ xs" using assms(2) by (simp add: unread_def)
qed

lemma decode_buffer_read:
  assumes "buf_inv b" "unread b = img @ rest" "uint len = int (length img)"
    and "\<And>xs. \<exists>d. put (img @ xs) = Some d \<and> P d"
  shows "\<exists>d. decode_buffer a len put b = Some (int (length img), Some (Value a d), advance (length img) b) \<and> P d"
proof -
  obtain xs where "read_ptr b = img @ xs" using read_ptr_unread(1) [OF assms(1,2)] by blast
  moreover obtain d where "put (img @ xs) = Some d" "P d" using assms(4) by blast
  ultimately show ?thesis
    using read_ptr_unread(2,3) [OF assms(1,2)] assms(3)
    by (simp add: decode_buffer_def advance_def)
qed

lemma decode_string_image:
  assumes "data_inv (DString (Some c))" "posWrite c < 65536" "uint len = int (length (written c))"
  shows "\<exists>d. decode_string len (written c @ xs) = Some d \<and> data_inv d \<and> same_data (DString (Some c)) d"
proof -
  obtain s where s: "written c = map Some s @ [Some 0]" "0 \<notin> set s" "posWrite c = int (length s) + 1"
    using string_contents [OF assms(1)] by metis
  have cs: "cstr (written c @ xs) = Some s" using s(1,2) by simp
  have "Suc (length s) \<le> MAX_BLOCK" using s(3) assms(2) by (simp add: MAX_BLOCK_def)
  then obtain b where "data_SetString (DString None) (Some (written c @ xs)) = Some (DString (Some b))"
    "data_inv (DString (Some b))" "written b = map Some s @ [Some 0]"
    using SetString_ok [OF _ cs, of "DString None"] by auto
  then show ?thesis
    using cs s assms(3) by (simp add: decode_string_def strlen_def)
qed

lemma decode_bytes_image:
  assumes "data_inv (DBytes (Some c))" "posWrite c < 65536" "uint len = int (length (written c))"
  shows "\<exists>d. data_SetBytes (DBytes None) (Some (written c @ xs)) (uint len) = Some d \<and> data_inv d \<and>
    same_data (DBytes (Some c)) d"
proof -
  have "int (length (written c)) = posWrite c" using length_written assms(1) by simp
  then have "length (written c) \<le> MAX_BLOCK" using assms(2) by (simp add: MAX_BLOCK_def)
  then obtain b where "rbusValue_SetBufferData (DBytes None) (written c @ xs) (int (length (written c))) DBytes
      = Some (DBytes (Some b))" "buf_inv b" "posRead b = 0" "written b = written c"
    using SetBufferData_ok [of "DBytes None" "length (written c)" "written c @ xs" DBytes] by auto
  then show ?thesis using assms(3) by (simp add: data_SetBytes_def)
qed

lemma same_data_refl: "same_data d d"
  by (cases d rule: data_inv.cases) auto

lemma decode_payload_reads:
  assumes "encodable d" "buf_inv b" "not_full b" "unread b = data_image d @ rest"
    and "uint len = int (length (data_image d))"
  shows "\<exists>rc e. decode_payload a (data_type d) len b
      = Some (rc, Some (Value a e), advance (length (data_image d)) b) \<and> 0 \<le> rc \<and>
      data_inv e \<and> same_data d e"
proof -
  consider c where "d = DString (Some c)" | c where "d = DBytes (Some c)"
    | t where "d = DDateTime t" | x where "d = DBoolean x"
    | "sel_bytes d = None" "\<forall>t. d \<noteq> DDateTime t" "\<forall>x. d \<noteq> DBoolean x"
    using assms(1) by (cases d) (auto split: option.splits)
  then show ?thesis
  proof cases
    case 1
    show ?thesis
      using decode_buffer_read [OF assms(2,4,5), of "decode_string len" "\<lambda>e. data_inv e \<and> same_data d e" a]
        decode_string_image [of c len] 1 assms(1,5) by (auto simp: decode_payload_def)
  next
    case 2
    show ?thesis
      using decode_buffer_read [OF assms(2,4,5), of "\<lambda>p. data_SetBytes (DBytes None) (Some p) (uint len)"
          "\<lambda>e. data_inv e \<and> same_data d e" a]
        decode_bytes_image [of c len] 2 assms(1,5) by (auto simp: decode_payload_def)
  next
    case 3
    then show ?thesis
      using decode_datetime_read [OF assms(2,3)] assms(4) by (auto simp: decode_payload_def)
  next
    case 4
    then have "unread b = map Some [if x then 1 else 0] @ rest" using assms(4) by (simp add: byteB_def)
    from decode_scalar_read [OF assms(2,3) this, of conv_bool x 1 a DBoolean] show ?thesis
      using 4 by (simp add: decode_payload_def rbusBuffer_ReadBoolean_def conv_bool_def)
  next
    case 5
    note rd = decode_scalar_read [OF assms(2,3), where conv = conv_word, unfolded conv_word_def, simplified]
    have rd1: "decode_scalar a con (read_fixed (\<lambda>bs. Some (of_le_bytes bs)) 1 b)
        = Some (0, Some (Value a (con w)), advance (Suc 0) b)"
      if "unread b = Some w # rest" for con :: "u8 \<Rightarrow> rbusData" and w
      using decode_scalar_read [OF assms(2,3), of "[w]" rest "\<lambda>bs. Some (of_le_bytes bs)" w 1 a con] that
      by simp
    show ?thesis
      using 5 assms(1,4)
      by (cases d) (auto simp: rd1 decode_payload_def reader_defs conv_word_def [abs_def] bytes8_def bytes16_def
          bytes32_def bytes64_def rd)
  qed
qed

lemma Decode_reads:
  assumes "wf_value v" "buf_inv b" "not_full b" "unread b = wire_value v @ rest"
  shows "\<exists>rc w. rbusValue_Decode a b = Some (rc, Some w, advance (length (wire_value v)) b) \<and> 0 \<le> rc \<and>
    vaddr w = a \<and> w \<noteq> NullV \<and> val_inv w \<and> same_value v w"
proof -
  obtain x d where v: "v = Value x d" "encodable d"
    using assms(1) by (auto simp: wf_value_def split: rbusValue_t.splits)
  define len :: u16 where "len = word_of_nat (length (data_image d))"
  have len: "uint len = int (length (data_image d))"
    using encodable_image [OF v(2)] by (simp add: len_def unsigned_of_nat take_bit_nat_eq_self)
  have u: "unread b = tlv (data_type d) (data_image d) @ rest"
    using assms(4) v(1) by (simp add: wire_value_def)
  note h = tlv_header [OF assms(2,3) u, folded len_def]
  have nf: "not_full (advance 4 b)" using assms(3) by simp
  have adv: "advance (length (wire_value v)) b = advance (length (data_image d)) (advance 4 b)"
    by (simp add: wire_value_def v(1) add.commute)
  have "\<exists>rc e. decode_payload a (data_type d) len (advance 4 b)
      = Some (rc, Some (Value a e), advance (length (data_image d)) (advance 4 b)) \<and> 0 \<le> rc \<and>
      data_inv e \<and> same_data d e"
    using decode_payload_reads [OF v(2) h(3) nf h(4) len] .
  then show ?thesis
    using h(1,2) unfolding adv
    by (auto simp: rbusValue_Decode_def v(1) val_inv_def same_value_def)
qed

text \<open>The codec as an instance of the interface; \<open>a\<close> is the address the decoded value gets.\<close>

definition get_value :: "addr \<Rightarrow> rbusBuffer \<Rightarrow> (rbusValue_t \<times> rbusBuffer) run" where
  "get_value a b =
     (case rbusValue_Decode a b of
        Some (rc, Some v, b') \<Rightarrow> if rc < 0 then None else Some (v, b') | _ \<Rightarrow> None)"

interpretation value_codec: wire_format wire_value wf_value rbusValue_Encode "get_value a" same_value
  for a
proof (unfold_locales, goal_cases)
  case (1 v b)
  then show ?case by (rule Encode_writes)
next
  case (2 v b rest)
  then show ?case using Decode_reads [OF 2, of a] by (auto simp: get_value_def)
next
  case (3 v)
  then show ?case by (cases v) (auto simp: wf_value_def wire_value_def)
qed

text \<open>
  C23. A list of values encoded one after the other into a fresh buffer is decoded to a list of
  values of the same types and contents, and the whole buffer is consumed, unless the encoding
  ends exactly at the end of the buffer's block.
\<close>

theorem Encode_Decode_roundtrip:
  assumes "\<forall>v\<in>set vs. wf_value v" "length (concat (map wire_value vs)) \<le> MAX_BLOCK"
  shows "\<exists>b. put_all rbusValue_Encode rbusBuffer_Create vs = Some b \<and> buf_inv b \<and>
    written b = concat (map wire_value vs) \<and>
    (not_full b \<longrightarrow> (\<exists>ws b'. get_all (get_value a) (length vs) b = Some (ws, b') \<and>
       list_all2 same_value vs ws \<and> unread b' = []))"
proof -
  have r: "room (length (concat (map wire_value vs))) rbusBuffer_Create"
    using assms(2) by (simp add: room_def MAX_BLOCK_def)
  from value_codec.put_all_writes [OF assms(1) buf_inv_Create r] obtain b where
    b: "put_all rbusValue_Encode rbusBuffer_Create vs = Some b" "buf_inv b"
      "written b = concat (map wire_value vs)"
    by (auto simp: writes_def appended_def)
  then show ?thesis
    using value_codec.sequence_roundtrip [OF assms(1) r b(1), of a] by blast
qed

theorem Encode_Decode_roundtrip_witness:
  "\<exists>b ws b'. put_all rbusValue_Encode rbusBuffer_Create [Value 1 (DInt32 5), Value 2 (DBoolean True)] = Some b \<and>
    get_all (get_value 9) 2 b = Some (ws, b') \<and>
    list_all2 same_value [Value 1 (DInt32 5), Value 2 (DBoolean True)] ws"
proof -
  let ?vs = "[Value 1 (DInt32 5), Value 2 (DBoolean True)]"
  from Encode_Decode_roundtrip [of ?vs 9] obtain b where
    b: "put_all rbusValue_Encode rbusBuffer_Create ?vs = Some b" "buf_inv b"
      "written b = concat (map wire_value ?vs)"
      "not_full b \<longrightarrow> (\<exists>ws b'. get_all (get_value 9) (length ?vs) b = Some (ws, b') \<and>
        list_all2 same_value ?vs ws \<and> unread b' = [])"
    by (auto simp: wf_value_def wire_value_def MAX_BLOCK_def)
  moreover have "not_full b"
    using length_written [OF b(2)] b(2,3) by (simp add: not_full_def buf_inv_def wire_value_def)
  moreover have l: "length ?vs = 2" by simp
  ultimately show ?thesis unfolding l by blast
qed

text \<open>
  A value whose encoding ends exactly at the end of the block: the header can be read, the
  data of a scalar cannot.
\<close>

lemma Read_inside:
  assumes "buf_inv b" "unread b = map Some bs @ rest" "bs \<noteq> []" "rest \<noteq> []"
  shows "read_fixed conv (int (length bs)) b = Some (0, conv bs, advance (length bs) b)"
proof -
  have "posRead b + int (length bs) < lenAlloc b"
    using unread_split(1) [OF assms(1), of "map Some bs @ rest" "[]"] assms
    by (auto simp: buf_inv_def neq_Nil_conv)
  moreover from this have "int_range (posRead b + int (length bs))"
    using assms(1) by (intro int_rangeI) (auto simp: buf_inv_def)
  ultimately show ?thesis
    using unread_split(2) [OF assms(1,2)] assms(3)
    by (simp add: read_fixed_def rbusBuffer_Read_def advance_def)
qed

lemma ReadUInt16_inside:
  assumes "buf_inv b" "unread b = bytes16 w @ rest" "rest \<noteq> []"
  shows "rbusBuffer_ReadUInt16 b = Some (0, Some w, advance 2 b)"
    "buf_inv (advance 2 b)" "unread (advance 2 b) = rest"
  using Read_inside [OF assms(1), of "le_bytes 2 w" rest "conv_word :: _ \<Rightarrow> u16 option"]
    unread_split(3) [OF assms(1,2)] advance_inv [OF assms(1,2)] assms(2,3)
  by (simp_all add: rbusBuffer_ReadUInt16_def bytes16_def conv_word_def)

lemma Read_to_end:
  assumes "buf_inv b" "unread b = img" "posWrite b = lenAlloc b" "img \<noteq> []"
  shows "rbusBuffer_Read b (int (length img)) = Some (- 1, [], b)"
proof (rule Read_full [OF assms(1)])
  have "length img = nat (posWrite b) - nat (posRead b)"
    using assms(1,2) by (auto simp: unread_def written_def buf_inv_def)
  moreover have "posRead b + int (length img) \<le> posWrite b"
    using unread_split(1) [OF assms(1), of img "[]"] assms(2,4) by simp
  ultimately show "posRead b + int (length img) = lenAlloc b"
    using assms(1,3,4) by (auto simp: buf_inv_def)
qed

lemma decode_refused:
  assumes "rbusBuffer_Read b n = Some (- 1, [], b)"
  shows "decode_scalar a con (read_fixed conv n b) = Some (- 1, None, b)"
    "n = 48 \<Longrightarrow> decode_scalar a con' (rbusBuffer_ReadDateTime b) = Some (- 1, None, b)"
  using assms by (simp_all add: decode_scalar_def read_fixed_def rbusBuffer_ReadDateTime_def)

text \<open>
  C30. When the encoding of a scalar value ends exactly at the end of the buffer's block, the
  value that was encoded there cannot be decoded: \<open>rbusBuffer_Read\<close> asks for the end of the
  read to be strictly below the size of the block. The decoder returns an error after having
  consumed the header.
\<close>

theorem Decode_full_buffer_fails:
  assumes "buf_inv b" "posWrite b = lenAlloc b" "unread b = wire_value (Value x d)"
    and "encodable d" "sel_bytes d = None"
  shows "rbusValue_Decode a b = Some (- 1, None, advance 4 b)"
proof -
  have ne: "data_image d \<noteq> []" using assms(4,5) by (cases d) auto
  have u: "unread b = bytes16 (word_of_int (vtype_code (data_type d))) @
      (bytes16 (word_of_nat (length (data_image d))) @ data_image d)"
    using assms(3) by (simp add: wire_value_def tlv_def)
  note h1 = ReadUInt16_inside [OF assms(1) u]
  have h1': "buf_inv (advance 2 b)"
    "unread (advance 2 b) = bytes16 (word_of_nat (length (data_image d))) @ data_image d"
    using h1(2,3) by simp_all
  note h2 = ReadUInt16_inside [OF h1' ne]
  have r: "rbusBuffer_Read (advance 4 b) (int (length (data_image d))) = Some (- 1, [], advance 4 b)"
    using Read_to_end [OF h2(2,3) _ ne] assms(2) by simp
  have "decode_payload a (data_type d) (word_of_nat (length (data_image d))) (advance 4 b)
      = Some (- 1, None, advance 4 b)"
    using r assms(4,5)
    by (cases d) (auto simp: decode_payload_def reader_defs decode_refused split: option.splits)
  then show ?thesis
    using h1(1) h2(1) ne by (simp add: rbusValue_Decode_def)
qed

theorem Decode_full_buffer_fails_witness:
  "rbusValue_Decode 1 \<lparr>lenAlloc = 64, posWrite = 64, posRead = 56, onBlock1 = True,
      data = replicate 56 (Some 0) @ wire_value (Value 0 (DInt32 7))\<rparr> =
    Some (- 1, None, advance 4 \<lparr>lenAlloc = 64, posWrite = 64, posRead = 56, onBlock1 = True,
      data = replicate 56 (Some 0) @ wire_value (Value 0 (DInt32 7))\<rparr>)"
  by (rule Decode_full_buffer_fails [where d = "DInt32 7" and x = 0])
    (simp_all add: buf_inv_def unread_def written_def wire_value_def)

text \<open>
  Encoding a value that has no wire form (a property, an object, a value of no type, a
  NULL string or byte block) aborts, whatever the buffer.
\<close>

theorem Encode_unsupported:
  "rbusValue_Encode b (Value a d) = None"
  if "d \<in> {DNone, DString None, DBytes None} \<or> data_type d \<in> {RBUS_PROPERTY, RBUS_OBJECT}"
  using that by (cases d) (auto simp: rbusValue_Encode_def encode_buffer_def)

theorem Encode_unsupported_witness:
  "rbusValue_Encode rbusBuffer_Create (Value 1 (DObject NullO)) = None"
  by (rule Encode_unsupported) simp

text \<open>
  C29. Raw access: setting any well-formed value from the type, length and bytes of an encodable
  value gives it the same data.
\<close>

theorem SetTLV_GetV_roundtrip:
  assumes "data_inv e" "encodable d"
  shows "\<exists>l p w. rbusValue_GetL (Value a d) = Some l \<and> rbusValue_GetV (Value a d) = Some (Some p) \<and>
    rbusValue_SetTLV (Value a' e) (rbusValue_GetType (Value a d)) l (Some p) = Some w \<and>
    val_inv w \<and> same_value (Value a d) w"
proof -
  obtain e' where e': "rbusValue_FreeInternal e = Some e'"
    using FreeInternal_ok [OF assms(1)] by metis
  consider c where "d = DString (Some c)" | c where "d = DBytes (Some c)" | "sel_bytes d = None"
    using assms(2) by (cases d) (auto split: option.splits)
  then show ?thesis
  proof cases
    case 1
    then have "data_inv (DString (Some c))" "posWrite c \<le> int MAX_BLOCK"
      using assms(2) by (auto simp: MAX_BLOCK_def)
    from copy_string [OF assms(1) this] obtain c' where
      c': "data_SetString e (Some (data c)) = Some (DString (Some c'))"
        "data_inv (DString (Some c'))" "written c' = written c" .
    moreover have "posWrite c' = posWrite c"
      using length_written [of c'] length_written [of c] c' 1 assms(2) by auto
    ultimately show ?thesis
      using 1 by (simp add: rbusValue_GetL_def rbusValue_GetV_def rbusValue_SetTLV_def
          rbusValue_GetType_def val_inv_def same_value_def)
  next
    case 2
    then have w: "data_inv (DBytes (Some c))" "posWrite c \<le> int MAX_BLOCK" "posWrite c < 65536" "0 \<le> posWrite c"
      using assms(2) by (auto simp: MAX_BLOCK_def buf_inv_def)
    from copy_bytes [OF assms(1) w(1,2)] obtain c' where
      c': "data_SetBytes e (Some (data c)) (posWrite c) = Some (DBytes (Some c'))"
        "data_inv (DBytes (Some c'))" "written c' = written c" .
    moreover have "posWrite c' = posWrite c"
      using length_written [of c'] length_written [of c] c' 2 assms(2) by auto
    moreover have "sint (word_of_int (posWrite c) :: u32) = posWrite c"
      using w(3,4) by (simp add: signed_of_int signed_take_bit_int_eq_self)
    ultimately show ?thesis
      using 2 by (simp add: rbusValue_GetL_def rbusValue_GetV_def rbusValue_SetTLV_def
          rbusValue_GetType_def val_inv_def same_value_def)
  next
    case 3
    then show ?thesis
      using assms(2) e'
      by (cases d) (auto simp: rbusValue_GetL_def rbusValue_GetV_def rbusValue_SetTLV_def
          rbusValue_GetType_def val_inv_def same_value_def mem_read_def data_of_bytes_def
          bytes8_def byteB_def bytes16_def bytes32_def bytes64_def conv_bool_def datetime_image_eq)
  qed
qed

theorem SetTLV_GetV_roundtrip_witness:
  "\<exists>l p w. rbusValue_GetL (Value 1 (DUInt16 7)) = Some l \<and> rbusValue_GetV (Value 1 (DUInt16 7)) = Some (Some p) \<and>
    rbusValue_SetTLV (Value 2 DNone) (rbusValue_GetType (Value 1 (DUInt16 7))) l (Some p) = Some w \<and>
    val_inv w \<and> same_value (Value 1 (DUInt16 7)) w"
  using SetTLV_GetV_roundtrip [of DNone "DUInt16 7" 1 2] by simp

section \<open>Decoded values have the type that was announced\<close>

text \<open>A reader moves forward within the block, whatever the bytes are.\<close>

definition moved :: "rbusBuffer \<Rightarrow> rbusBuffer \<Rightarrow> bool" where
  "moved b b' \<longleftrightarrow> buf_inv b' \<and> posRead b \<le> posRead b' \<and> b' = b\<lparr>posRead := posRead b'\<rparr>"

lemma moved_trans: "moved b b' \<Longrightarrow> moved b' b'' \<Longrightarrow> moved b b''"
  by (cases b; cases b'; cases b'') (simp add: moved_def)

lemma Read_moves: "buf_inv b \<Longrightarrow> 0 \<le> n \<Longrightarrow> rbusBuffer_Read b n = Some (rc, bs, b') \<Longrightarrow> moved b b'"
  by (auto simp: rbusBuffer_Read_def moved_def buf_inv_def cint_def split: if_splits Option.bind_splits)

lemma read_fixed_moves: "buf_inv b \<Longrightarrow> 0 \<le> n \<Longrightarrow> read_fixed conv n b = Some (rc, x, b') \<Longrightarrow> moved b b'"
  using Read_moves by (auto simp: read_fixed_def split: Option.bind_splits)

lemma decode_scalar_typed:
  assumes "decode_scalar a con r = Some (rc, Some v, b')" "\<And>rc x b'. r = Some (rc, x, b') \<Longrightarrow> moved b b'"
  shows "moved b b' \<and> (\<exists>x. v = Value a (con x))"
  using assms by (auto simp: decode_scalar_def split: Option.bind_splits if_splits)

lemma decode_buffer_typed:
  assumes "decode_buffer a len put b = Some (rc, Some v, b')" "buf_inv b"
    "\<And>p d. put p = Some d \<Longrightarrow> unat len \<le> length p \<Longrightarrow> P d"
  shows "moved b b' \<and> (\<exists>d. v = Value a d \<and> P d)"
proof -
  obtain d where d: "int_range (posRead b + uint len)" "posRead b + uint len \<le> lenAlloc b" "put (read_ptr b) = Some d"
    "v = Value a d" "b' = b\<lparr>posRead := posRead b + uint len\<rparr>"
    using assms(1) by (auto simp: decode_buffer_def cint_def split: Option.bind_splits if_splits)
  have l: "int (unat len) = uint len" by simp
  have "int (length (data b)) = lenAlloc b" "0 \<le> posRead b" using assms(2) by (simp_all add: buf_inv_def)
  then have "unat len \<le> length (read_ptr b)" using d(2) unfolding l [symmetric] read_ptr_def length_drop by linarith
  then show ?thesis using d assms(2) assms(3) [OF d(3)] by (auto simp: moved_def buf_inv_def)
qed

lemma decode_string_typed:
  assumes "decode_string len p = Some d"
  shows "data_type d = RBUS_STRING \<and> data_inv d"
proof -
  obtain s where s: "cstr p = Some s" "int (length s) + 1 = uint len" "data_SetString (DString None) (Some p) = Some d"
    using assms by (auto simp: decode_string_def strlen_def split: Option.bind_splits if_splits)
  have "uint len < 65536" using uint_lt2p [of len] by simp
  then have m: "Suc (length s) \<le> MAX_BLOCK" using s(2) by (simp add: MAX_BLOCK_def)
  show ?thesis by (rule SetString_ok [OF _ s(1) m, of "DString None"]) (use s(3) in simp_all)
qed

lemma decode_bytes_typed:
  fixes len :: u16
  assumes "data_SetBytes (DBytes None) (Some p) (uint len) = Some d" "unat len \<le> length p"
  shows "data_type d = RBUS_BYTES \<and> data_inv d"
proof -
  have l: "int (unat len) = uint len" by simp
  have m: "unat len \<le> MAX_BLOCK" using unsigned_less [of len, where ?'a = nat] by (simp add: MAX_BLOCK_def)
  show ?thesis
    by (rule SetBufferData_ok [of "DBytes None" "unat len" p DBytes]) (use assms m l in \<open>auto simp: data_SetBytes_def\<close>)
qed

lemma fixed_typed:
  assumes "decode_scalar a con (read_fixed conv n b) = Some (rc, Some v, b')" "buf_inv b" "0 \<le> n"
  shows "moved b b' \<and> (\<exists>x. v = Value a (con x))"
  using decode_scalar_typed [OF assms(1)] read_fixed_moves [OF assms(2,3)] by blast

lemma datetime_typed:
  assumes "decode_scalar a con (rbusBuffer_ReadDateTime b) = Some (rc, Some v, b')" "buf_inv b"
  shows "moved b b' \<and> (\<exists>x. v = Value a (con x))"
proof (rule decode_scalar_typed [OF assms(1)])
  fix rc x b'
  assume "rbusBuffer_ReadDateTime b = Some (rc, x, b')"
  then show "moved b b'" using Read_moves [OF assms(2), of 48] by (auto simp: rbusBuffer_ReadDateTime_def split: Option.bind_splits)
qed

lemma decode_payload_typed:
  assumes "decode_payload a t len b = Some (rc, Some v, b')" "buf_inv b"
  shows "moved b b' \<and> (\<exists>d. v = Value a d \<and> data_type d = t \<and> data_inv d)"
proof (cases "t = RBUS_STRING \<or> t = RBUS_BYTES")
  case True
  then consider "t = RBUS_STRING" "decode_buffer a len (decode_string len) b = Some (rc, Some v, b')"
    | "t = RBUS_BYTES" "decode_buffer a len (\<lambda>p. data_SetBytes (DBytes None) (Some p) (uint len)) b = Some (rc, Some v, b')"
    using assms(1) by (auto simp: decode_payload_def)
  then show ?thesis
  proof cases
    case 1
    show ?thesis unfolding 1(1) by (rule decode_buffer_typed [OF 1(2) assms(2)]) (rule decode_string_typed)
  next
    case 2
    show ?thesis unfolding 2(1) by (rule decode_buffer_typed [OF 2(2) assms(2)]) (rule decode_bytes_typed)
  qed
next
  case False
  then show ?thesis using assms
    by (cases t) (simp_all add: decode_payload_def reader_defs, (auto dest!: fixed_typed datetime_typed)+)
qed

text \<open>
  C22. Decoding is type safe on any input: whatever bytes a buffer holds, a value that \<open>rbusValue_Decode\<close> returns has the type that
  the first two bytes it read announce, is well-formed (a string is terminated where its
  length says), and the reader has moved forward within the block and changed nothing else.
\<close>

theorem Decode_typed:
  assumes "buf_inv b" "rbusValue_Decode a b = Some (rc, Some v, b')"
  shows "\<exists>ty t b1. rbusBuffer_ReadUInt16 b = Some (0, Some ty, b1) \<and> vtype_of_code ty = Some t \<and> rbusValue_GetType v = t \<and> val_inv v \<and>
    buf_inv b' \<and> posRead b \<le> posRead b' \<and> b' = b\<lparr>posRead := posRead b'\<rparr>"
proof -
  obtain ty b1 len b2 t where r: "rbusBuffer_ReadUInt16 b = Some (0, Some ty, b1)" "rbusBuffer_ReadUInt16 b1 = Some (0, Some len, b2)"
    "vtype_of_code ty = Some t" "decode_payload a t len b2 = Some (rc, Some v, b')"
    using assms(2) by (auto simp: rbusValue_Decode_def split: Option.bind_splits if_splits)
  have 1: "moved b b1" by (rule read_fixed_moves [OF assms(1), of 2]) (use r(1) in \<open>simp_all add: rbusBuffer_ReadUInt16_def\<close>)
  then have 2: "moved b1 b2"
    by (intro read_fixed_moves [of b1 2]) (use r(2) in \<open>simp_all add: rbusBuffer_ReadUInt16_def moved_def\<close>)
  then have "buf_inv b2" by (simp add: moved_def)
  then obtain d where d: "moved b2 b'" "v = Value a d" "data_type d = t" "data_inv d" using decode_payload_typed [OF r(4)] by blast
  have "moved b b'" using moved_trans [OF moved_trans [OF 1 2] d(1)] .
  then show ?thesis using r(1,3) d(2-4) by (auto simp: moved_def val_inv_def rbusValue_GetType_def)
qed

definition demo_input :: rbusBuffer where
  "demo_input = rbusBuffer_Create\<lparr>data := bytes16 (word_of_int (vtype_code RBUS_STRING)) @ bytes16 3 @ [Some 104, Some 105, Some 0] @ replicate 57 None, posWrite := 7\<rparr>"

theorem Decode_typed_witness:
  "\<exists>rc v b'. rbusValue_Decode 5 demo_input = Some (rc, Some v, b') \<and> rbusValue_GetType v = RBUS_STRING \<and> val_inv v \<and> posRead demo_input \<le> posRead b'"
proof -
  let ?r = "the (rbusValue_Decode 5 demo_input)"
  have c: "rbusValue_Decode 5 demo_input = Some (fst ?r, Some (the (fst (snd ?r))), snd (snd ?r))"
    "rbusValue_GetType (the (fst (snd ?r))) = RBUS_STRING"
    by code_simp+
  have "buf_inv demo_input" by (simp add: buf_inv_def demo_input_def rbusBuffer_Create_def BUFFER_BLOCK_SIZE_def)
  from Decode_typed [OF this c(1)] show ?thesis using c by blast
qed

end
