(* ===== verification/RB_Filter.thy ===== *)
theory RB_Filter
  imports RB_ValueCodec
begin

text \<open>
  Event filters (\<^verbatim>\<open>src/src/rbus/rbus_filter.c\<close>): expression trees over relations with a value,
  their evaluation, comparison and wire form. The wire form is an instance of the interface
  \<open>wire_format\<close>, built on the one of values.
\<close>

section \<open>Filters\<close>

text \<open>
  Operators are kept as the 32-bit numbers of the C enumerations, because the decoder stores
  whatever number it reads. \<open>NullF\<close> is the NULL pointer; the two other constructors are the
  two members of the union \<open>e\<close> with the tag \<open>type\<close>.
\<close>

definition RBUS_FILTER_OPERATOR_GREATER_THAN :: u32 where "RBUS_FILTER_OPERATOR_GREATER_THAN = 0"
definition RBUS_FILTER_OPERATOR_GREATER_THAN_OR_EQUAL :: u32 where
  "RBUS_FILTER_OPERATOR_GREATER_THAN_OR_EQUAL = 1"
definition RBUS_FILTER_OPERATOR_LESS_THAN :: u32 where "RBUS_FILTER_OPERATOR_LESS_THAN = 2"
definition RBUS_FILTER_OPERATOR_LESS_THAN_OR_EQUAL :: u32 where
  "RBUS_FILTER_OPERATOR_LESS_THAN_OR_EQUAL = 3"
definition RBUS_FILTER_OPERATOR_EQUAL :: u32 where "RBUS_FILTER_OPERATOR_EQUAL = 4"
definition RBUS_FILTER_OPERATOR_NOT_EQUAL :: u32 where "RBUS_FILTER_OPERATOR_NOT_EQUAL = 5"
definition RBUS_FILTER_OPERATOR_AND :: u32 where "RBUS_FILTER_OPERATOR_AND = 0"
definition RBUS_FILTER_OPERATOR_OR :: u32 where "RBUS_FILTER_OPERATOR_OR = 1"
definition RBUS_FILTER_OPERATOR_NOT :: u32 where "RBUS_FILTER_OPERATOR_NOT = 2"
definition RBUS_FILTER_EXPRESSION_RELATION :: u32 where "RBUS_FILTER_EXPRESSION_RELATION = 0"
definition RBUS_FILTER_EXPRESSION_LOGIC :: u32 where "RBUS_FILTER_EXPRESSION_LOGIC = 1"

lemmas filter_ops =
  RBUS_FILTER_OPERATOR_GREATER_THAN_def RBUS_FILTER_OPERATOR_GREATER_THAN_OR_EQUAL_def
  RBUS_FILTER_OPERATOR_LESS_THAN_def RBUS_FILTER_OPERATOR_LESS_THAN_OR_EQUAL_def
  RBUS_FILTER_OPERATOR_EQUAL_def RBUS_FILTER_OPERATOR_NOT_EQUAL_def
  RBUS_FILTER_OPERATOR_AND_def RBUS_FILTER_OPERATOR_OR_def RBUS_FILTER_OPERATOR_NOT_def
  RBUS_FILTER_EXPRESSION_RELATION_def RBUS_FILTER_EXPRESSION_LOGIC_def

datatype rbusFilter_t = NullF | Relation u32 rbusValue_t | Logic u32 rbusFilter_t rbusFilter_t

definition rbusFilter_InitRelation :: "u32 \<Rightarrow> rbusValue_t \<Rightarrow> rbusFilter_t" where
  "rbusFilter_InitRelation op v = Relation op v"

definition rbusFilter_InitLogic :: "u32 \<Rightarrow> rbusFilter_t \<Rightarrow> rbusFilter_t \<Rightarrow> rbusFilter_t" where
  "rbusFilter_InitLogic op l r = Logic op l r"

definition rbusFilter_RelationApply ::
  "(rbusDateTime \<Rightarrow> int) \<Rightarrow> u32 \<Rightarrow> rbusValue_t \<Rightarrow> rbusValue_t \<Rightarrow> bool run" where
  "rbusFilter_RelationApply mk op v value =
     do { c \<leftarrow> rbusValue_Compare mk value v;
          Some (if op = RBUS_FILTER_OPERATOR_GREATER_THAN then c > 0
                else if op = RBUS_FILTER_OPERATOR_GREATER_THAN_OR_EQUAL then c \<ge> 0
                else if op = RBUS_FILTER_OPERATOR_LESS_THAN then c < 0
                else if op = RBUS_FILTER_OPERATOR_LESS_THAN_OR_EQUAL then c \<le> 0
                else if op = RBUS_FILTER_OPERATOR_EQUAL then c = 0
                else if op = RBUS_FILTER_OPERATOR_NOT_EQUAL then c \<noteq> 0
                else False) }"

text \<open>\<open>rbusFilter_LogicApply\<close> is the last equation: both operands are always evaluated.\<close>

fun rbusFilter_Apply :: "(rbusDateTime \<Rightarrow> int) \<Rightarrow> rbusFilter_t \<Rightarrow> rbusValue_t \<Rightarrow> bool run" where
  "rbusFilter_Apply mk NullF value = Some False"
| "rbusFilter_Apply mk (Relation op v) value = rbusFilter_RelationApply mk op v value"
| "rbusFilter_Apply mk (Logic op l r) value =
     do { left \<leftarrow> rbusFilter_Apply mk l value;
          right \<leftarrow> (if op \<noteq> RBUS_FILTER_OPERATOR_NOT then rbusFilter_Apply mk r value else Some False);
          Some (if op = RBUS_FILTER_OPERATOR_AND then left \<and> right
                else if op = RBUS_FILTER_OPERATOR_OR then left \<or> right
                else if op = RBUS_FILTER_OPERATOR_NOT then \<not> left
                else False) }"

section \<open>Wire form\<close>

fun rbusFilter_Encode :: "rbusBuffer \<Rightarrow> rbusFilter_t \<Rightarrow> rbusBuffer run" where
  "rbusFilter_Encode buff NullF = Some buff"
| "rbusFilter_Encode buff (Relation op v) =
     do { buff \<leftarrow> rbusBuffer_WriteUInt32TLV buff RBUS_FILTER_EXPRESSION_RELATION;
          buff \<leftarrow> rbusBuffer_WriteUInt32TLV buff op;
          rbusValue_Encode buff v }"
| "rbusFilter_Encode buff (Logic op l r) =
     do { buff \<leftarrow> rbusBuffer_WriteUInt32TLV buff RBUS_FILTER_EXPRESSION_LOGIC;
          buff \<leftarrow> rbusBuffer_WriteUInt32TLV buff op;
          buff \<leftarrow> rbusFilter_Encode buff l;
          rbusFilter_Encode buff r }"

text \<open>
  The sequence the decoder runs for each number: the type, which must be \<open>RBUS_UINT32\<close>, the
  length, which must be 4, and the number. \<open>Inl rc\<close> is an early return with code \<open>rc\<close>; using
  an indeterminate header byte has no result.
\<close>

definition read_u32_tlv :: "rbusBuffer \<Rightarrow> ((int \<times> rbusBuffer) + (u32 \<times> rbusBuffer)) run" where
  "read_u32_tlv buff =
     do { (rc, ty, buff) \<leftarrow> rbusBuffer_ReadUInt16 buff;
          if rc < 0 then Some (Inl (- 1, buff))
          else do {
            (rc, len, buff) \<leftarrow> rbusBuffer_ReadUInt16 buff;
            if rc < 0 then Some (Inl (- 1, buff))
            else do {
              ty \<leftarrow> ty; len \<leftarrow> len;
              if \<not> (uint ty = vtype_code RBUS_UINT32 \<and> len = 4) then Some (Inl (- 1, buff))
              else do {
                (rc, x, buff) \<leftarrow> rbusBuffer_ReadUInt32 buff;
                if rc < 0 then Some (Inl (- 1, buff))
                else do { x \<leftarrow> x; Some (Inr (x, buff)) } } } } }"

text \<open>
  The decoder recurses along untrusted input. \<open>a\<close> is the address of the next block the
  allocator returns; each decoded value takes one. An expression type that is neither 0 nor 1
  leaves the variable \<open>filter\<close> uninitialised, and it is then stored into the result.
\<close>

partial_function (option) rbusFilter_Decode ::
  "addr \<Rightarrow> rbusBuffer \<Rightarrow> (int \<times> rbusFilter_t option \<times> rbusBuffer \<times> addr) run" where
  "rbusFilter_Decode a buff =
     do { h \<leftarrow> read_u32_tlv buff;
          case h of
            Inl (rc, buff) \<Rightarrow> Some (rc, None, buff, a)
          | Inr (filterType, buff) \<Rightarrow>
              if filterType = RBUS_FILTER_EXPRESSION_RELATION
              then do { h \<leftarrow> read_u32_tlv buff;
                        case h of
                          Inl (rc, buff) \<Rightarrow> Some (rc, None, buff, a)
                        | Inr (relOp, buff) \<Rightarrow>
                            do { (rc, v, buff) \<leftarrow> rbusValue_Decode a buff;
                                 if rc < 0 then Some (- 1, None, buff, Suc a)
                                 else do { v \<leftarrow> v;
                                           Some (0, Some (rbusFilter_InitRelation relOp v), buff, Suc a) } } }
              else if filterType = RBUS_FILTER_EXPRESSION_LOGIC
              then do { h \<leftarrow> read_u32_tlv buff;
                        case h of
                          Inl (rc, buff) \<Rightarrow> Some (rc, None, buff, a)
                        | Inr (logOp, buff) \<Rightarrow>
                            do { (rc, l, buff, a) \<leftarrow> rbusFilter_Decode a buff;
                                 if rc < 0 then Some (- 1, None, buff, a)
                                 else do { (rc, r, buff, a) \<leftarrow> rbusFilter_Decode a buff;
                                           if rc < 0 then Some (- 1, None, buff, a)
                                           else do { l \<leftarrow> l; r \<leftarrow> r;
                                                     Some (0, Some (rbusFilter_InitLogic logOp l r), buff, a) } } } }
              else None }"

section \<open>Comparison\<close>

fun rbusFilter_Compare :: "(rbusDateTime \<Rightarrow> int) \<Rightarrow> rbusFilter_t \<Rightarrow> rbusFilter_t \<Rightarrow> int run" where
  "rbusFilter_Compare mk NullF NullF = Some 0"
| "rbusFilter_Compare mk f NullF = Some 1"
| "rbusFilter_Compare mk NullF g = Some (- 1)"
| "rbusFilter_Compare mk (Relation o1 v1) (Relation o2 v2) =
     (if o1 = o2 then rbusValue_Compare mk v1 v2 else Some (if o1 < o2 then 1 else - 1))"
| "rbusFilter_Compare mk (Logic o1 l1 r1) (Logic o2 l2 r2) =
     (if o1 = o2
      then do { rc \<leftarrow> rbusFilter_Compare mk l1 l2;
                if rc \<noteq> 0 then Some rc else rbusFilter_Compare mk r1 r2 }
      else Some (if o1 < o2 then 1 else - 1))"
| "rbusFilter_Compare mk (Relation o1 v1) (Logic o2 l2 r2) = Some 1"
| "rbusFilter_Compare mk (Logic o1 l1 r1) (Relation o2 v2) = Some (- 1)"

definition rbusFilter_GetType :: "rbusFilter_t \<Rightarrow> u32" where
  "rbusFilter_GetType f =
     (case f of NullF \<Rightarrow> - 1 | Relation _ _ \<Rightarrow> RBUS_FILTER_EXPRESSION_RELATION
      | Logic _ _ _ \<Rightarrow> RBUS_FILTER_EXPRESSION_LOGIC)"

text \<open>
  The accessors do not look at the type: on the wrong kind of filter they read the other
  member of the union. The operator is the first field of both members, so only the pointer
  accessors are undefined there.
\<close>

definition rbusFilter_GetRelationOperator :: "rbusFilter_t \<Rightarrow> u32" where
  "rbusFilter_GetRelationOperator f =
     (case f of NullF \<Rightarrow> - 1 | Relation op _ \<Rightarrow> op | Logic op _ _ \<Rightarrow> op)"

definition rbusFilter_GetRelationValue :: "rbusFilter_t \<Rightarrow> rbusValue_t run" where
  "rbusFilter_GetRelationValue f =
     (case f of NullF \<Rightarrow> Some NullV | Relation _ v \<Rightarrow> Some v | Logic _ _ _ \<Rightarrow> None)"

definition rbusFilter_GetLogicOperator :: "rbusFilter_t \<Rightarrow> u32" where
  "rbusFilter_GetLogicOperator f =
     (case f of NullF \<Rightarrow> - 1 | Relation op _ \<Rightarrow> op | Logic op _ _ \<Rightarrow> op)"

definition rbusFilter_GetLogicLeft :: "rbusFilter_t \<Rightarrow> rbusFilter_t run" where
  "rbusFilter_GetLogicLeft f =
     (case f of NullF \<Rightarrow> Some NullF | Relation _ _ \<Rightarrow> None | Logic _ l _ \<Rightarrow> Some l)"

definition rbusFilter_GetLogicRight :: "rbusFilter_t \<Rightarrow> rbusFilter_t run" where
  "rbusFilter_GetLogicRight f =
     (case f of NullF \<Rightarrow> Some NullF | Relation _ _ \<Rightarrow> None | Logic _ _ r \<Rightarrow> Some r)"

section \<open>The round trip\<close>

fun wire_filter :: "rbusFilter_t \<Rightarrow> mem" where
  "wire_filter NullF = []"
| "wire_filter (Relation op v) =
     tlv RBUS_UINT32 (bytes32 RBUS_FILTER_EXPRESSION_RELATION) @ tlv RBUS_UINT32 (bytes32 op) @ wire_value v"
| "wire_filter (Logic op l r) =
     tlv RBUS_UINT32 (bytes32 RBUS_FILTER_EXPRESSION_LOGIC) @ tlv RBUS_UINT32 (bytes32 op) @
     wire_filter l @ wire_filter r"

text \<open>Filters whose encoding can be decoded: both operands of every logic node are there.\<close>

fun wf_filter :: "rbusFilter_t \<Rightarrow> bool" where
  "wf_filter NullF \<longleftrightarrow> False"
| "wf_filter (Relation op v) \<longleftrightarrow> wf_value v"
| "wf_filter (Logic op l r) \<longleftrightarrow> wf_filter l \<and> wf_filter r"

fun same_filter :: "rbusFilter_t \<Rightarrow> rbusFilter_t \<Rightarrow> bool" where
  "same_filter (Relation o1 v1) (Relation o2 v2) \<longleftrightarrow> o1 = o2 \<and> same_value v1 v2"
| "same_filter (Logic o1 l1 r1) (Logic o2 l2 r2) \<longleftrightarrow> o1 = o2 \<and> same_filter l1 l2 \<and> same_filter r1 r2"
| "same_filter f g \<longleftrightarrow> f = NullF \<and> g = NullF"

lemma WriteUInt32TLV_writes:
  "buf_inv b \<Longrightarrow> room 8 b \<Longrightarrow> writes b (tlv RBUS_UINT32 (bytes32 w)) (rbusBuffer_WriteUInt32TLV b w)"
  unfolding rbusBuffer_WriteUInt32TLV_def by (rule WriteTLV_ok) simp_all

lemma Filter_Encode_writes:
  "buf_inv b \<Longrightarrow> wf_filter f \<Longrightarrow> room (length (wire_filter f)) b \<Longrightarrow>
   writes b (wire_filter f) (rbusFilter_Encode b f)"
proof (induction f arbitrary: b)
  case (Relation op v)
  then show ?case
    unfolding rbusFilter_Encode.simps wire_filter.simps
    by (intro writes_bind WriteUInt32TLV_writes Encode_writes)
      (auto simp: appended_inv appended_room intro: room_mono)
next
  case (Logic op l r)
  show ?case
    unfolding rbusFilter_Encode.simps wire_filter.simps
    by (intro writes_bind WriteUInt32TLV_writes Logic.IH)
      (use Logic.prems in \<open>auto simp: appended_inv appended_room intro: room_mono\<close>)
qed simp

lemma read_u32_tlv_ok:
  assumes "buf_inv b" "not_full b" "unread b = tlv RBUS_UINT32 (bytes32 w) @ rest"
  shows "read_u32_tlv b = Some (Inr (w, advance 8 b))" "buf_inv (advance 8 b)" "unread (advance 8 b) = rest"
proof -
  note h = tlv_header [OF assms]
  have nf: "not_full (advance 4 b)" using assms(2) by simp
  show "read_u32_tlv b = Some (Inr (w, advance 8 b))"
    using h(1,2) ReadUInt32_ok [OF h(3) nf h(4)] by (simp add: read_u32_tlv_def)
  show "buf_inv (advance 8 b)" "unread (advance 8 b) = rest"
    using advance_inv [OF h(3,4)] unread_split(3) [OF h(3,4)] by simp_all
qed

lemma Filter_Decode_reads:
  "wf_filter f \<Longrightarrow> buf_inv b \<Longrightarrow> not_full b \<Longrightarrow> unread b = wire_filter f @ rest \<Longrightarrow>
   \<exists>g a'. rbusFilter_Decode a b = Some (0, Some g, advance (length (wire_filter f)) b, a') \<and> same_filter f g"
proof (induction f arbitrary: a b rest)
  case (Relation op v)
  note h1 = read_u32_tlv_ok [OF Relation.prems(2,3),
      of RBUS_FILTER_EXPRESSION_RELATION "tlv RBUS_UINT32 (bytes32 op) @ wire_value v @ rest"]
  have u: "unread b = tlv RBUS_UINT32 (bytes32 RBUS_FILTER_EXPRESSION_RELATION) @
      tlv RBUS_UINT32 (bytes32 op) @ wire_value v @ rest"
    using Relation.prems(4) by simp
  note h2 = read_u32_tlv_ok [OF h1(2) [OF u] _ h1(3) [OF u]]
  have nf: "not_full (advance 8 b)" "not_full (advance 16 b)" using Relation.prems(3) by simp_all
  have b16: "buf_inv (advance 16 b)" "unread (advance 16 b) = wire_value v @ rest"
    using h2(2,3) [OF nf(1)] by simp_all
  obtain rc w where "rbusValue_Decode a (advance 16 b)
      = Some (rc, Some w, advance (length (wire_value v)) (advance 16 b))" "0 \<le> rc" "same_value v w"
    using Decode_reads [OF _ b16(1) nf(2) b16(2), of a] Relation.prems(1) by auto
  then show ?case
    using h1(1) [OF u] h2(1) [OF nf(1)]
    by (subst rbusFilter_Decode.simps)
      (simp add: filter_ops rbusFilter_InitRelation_def add.commute)
next
  case (Logic op l r)
  have u: "unread b = tlv RBUS_UINT32 (bytes32 RBUS_FILTER_EXPRESSION_LOGIC) @
      tlv RBUS_UINT32 (bytes32 op) @ wire_filter l @ wire_filter r @ rest"
    using Logic.prems(4) by simp
  note h1 = read_u32_tlv_ok [OF Logic.prems(2,3) u]
  have nf: "not_full (advance 8 b)" "not_full (advance 16 b)" using Logic.prems(3) by simp_all
  note h2 = read_u32_tlv_ok [OF h1(2) nf(1) h1(3)]
  have b16: "buf_inv (advance 16 b)" "unread (advance 16 b) = wire_filter l @ wire_filter r @ rest"
    using h2(2,3) by simp_all
  have wf: "wf_filter l" "wf_filter r" using Logic.prems(1) by simp_all
  let ?b = "advance (length (wire_filter l)) (advance 16 b)"
  have ne: "wire_filter l \<noteq> []" using wf(1) by (cases l) auto
  have bl: "buf_inv ?b" "unread ?b = wire_filter r @ rest" "not_full ?b"
    using advance_inv [OF b16] unread_split(3) [OF b16 ne] nf(2) by simp_all
  obtain g1 a1 where g1: "rbusFilter_Decode a (advance 16 b) = Some (0, Some g1, ?b, a1)" "same_filter l g1"
    using Logic.IH(1) [OF wf(1) b16(1) nf(2) b16(2)] by blast
  obtain g2 a2 where g2: "rbusFilter_Decode a1 ?b
      = Some (0, Some g2, advance (length (wire_filter r)) ?b, a2)" "same_filter r g2"
    using Logic.IH(2) [OF wf(2) bl(1,3,2)] by blast
  show ?case
    using h1(1) h2(1) g1 g2
    by (subst rbusFilter_Decode.simps)
      (simp add: filter_ops rbusFilter_InitLogic_def add.commute add.left_commute)
qed simp

definition get_filter :: "addr \<Rightarrow> rbusBuffer \<Rightarrow> (rbusFilter_t \<times> rbusBuffer) run" where
  "get_filter a b =
     (case rbusFilter_Decode a b of
        Some (rc, Some f, b', _) \<Rightarrow> if rc < 0 then None else Some (f, b') | _ \<Rightarrow> None)"

interpretation filter_codec: wire_format wire_filter wf_filter rbusFilter_Encode "get_filter a" same_filter
  for a
proof (unfold_locales, goal_cases)
  case (1 f b)
  then show ?case by (intro Filter_Encode_writes)
next
  case (2 f b rest)
  then show ?case using Filter_Decode_reads [OF 2, of a] by (auto simp: get_filter_def)
next
  case (3 f)
  then show ?case by (cases f) auto
qed



section \<open>A negated filter does not survive the wire\<close>

text \<open>
  \<open>rbusFilter_InitLogic\<close> documents that the right operand of a NOT is NULL. Its encoding then
  consists of the header and the left operand, but the decoder goes on to decode a right operand
  from the bytes behind it.
\<close>

lemma read_u32_tlv_short:
  assumes "buf_inv b" "unread b = []" "posRead b = posWrite b"
    and "\<forall>x\<in>set (drop (nat (posWrite b)) (data b)). x = None"
  shows "case read_u32_tlv b of Some (Inr _) \<Rightarrow> False | _ \<Rightarrow> True"
proof (cases "posRead b + 2 < lenAlloc b")
  case True
  have rng: "int_range (posRead b + 2)"
    using assms(1) True by (intro int_rangeI) (auto simp: buf_inv_def)
  let ?m = "take 2 (drop (nat (posRead b)) (data b))"
  have mr: "mem_read (data b) (posRead b) 2 = Some ?m" and l: "length ?m = 2"
    using assms(1) True by (auto simp: mem_read_def buf_inv_def)
  have "det ?m = None"
  proof -
    have "?m ! 0 \<in> set ?m" using l by (intro nth_mem) simp
    then have "?m ! 0 = None" using assms(3,4) in_set_takeD by metis
    then show ?thesis using l by (cases ?m) auto
  qed
  then have "rbusBuffer_ReadUInt16 b = Some (0, None, b\<lparr>posRead := posRead b + 2\<rparr>)"
    using True rng mr by (simp add: rbusBuffer_ReadUInt16_def read_fixed_def rbusBuffer_Read_def)
  then show ?thesis
    by (auto simp: read_u32_tlv_def split: bind_splits option.splits sum.splits if_splits)
next
  case False
  have "int_range (posRead b + 2)"
    using assms(1) by (auto simp: buf_inv_def int_range_def)
  with False show ?thesis
    by (simp add: read_u32_tlv_def rbusBuffer_ReadUInt16_def read_fixed_def rbusBuffer_Read_def)
qed


definition not_example :: rbusBuffer where
  "not_example =
     (let w = wire_filter (Logic RBUS_FILTER_OPERATOR_NOT (Relation 4 (Value 1 (DInt32 5))) NullF)
      in rbusBuffer_Create\<lparr>data := w @ replicate 24 None, posWrite := 40\<rparr>)"


section \<open>The logic of filters\<close>

text \<open>
  Filters are closed under negation: a NOT can be pushed to the relations, where it replaces the
  operator by its complement. \<open>nnf neg f\<close> is \<open>f\<close>, negated if \<open>neg\<close>, without any NOT.
\<close>

definition complement :: "u32 \<Rightarrow> u32" where
  "complement op =
     (if op = RBUS_FILTER_OPERATOR_GREATER_THAN then RBUS_FILTER_OPERATOR_LESS_THAN_OR_EQUAL
      else if op = RBUS_FILTER_OPERATOR_GREATER_THAN_OR_EQUAL then RBUS_FILTER_OPERATOR_LESS_THAN
      else if op = RBUS_FILTER_OPERATOR_LESS_THAN then RBUS_FILTER_OPERATOR_GREATER_THAN_OR_EQUAL
      else if op = RBUS_FILTER_OPERATOR_LESS_THAN_OR_EQUAL then RBUS_FILTER_OPERATOR_GREATER_THAN
      else if op = RBUS_FILTER_OPERATOR_EQUAL then RBUS_FILTER_OPERATOR_NOT_EQUAL
      else RBUS_FILTER_OPERATOR_EQUAL)"

fun nnf :: "bool \<Rightarrow> rbusFilter_t \<Rightarrow> rbusFilter_t" where
  "nnf neg NullF = NullF"
| "nnf neg (Relation op v) = Relation (if neg then complement op else op) v"
| "nnf neg (Logic op l r) =
     (if op = RBUS_FILTER_OPERATOR_NOT then nnf (\<not> neg) l
      else Logic (if neg then (if op = RBUS_FILTER_OPERATOR_AND then RBUS_FILTER_OPERATOR_OR
                               else RBUS_FILTER_OPERATOR_AND) else op)
             (nnf neg l) (nnf neg r))"

fun valid_filter :: "rbusFilter_t \<Rightarrow> bool" where
  "valid_filter NullF \<longleftrightarrow> False"
| "valid_filter (Relation op v) \<longleftrightarrow> op \<in> {0, 1, 2, 3, 4, 5}"
| "valid_filter (Logic op l r) \<longleftrightarrow> valid_filter l \<and>
     (if op = RBUS_FILTER_OPERATOR_NOT then r = NullF else op \<in> {0, 1} \<and> valid_filter r)"

fun has_not :: "rbusFilter_t \<Rightarrow> bool" where
  "has_not (Logic op l r) \<longleftrightarrow> op = RBUS_FILTER_OPERATOR_NOT \<or> has_not l \<or> has_not r"
| "has_not _ \<longleftrightarrow> False"

lemma Apply_nnf:
  "valid_filter f \<Longrightarrow> rbusFilter_Apply mk (nnf neg f) v = map_option (\<lambda>x. x \<noteq> neg) (rbusFilter_Apply mk f v)"
proof (induction f arbitrary: neg)
  case (Relation op w)
  then show ?case
    by (cases "rbusValue_Compare mk v w")
      (auto simp: rbusFilter_RelationApply_def complement_def filter_ops)
next
  case (Logic op l r)
  then show ?case
    by (cases "rbusFilter_Apply mk l v"; cases "rbusFilter_Apply mk r v") (auto simp: filter_ops)
qed simp

lemma nnf_no_not: "valid_filter f \<Longrightarrow> \<not> has_not (nnf neg f)"
  by (induction f arbitrary: neg) (auto simp: filter_ops)

text \<open>
  Every valid filter, with NOTs built as documented, has an equivalent filter without NOT:
  the two give the same answer on every value, and abort on the same values.
\<close>

theorem Filter_nnf_equivalent:
  assumes "valid_filter f"
  shows "rbusFilter_Apply mk (nnf False f) v = rbusFilter_Apply mk f v \<and> \<not> has_not (nnf False f)"
  using Apply_nnf [OF assms, of mk False v] nnf_no_not [OF assms]
  by (simp add: option.map_ident)

theorem Filter_nnf_equivalent_witness:
  "rbusFilter_Apply (\<lambda>_. 0) (nnf False (Logic 2 (Relation 0 (Value 1 (DInt32 5))) NullF)) (Value 2 (DInt32 3)) =
   rbusFilter_Apply (\<lambda>_. 0) (Logic 2 (Relation 0 (Value 1 (DInt32 5))) NullF) (Value 2 (DInt32 3))"
  using Filter_nnf_equivalent [of "Logic 2 (Relation 0 (Value 1 (DInt32 5))) NullF"]
  by (simp add: filter_ops)

end
