(* ===== verification/RT_Header.thy ===== *)
theory RT_Header
  imports RB_Prelude
begin

text \<open>
  The framing of rtMessage: the field encoders of \<^verbatim>\<open>src/src/rtmessage/rtEncoder.c\<close>, which
  move a cursor over a block of memory in network byte order, and the message header of
  \<^verbatim>\<open>src/src/rtmessage/rtMessageHeader.c\<close>. The encoders of the fields are instances of the
  interface \<open>cursor_codec\<close>. The header is modelled as it is built without
  \<open>MSG_ROUNDTRIP_TIME\<close>.
\<close>

section \<open>Field encoders\<close>

definition rtEncoder_EncodeUInt16 :: "cursor \<Rightarrow> u16 \<Rightarrow> cursor run" where
  "rtEncoder_EncodeUInt16 itr n = put_bytes itr (map Some (be_bytes 2 n))"

definition rtEncoder_DecodeUInt16 :: "cursor \<Rightarrow> (u16 \<times> cursor) run" where
  "rtEncoder_DecodeUInt16 itr =
     do { (bs, itr) \<leftarrow> take_bytes itr 2; host \<leftarrow> det bs; Some (of_be_bytes host, itr) }"

definition rtEncoder_EncodeUInt32 :: "cursor \<Rightarrow> u32 \<Rightarrow> cursor run" where
  "rtEncoder_EncodeUInt32 itr n = put_bytes itr (map Some (be_bytes 4 n))"

definition rtEncoder_DecodeUInt32 :: "cursor \<Rightarrow> (u32 \<times> cursor) run" where
  "rtEncoder_DecodeUInt32 itr =
     do { (bs, itr) \<leftarrow> take_bytes itr 4; host \<leftarrow> det bs; Some (of_be_bytes host, itr) }"

text \<open>
  The optional length parameter of \<open>rtEncoder_EncodeString\<close>: \<open>None\<close> is a NULL pointer, which
  makes the function take the length of the C string.
\<close>

definition rtEncoder_EncodeString :: "cursor \<Rightarrow> mem \<Rightarrow> u32 option \<Rightarrow> cursor run" where
  "rtEncoder_EncodeString itr s n =
     do { len \<leftarrow> (case n of Some l \<Rightarrow> Some l | None \<Rightarrow> map_option word_of_int (strlen s));
          itr \<leftarrow> rtEncoder_EncodeUInt32 itr len;
          bs \<leftarrow> mem_read s 0 (uint len);
          put_bytes itr bs }"

text \<open>The decoders of strings copy into the block \<open>s\<close> of the caller.\<close>

definition rtEncoder_DecodeStr :: "cursor \<Rightarrow> mem \<Rightarrow> u32 \<Rightarrow> (mem \<times> cursor) run" where
  "rtEncoder_DecodeStr itr s len =
     do { (bs, itr) \<leftarrow> take_bytes itr (uint len); s \<leftarrow> mem_write s 0 bs; Some (s, itr) }"

definition rtEncoder_DecodeString :: "cursor \<Rightarrow> mem \<Rightarrow> (mem \<times> u32 \<times> cursor) run" where
  "rtEncoder_DecodeString itr s =
     do { (len, itr) \<leftarrow> rtEncoder_DecodeUInt32 itr;
          (bs, itr) \<leftarrow> take_bytes itr (uint len);
          s \<leftarrow> mem_write s 0 bs;
          Some (s, len, itr) }"

section \<open>The message header\<close>

definition RTMSG_HEADER_MAX_TOPIC_LENGTH :: nat where "RTMSG_HEADER_MAX_TOPIC_LENGTH = 256"
definition RTMSG_HEADER_VERSION :: u16 where "RTMSG_HEADER_VERSION = 2"
definition RTMSG_HEADER_MARKER :: u16 where "RTMSG_HEADER_MARKER = 0xAAAA"
definition rtMessageFlags_Request :: u32 where "rtMessageFlags_Request = 1"

record rtMessageHeader =
  version :: u16
  header_length :: u16
  sequence_number :: u32
  flags :: u32
  control_data :: u32
  payload_length :: u32
  topic_length :: u32
  topic :: mem
  reply_topic_length :: u32
  reply_topic :: mem

definition rtMessageHeader_Init :: rtMessageHeader where
  "rtMessageHeader_Init =
     \<lparr>version = RTMSG_HEADER_VERSION, header_length = 0, sequence_number = 0, flags = 0,
      control_data = 0, payload_length = 0, topic_length = 0,
      topic = replicate RTMSG_HEADER_MAX_TOPIC_LENGTH (Some 0), reply_topic_length = 0,
      reply_topic = replicate RTMSG_HEADER_MAX_TOPIC_LENGTH (Some 0)\<rparr>"

definition rtMessageHeader_Encode :: "rtMessageHeader \<Rightarrow> mem \<Rightarrow> (int \<times> rtMessageHeader \<times> mem) run" where
  "rtMessageHeader_Encode hdr buff =
     do { t \<leftarrow> strlen (topic hdr);
          r \<leftarrow> strlen (reply_topic hdr);
          let hdr = hdr\<lparr>header_length := word_of_int (32 + t + r)\<rparr>;
          ptr \<leftarrow> rtEncoder_EncodeUInt16 (buff, 0) RTMSG_HEADER_MARKER;
          ptr \<leftarrow> rtEncoder_EncodeUInt16 ptr RTMSG_HEADER_VERSION;
          ptr \<leftarrow> rtEncoder_EncodeUInt16 ptr (header_length hdr);
          ptr \<leftarrow> rtEncoder_EncodeUInt32 ptr (sequence_number hdr);
          ptr \<leftarrow> rtEncoder_EncodeUInt32 ptr (flags hdr);
          ptr \<leftarrow> rtEncoder_EncodeUInt32 ptr (control_data hdr);
          ptr \<leftarrow> rtEncoder_EncodeUInt32 ptr (payload_length hdr);
          ptr \<leftarrow> rtEncoder_EncodeString ptr (topic hdr) None;
          ptr \<leftarrow> rtEncoder_EncodeString ptr (reply_topic hdr) None;
          ptr \<leftarrow> rtEncoder_EncodeUInt16 ptr RTMSG_HEADER_MARKER;
          Some (RT_OK, hdr, fst ptr) }"

text \<open>
  On an error the fields read so far stay in the header. \<open>sizeof(hdr->topic)\<close> is 256.
\<close>

definition rtMessageHeader_Decode :: "rtMessageHeader \<Rightarrow> mem \<Rightarrow> (int \<times> rtMessageHeader) run" where
  "rtMessageHeader_Decode hdr buff =
     do { (marker, ptr) \<leftarrow> rtEncoder_DecodeUInt16 (buff, 0);
          if RTMSG_HEADER_MARKER \<noteq> marker then Some (RT_ERROR, hdr)
          else do {
            (x, ptr) \<leftarrow> rtEncoder_DecodeUInt16 ptr;
            let hdr = hdr\<lparr>version := x\<rparr>;
            (x, ptr) \<leftarrow> rtEncoder_DecodeUInt16 ptr;
            let hdr = hdr\<lparr>header_length := x\<rparr>;
            (x, ptr) \<leftarrow> rtEncoder_DecodeUInt32 ptr;
            let hdr = hdr\<lparr>sequence_number := x\<rparr>;
            (x, ptr) \<leftarrow> rtEncoder_DecodeUInt32 ptr;
            let hdr = hdr\<lparr>flags := x\<rparr>;
            (x, ptr) \<leftarrow> rtEncoder_DecodeUInt32 ptr;
            let hdr = hdr\<lparr>control_data := x\<rparr>;
            (x, ptr) \<leftarrow> rtEncoder_DecodeUInt32 ptr;
            let hdr = hdr\<lparr>payload_length := x\<rparr>;
            (x, ptr) \<leftarrow> rtEncoder_DecodeUInt32 ptr;
            let hdr = hdr\<lparr>topic_length := x\<rparr>;
            if topic_length hdr \<ge> 256 then Some (RT_ERROR, hdr)
            else do {
              (s, ptr) \<leftarrow> rtEncoder_DecodeStr ptr (topic hdr) (topic_length hdr);
              let hdr = hdr\<lparr>topic := s\<rparr>;
              (x, ptr) \<leftarrow> rtEncoder_DecodeUInt32 ptr;
              let hdr = hdr\<lparr>reply_topic_length := x\<rparr>;
              if reply_topic_length hdr \<ge> 256 then Some (RT_ERROR, hdr)
              else do {
                (s, ptr) \<leftarrow> rtEncoder_DecodeStr ptr (reply_topic hdr) (reply_topic_length hdr);
                let hdr = hdr\<lparr>reply_topic := s\<rparr>;
                (marker, ptr) \<leftarrow> rtEncoder_DecodeUInt16 ptr;
                Some (if RTMSG_HEADER_MARKER \<noteq> marker then RT_ERROR else RT_OK, hdr) } } } }"

definition rtMessageHeader_SetIsRequest :: "rtMessageHeader \<Rightarrow> rtMessageHeader" where
  "rtMessageHeader_SetIsRequest hdr = hdr\<lparr>flags := flags hdr OR rtMessageFlags_Request\<rparr>"

definition rtMessageHeader_IsRequest :: "rtMessageHeader \<Rightarrow> int" where
  "rtMessageHeader_IsRequest hdr =
     (if flags hdr AND rtMessageFlags_Request = rtMessageFlags_Request then 1 else 0)"

section \<open>The interface of a field codec\<close>

text \<open>
  An encoder writes the bytes of the field at the cursor; a decoder that finds these bytes
  there returns the field and moves on.
\<close>

locale cursor_codec =
  fixes bytes :: "'a \<Rightarrow> mem"
    and enc :: "cursor \<Rightarrow> 'a \<Rightarrow> cursor run"
    and dec :: "cursor \<Rightarrow> ('a \<times> cursor) run"
  assumes enc_bytes: "enc c x = put_bytes c (bytes x)"
    and dec_bytes: "at c (bytes x @ rest) \<Longrightarrow> dec c = Some (x, skip (length (bytes x)) c)"
begin

lemma at_next: "at c (bytes x @ rest) \<Longrightarrow> at (skip (length (bytes x)) c) rest"
  by (rule at_take(2)) simp_all

lemma enc_bind: "Option.bind (put_bytes c a) (\<lambda>c. enc c x) = put_bytes c (a @ bytes x)"
  by (simp add: enc_bytes put_bytes_append)

text \<open>A field written at a cursor is read back from there.\<close>

lemma dec_enc:
  assumes "enc (m, p) x = Some (m', p')"
  shows "dec (m', p) = Some (x, (m', p'))"
proof -
  have w: "mem_write m p (bytes x) = Some m'" "p' = p + int (length (bytes x))"
    using assms by (auto simp: enc_bytes put_bytes_def split: bind_splits)
  then have "at (m', p) (bytes x @ drop (nat p + length (bytes x)) m)"
    by (auto simp: at_def mem_write_def split: if_splits)
  from dec_bytes [OF this] show ?thesis by (simp add: skip_def w(2))
qed

end

interpretation u16_field: cursor_codec "\<lambda>n. map Some (be_bytes 2 n)" rtEncoder_EncodeUInt16 rtEncoder_DecodeUInt16
  by unfold_locales
    (auto simp: rtEncoder_EncodeUInt16_def rtEncoder_DecodeUInt16_def dest!: at_take(1) [where n = 2])

interpretation u32_field: cursor_codec "\<lambda>n. map Some (be_bytes 4 n)" rtEncoder_EncodeUInt32 rtEncoder_DecodeUInt32
  by unfold_locales
    (auto simp: rtEncoder_EncodeUInt32_def rtEncoder_DecodeUInt32_def dest!: at_take(1) [where n = 4])

section \<open>The header on the wire\<close>

abbreviation b16 :: "u16 \<Rightarrow> mem" where "b16 n \<equiv> map Some (be_bytes 2 n)"
abbreviation b32 :: "u32 \<Rightarrow> mem" where "b32 n \<equiv> map Some (be_bytes 4 n)"

definition header_bytes :: "rtMessageHeader \<Rightarrow> u8 list \<Rightarrow> u8 list \<Rightarrow> mem" where
  "header_bytes hdr t r =
     b16 RTMSG_HEADER_MARKER @ b16 RTMSG_HEADER_VERSION @ b16 (header_length hdr) @
     b32 (sequence_number hdr) @ b32 (flags hdr) @ b32 (control_data hdr) @ b32 (payload_length hdr) @
     b32 (word_of_nat (length t)) @ map Some t @ b32 (word_of_nat (length r)) @ map Some r @
     b16 RTMSG_HEADER_MARKER"

lemma length_header_bytes: "length (header_bytes hdr t r) = 32 + length t + length r"
  by (simp add: header_bytes_def)

text \<open>A header whose topics are C strings inside their arrays.\<close>

definition topics :: "rtMessageHeader \<Rightarrow> u8 list \<Rightarrow> u8 list \<Rightarrow> bool" where
  "topics hdr t r \<longleftrightarrow>
     length (topic hdr) = RTMSG_HEADER_MAX_TOPIC_LENGTH \<and> cstr (topic hdr) = Some t \<and>
     length (reply_topic hdr) = RTMSG_HEADER_MAX_TOPIC_LENGTH \<and> cstr (reply_topic hdr) = Some r"

lemma topic_fits: "cstr s = Some t \<Longrightarrow> length s = RTMSG_HEADER_MAX_TOPIC_LENGTH \<Longrightarrow> length t < 256"
  by (drule cstr_SomeD) (auto simp: RTMSG_HEADER_MAX_TOPIC_LENGTH_def)

lemma small_word [simp]: "n < 256 \<Longrightarrow> uint (word_of_nat n :: u32) = int n"
  "n < 256 \<Longrightarrow> (256 :: u32) \<le> word_of_nat n \<longleftrightarrow> False"
  by (simp_all add: unsigned_of_nat take_bit_nat_eq_self word_le_nat_alt)

lemma EncodeString_bytes:
  assumes "cstr s = Some t" "length t < 256"
  shows "rtEncoder_EncodeString c s None = put_bytes c (b32 (word_of_nat (length t)) @ map Some t)"
proof -
  obtain rest where "s = map Some t @ Some 0 # rest" using cstr_SomeD [OF assms(1)] by blast
  then have "mem_read s 0 (int (length t)) = Some (map Some t)" by (simp add: mem_read_def)
  then show ?thesis
    using assms by (simp add: rtEncoder_EncodeString_def strlen_def u32_field.enc_bytes put_bytes_append)
qed

lemma Header_Encode_bytes:
  assumes "topics hdr t r"
  defines "hdr' \<equiv> hdr\<lparr>header_length := word_of_int (32 + int (length t) + int (length r))\<rparr>"
  shows "rtMessageHeader_Encode hdr buff =
    do { c \<leftarrow> put_bytes (buff, 0) (header_bytes hdr' t r); Some (RT_OK, hdr', fst c) }"
proof -
  have "cstr (topic hdr) = Some t" "cstr (reply_topic hdr) = Some r" "length t < 256" "length r < 256"
    using assms(1) topic_fits by (auto simp: topics_def)
  then show ?thesis
    by (simp add: rtMessageHeader_Encode_def strlen_def EncodeString_bytes u16_field.enc_bytes
        u32_field.enc_bytes put_bytes_bind header_bytes_def hdr'_def Let_def)
qed

lemma DecodeStr_at:
  assumes "at c (map Some t @ rest)" "length t < 256" "length s = RTMSG_HEADER_MAX_TOPIC_LENGTH"
  shows "rtEncoder_DecodeStr c s (word_of_nat (length t))
    = Some (map Some t @ drop (length t) s, skip (length t) c)"
  using at_take(1) [OF assms(1), of "int (length t)"] assms(2,3)
  by (simp add: rtEncoder_DecodeStr_def mem_write_def RTMSG_HEADER_MAX_TOPIC_LENGTH_def)

text \<open>The decoded header: the fields from the wire, the topics copied over the old contents.\<close>

definition decoded_header :: "rtMessageHeader \<Rightarrow> rtMessageHeader \<Rightarrow> u8 list \<Rightarrow> u8 list \<Rightarrow> rtMessageHeader" where
  "decoded_header old hdr t r =
     hdr\<lparr>version := RTMSG_HEADER_VERSION,
         topic_length := word_of_nat (length t), topic := map Some t @ drop (length t) (topic old),
         reply_topic_length := word_of_nat (length r),
         reply_topic := map Some r @ drop (length r) (reply_topic old)\<rparr>"

lemma Header_Decode_at:
  assumes "at (buff, 0) (header_bytes hdr t r @ rest)" "length t < 256" "length r < 256"
    and "length (topic old) = RTMSG_HEADER_MAX_TOPIC_LENGTH"
    and "length (reply_topic old) = RTMSG_HEADER_MAX_TOPIC_LENGTH"
  shows "rtMessageHeader_Decode old buff = Some (RT_OK, decoded_header old hdr t r)"
proof -
  have a0: "at (buff, 0) (b16 RTMSG_HEADER_MARKER @ b16 RTMSG_HEADER_VERSION @ b16 (header_length hdr) @
     b32 (sequence_number hdr) @ b32 (flags hdr) @ b32 (control_data hdr) @ b32 (payload_length hdr) @
     b32 (word_of_nat (length t)) @ map Some t @ b32 (word_of_nat (length r)) @ map Some r @
     b16 RTMSG_HEADER_MARKER @ rest)"
    using assms(1) by (simp add: header_bytes_def)
  note d0 = u16_field.dec_bytes [OF a0] and a1 = u16_field.at_next [OF a0]
  note d1 = u16_field.dec_bytes [OF a1] and a2 = u16_field.at_next [OF a1]
  note d2 = u16_field.dec_bytes [OF a2] and a3 = u16_field.at_next [OF a2]
  note d3 = u32_field.dec_bytes [OF a3] and a4 = u32_field.at_next [OF a3]
  note d4 = u32_field.dec_bytes [OF a4] and a5 = u32_field.at_next [OF a4]
  note d5 = u32_field.dec_bytes [OF a5] and a6 = u32_field.at_next [OF a5]
  note d6 = u32_field.dec_bytes [OF a6] and a7 = u32_field.at_next [OF a6]
  note d7 = u32_field.dec_bytes [OF a7] and a8 = u32_field.at_next [OF a7]
  note d8 = DecodeStr_at [OF a8 assms(2,4)] and a9 = at_take(2) [OF a8 refl]
  note d9 = u32_field.dec_bytes [OF a9 [simplified length_map]]
    and a10 = u32_field.at_next [OF a9]
  note d10 = DecodeStr_at [OF a10 assms(3,5)] and a11 = at_take(2) [OF a10 refl]
  note d11 = u16_field.dec_bytes [OF a11 [simplified length_map]]
  show ?thesis
    using d0 d1 d2 d3 d4 d5 d6 d7 d8 d9 d10 d11 assms(2,3)
    by (simp add: rtMessageHeader_Decode_def decoded_header_def Let_def)
qed

lemma put_bytes_at_start:
  assumes "length bs \<le> length buff"
  shows "put_bytes (buff, 0) bs = Some (bs @ drop (length bs) buff, int (length bs))"
    "at (bs @ drop (length bs) buff, 0) (bs @ drop (length bs) buff)"
  using assms by (simp_all add: put_bytes_def mem_write_def at_def)

text \<open>
  C36. A header encoded into a large enough block is decoded, into an initialised header, to
  the same fields and topics. The encoder writes exactly as many bytes as the header length it
  announces, and leaves the rest of the block alone.
\<close>

theorem Header_roundtrip:
  assumes "topics hdr t r" "32 + length t + length r \<le> length buff"
  defines "hdr' \<equiv> hdr\<lparr>header_length := word_of_nat (32 + length t + length r)\<rparr>"
  shows "\<exists>buff'. rtMessageHeader_Encode hdr buff = Some (RT_OK, hdr', buff') \<and>
    length buff' = length buff \<and> unat (header_length hdr') = 32 + length t + length r \<and>
    drop (unat (header_length hdr')) buff' = drop (unat (header_length hdr')) buff \<and>
    rtMessageHeader_Decode rtMessageHeader_Init buff'
      = Some (RT_OK, decoded_header rtMessageHeader_Init hdr' t r) \<and>
    topics (decoded_header rtMessageHeader_Init hdr' t r) t r"
proof -
  have tr: "length t < 256" "length r < 256" "0 \<notin> set t" "0 \<notin> set r"
    using assms(1) topic_fits cstr_SomeD by (auto simp: topics_def)
  let ?bs = "header_bytes hdr' t r"
  have hl: "word_of_int (32 + int (length t) + int (length r)) = (word_of_nat (32 + length t + length r) :: u16)"
    by (metis of_int_of_nat_eq of_nat_add of_nat_numeral)
  have n: "length ?bs = 32 + length t + length r" by (rule length_header_bytes)
  have un: "unat (header_length hdr') = 32 + length t + length r"
    using tr by (simp add: hdr'_def unsigned_of_nat take_bit_nat_eq_self del: of_nat_add)
  have le: "length ?bs \<le> length buff" using n assms(2) by simp
  have enc: "rtMessageHeader_Encode hdr buff = Some (RT_OK, hdr', ?bs @ drop (length ?bs) buff)"
    using Header_Encode_bytes [OF assms(1), unfolded hl, folded hdr'_def] put_bytes_at_start(1) [OF le] by simp
  have dec: "rtMessageHeader_Decode rtMessageHeader_Init (?bs @ drop (length ?bs) buff)
      = Some (RT_OK, decoded_header rtMessageHeader_Init hdr' t r)"
    by (rule Header_Decode_at [OF put_bytes_at_start(2) [OF le] tr(1,2)]) (simp_all add: rtMessageHeader_Init_def)
  have "topics (decoded_header rtMessageHeader_Init hdr' t r) t r"
  proof -
    obtain k l where "256 - length t = Suc k" "256 - length r = Suc l"
      using tr(1,2) by (metis Suc_diff_Suc)
    then show ?thesis
      using tr by (auto simp: topics_def decoded_header_def rtMessageHeader_Init_def
          RTMSG_HEADER_MAX_TOPIC_LENGTH_def)
  qed
  then show ?thesis
    using enc dec un n le by (intro exI [of _ "?bs @ drop (length ?bs) buff"]) auto
qed

theorem Header_roundtrip_witness:
  "\<exists>buff'. rtMessageHeader_Encode rtMessageHeader_Init (replicate 40 None)
      = Some (RT_OK, rtMessageHeader_Init\<lparr>header_length := 32\<rparr>, buff') \<and>
    rtMessageHeader_Decode rtMessageHeader_Init buff'
      = Some (RT_OK, decoded_header rtMessageHeader_Init (rtMessageHeader_Init\<lparr>header_length := 32\<rparr>) [] [])"
proof -
  have "topics rtMessageHeader_Init [] []"
    by (simp add: topics_def rtMessageHeader_Init_def RTMSG_HEADER_MAX_TOPIC_LENGTH_def)
  from Header_roundtrip [OF this, of "replicate 40 None"] show ?thesis by auto
qed

text \<open>
  Decoding does not terminate the topic: decoded over a header that has been used before,
  a shorter topic is followed by the tail of the longer old one, and the C string that the
  decoded header holds is not the topic that was sent.
\<close>

theorem Header_Decode_stale_topic:
  assumes "topics old (t @ x # u) r0" "topics hdr t r" "32 + length t + length r \<le> length buff"
  shows "\<exists>hdr1 buff1 hdr2. rtMessageHeader_Encode hdr buff = Some (RT_OK, hdr1, buff1) \<and>
    rtMessageHeader_Decode old buff1 = Some (RT_OK, hdr2) \<and> unat (topic_length hdr2) = length t \<and>
    cstr (topic hdr2) = Some (t @ x # u)"
proof -
  have tr: "length t < 256" "length r < 256"
    using assms(2) topic_fits by (auto simp: topics_def)
  obtain rest where old: "topic old = map Some (t @ x # u) @ Some 0 # rest" "0 \<notin> set (t @ x # u)"
    using assms(1) cstr_SomeD unfolding topics_def by metis
  let ?h = "hdr\<lparr>header_length := word_of_int (32 + int (length t) + int (length r))\<rparr>"
  let ?bs = "header_bytes ?h t r"
  have le: "length ?bs \<le> length buff" using length_header_bytes [of ?h t r] assms(3) by simp
  have "rtMessageHeader_Encode hdr buff = Some (RT_OK, ?h, ?bs @ drop (length ?bs) buff)"
    using Header_Encode_bytes [OF assms(2), of buff] put_bytes_at_start(1) [OF le] by simp
  moreover have "rtMessageHeader_Decode old (?bs @ drop (length ?bs) buff) = Some (RT_OK, decoded_header old ?h t r)"
    by (rule Header_Decode_at [OF put_bytes_at_start(2) [OF le] tr]) (use assms(1) in \<open>auto simp: topics_def\<close>)
  moreover have "cstr (map Some (t @ x # u) @ Some 0 # rest) = Some (t @ x # u)"
    by (rule cstr_terminated [OF old(2)])
  then have "cstr (topic (decoded_header old ?h t r)) = Some (t @ x # u)"
    by (simp add: decoded_header_def old(1))
  moreover have "unat (topic_length (decoded_header old ?h t r)) = length t"
    using tr(1) by (simp add: decoded_header_def unsigned_of_nat take_bit_nat_eq_self)
  ultimately show ?thesis by blast
qed

theorem Header_Decode_stale_topic_witness:
  "\<exists>hdr1 buff1 hdr2. rtMessageHeader_Encode rtMessageHeader_Init (replicate 40 None) = Some (RT_OK, hdr1, buff1) \<and>
    rtMessageHeader_Decode (rtMessageHeader_Init\<lparr>topic := Some 65 # replicate 255 (Some 0)\<rparr>) buff1
      = Some (RT_OK, hdr2) \<and> unat (topic_length hdr2) = 0 \<and> cstr (topic hdr2) = Some [65]"
proof -
  have "topics rtMessageHeader_Init [] []"
    by (simp add: topics_def rtMessageHeader_Init_def RTMSG_HEADER_MAX_TOPIC_LENGTH_def)
  moreover have "topics (rtMessageHeader_Init\<lparr>topic := Some 65 # replicate 255 (Some 0)\<rparr>) [65] []"
    by (simp add: topics_def rtMessageHeader_Init_def RTMSG_HEADER_MAX_TOPIC_LENGTH_def)
  ultimately show ?thesis
    using Header_Decode_stale_topic [of "rtMessageHeader_Init\<lparr>topic := Some 65 # replicate 255 (Some 0)\<rparr>"
        "[]" 65 "[]" "[]" rtMessageHeader_Init "[]" "replicate 40 None"] by simp
qed

lemma IsRequest_SetIsRequest: "rtMessageHeader_IsRequest (rtMessageHeader_SetIsRequest hdr) = 1"
proof -
  have "(flags hdr OR 1) AND 1 = (1 :: u32)" by (rule bit_word_eqI) (auto simp: bit_simps)
  then show ?thesis
    by (simp add: rtMessageHeader_IsRequest_def rtMessageHeader_SetIsRequest_def rtMessageFlags_Request_def)
qed

end
