(* ===== verification/RT_Base64.thy ===== *)
theory RT_Base64
  imports RT_Header
begin

text \<open>
  Base64 as rtMessage uses it for binary fields (\<^verbatim>\<open>src/src/rtmessage/rtBase64.c\<close>): the index
  loops over the input and output blocks, a reference definition of the encoding on lists, and
  the round trip.
\<close>

section \<open>The code\<close>

definition RBUS_BINARY_DATA_SIZE_LIMIT :: nat where "RBUS_BINARY_DATA_SIZE_LIMIT = 1026"
definition RBUS_BASE64_DATA_SIZE_LIMIT :: nat where
  "RBUS_BASE64_DATA_SIZE_LIMIT = RBUS_BINARY_DATA_SIZE_LIMIT * 4 div 3"

definition base64_lookup_table :: "u8 list" where
  "base64_lookup_table =
     map of_char ''ABCDEFGHIJKLMNOPQRSTUVWXYZabcdefghijklmnopqrstuvwxyz0123456789+/''"

text \<open>The value and whether the error flag is raised.\<close>

definition decode_base64_char :: "u8 \<Rightarrow> u8 \<times> bool" where
  "decode_base64_char c =
     (if 65 \<le> c \<and> 90 \<ge> c then (c - 65, False)
      else if 97 \<le> c \<and> 122 \<ge> c then (26 + c - 97, False)
      else if 48 \<le> c \<and> 57 \<ge> c then (52 + c - 48, False)
      else if c = 43 then (62, False)
      else if c = 47 then (63, False)
      else (0, True))"

definition rd :: "u8 list \<Rightarrow> nat \<Rightarrow> u8 run" where
  "rd xs i = (if i < length xs then Some (xs ! i) else None)"

definition lookup64 :: "u8 \<Rightarrow> u8 run" where
  "lookup64 i = rd base64_lookup_table (unat i)"

text \<open>\<open>write_buff[write_index++] = c\<close>: the output block with the write index is a cursor.\<close>

definition emit :: "cursor \<Rightarrow> u8 \<Rightarrow> cursor run" where
  "emit w c = put_bytes w [Some c]"

function encode_loop :: "u8 list \<Rightarrow> nat \<Rightarrow> nat \<Rightarrow> cursor \<Rightarrow> (nat \<times> cursor) run" where
  "encode_loop inp temp_size i w =
     (if i < temp_size
      then do { x \<leftarrow> rd inp i; c \<leftarrow> lookup64 (drop_bit 2 x); w \<leftarrow> emit w c;
                y \<leftarrow> rd inp (i + 1); c \<leftarrow> lookup64 (push_bit 4 (x AND 0x03) OR drop_bit 4 y); w \<leftarrow> emit w c;
                z \<leftarrow> rd inp (i + 2); c \<leftarrow> lookup64 (push_bit 2 (y AND 0xF) OR drop_bit 6 z); w \<leftarrow> emit w c;
                c \<leftarrow> lookup64 (z AND 0x3F); w \<leftarrow> emit w c;
                encode_loop inp temp_size (i + 3) w }
      else Some (i, w))"
  by pat_completeness auto

termination
  by (relation "measure (\<lambda>(inp, t, i, w). t - i)") auto

definition encode_tail :: "u8 list \<Rightarrow> nat \<Rightarrow> nat \<Rightarrow> cursor \<Rightarrow> cursor run" where
  "encode_tail inp last_group_len i w =
     (if last_group_len = 1
      then do { x \<leftarrow> rd inp i; c \<leftarrow> lookup64 (drop_bit 2 x); w \<leftarrow> emit w c;
                c \<leftarrow> lookup64 (push_bit 4 (x AND 0x03)); w \<leftarrow> emit w c;
                w \<leftarrow> emit w 61; emit w 61 }
      else if last_group_len = 2
      then do { x \<leftarrow> rd inp i; c \<leftarrow> lookup64 (drop_bit 2 x); w \<leftarrow> emit w c;
                y \<leftarrow> rd inp (i + 1); c \<leftarrow> lookup64 (push_bit 4 (x AND 0x03) OR drop_bit 4 y); w \<leftarrow> emit w c;
                c \<leftarrow> lookup64 (push_bit 2 (y AND 0xF)); w \<leftarrow> emit w c;
                emit w 61 }
      else Some w)"

text \<open>
  The result is the code, the output block and the output size, where they are set. The first
  argument says whether \<open>rt_try_malloc\<close> returns a block.
\<close>

definition rtBase64_encode :: "bool \<Rightarrow> u8 list \<Rightarrow> nat \<Rightarrow> (int \<times> mem option \<times> nat option) run" where
  "rtBase64_encode malloc_ok inp in_size =
     (if RBUS_BINARY_DATA_SIZE_LIMIT < in_size then Some (RT_ERROR, None, None)
      else let last_group_len = in_size mod 3;
               out_size = in_size * 4 div 3 + 1 + (if 0 \<noteq> last_group_len then 4 else 0)
           in if \<not> malloc_ok then Some (RT_ERROR, None, Some out_size)
              else do { (i, w) \<leftarrow> encode_loop inp (in_size - last_group_len) 0 (replicate out_size None, 0);
                        w \<leftarrow> encode_tail inp last_group_len i w;
                        w \<leftarrow> emit w 0;
                        Some (RT_OK, Some (fst w), Some out_size) })"

text \<open>The bytes of a decoded group, with the error flag each character may raise.\<close>

definition decode1 :: "u8 \<Rightarrow> u8 \<Rightarrow> u8 \<times> bool" where
  "decode1 a b =
     (push_bit 2 (fst (decode_base64_char a)) OR drop_bit 4 (fst (decode_base64_char b)),
      snd (decode_base64_char a) \<or> snd (decode_base64_char b))"

definition decode2 :: "u8 \<Rightarrow> u8 \<Rightarrow> u8 \<times> bool" where
  "decode2 b c =
     (push_bit 4 (fst (decode_base64_char b)) OR drop_bit 2 (fst (decode_base64_char c)),
      snd (decode_base64_char b) \<or> snd (decode_base64_char c))"

definition decode3 :: "u8 \<Rightarrow> u8 \<Rightarrow> u8 \<times> bool" where
  "decode3 c d =
     (push_bit 6 (fst (decode_base64_char c)) OR (fst (decode_base64_char d) AND 0x3F),
      snd (decode_base64_char c) \<or> snd (decode_base64_char d))"

function decode_loop :: "u8 list \<Rightarrow> nat \<Rightarrow> nat \<Rightarrow> cursor \<Rightarrow> bool \<Rightarrow> (nat \<times> cursor \<times> bool) run" where
  "decode_loop inp temp_size i w err =
     (if i < temp_size
      then do { a \<leftarrow> rd inp i; b \<leftarrow> rd inp (i + 1);
                w \<leftarrow> emit w (fst (decode1 a b));
                c \<leftarrow> rd inp (i + 2);
                w \<leftarrow> emit w (fst (decode2 b c));
                d \<leftarrow> rd inp (i + 3);
                w \<leftarrow> emit w (fst (decode3 c d));
                decode_loop inp temp_size (i + 4) w
                  (err \<or> snd (decode1 a b) \<or> snd (decode2 b c) \<or> snd (decode3 c d)) }
      else Some (i, w, err))"
  by pat_completeness auto

termination
  by (relation "measure (\<lambda>(inp, t, i, w, err). t - i)") auto

definition decode_tail :: "u8 list \<Rightarrow> nat \<Rightarrow> nat \<Rightarrow> cursor \<Rightarrow> bool \<Rightarrow> (cursor \<times> bool) run" where
  "decode_tail inp num_padding_bytes i w err =
     (if num_padding_bytes = 2
      then do { a \<leftarrow> rd inp i; b \<leftarrow> rd inp (i + 1);
                w \<leftarrow> emit w (fst (decode1 a b)); Some (w, err \<or> snd (decode1 a b)) }
      else if num_padding_bytes = 1
      then do { a \<leftarrow> rd inp i; b \<leftarrow> rd inp (i + 1);
                w \<leftarrow> emit w (fst (decode1 a b));
                c \<leftarrow> rd inp (i + 2);
                w \<leftarrow> emit w (fst (decode2 b c));
                Some (w, err \<or> snd (decode1 a b) \<or> snd (decode2 b c)) }
      else Some (w, err))"

text \<open>
  Indices are \<open>unsigned int\<close>: for an input of size 0 the index of the last but one character
  wraps around. On a decoding error \<open>*out\<close> becomes NULL and \<open>*out_size\<close> keeps its value.
\<close>

definition rtBase64_decode :: "bool \<Rightarrow> u8 list \<Rightarrow> nat \<Rightarrow> (int \<times> mem option \<times> nat option) run" where
  "rtBase64_decode malloc_ok inp in_size =
     (if RBUS_BASE64_DATA_SIZE_LIMIT < in_size then Some (RT_ERROR, None, None)
      else if in_size mod 4 \<noteq> 0 then Some (RT_ERROR, None, None)
      else do { p2 \<leftarrow> rd inp ((in_size + 2 ^ 32 - 2) mod 2 ^ 32);
                num_padding_bytes \<leftarrow>
                  (if p2 = 61 then Some 2
                   else do { p1 \<leftarrow> rd inp ((in_size + 2 ^ 32 - 1) mod 2 ^ 32);
                             Some (if p1 = 61 then 1 else 0) });
                let out_size = in_size * 3 div 4 - num_padding_bytes;
                if \<not> malloc_ok then Some (RT_ERROR, None, Some out_size)
                else do { (i, w, err) \<leftarrow> decode_loop inp (in_size - (if num_padding_bytes = 0 then 0 else 4)) 0
                                        (replicate out_size None, 0) False;
                          (w, err) \<leftarrow> decode_tail inp num_padding_bytes i w err;
                          Some (if err then (RT_ERROR, None, Some out_size)
                                else (RT_OK, Some (fst w), Some out_size)) } })"

section \<open>The reference encoding\<close>

definition enc64 :: "u8 \<Rightarrow> u8" where
  "enc64 i = base64_lookup_table ! unat i"

fun b64 :: "u8 list \<Rightarrow> u8 list" where
  "b64 [] = []"
| "b64 [x] = [enc64 (drop_bit 2 x), enc64 (push_bit 4 (x AND 0x03)), 61, 61]"
| "b64 [x, y] = [enc64 (drop_bit 2 x), enc64 (push_bit 4 (x AND 0x03) OR drop_bit 4 y),
     enc64 (push_bit 2 (y AND 0xF)), 61]"
| "b64 (x # y # z # xs) = [enc64 (drop_bit 2 x), enc64 (push_bit 4 (x AND 0x03) OR drop_bit 4 y),
     enc64 (push_bit 2 (y AND 0xF) OR drop_bit 6 z), enc64 (z AND 0x3F)] @ b64 xs"

lemma length_b64: "length (b64 xs) = 4 * ((length xs + 2) div 3)"
proof (induction xs rule: b64.induct)
  case (4 x y z xs)
  have "(length (x # y # z # xs) + 2) div 3 = (length xs + 2) div 3 + 1" by simp
  then show ?case using 4 by simp
qed auto

lemma word_masks: "(0x03 :: u8) = mask 2" "(0xF :: u8) = mask 4" "(0x3F :: u8) = mask 6"
  by (simp_all add: mask_eq_exp_minus_1)

lemma six_bits:
  "unat (drop_bit 2 (x :: u8)) < 64" "unat (push_bit 4 (x AND 0x03) OR drop_bit 4 y) < 64"
  "unat (push_bit 2 (x AND 0xF) OR drop_bit 6 y) < 64" "unat (z AND 0x3F :: u8) < 64"
  "unat (push_bit 4 (x AND 0x03)) < 64" "unat (push_bit 2 (x AND 0xF)) < 64"
proof -
  have *: "unat w < 64" if "\<And>n. bit w n \<Longrightarrow> n < 6" for w :: u8
  proof -
    have "take_bit 6 w = w" by (rule bit_word_eqI) (use that in \<open>auto simp: bit_simps\<close>)
    then have "take_bit 6 (unat w) = unat w" by (metis unsigned_take_bit_eq)
    then show ?thesis using take_bit_nat_less_exp [of 6 "unat w"] by simp
  qed
  show "unat (drop_bit 2 x) < 64" "unat (push_bit 4 (x AND 0x03) OR drop_bit 4 y) < 64"
    "unat (push_bit 2 (x AND 0xF) OR drop_bit 6 y) < 64" "unat (z AND 0x3F :: u8) < 64"
    "unat (push_bit 4 (x AND 0x03)) < 64" "unat (push_bit 2 (x AND 0xF)) < 64"
    unfolding word_masks
    by (rule *, auto simp: bit_simps simp del: push_bit_and dest!: bit_imp_le_length)+
qed

lemma length_table [simp]: "length base64_lookup_table = 64"
  by (simp add: base64_lookup_table_def)

lemma lookup64_enc: "unat i < 64 \<Longrightarrow> lookup64 i = Some (enc64 i)"
  by (simp add: lookup64_def rd_def enc64_def)

lemma table_decodes: "n < 64 \<Longrightarrow> decode_base64_char (base64_lookup_table ! n) = (word_of_nat n, False)"
proof -
  have "\<forall>n\<in>set [0..<64]. decode_base64_char (base64_lookup_table ! n) = (word_of_nat n, False)"
    by (simp add: base64_lookup_table_def decode_base64_char_def upt_conv_Cons)
  then show "n < 64 \<Longrightarrow> decode_base64_char (base64_lookup_table ! n) = (word_of_nat n, False)" by simp
qed

section \<open>The encoder\<close>

declare encode_loop.simps [simp del] decode_loop.simps [simp del] push_bit_and [simp del]

lemma rd_drop: "drop i inp = xs \<Longrightarrow> j < length xs \<Longrightarrow> rd inp (i + j) = Some (xs ! j)"
  by (auto simp: rd_def)

lemma three_more:
  assumes "length xs = 3 * Suc k"
  obtains x y z ys where "xs = x # y # z # ys" "length ys = 3 * k"
proof -
  have "length xs = Suc (Suc (Suc (3 * k)))" using assms by simp
  then show thesis using that by (auto simp: length_Suc_conv)
qed

lemma four_more:
  assumes "length xs = 4 * Suc k"
  obtains a b c d ys where "xs = a # b # c # d # ys" "length ys = 4 * k"
proof -
  have "length xs = Suc (Suc (Suc (Suc (4 * k))))" using assms by simp
  then show thesis using that by (auto simp: length_Suc_conv)
qed

lemma encode_loop_groups:
  "drop i inp = xs @ rest \<Longrightarrow> length xs = 3 * k \<Longrightarrow>
   Option.bind (put_bytes w a) (\<lambda>w. encode_loop inp (i + 3 * k) i w) =
   do { w \<leftarrow> put_bytes w (a @ map Some (b64 xs)); Some (i + 3 * k, w) }"
proof (induction k arbitrary: i xs a)
  case 0
  then show ?case by (simp add: encode_loop.simps)
next
  case (Suc k)
  obtain x y z ys where xs: "xs = x # y # z # ys" "length ys = 3 * k"
    using three_more [OF Suc.prems(2)] .
  have r: "rd inp i = Some x" "rd inp (Suc i) = Some y" "rd inp (Suc (Suc i)) = Some z"
    using rd_drop [OF Suc.prems(1), of 0] rd_drop [OF Suc.prems(1), of 1] rd_drop [OF Suc.prems(1), of 2]
    by (auto simp: xs)
  have d: "drop (i + 3) inp = ys @ rest"
    using arg_cong [OF Suc.prems(1), of "drop 3"] by (simp add: xs add.commute)
  have t: "i + 3 * Suc k = i + 3 + 3 * k" by simp
  have step: "encode_loop inp (i + 3 + 3 * k) i w =
      Option.bind (put_bytes w (map Some [enc64 (drop_bit 2 x), enc64 (push_bit 4 (x AND 0x03) OR drop_bit 4 y),
        enc64 (push_bit 2 (y AND 0xF) OR drop_bit 6 z), enc64 (z AND 0x3F)]))
        (\<lambda>w. encode_loop inp (i + 3 + 3 * k) (i + 3) w)" for w
    by (subst encode_loop.simps)
      (simp add: r lookup64_enc six_bits emit_def put_bytes_bind)
  show ?case
    unfolding t using Suc.IH [OF d xs(2)]
    by (simp add: step put_bytes_bind xs(1))
qed

lemma encode_tail_group:
  assumes "drop i inp = xs" "length xs < 3"
  shows "Option.bind (put_bytes w a) (\<lambda>w. encode_tail inp (length xs) i w) = put_bytes w (a @ map Some (b64 xs))"
proof -
  consider "xs = []" | x where "xs = [x]" | x y where "xs = [x, y]"
    using assms(2) by (cases xs rule: b64.cases) auto
  then show ?thesis
  proof cases
    case 1
    then show ?thesis by (simp add: encode_tail_def)
  next
    case 2
    then have "rd inp i = Some x" using rd_drop [OF assms(1), of 0] by simp
    then show ?thesis
      using 2 by (simp add: encode_tail_def lookup64_enc six_bits emit_def put_bytes_append put_bytes_bind)
  next
    case 3
    then have "rd inp i = Some x" "rd inp (Suc i) = Some y"
      using rd_drop [OF assms(1), of 0] rd_drop [OF assms(1), of 1] by auto
    then show ?thesis
      using 3 by (simp add: encode_tail_def lookup64_enc six_bits emit_def put_bytes_append put_bytes_bind)
  qed
qed

lemma encode_tail_bind:
  assumes "drop i inp = xs" "length xs < 3"
  shows "Option.bind (put_bytes w a) (\<lambda>w. Option.bind (encode_tail inp (length xs) i w) f)
    = Option.bind (put_bytes w (a @ map Some (b64 xs))) f"
  by (simp flip: encode_tail_group [OF assms])

lemma b64_append: "3 dvd length xs \<Longrightarrow> b64 (xs @ ys) = b64 xs @ b64 ys"
proof (induction xs rule: b64.induct)
  case (4 x y z xs)
  have "3 dvd length xs" using "4.prems" by (simp, presburger)
  then show ?case using "4.IH" by simp
qed (simp_all add: dvd_def, presburger)

text \<open>
  C37. For every input up to the size limit the encoder returns the reference encoding of the
  input as a terminated string, inside the block it allocated.
\<close>

theorem Base64_encode_correct:
  assumes "length inp \<le> RBUS_BINARY_DATA_SIZE_LIMIT"
  shows "\<exists>out n. rtBase64_encode True inp (length inp) = Some (RT_OK, Some out, Some n) \<and>
    length out = n \<and> (\<exists>pad. out = map Some (b64 inp) @ Some 0 # pad)"
proof -
  define n where "n = length inp"
  define l where "l = n mod 3"
  define sz where "sz = n * 4 div 3 + 1 + (if 0 \<noteq> l then 4 else 0)"
  let ?w = "(replicate sz None, 0) :: cursor"
  have split: "inp = take (3 * (n div 3)) inp @ drop (3 * (n div 3)) inp" by simp
  let ?xs = "take (3 * (n div 3)) inp" and ?ys = "drop (3 * (n div 3)) inp"
  have lx: "length ?xs = 3 * (n div 3)" and ly: "length ?ys = l"
    by (simp_all add: n_def l_def minus_mult_div_eq_mod)
  have t: "n - l = 3 * (n div 3)" by (simp add: l_def minus_mod_eq_mult_div)
  have loop: "encode_loop inp (n - l) 0 ?w = do { w \<leftarrow> put_bytes ?w (map Some (b64 ?xs)); Some (n - l, w) }"
  proof -
    have "put_bytes ?w [] = Some ?w" by (simp add: put_bytes_def mem_write_def)
    then show ?thesis
      using encode_loop_groups [of 0 inp ?xs ?ys "n div 3" ?w "[]"] lx t by simp
  qed
  have b: "b64 inp = b64 ?xs @ b64 ?ys"
    using b64_append [of ?xs ?ys] lx by simp
  have "4 * ((n + 2) div 3) + 1 \<le> sz"
  proof (cases "l = 0")
    case True
    then obtain q where q: "n = 3 * q" by (auto simp: l_def)
    have "(3 * q + 2) div 3 = q" by simp
    then show ?thesis using True q by (simp add: sz_def)
  next
    case False
    have "(n + 2) div 3 \<le> n div 3 + 1" "4 * (n div 3) \<le> n * 4 div 3" by linarith+
    with False show ?thesis by (simp add: sz_def)
  qed
  then have fit: "length (map Some (b64 inp) @ [Some 0]) \<le> length (replicate sz None :: mem)"
    by (simp add: length_b64 n_def)
  have "rtBase64_encode True inp n =
      do { w \<leftarrow> put_bytes ?w (map Some (b64 inp) @ [Some 0]); Some (RT_OK, Some (fst w), Some sz) }"
  proof -
    have "drop (n - l) inp = ?ys" "length ?ys < 3" using ly t by (simp_all add: l_def)
    note tail = encode_tail_bind [OF this, unfolded ly]
    show ?thesis
      using assms unfolding rtBase64_encode_def n_def [symmetric] Let_def l_def [symmetric] sz_def [symmetric]
      by (simp add: loop tail emit_def put_bytes_bind b)
  qed
  moreover have "put_bytes ?w (map Some (b64 inp) @ [Some 0]) =
      Some ((map Some (b64 inp) @ [Some 0]) @ drop (length (map Some (b64 inp) @ [Some 0])) (replicate sz None),
        int (length (map Some (b64 inp) @ [Some 0])))"
    using put_bytes_at_start(1) [OF fit] .
  ultimately show ?thesis
    using fit by (simp add: n_def)
qed

theorem Base64_encode_correct_witness:
  "\<exists>out n. rtBase64_encode True [77] 1 = Some (RT_OK, Some out, Some n) \<and> length out = n \<and>
    (\<exists>pad. out = map Some (b64 [77]) @ Some 0 # pad)"
  using Base64_encode_correct [of "[77]"] by (simp add: RBUS_BINARY_DATA_SIZE_LIMIT_def)

section \<open>The decoder\<close>

text \<open>The bytes of the full groups, and whether one of their characters is illegal.\<close>

fun dgroups :: "u8 list \<Rightarrow> u8 list" where
  "dgroups (a # b # c # d # xs) = fst (decode1 a b) # fst (decode2 b c) # fst (decode3 c d) # dgroups xs"
| "dgroups _ = []"

definition bad :: "u8 list \<Rightarrow> bool" where
  "bad xs \<longleftrightarrow> (\<exists>x\<in>set xs. snd (decode_base64_char x))"

lemma bad_Cons: "bad (a # b # c # d # xs) \<longleftrightarrow>
    snd (decode1 a b) \<or> snd (decode2 b c) \<or> snd (decode3 c d) \<or> bad xs"
  by (auto simp: bad_def decode1_def decode2_def decode3_def)

lemma decode_loop_groups:
  "drop i inp = xs @ rest \<Longrightarrow> length xs = 4 * k \<Longrightarrow>
   Option.bind (put_bytes w a) (\<lambda>w. decode_loop inp (i + 4 * k) i w err) =
   do { w \<leftarrow> put_bytes w (a @ map Some (dgroups xs)); Some (i + 4 * k, w, err \<or> bad xs) }"
proof (induction k arbitrary: i xs a err)
  case 0
  then show ?case by (simp add: decode_loop.simps bad_def)
next
  case (Suc k)
  obtain x y z u ys where xs: "xs = x # y # z # u # ys" "length ys = 4 * k"
    using four_more [OF Suc.prems(2)] .
  have r: "rd inp i = Some x" "rd inp (Suc i) = Some y" "rd inp (Suc (Suc i)) = Some z"
      "rd inp (i + 3) = Some u"
    using rd_drop [OF Suc.prems(1), of 0] rd_drop [OF Suc.prems(1), of 1] rd_drop [OF Suc.prems(1), of 2]
      rd_drop [OF Suc.prems(1), of 3] by (auto simp: xs)
  have d: "drop (i + 4) inp = ys @ rest"
    using arg_cong [OF Suc.prems(1), of "drop 4"] by (simp add: xs add.commute)
  have t: "i + 4 * Suc k = i + 4 + 4 * k" by simp
  have step: "decode_loop inp (i + 4 + 4 * k) i w err =
      Option.bind (put_bytes w (map Some [fst (decode1 x y), fst (decode2 y z), fst (decode3 z u)]))
        (\<lambda>w. decode_loop inp (i + 4 + 4 * k) (i + 4) w
          (err \<or> snd (decode1 x y) \<or> snd (decode2 y z) \<or> snd (decode3 z u)))" for w
    by (subst decode_loop.simps) (simp add: r emit_def put_bytes_bind)
  show ?case
    unfolding t using Suc.IH [OF d xs(2)]
    by (simp add: step put_bytes_bind xs(1) bad_Cons)
qed

lemma decode_enc64: "unat i < 64 \<Longrightarrow> decode_base64_char (enc64 i) = (i, False)"
  by (simp add: enc64_def table_decodes)

lemma enc64_legal: "unat i < 64 \<Longrightarrow> enc64 i \<noteq> 61 \<and> enc64 i \<noteq> 0"
  using decode_enc64 [of i] by (auto simp: decode_base64_char_def)

lemma sextets_bytes:
  "push_bit 2 (drop_bit 2 x) OR drop_bit 4 (push_bit 4 (x AND 0x03) OR drop_bit 4 y) = (x :: u8)"
  "push_bit 4 (push_bit 4 (x AND 0x03) OR drop_bit 4 y) OR drop_bit 2 (push_bit 2 (y AND 0xF) OR drop_bit 6 z) = (y :: u8)"
  "push_bit 6 (push_bit 2 (y AND 0xF) OR drop_bit 6 z) OR (z AND 0x3F AND 0x3F) = (z :: u8)"
  "push_bit 2 (drop_bit 2 x) OR drop_bit 4 (push_bit 4 (x AND 0x03)) = (x :: u8)"
  "push_bit 4 (push_bit 4 (x AND 0x03) OR drop_bit 4 y) OR drop_bit 2 (push_bit 2 (y AND 0xF)) = (y :: u8)"
proof -
  have [simp]: "2 \<le> n \<Longrightarrow> Suc (Suc (n - 2)) = n" for n :: nat by simp
  show "push_bit 2 (drop_bit 2 x) OR drop_bit 4 (push_bit 4 (x AND 0x03) OR drop_bit 4 y) = (x :: u8)"
    "push_bit 4 (push_bit 4 (x AND 0x03) OR drop_bit 4 y) OR drop_bit 2 (push_bit 2 (y AND 0xF) OR drop_bit 6 z) = (y :: u8)"
    "push_bit 6 (push_bit 2 (y AND 0xF) OR drop_bit 6 z) OR (z AND 0x3F AND 0x3F) = (z :: u8)"
    "push_bit 2 (drop_bit 2 x) OR drop_bit 4 (push_bit 4 (x AND 0x03)) = (x :: u8)"
    "push_bit 4 (push_bit 4 (x AND 0x03) OR drop_bit 4 y) OR drop_bit 2 (push_bit 2 (y AND 0xF)) = (y :: u8)"
    unfolding word_masks by (auto intro!: bit_word_eqI simp: bit_simps dest: bit_imp_le_length)
qed

lemma dgroups_b64: "3 dvd length xs \<Longrightarrow> dgroups (b64 xs) = xs \<and> \<not> bad (b64 xs)"
proof (induction xs rule: b64.induct)
  case (4 x y z xs)
  have "3 dvd length xs" using "4.prems" by (simp, presburger)
  then show ?case
    using "4.IH" sextets_bytes
    by (auto simp: bad_Cons decode1_def decode2_def decode3_def decode_enc64 six_bits)
qed (simp_all add: dvd_def bad_def, presburger)

lemma b64_no_pad: "3 dvd length xs \<Longrightarrow> 61 \<notin> set (b64 xs)"
proof (induction xs rule: b64.induct)
  case (4 x y z xs)
  have "3 dvd length xs" using "4.prems" by (simp, presburger)
  then show ?case using "4.IH" enc64_legal six_bits by (auto simp: eq_commute [of "61"])
qed (simp_all add: dvd_def, presburger)

lemma unsigned_wrap:
  fixes n k :: nat
  assumes "k \<le> n" "n < 2 ^ 32"
  shows "(n + 2 ^ 32 - k) mod 2 ^ 32 = n - k"
proof -
  have "n + 2 ^ 32 - k = (n - k) + 2 ^ 32" using assms(1) by linarith
  moreover have "(n - k + 2 ^ 32) mod 2 ^ 32 = (n - k) mod 2 ^ 32" by (rule mod_add_self2)
  moreover have "(n - k) mod 2 ^ 32 = n - k" by (rule mod_less) (use assms(2) in linarith)
  ultimately show ?thesis by (simp only:)
qed

definition padding :: "u8 list \<Rightarrow> nat" where
  "padding inp = (if inp ! (length inp - 2) = 61 then 2 else if inp ! (length inp - 1) = 61 then 1 else 0)"

lemma decode_unfold:
  assumes "length inp = 4 * k" "0 < k" "length inp \<le> RBUS_BASE64_DATA_SIZE_LIMIT"
  defines "out \<equiv> length inp * 3 div 4 - padding inp"
  shows "rtBase64_decode True inp (length inp) =
    do { (i, w, err) \<leftarrow> decode_loop inp (length inp - (if padding inp = 0 then 0 else 4)) 0 (replicate out None, 0) False;
         (w, err) \<leftarrow> decode_tail inp (padding inp) i w err;
         Some (if err then (RT_ERROR, None, Some out) else (RT_OK, Some (fst w), Some out)) }"
proof -
  have n: "2 \<le> length inp" "1 \<le> length inp" "length inp < 2 ^ 32"
    using assms(1-3) by (auto simp: RBUS_BASE64_DATA_SIZE_LIMIT_def RBUS_BINARY_DATA_SIZE_LIMIT_def)
  have r: "rd inp ((length inp + 2 ^ 32 - 2) mod 2 ^ 32) = Some (inp ! (length inp - 2))"
      "rd inp ((length inp + 2 ^ 32 - 1) mod 2 ^ 32) = Some (inp ! (length inp - 1))"
    unfolding unsigned_wrap [OF n(1,3)] unsigned_wrap [OF n(2,3)] using n(1) by (simp_all add: rd_def)
  have m: "\<not> RBUS_BASE64_DATA_SIZE_LIMIT < length inp" "length inp mod 4 = 0"
    using assms(1,3) by auto
  have pad: "(if inp ! (length inp - 2) = 61 then Some 2
      else Option.bind (Some (inp ! (length inp - 1))) (\<lambda>p1. Some (if p1 = 61 then 1 else 0))) = Some (padding inp)"
    by (simp add: padding_def)
  show ?thesis
    unfolding rtBase64_decode_def r out_def by (simp add: m pad Let_def split del: if_split)
qed

lemma decode_loop_start:
  assumes "length g = 4 * k"
  shows "decode_loop (g @ rest) (4 * k) 0 (replicate n None, 0) False =
    do { w \<leftarrow> put_bytes (replicate n None, 0) (map Some (dgroups g)); Some (4 * k, w, bad g) }"
  using decode_loop_groups [of 0 "g @ rest" g rest k "(replicate n None, 0)" "[]" False] assms
  by (simp add: put_bytes_def mem_write_def)

lemma b64_groups:
  assumes "3 dvd length g"
  obtains k where "length g = 3 * k" "length (b64 g) = 4 * k"
proof -
  obtain k where k: "length g = 3 * k" using assms by auto
  have "(3 * k + 2) div 3 = k" by simp
  then show thesis using that k by (simp add: length_b64)
qed

text \<open>The three shapes of an encoding: no, two or one padding characters.\<close>

lemma decode_no_padding:
  assumes "3 dvd length g" "length (b64 g) \<le> RBUS_BASE64_DATA_SIZE_LIMIT" "g \<noteq> []"
  shows "rtBase64_decode True (b64 g) (length (b64 g)) = Some (RT_OK, Some (map Some g), Some (length g))"
proof -
  obtain k where k: "length g = 3 * k" "length (b64 g) = 4 * k" using b64_groups [OF assms(1)] .
  have pos: "0 < k" using assms(3) k(1) by (cases k) auto
  have "padding (b64 g) = 0"
    using b64_no_pad [OF assms(1)] k(2) pos unfolding padding_def
    by (metis diff_less nth_mem mult_pos_pos zero_less_numeral zero_less_one)
  moreover have "put_bytes (replicate (3 * k) None, 0) (map Some g) = Some (map Some g, int (3 * k))"
    using put_bytes_at_start(1) [of "map Some g" "replicate (3 * k) None"] k(1) by simp
  ultimately show ?thesis
    using decode_unfold [of "b64 g" k] decode_loop_start [of "b64 g" k "[]" "3 * k"] dgroups_b64 [OF assms(1)]
      assms(2) k pos by (simp add: decode_tail_def)
qed

lemma decode_two_padding:
  assumes "3 dvd length g" "length (b64 g) + 4 \<le> RBUS_BASE64_DATA_SIZE_LIMIT"
  shows "rtBase64_decode True (b64 g @ b64 [x]) (length (b64 g @ b64 [x]))
    = Some (RT_OK, Some (map Some (g @ [x])), Some (length g + 1))"
proof -
  obtain k where k: "length g = 3 * k" "length (b64 g) = 4 * k" using b64_groups [OF assms(1)] .
  define inp where "inp = b64 g @ b64 [x]"
  have l: "length inp = 4 * (k + 1)" "length inp \<le> RBUS_BASE64_DATA_SIZE_LIMIT"
    using k(2) assms(2) by (simp_all add: inp_def)
  have p: "padding inp = 2" using k(2) by (simp add: padding_def inp_def nth_append)
  have r: "rd inp (4 * k) = Some (enc64 (drop_bit 2 x))" "rd inp (Suc (4 * k)) = Some (enc64 (push_bit 4 (x AND 0x03)))"
    using k(2) by (simp_all add: inp_def rd_def nth_append)
  have "put_bytes (replicate (3 * k + 1) None, 0) (map Some (g @ [x])) = Some (map Some (g @ [x]), int (3 * k + 1))"
    using put_bytes_at_start(1) [of "map Some (g @ [x])" "replicate (3 * k + 1) None"] k(1) by simp
  moreover have "decode_loop inp (4 * k) 0 (replicate (3 * k + 1) None, 0) False =
      do { w \<leftarrow> put_bytes (replicate (3 * k + 1) None, 0) (map Some g); Some (4 * k, w, False) }"
    unfolding inp_def decode_loop_start [OF k(2)] using dgroups_b64 [OF assms(1)] by simp
  moreover have "length inp * 3 div 4 - padding inp = 3 * k + 1" using l(1) p by simp
  ultimately have "rtBase64_decode True inp (length inp) = Some (RT_OK, Some (map Some (g @ [x])), Some (3 * k + 1))"
    unfolding decode_unfold [OF l(1) _ l(2), simplified] using l(1) p r sextets_bytes(4) [of x]
    by (simp add: decode_tail_def emit_def put_bytes_bind decode1_def decode_enc64 six_bits)
  then show ?thesis using k(1) by (simp add: inp_def)
qed

lemma decode_one_padding:
  assumes "3 dvd length g" "length (b64 g) + 4 \<le> RBUS_BASE64_DATA_SIZE_LIMIT"
  shows "rtBase64_decode True (b64 g @ b64 [x, y]) (length (b64 g @ b64 [x, y]))
    = Some (RT_OK, Some (map Some (g @ [x, y])), Some (length g + 2))"
proof -
  obtain k where k: "length g = 3 * k" "length (b64 g) = 4 * k" using b64_groups [OF assms(1)] .
  define inp where "inp = b64 g @ b64 [x, y]"
  have l: "length inp = 4 * (k + 1)" "length inp \<le> RBUS_BASE64_DATA_SIZE_LIMIT"
    using k(2) assms(2) by (simp_all add: inp_def)
  have p: "padding inp = 1"
    using k(2) enc64_legal [OF six_bits(6), of y] by (simp add: padding_def inp_def nth_append)
  have r: "rd inp (4 * k) = Some (enc64 (drop_bit 2 x))"
      "rd inp (Suc (4 * k)) = Some (enc64 (push_bit 4 (x AND 0x03) OR drop_bit 4 y))"
      "rd inp (Suc (Suc (4 * k))) = Some (enc64 (push_bit 2 (y AND 0xF)))"
    using k(2) by (simp_all add: inp_def rd_def nth_append)
  have "put_bytes (replicate (3 * k + 2) None, 0) (map Some (g @ [x, y])) = Some (map Some (g @ [x, y]), int (3 * k + 2))"
    using put_bytes_at_start(1) [of "map Some (g @ [x, y])" "replicate (3 * k + 2) None"] k(1) by simp
  moreover have "decode_loop inp (4 * k) 0 (replicate (3 * k + 2) None, 0) False =
      do { w \<leftarrow> put_bytes (replicate (3 * k + 2) None, 0) (map Some g); Some (4 * k, w, False) }"
    unfolding inp_def decode_loop_start [OF k(2)] using dgroups_b64 [OF assms(1)] by simp
  moreover have "length inp * 3 div 4 - padding inp = 3 * k + 2" using l(1) p by simp
  ultimately have "rtBase64_decode True inp (length inp) = Some (RT_OK, Some (map Some (g @ [x, y])), Some (3 * k + 2))"
    unfolding decode_unfold [OF l(1) _ l(2), simplified] using l(1) p r sextets_bytes(1) [of x y] sextets_bytes(5) [of x y]
    by (simp add: decode_tail_def emit_def put_bytes_bind decode1_def decode2_def decode_enc64 six_bits)
  then show ?thesis using k(1) by (simp add: inp_def)
qed



lemma Base64_decode_empty: "length inp < 2 ^ 32 - 2 \<Longrightarrow> rtBase64_decode malloc_ok inp 0 = None"
  by (simp add: rtBase64_decode_def rd_def)

end
