(* ===== verification/RT_Vector.thy ===== *)
theory RT_Vector
  imports RB_Prelude
begin

text \<open>
  The growable pointer vector of \<^verbatim>\<open>src/src/rtmessage/rtVector.c\<close>, with its index loops, and
  the interfaces \<open>collection\<close> and \<open>sequence\<close> it implements: a vector stands for the list of its items.
\<close>

section \<open>The vector\<close>

text \<open>
  A slot of the block is \<open>Some\<close> item, or \<open>None\<close> where it holds NULL or has not been written;
  the pointer \<open>data\<close> is \<open>None\<close> while it is NULL. Items are non-NULL pointers. Indices and sizes
  are \<open>size_t\<close>.
\<close>

definition RTVECT_BLOCKSIZE :: nat where "RTVECT_BLOCKSIZE = 16"

record 'a rtVector =
  vdata :: "'a option list option"
  capacity :: nat
  vcount :: nat

definition rtVector_Create :: "'a rtVector" where
  "rtVector_Create = \<lparr>vdata = None, capacity = 0, vcount = 0\<rparr>"

text \<open>
  The first argument says whether the allocation, if one is needed, succeeds. When it fails
  the old block is lost and the capacity has changed all the same.
\<close>

definition rtVector_PushBack :: "bool \<Rightarrow> 'a rtVector \<Rightarrow> 'a \<Rightarrow> (int \<times> 'a rtVector) run" where
  "rtVector_PushBack alloc_ok v item =
     (let v = (case vdata v of
                 None \<Rightarrow> v\<lparr>vdata := (if alloc_ok then Some (replicate RTVECT_BLOCKSIZE None) else None),
                           capacity := RTVECT_BLOCKSIZE\<rparr>
               | Some d \<Rightarrow>
                   if vcount v + 1 \<ge> capacity v
                   then v\<lparr>vdata := (if alloc_ok then Some (take (capacity v) d @ replicate RTVECT_BLOCKSIZE None) else None),
                          capacity := capacity v + RTVECT_BLOCKSIZE\<rparr>
                   else v)
      in case vdata v of
           None \<Rightarrow> Some (RT_ENOMEM, v)
         | Some d \<Rightarrow>
             if vcount v < length d
             then Some (RT_OK, v\<lparr>vdata := Some (d[vcount v := Some item]), vcount := vcount v + 1\<rparr>)
             else None)"

text \<open>Reading a slot: outside the block undefined; its contents must be an item to be used.\<close>

definition slot :: "'a option list \<Rightarrow> nat \<Rightarrow> 'a option run" where
  "slot d i = (if i < length d then Some (d ! i) else None)"

definition block :: "'a rtVector \<Rightarrow> 'a option list" where
  "block v = (case vdata v of None \<Rightarrow> [] | Some d \<Rightarrow> d)"

text \<open>The search loop: the first index below \<open>n\<close> whose item satisfies \<open>P\<close>, otherwise \<open>n\<close>.\<close>

function vec_search :: "('a \<Rightarrow> bool) \<Rightarrow> 'a option list \<Rightarrow> nat \<Rightarrow> nat \<Rightarrow> nat run" where
  "vec_search P d i n =
     (if i < n then do { s \<leftarrow> slot d i; x \<leftarrow> s; if P x then Some i else vec_search P d (i + 1) n }
      else Some i)"
  by pat_completeness auto

termination
  by (relation "measure (\<lambda>(P, d, i, n). n - i)") auto

text \<open>The loop that moves the items behind \<open>i\<close> down by one, and the one that clears the rest.\<close>

function vec_shift :: "'a option list \<Rightarrow> nat \<Rightarrow> nat \<Rightarrow> 'a option list run" where
  "vec_shift d i n =
     (if i < n then do { s \<leftarrow> slot d (i + 1); vec_shift (d[i := s]) (i + 1) n } else Some d)"
  by pat_completeness auto

termination
  by (relation "measure (\<lambda>(d, i, n). n - i)") auto

function vec_clear :: "'a option list \<Rightarrow> nat \<Rightarrow> nat \<Rightarrow> 'a option list run" where
  "vec_clear d i n =
     (if i < n then if i < length d then vec_clear (d[i := None]) (i + 1) n else None else Some d)"
  by pat_completeness auto

termination
  by (relation "measure (\<lambda>(d, i, n). n - i)") auto

text \<open>
  \<open>rtVector_RemoveItem\<close> and \<open>rtVector_RemoveItemByCompare\<close> have the same body but for the test;
  the destroyer they call on the item has no effect on the vector.
\<close>

definition vec_remove :: "('a \<Rightarrow> bool) \<Rightarrow> 'a rtVector \<Rightarrow> (int \<times> 'a rtVector) run" where
  "vec_remove P v =
     do { i \<leftarrow> vec_search P (block v) 0 (vcount v);
          if i = vcount v then Some (RT_FAIL, v)
          else do { d \<leftarrow> vec_shift (block v) i (vcount v);
                    d \<leftarrow> vec_clear d (vcount v) (capacity v);
                    Some (RT_OK, v\<lparr>vdata := Some d, vcount := vcount v - 1\<rparr>) } }"

definition rtVector_RemoveItem :: "'a rtVector \<Rightarrow> 'a \<Rightarrow> (int \<times> 'a rtVector) run" where
  "rtVector_RemoveItem v item = vec_remove (\<lambda>x. x = item) v"

definition rtVector_RemoveItemByCompare ::
  "'a rtVector \<Rightarrow> 'k \<Rightarrow> ('a \<Rightarrow> 'k \<Rightarrow> int) \<Rightarrow> (int \<times> 'a rtVector) run" where
  "rtVector_RemoveItemByCompare v comparison compare = vec_remove (\<lambda>x. compare x comparison = 0) v"

definition rtVector_At :: "'a rtVector \<Rightarrow> nat \<Rightarrow> 'a option run" where
  "rtVector_At v i = (if i \<ge> vcount v then Some None else slot (block v) i)"

definition rtVector_Size :: "'a rtVector \<Rightarrow> nat" where
  "rtVector_Size v = vcount v"

definition rtVector_Find :: "'a rtVector \<Rightarrow> 'k \<Rightarrow> ('a \<Rightarrow> 'k \<Rightarrow> int) \<Rightarrow> 'a option run" where
  "rtVector_Find v comparison compare =
     do { i \<leftarrow> vec_search (\<lambda>x. compare x comparison = 0) (block v) 0 (vcount v);
          if i < vcount v then slot (block v) i else Some None }"

definition rtVector_HasItem :: "'a rtVector \<Rightarrow> 'k \<Rightarrow> ('a \<Rightarrow> 'k \<Rightarrow> int) \<Rightarrow> int run" where
  "rtVector_HasItem v comparison compare =
     do { x \<leftarrow> rtVector_Find v comparison compare; Some (if x \<noteq> None then 1 else 0) }"

definition rtVector_Compare_String :: "string option \<Rightarrow> string option \<Rightarrow> int" where
  "rtVector_Compare_String left right =
     (case left of None \<Rightarrow> - 1 | Some l \<Rightarrow> (case right of None \<Rightarrow> 1 | Some r \<Rightarrow> strcmp l r))"

section \<open>Invariant and contents\<close>

definition vec_inv :: "'a rtVector \<Rightarrow> bool" where
  "vec_inv v \<longleftrightarrow>
     (case vdata v of
        None \<Rightarrow> capacity v = 0 \<and> vcount v = 0
      | Some d \<Rightarrow> length d = capacity v \<and> vcount v < capacity v \<and>
          list_all (\<lambda>s. s \<noteq> None) (take (vcount v) d))"

definition items :: "'a rtVector \<Rightarrow> 'a list" where
  "items v = map the (take (vcount v) (block v))"

fun remove_first :: "('a \<Rightarrow> bool) \<Rightarrow> 'a list \<Rightarrow> 'a list" where
  "remove_first P [] = []"
| "remove_first P (x # xs) = (if P x then xs else x # remove_first P xs)"

lemma list_all_Some: "list_all (\<lambda>s. s \<noteq> None) l \<Longrightarrow> map Some (map the l) = l"
  by (induction l) auto

text \<open>The shape of a well-formed vector: its items, then at least one free slot.\<close>

lemma vec_repr:
  assumes "vec_inv v"
  obtains junk where "block v = map Some (items v) @ junk" "length (items v) = vcount v"
    "length (block v) = capacity v" "vdata v = None \<Longrightarrow> capacity v = 0" "vdata v \<noteq> None \<Longrightarrow> junk \<noteq> []"
proof (cases "vdata v")
  case None
  then show thesis using assms that [of "[]"] by (auto simp: vec_inv_def items_def block_def)
next
  case (Some d)
  have i: "map Some (items v) = take (vcount v) d" "vcount v < length d" "length d = capacity v"
    using assms Some list_all_Some [of "take (vcount v) d"] by (auto simp: vec_inv_def items_def block_def)
  show thesis
    by (rule that [of "drop (vcount v) d"]) (use Some i in \<open>auto simp: block_def items_def\<close>)
qed

lemma vec_invI:
  assumes "block v = map Some xs @ junk" "junk \<noteq> []" "vdata v \<noteq> None" "vcount v = length xs"
    "capacity v = length (block v)"
  shows "vec_inv v" "items v = xs"
proof -
  obtain d where "vdata v = Some d" "d = map Some xs @ junk"
    using assms(1,3) by (auto simp: block_def)
  then show "vec_inv v" "items v = xs"
    using assms by (auto simp: vec_inv_def items_def block_def list_all_iff comp_def)
qed

declare vec_search.simps [simp del] vec_shift.simps [simp del] vec_clear.simps [simp del]

lemma vec_search_ok:
  "i \<le> length xs \<Longrightarrow>
   vec_search P (map Some xs @ junk) i (length xs) = Some (i + length (takeWhile (\<lambda>x. \<not> P x) (drop i xs)))"
proof (induction "length xs - i" arbitrary: i)
  case 0
  then show ?case by (simp add: vec_search.simps)
next
  case (Suc k)
  then have i: "i < length xs" by simp
  have "drop i xs = xs ! i # drop (Suc i) xs" using i by (simp add: Cons_nth_drop_Suc)
  moreover have "slot (map Some xs @ junk) i = Some (Some (xs ! i))"
    using i by (simp add: slot_def nth_append)
  ultimately show ?case
    using Suc.hyps(1) [of "Suc i"] Suc.hyps(2) i by (subst vec_search.simps) simp
qed

lemma vec_shift_ok:
  "i \<le> n \<Longrightarrow> n < length d \<Longrightarrow> \<exists>d'. vec_shift d i n = Some d' \<and> length d' = length d \<and>
   take n d' = take i d @ take (n - i) (drop (Suc i) d)"
proof (induction "n - i" arbitrary: i d)
  case 0
  then show ?case by (simp add: vec_shift.simps)
next
  case (Suc k)
  then have i: "i < n" "Suc i < length d" by simp_all
  define e where "e = d[i := d ! Suc i]"
  have e: "length e = length d" by (simp add: e_def)
  obtain d' where d': "vec_shift e (Suc i) n = Some d'" "length d' = length d"
      "take n d' = take (Suc i) e @ take (n - Suc i) (drop (Suc (Suc i)) e)"
  proof -
    have "k = n - Suc i" using Suc.hyps(2) by linarith
    then show thesis using Suc.hyps(1) [of "Suc i" e] Suc.prems(2) i e that by auto
  qed
  have "take (Suc i) e = take i d @ [d ! Suc i]"
    using i by (simp add: e_def take_Suc_conv_app_nth)
  moreover have "drop (Suc (Suc i)) e = drop (Suc (Suc i)) d" by (simp add: e_def)
  moreover have "take (n - i) (drop (Suc i) d) = d ! Suc i # take (n - Suc i) (drop (Suc (Suc i)) d)"
  proof -
    have "drop (Suc i) d = d ! Suc i # drop (Suc (Suc i)) d" using i(2) by (simp add: Cons_nth_drop_Suc)
    moreover have "n - i = Suc (n - Suc i)" using i by simp
    ultimately show ?thesis by simp
  qed
  ultimately have "take n d' = take i d @ take (n - i) (drop (Suc i) d)"
    using d'(3) by simp
  moreover have "vec_shift d i n = vec_shift e (Suc i) n"
    using i by (subst vec_shift.simps) (simp add: slot_def e_def)
  ultimately show ?case using d'(1,2) by simp
qed

lemma vec_clear_ok:
  "i \<le> length d \<Longrightarrow> vec_clear d i (length d) = Some (take i d @ replicate (length d - i) None)"
proof (induction "length d - i" arbitrary: i d)
  case 0
  then show ?case by (simp add: vec_clear.simps)
next
  case (Suc k)
  then have i: "i < length d" by simp
  have "vec_clear d i (length d) = vec_clear (d[i := None]) (Suc i) (length (d[i := None]))"
    using i by (subst vec_clear.simps) simp
  also have "\<dots> = Some (take (Suc i) (d[i := None]) @ replicate (length d - Suc i) None)"
    using Suc.hyps(1) [of "d[i := None]" "Suc i"] Suc.hyps(2) i by simp
  also have "take (Suc i) (d[i := None]) = take i d @ [None]"
    using i by (simp add: take_Suc_conv_app_nth)
  also have "(take i d @ [None]) @ replicate (length d - Suc i) None = take i d @ replicate (length d - i) None"
    using i by (simp add: Suc_diff_Suc [symmetric])
  finally show ?case .
qed

lemma remove_first_conv:
  "remove_first P xs = take (length (takeWhile (\<lambda>x. \<not> P x) xs)) xs @ drop (Suc (length (takeWhile (\<lambda>x. \<not> P x) xs))) xs"
  by (induction xs) auto

lemma takeWhile_all_iff: "length (takeWhile (\<lambda>x. \<not> P x) xs) = length xs \<longleftrightarrow> (\<forall>x\<in>set xs. \<not> P x)"
  by (induction xs) auto

lemma vec_remove_ok:
  assumes "vec_inv v"
  shows "\<exists>rc v'. vec_remove P v = Some (rc, v') \<and> vec_inv v' \<and> items v' = remove_first P (items v) \<and>
    (rc = (if \<exists>x\<in>set (items v). P x then RT_OK else RT_FAIL))"
proof -
  define xs where "xs = items v"
  obtain junk where b: "block v = map Some xs @ junk" "length xs = vcount v"
      "length (block v) = capacity v" "vdata v \<noteq> None \<Longrightarrow> junk \<noteq> []"
    using vec_repr [OF assms] unfolding xs_def by metis
  define i where "i = length (takeWhile (\<lambda>x. \<not> P x) xs)"
  have s: "vec_search P (block v) 0 (vcount v) = Some i"
    using vec_search_ok [of 0 xs P junk] b by (simp add: i_def)
  show ?thesis
  proof (cases "i = vcount v")
    case True
    then have no: "\<forall>x\<in>set xs. \<not> P x" using takeWhile_all_iff [of P xs] b(2) by (simp add: i_def)
    moreover from no have "remove_first P xs = xs" by (induction xs) auto
    ultimately show ?thesis
      using s True assms by (simp add: vec_remove_def xs_def [symmetric])
  next
    case False
    then have i: "i < vcount v" using length_takeWhile_le [of "\<lambda>x. \<not> P x" xs] b(2) by (simp add: i_def)
    then have "vdata v \<noteq> None" using b(1,2) by (cases "vdata v") (auto simp: block_def)
    then have n: "vcount v < length (block v)" using b by (cases junk) auto
    obtain d where d: "vec_shift (block v) i (vcount v) = Some d" "length d = length (block v)"
        "take (vcount v) d = take i (block v) @ take (vcount v - i) (drop (Suc i) (block v))"
      using vec_shift_ok [of i "vcount v" "block v"] i n by auto
    define e where "e = take (vcount v) d @ replicate (length d - vcount v) None"
    have c: "vec_clear d (vcount v) (capacity v) = Some e"
      using vec_clear_ok [of "vcount v" d] n d(2) b(3) by (simp add: e_def)
    define y where "y = hd junk"
    have "take (vcount v) d = map Some (take i xs @ drop (Suc i) xs) @ [y]"
      using d(3) b(1,2) i n by (cases junk) (auto simp: y_def take_map drop_map)
    then have e': "e = map Some (remove_first P xs) @ y # replicate (length d - vcount v) None"
      by (simp add: e_def remove_first_conv i_def)
    have l: "length (remove_first P xs) = vcount v - 1"
      using i b(2) by (simp add: remove_first_conv flip: i_def)
    let ?v = "v\<lparr>vdata := Some e, vcount := vcount v - 1\<rparr>"
    have le: "length e = capacity v" using n d(2) b(3) by (simp add: e_def)
    have "block ?v = map Some (remove_first P xs) @ y # replicate (length d - vcount v) None"
      by (simp add: block_def e')
    from vec_invI [OF this] have "vec_inv ?v" "items ?v = remove_first P xs"
      using le l by (simp_all add: block_def)
    moreover have "vec_remove P v = Some (RT_OK, ?v)"
      using s False d(1) c by (simp add: vec_remove_def)
    moreover have "\<exists>x\<in>set xs. P x" using takeWhile_all_iff [of P xs] i b(2) by (auto simp: i_def)
    ultimately show ?thesis by (simp add: xs_def [symmetric])
  qed
qed

lemma PushBack_ok:
  assumes "vec_inv v"
  shows "\<exists>v'. rtVector_PushBack True v x = Some (RT_OK, v') \<and> vec_inv v' \<and> items v' = items v @ [x]"
proof -
  define xs where "xs = items v"
  obtain junk where b: "block v = map Some xs @ junk" "length xs = vcount v"
      "length (block v) = capacity v" "vdata v = None \<Longrightarrow> capacity v = 0" "vdata v \<noteq> None \<Longrightarrow> junk \<noteq> []"
    using vec_repr [OF assms] unfolding xs_def by metis
  define d where "d = (case vdata v of None \<Rightarrow> replicate RTVECT_BLOCKSIZE None
      | Some d \<Rightarrow> if vcount v + 1 \<ge> capacity v then d @ replicate RTVECT_BLOCKSIZE None else d)"
  have "\<exists>y r. d = map Some xs @ y # r \<and> r \<noteq> []"
  proof (cases "vdata v")
    case None
    then have "xs = []" using b(1) by (simp add: block_def)
    then show ?thesis using None by (simp add: d_def RTVECT_BLOCKSIZE_def numeral_eq_Suc)
  next
    case (Some d0)
    then obtain y r where j: "junk = y # r" using b(5) by (cases junk) auto
    have d0: "d0 = map Some xs @ y # r" using Some b(1) j by (simp add: block_def)
    show ?thesis
    proof (cases "vcount v + 1 \<ge> capacity v")
      case True
      then show ?thesis
        using Some d0 by (intro exI [of _ y] exI [of _ "r @ replicate RTVECT_BLOCKSIZE None"])
          (simp add: d_def RTVECT_BLOCKSIZE_def)
    next
      case False
      then have "r \<noteq> []" using b(1,2,3) j by auto
      then show ?thesis using Some d0 False by (auto simp: d_def)
    qed
  qed
  then obtain y r where d: "d = map Some xs @ y # r" "r \<noteq> []" by blast
  let ?v = "v\<lparr>vdata := Some (map Some (xs @ [x]) @ r), capacity := length d, vcount := vcount v + 1\<rparr>"
  have "d[vcount v := Some x] = map Some (xs @ [x]) @ r"
    using d(1) b(2) by (simp add: list_update_append)
  moreover have "vcount v < length d" using d(1) b(2) by simp
  ultimately have "rtVector_PushBack True v x = Some (RT_OK, ?v)"
    using b(3,4) by (cases "vdata v"; cases "vcount v + 1 \<ge> capacity v")
      (auto simp: rtVector_PushBack_def d_def Let_def block_def)
  moreover have "vec_inv ?v" "items ?v = xs @ [x]"
    using vec_invI [of ?v "xs @ [x]" r] d b(2) by (simp_all add: block_def)
  ultimately show ?thesis by (simp add: xs_def)
qed

lemma Create_ok [simp]: "vec_inv rtVector_Create" "items rtVector_Create = []"
  by (simp_all add: vec_inv_def rtVector_Create_def items_def)

lemma Size_ok: "vec_inv v \<Longrightarrow> rtVector_Size v = length (items v)"
  using vec_repr unfolding rtVector_Size_def by metis

lemma At_ok:
  assumes "vec_inv v"
  shows "rtVector_At v i = Some (if i < length (items v) then Some (items v ! i) else None)"
proof -
  obtain junk where "block v = map Some (items v) @ junk" "length (items v) = vcount v"
    using vec_repr [OF assms] by metis
  then show ?thesis by (auto simp: rtVector_At_def slot_def nth_append)
qed

lemma Find_ok:
  assumes "vec_inv v"
  shows "rtVector_Find v k cmp = Some (find (\<lambda>x. cmp x k = 0) (items v))"
proof -
  obtain junk where b: "block v = map Some (items v) @ junk" "length (items v) = vcount v"
    using vec_repr [OF assms] by metis
  let ?P = "\<lambda>x. cmp x k = 0"
  define i where "i = length (takeWhile (\<lambda>x. \<not> ?P x) (items v))"
  have s: "vec_search ?P (block v) 0 (vcount v) = Some i"
    using vec_search_ok [of 0 "items v" ?P junk] b by (simp add: i_def)
  have "find ?P xs = (if length (takeWhile (\<lambda>x. \<not> ?P x) xs) < length xs
      then Some (xs ! length (takeWhile (\<lambda>x. \<not> ?P x) xs)) else None)" for xs
    by (induction xs) auto
  then show ?thesis
    using s b by (auto simp: rtVector_Find_def slot_def nth_append i_def [symmetric])
qed

section \<open>The interface of a collection\<close>

text \<open>
  What the users of the containers rely on: a collection stands for a list; pushing appends,
  removing takes out the first match and reports whether there was one.
\<close>

locale collection =
  fixes inv :: "'v \<Rightarrow> bool"
    and contents :: "'v \<Rightarrow> 'a list"
    and create :: 'v
    and push :: "'v \<Rightarrow> 'a \<Rightarrow> (int \<times> 'v) run"
    and remove :: "('a \<Rightarrow> bool) \<Rightarrow> 'v \<Rightarrow> (int \<times> 'v) run"
  assumes create_empty: "inv create" "contents create = []"
    and push_appends: "inv v \<Longrightarrow> \<exists>v'. push v x = Some (RT_OK, v') \<and> inv v' \<and> contents v' = contents v @ [x]"
    and remove_takes: "inv v \<Longrightarrow> \<exists>rc v'. remove P v = Some (rc, v') \<and> inv v' \<and>
      contents v' = remove_first P (contents v) \<and>
      rc = (if \<exists>x\<in>set (contents v). P x then RT_OK else RT_ERROR)"
begin

text \<open>Pushing a list of items one by one.\<close>

lemma push_list:
  assumes "inv v"
  shows "\<exists>v'. foldl (\<lambda>r x. do { v \<leftarrow> r; (rc, v) \<leftarrow> push v x; Some v }) (Some v) xs = Some v' \<and>
    inv v' \<and> contents v' = contents v @ xs"
  using assms
proof (induction xs arbitrary: v)
  case (Cons x xs)
  obtain v1 where "push v x = Some (RT_OK, v1)" "inv v1" "contents v1 = contents v @ [x]"
    using push_appends [OF Cons.prems] by blast
  with Cons.IH [of v1] show ?case by auto
qed simp

text \<open>What is pushed last is removed by its own predicate, leaving the collection as it was.\<close>

lemma push_remove:
  assumes "inv v" "\<forall>y\<in>set (contents v). \<not> P y" "P x"
  shows "\<exists>v1 v2. push v x = Some (RT_OK, v1) \<and> remove P v1 = Some (RT_OK, v2) \<and> inv v2 \<and>
    contents v2 = contents v"
proof -
  obtain v1 where v1: "push v x = Some (RT_OK, v1)" "inv v1" "contents v1 = contents v @ [x]"
    using push_appends [OF assms(1)] by blast
  have "remove_first P (xs @ [x]) = xs" if "\<forall>y\<in>set xs. \<not> P y" for xs
    using that assms(3) by (induction xs) auto
  then show ?thesis
    using remove_takes [OF v1(2), of P] v1 assms(2,3) by auto
qed

end

text \<open>A sequence can be read by index, too.\<close>

locale sequence = collection inv contents create push remove
  for inv :: "'v \<Rightarrow> bool"
    and contents :: "'v \<Rightarrow> 'a list"
    and create :: 'v
    and push :: "'v \<Rightarrow> 'a \<Rightarrow> (int \<times> 'v) run"
    and remove :: "('a \<Rightarrow> bool) \<Rightarrow> 'v \<Rightarrow> (int \<times> 'v) run" +
  fixes item_at :: "'v \<Rightarrow> nat \<Rightarrow> 'a option run"
    and count :: "'v \<Rightarrow> nat"
  assumes at_nth: "inv v \<Longrightarrow> item_at v i = Some (if i < length (contents v) then Some (contents v ! i) else None)"
    and count_length: "inv v \<Longrightarrow> count v = length (contents v)"
begin

text \<open>What is pushed is found at the index that was the size before.\<close>

lemma push_at:
  assumes "inv v" "push v x = Some (rc, v')"
  shows "item_at v' (count v) = Some (Some x)" "count v' = Suc (count v)"
proof -
  obtain v1 where "push v x = Some (RT_OK, v1)" "inv v1" "contents v1 = contents v @ [x]"
    using push_appends [OF assms(1)] by blast
  then show "item_at v' (count v) = Some (Some x)" "count v' = Suc (count v)"
    using assms at_nth count_length by auto
qed

end

lemma RT_FAIL_ERROR: "RT_FAIL = RT_ERROR"
  by (simp add: RT_FAIL_def RT_ERROR_def)

interpretation vec: sequence vec_inv items rtVector_Create "rtVector_PushBack True" vec_remove rtVector_At rtVector_Size
  by unfold_locales (auto simp: PushBack_ok vec_remove_ok [unfolded RT_FAIL_ERROR] At_ok Size_ok)

text \<open>
  C35. Every operation of the vector is the corresponding operation on the list of its items
  and keeps the vector well-formed: pushing appends, removing takes out the first item that
  compares equal and reports whether there was one, reading returns the item at the index or
  NULL, finding the first match.
\<close>

theorem Vector_refines_list:
  assumes "vec_inv v"
  shows "(\<exists>v'. rtVector_PushBack True v x = Some (RT_OK, v') \<and> vec_inv v' \<and> items v' = items v @ [x]) \<and>
    (\<exists>rc v'. rtVector_RemoveItemByCompare v k cmp = Some (rc, v') \<and> vec_inv v' \<and>
       items v' = remove_first (\<lambda>y. cmp y k = 0) (items v) \<and>
       rc = (if \<exists>y\<in>set (items v). cmp y k = 0 then RT_OK else RT_FAIL)) \<and>
    (\<exists>rc v'. rtVector_RemoveItem v x = Some (rc, v') \<and> vec_inv v' \<and> items v' = remove1 x (items v) \<and>
       rc = (if x \<in> set (items v) then RT_OK else RT_FAIL)) \<and>
    rtVector_At v i = Some (if i < length (items v) then Some (items v ! i) else None) \<and>
    rtVector_Find v k cmp = Some (find (\<lambda>y. cmp y k = 0) (items v)) \<and>
    rtVector_Size v = length (items v)"
proof -
  have r1: "remove_first (\<lambda>y. y = x) xs = remove1 x xs" for xs by (induction xs) auto
  show ?thesis
    using vec.push_appends [OF assms, of x] vec.remove_takes [OF assms, of "\<lambda>y. y = x"]
      vec.remove_takes [OF assms, of "\<lambda>y. cmp y k = 0"] vec.at_nth [OF assms] Find_ok [OF assms]
      vec.count_length [OF assms]
    unfolding rtVector_RemoveItemByCompare_def rtVector_RemoveItem_def r1 [symmetric] RT_FAIL_ERROR
    by (intro conjI) auto
qed

theorem Vector_refines_list_witness:
  "\<exists>v'. rtVector_PushBack True (rtVector_Create :: nat rtVector) 7 = Some (RT_OK, v') \<and> vec_inv v' \<and> items v' = [7]"
  using Vector_refines_list [of "rtVector_Create :: nat rtVector" 7 "0 :: nat" "\<lambda>_ _. 0" 0] by simp

end
