(* ===== verification/RT_HashMap.thy ===== *)
theory RT_HashMap
  imports RT_Vector "HOL-Library.Multiset" Complex_Main
begin

text \<open>
  The hash map of \<^verbatim>\<open>src/src/rtmessage/rtHashMap.c\<close>: a vector of buckets, each a vector of
  nodes, that grows and shrinks with its load. It implements the interface \<open>key_value_map\<close>:
  whatever the hash function does, the map stands for a finite map from keys to values.
\<close>

section \<open>The hash map\<close>

text \<open>
  Allocation is taken to succeed. A bucket is referenced from its slot only, so updating it
  through its pointer is an update of the slot. The hash function depends on the map only
  through the number of its buckets. The copy functions for keys and values make equal copies.
\<close>

definition RTHASHMAP_INITSIZE :: nat where "RTHASHMAP_INITSIZE = 16"
definition RTHASHMAP_LOAD_FACTOR :: rat where "RTHASHMAP_LOAD_FACTOR = 3 / 4"

record ('k, 'v) rtHashMapNode =
  nkey :: 'k
  nvalue :: 'v

record ('k, 'v) rtHashMap =
  buckets :: "('k, 'v) rtHashMapNode rtVector rtVector"
  hsize :: nat
  load_factor :: rat
  key_hasher :: "nat \<Rightarrow> 'k \<Rightarrow> u32"
  key_comparer :: "'k \<Rightarrow> 'k \<Rightarrow> int"

text \<open>A loop over a list of indices in the partiality monad.\<close>

fun mfold :: "('a \<Rightarrow> 's \<Rightarrow> 's run) \<Rightarrow> 'a list \<Rightarrow> 's \<Rightarrow> 's run" where
  "mfold f [] s = Some s"
| "mfold f (x # xs) s = do { s \<leftarrow> f x s; mfold f xs s }"

definition push_empty :: "nat \<Rightarrow> 'a rtVector rtVector \<Rightarrow> 'a rtVector rtVector run" where
  "push_empty i v = do { (rc, v) \<leftarrow> rtVector_PushBack True v rtVector_Create; Some v }"

text \<open>
  \<open>rtHashMap_CreateEx\<close>: a load factor of 0 stands for the default; the functions are passed
  in. \<open>rtHashMap_Create\<close> passes the string functions.
\<close>

definition rtHashMap_CreateEx ::
  "rat \<Rightarrow> (nat \<Rightarrow> 'k \<Rightarrow> u32) \<Rightarrow> ('k \<Rightarrow> 'k \<Rightarrow> int) \<Rightarrow> ('k, 'v) rtHashMap run" where
  "rtHashMap_CreateEx lf hasher comparer =
     do { bs \<leftarrow> mfold push_empty [0..<RTHASHMAP_INITSIZE] rtVector_Create;
          Some \<lparr>buckets = bs, hsize = 0,
                load_factor = (if lf = 0 then RTHASHMAP_LOAD_FACTOR else lf),
                key_hasher = hasher, key_comparer = comparer\<rparr> }"

text \<open>
  The string hash in 32-bit arithmetic: the source computes in \<open>int\<close> and relies on the
  overflow of long keys wrapping around. The result of \<open>abs\<close> is converted to \<open>size_t\<close>, where
  the one negative result it can have becomes a large number.
\<close>

fun hash_string :: "u32 \<Rightarrow> string \<Rightarrow> u32" where
  "hash_string h [] = h"
| "hash_string h (c # cs) = hash_string (h * 31 + scast (of_char c :: u8)) cs"

definition rtHashMap_Hash_Func_String :: "nat \<Rightarrow> string \<Rightarrow> u32" where
  "rtHashMap_Hash_Func_String n key =
     (if n = 0 then 0
      else let h = hash_string 0 key;
               a = (if sint h < 0 then - h else h)
           in word_of_nat (unat (scast a :: u64) mod n))"

definition rtHashMap_Compare_Func_String :: "string \<Rightarrow> string \<Rightarrow> int" where
  "rtHashMap_Compare_Func_String left right = strcmp left right"

definition rtHashMap_Create :: "(string, 'v) rtHashMap run" where
  "rtHashMap_Create = rtHashMap_CreateEx 0 rtHashMap_Hash_Func_String rtHashMap_Compare_Func_String"

text \<open>The bucket of a key, by its index; \<open>None\<close> inside is NULL.\<close>

definition rtHashMap_GetBucket :: "('k, 'v) rtHashMap \<Rightarrow> 'k \<Rightarrow> nat option" where
  "rtHashMap_GetBucket hm key =
     (if rtVector_Size (buckets hm) = 0 then None
      else let hash = unat (key_hasher hm (rtVector_Size (buckets hm)) key)
           in if rtVector_Size (buckets hm) > hash then Some hash else None)"

definition rtHashMap_Compare_Node :: "('k, 'v) rtHashMap \<Rightarrow> ('k, 'v) rtHashMapNode \<Rightarrow> 'k \<Rightarrow> int" where
  "rtHashMap_Compare_Node hm node key = key_comparer hm (nkey node) key"

text \<open>Dereferencing the bucket: a NULL bucket is dereferenced too.\<close>

definition bucket_at :: "('k, 'v) rtHashMap \<Rightarrow> nat option \<Rightarrow> ('k, 'v) rtHashMapNode rtVector run" where
  "bucket_at hm bi = do { i \<leftarrow> bi; b \<leftarrow> rtVector_At (buckets hm) i; b }"

definition set_item :: "'a rtVector \<Rightarrow> nat \<Rightarrow> 'a \<Rightarrow> 'a rtVector" where
  "set_item v j x = v\<lparr>vdata := map_option (\<lambda>d. d[j := Some x]) (vdata v)\<rparr>"

definition set_bucket ::
  "('k, 'v) rtHashMap \<Rightarrow> nat \<Rightarrow> ('k, 'v) rtHashMapNode rtVector \<Rightarrow> ('k, 'v) rtHashMap" where
  "set_bucket hm i b = hm\<lparr>buckets := set_item (buckets hm) i b\<rparr>"

definition rtHashMap_GetNode :: "('k, 'v) rtHashMap \<Rightarrow> 'k \<Rightarrow> ('k, 'v) rtHashMapNode option run" where
  "rtHashMap_GetNode hm key =
     (let bi = rtHashMap_GetBucket hm key
      in if bi = None then Some None
         else do { b \<leftarrow> bucket_at hm bi; rtVector_Find b key (rtHashMap_Compare_Node hm) })"

definition rtHashMap_Get :: "('k, 'v) rtHashMap \<Rightarrow> 'k \<Rightarrow> 'v option run" where
  "rtHashMap_Get hm key = do { node \<leftarrow> rtHashMap_GetNode hm key; Some (map_option nvalue node) }"

definition rtHashMap_GetSize :: "('k, 'v) rtHashMap \<Rightarrow> nat" where
  "rtHashMap_GetSize hm = hsize hm"

definition rtHashMap_Contains :: "('k, 'v) rtHashMap \<Rightarrow> 'k \<Rightarrow> int run" where
  "rtHashMap_Contains hm key =
     do { node \<leftarrow> rtHashMap_GetNode hm key; Some (if node \<noteq> None then 1 else 0) }"

text \<open>
  Rehashing pushes each node onto its new bucket; pushing onto a NULL bucket returns an error
  that nobody looks at.
\<close>

definition rehash_node :: "('k, 'v) rtHashMapNode rtVector \<Rightarrow> nat \<Rightarrow> ('k, 'v) rtHashMap \<Rightarrow> ('k, 'v) rtHashMap run" where
  "rehash_node old_bucket j hm =
     do { node \<leftarrow> rtVector_At old_bucket j;
          node \<leftarrow> node;
          case rtHashMap_GetBucket hm (nkey node) of
            None \<Rightarrow> Some hm
          | Some i \<Rightarrow> do { b \<leftarrow> bucket_at hm (Some i);
                           (rc, b) \<leftarrow> rtVector_PushBack True b node;
                           Some (set_bucket hm i b) } }"

definition rehash_bucket ::
  "('k, 'v) rtHashMapNode rtVector rtVector \<Rightarrow> nat \<Rightarrow> ('k, 'v) rtHashMap \<Rightarrow> ('k, 'v) rtHashMap run" where
  "rehash_bucket old_buckets i hm =
     do { b \<leftarrow> rtVector_At old_buckets i;
          b \<leftarrow> b;
          mfold (rehash_node b) [0..<rtVector_Size b] hm }"

definition rtHashMap_Resize :: "('k, 'v) rtHashMap \<Rightarrow> bool \<Rightarrow> ('k, 'v) rtHashMap run" where
  "rtHashMap_Resize hm grow =
     (let old_buckets = buckets hm;
          old_size = rtVector_Size old_buckets;
          next_size = (if grow then old_size * 2 else old_size div 2)
      in do { new_buckets \<leftarrow> mfold push_empty [0..<next_size] rtVector_Create;
              mfold (rehash_bucket old_buckets) [0..<old_size] (hm\<lparr>buckets := new_buckets\<rparr>) })"

definition rtHashMap_Set :: "('k, 'v) rtHashMap \<Rightarrow> 'k \<Rightarrow> 'v \<Rightarrow> ('k, 'v) rtHashMap run" where
  "rtHashMap_Set hm key value =
     do { let bi = rtHashMap_GetBucket hm key;
          b \<leftarrow> bucket_at hm bi;
          j \<leftarrow> vec_search (\<lambda>x. rtHashMap_Compare_Node hm x key = 0) (block b) 0 (vcount b);
          let node = \<lparr>nkey = key, nvalue = value\<rparr>;
          if j < vcount b
          then do { i \<leftarrow> bi; Some (set_bucket hm i (set_item b j node)) }
          else do { hm \<leftarrow> (if of_nat (hsize hm + 1) / of_nat (rtVector_Size (buckets hm)) > load_factor hm
                          then rtHashMap_Resize hm True else Some hm);
                    let bi = rtHashMap_GetBucket hm key;
                    b \<leftarrow> bucket_at hm bi;
                    i \<leftarrow> bi;
                    (rc, b) \<leftarrow> rtVector_PushBack True b node;
                    Some ((set_bucket hm i b)\<lparr>hsize := hsize hm + 1\<rparr>) } }"

text \<open>The quotient of the two sizes in the test for shrinking is an integer division.\<close>

definition rtHashMap_Remove :: "('k, 'v) rtHashMap \<Rightarrow> 'k \<Rightarrow> (int \<times> ('k, 'v) rtHashMap) run" where
  "rtHashMap_Remove hm key =
     do { let bi = rtHashMap_GetBucket hm key;
          b \<leftarrow> bucket_at hm bi;
          (rc, b) \<leftarrow> rtVector_RemoveItemByCompare b key (rtHashMap_Compare_Node hm);
          i \<leftarrow> bi;
          if rc = RT_OK
          then do { let hm = (set_bucket hm i b)\<lparr>hsize := hsize hm - 1\<rparr>;
                    let nbuckets = rtVector_Size (buckets hm);
                    hm \<leftarrow> (if nbuckets > RTHASHMAP_INITSIZE \<and>
                              of_nat (hsize hm div nbuckets) / 2 < load_factor hm
                           then rtHashMap_Resize hm False else Some hm);
                    Some (1, hm) }
          else Some (0, hm) }"

section \<open>Invariant and abstraction\<close>

definition bucket_lists :: "('k, 'v) rtHashMap \<Rightarrow> ('k, 'v) rtHashMapNode list list" where
  "bucket_lists hm = map items (items (buckets hm))"

definition nodes :: "('k, 'v) rtHashMap \<Rightarrow> ('k, 'v) rtHashMapNode list" where
  "nodes hm = concat (bucket_lists hm)"

definition hm_functions_ok :: "('k, 'v) rtHashMap \<Rightarrow> bool" where
  "hm_functions_ok hm \<longleftrightarrow>
     (\<forall>n k. 0 < n \<longrightarrow> unat (key_hasher hm n k) < n) \<and> (\<forall>a b. key_comparer hm a b = 0 \<longleftrightarrow> a = b)"

text \<open>The buckets are well-formed vectors and every node is in the bucket its key hashes to.\<close>

definition placed :: "('k, 'v) rtHashMap \<Rightarrow> bool" where
  "placed hm \<longleftrightarrow> vec_inv (buckets hm) \<and> (\<forall>b\<in>set (items (buckets hm)). vec_inv b) \<and>
     0 < length (bucket_lists hm) \<and>
     (\<forall>i<length (bucket_lists hm). \<forall>nd\<in>set (bucket_lists hm ! i).
        unat (key_hasher hm (length (bucket_lists hm)) (nkey nd)) = i)"

text \<open>The number of buckets is doubled and halved, and never falls below the initial one.\<close>

definition table_size :: "nat \<Rightarrow> bool" where
  "table_size n \<longleftrightarrow> (\<exists>e. n = RTHASHMAP_INITSIZE * 2 ^ e)"

definition hm_inv :: "('k, 'v) rtHashMap \<Rightarrow> bool" where
  "hm_inv hm \<longleftrightarrow> hm_functions_ok hm \<and> placed hm \<and> table_size (length (bucket_lists hm)) \<and>
     distinct (map nkey (nodes hm)) \<and> hsize hm = length (nodes hm)"

definition hm_map :: "('k, 'v) rtHashMap \<Rightarrow> 'k \<Rightarrow> 'v option" where
  "hm_map hm = map_of (map (\<lambda>nd. (nkey nd, nvalue nd)) (nodes hm))"

section \<open>Buckets as lists\<close>

lemma set_item_ok:
  assumes "vec_inv v" "j < length (items v)"
  shows "vec_inv (set_item v j x)" "items (set_item v j x) = (items v)[j := x]"
proof -
  obtain junk where b: "block v = map Some (items v) @ junk" "length (items v) = vcount v"
      "length (block v) = capacity v" "vdata v \<noteq> None \<Longrightarrow> junk \<noteq> []"
    using vec_repr [OF assms(1)] by metis
  have some: "vdata v \<noteq> None" using b(1) assms(2) by (cases "vdata v") (auto simp: block_def)
  then have "block (set_item v j x) = (block v)[j := Some x]"
    by (auto simp: set_item_def block_def)
  also have "\<dots> = map Some ((items v)[j := x]) @ junk"
    using b(1) assms(2) by (simp add: list_update_append map_update)
  finally have e: "block (set_item v j x) = map Some ((items v)[j := x]) @ junk" .
  show "vec_inv (set_item v j x)" "items (set_item v j x) = (items v)[j := x]"
    using vec_invI [OF e] some b by (auto simp: set_item_def e [unfolded set_item_def])
qed

abbreviation nb :: "('k, 'v) rtHashMap \<Rightarrow> nat" where "nb hm \<equiv> length (bucket_lists hm)"

definition H :: "('k, 'v) rtHashMap \<Rightarrow> 'k \<Rightarrow> nat" where
  "H hm k = unat (key_hasher hm (nb hm) k)"

lemma nb_size: "vec_inv (buckets hm) \<Longrightarrow> rtVector_Size (buckets hm) = nb hm"
  by (simp add: bucket_lists_def Size_ok)

lemma GetBucket_ok:
  assumes "hm_functions_ok hm" "placed hm"
  shows "rtHashMap_GetBucket hm k = Some (H hm k)" "H hm k < nb hm"
  using assms by (auto simp: rtHashMap_GetBucket_def placed_def hm_functions_ok_def nb_size H_def)

lemma bucket_at_ok:
  assumes "placed hm" "i < nb hm"
  obtains b where "bucket_at hm (Some i) = Some b" "vec_inv b" "items b = bucket_lists hm ! i"
proof -
  have v: "vec_inv (buckets hm)" "i < length (items (buckets hm))"
    using assms by (auto simp: placed_def bucket_lists_def)
  show thesis
    by (rule that [of "items (buckets hm) ! i"])
      (use v assms in \<open>auto simp: bucket_at_def At_ok placed_def bucket_lists_def\<close>)
qed

text \<open>Only the buckets change in the operations below.\<close>

definition frame :: "('k, 'v) rtHashMap \<Rightarrow> ('k, 'v) rtHashMap \<Rightarrow> bool" where
  "frame hm hm' \<longleftrightarrow> key_hasher hm' = key_hasher hm \<and> key_comparer hm' = key_comparer hm \<and>
     load_factor hm' = load_factor hm \<and> hsize hm' = hsize hm"

lemma frame_refl [simp]: "frame hm hm"
  by (simp add: frame_def)

lemma frame_trans: "frame a b \<Longrightarrow> frame b c \<Longrightarrow> frame a c"
  by (simp add: frame_def)

lemma frame_functions: "frame hm hm' \<Longrightarrow> hm_functions_ok hm' = hm_functions_ok hm"
  by (simp add: frame_def hm_functions_ok_def)

lemma mset_concat_update:
  "i < length xss \<Longrightarrow> mset (concat (xss[i := ys])) + mset (xss ! i) = mset (concat xss) + mset ys"
  by (induction xss arbitrary: i) (auto simp: nth_Cons split: nat.splits)

lemma set_bucket_ok:
  assumes "placed hm" "i < nb hm" "vec_inv b" "\<forall>nd\<in>set (items b). H hm (nkey nd) = i"
  shows "placed (set_bucket hm i b)" "bucket_lists (set_bucket hm i b) = (bucket_lists hm)[i := items b]"
    "frame hm (set_bucket hm i b)"
    "mset (nodes (set_bucket hm i b)) + mset (bucket_lists hm ! i) = mset (nodes hm) + mset (items b)"
proof -
  have v: "vec_inv (buckets hm)" "i < length (items (buckets hm))"
    using assms(1,2) by (auto simp: placed_def bucket_lists_def)
  note s = set_item_ok [OF v, of b]
  show bl: "bucket_lists (set_bucket hm i b) = (bucket_lists hm)[i := items b]"
    using s(2) by (simp add: bucket_lists_def set_bucket_def map_update)
  show "frame hm (set_bucket hm i b)" by (simp add: frame_def set_bucket_def)
  show "mset (nodes (set_bucket hm i b)) + mset (bucket_lists hm ! i) = mset (nodes hm) + mset (items b)"
    using mset_concat_update [OF assms(2)] by (simp add: nodes_def bl)
  have k: "key_hasher (set_bucket hm i b) = key_hasher hm" by (simp add: set_bucket_def)
  have "\<forall>c\<in>set (items (buckets (set_bucket hm i b))). vec_inv c"
    using assms(1,3) s(2) by (auto simp: placed_def set_bucket_def dest!: set_update_subset_insert [THEN subsetD])
  then show "placed (set_bucket hm i b)"
    using assms s(1) unfolding placed_def bl k
    by (auto simp: set_bucket_def H_def nth_list_update)
qed

section \<open>Rehashing\<close>

lemma rehash_node_ok:
  assumes "hm_functions_ok hm" "placed hm" "vec_inv old" "j < length (items old)"
  shows "\<exists>hm'. rehash_node old j hm = Some hm' \<and> placed hm' \<and> frame hm hm' \<and> nb hm' = nb hm \<and>
    mset (nodes hm') = add_mset (items old ! j) (mset (nodes hm))"
proof -
  let ?nd = "items old ! j"
  define i where "i = H hm (nkey ?nd)"
  have g: "rtHashMap_GetBucket hm (nkey ?nd) = Some i" "i < nb hm"
    using GetBucket_ok [OF assms(1,2)] by (simp_all add: i_def)
  obtain b where b: "bucket_at hm (Some i) = Some b" "vec_inv b" "items b = bucket_lists hm ! i"
    using bucket_at_ok [OF assms(2) g(2)] .
  obtain b' where b': "rtVector_PushBack True b ?nd = Some (RT_OK, b')" "vec_inv b'" "items b' = items b @ [?nd]"
    using PushBack_ok [OF b(2)] by blast
  have "\<forall>nd\<in>set (items b'). H hm (nkey nd) = i"
    using assms(2) g(2) b(3) b'(3) by (auto simp: placed_def H_def i_def)
  note s = set_bucket_ok [OF assms(2) g(2) b'(2) this]
  have "rehash_node old j hm = Some (set_bucket hm i b')"
    using At_ok [OF assms(3), of j] assms(4) g(1) b(1) b'(1) by (simp add: rehash_node_def)
  moreover have "mset (nodes (set_bucket hm i b')) = add_mset ?nd (mset (nodes hm))"
    using s(4) b(3) b'(3) by simp
  moreover have "nb (set_bucket hm i b') = nb hm" using s(2) by simp
  ultimately show ?thesis using s(1,3) by blast
qed

lemma rehash_nodes_ok:
  assumes "hm_functions_ok hm" "placed hm" "vec_inv old" "\<forall>j\<in>set js. j < length (items old)"
  shows "\<exists>hm'. mfold (rehash_node old) js hm = Some hm' \<and> placed hm' \<and> frame hm hm' \<and> nb hm' = nb hm \<and>
    mset (nodes hm') = mset (map ((!) (items old)) js) + mset (nodes hm)"
  using assms
proof (induction js arbitrary: hm)
  case (Cons j js)
  obtain hm1 where 1: "rehash_node old j hm = Some hm1" "placed hm1" "frame hm hm1" "nb hm1 = nb hm"
      "mset (nodes hm1) = add_mset (items old ! j) (mset (nodes hm))"
    using rehash_node_ok [OF Cons.prems(1-3), of j] Cons.prems(4) by auto
  obtain hm2 where "mfold (rehash_node old) js hm1 = Some hm2" "placed hm2" "frame hm1 hm2" "nb hm2 = nb hm1"
      "mset (nodes hm2) = mset (map ((!) (items old)) js) + mset (nodes hm1)"
    using Cons.IH [of hm1] Cons.prems 1 frame_functions [OF 1(3)] by auto
  then show ?case using 1 frame_trans by (intro exI [of _ hm2]) auto
qed simp

lemma rehash_bucket_ok:
  assumes "hm_functions_ok hm" "placed hm" "vec_inv olds" "i < length (items olds)" "vec_inv (items olds ! i)"
  shows "\<exists>hm'. rehash_bucket olds i hm = Some hm' \<and> placed hm' \<and> frame hm hm' \<and> nb hm' = nb hm \<and>
    mset (nodes hm') = mset (items (items olds ! i)) + mset (nodes hm)"
proof -
  let ?b = "items olds ! i"
  have "rtVector_Size ?b = length (items ?b)" using Size_ok [OF assms(5)] .
  then show ?thesis
    using rehash_nodes_ok [OF assms(1,2,5), of "[0..<length (items ?b)]"] At_ok [OF assms(3), of i] assms(4)
    by (simp add: rehash_bucket_def map_nth)
qed

lemma rehash_buckets_ok:
  assumes "hm_functions_ok hm" "placed hm" "vec_inv olds" "\<forall>i\<in>set is. i < length (items olds)"
    "\<forall>b\<in>set (items olds). vec_inv b"
  shows "\<exists>hm'. mfold (rehash_bucket olds) is hm = Some hm' \<and> placed hm' \<and> frame hm hm' \<and> nb hm' = nb hm \<and>
    mset (nodes hm') = mset (concat (map (\<lambda>i. items (items olds ! i)) is)) + mset (nodes hm)"
  using assms
proof (induction "is" arbitrary: hm)
  case (Cons i js)
  obtain hm1 where 1: "rehash_bucket olds i hm = Some hm1" "placed hm1" "frame hm hm1" "nb hm1 = nb hm"
      "mset (nodes hm1) = mset (items (items olds ! i)) + mset (nodes hm)"
    using rehash_bucket_ok [OF Cons.prems(1-3), of i] Cons.prems(4,5) by auto
  obtain hm2 where "mfold (rehash_bucket olds) js hm1 = Some hm2" "placed hm2" "frame hm1 hm2" "nb hm2 = nb hm1"
      "mset (nodes hm2) = mset (concat (map (\<lambda>i. items (items olds ! i)) js)) + mset (nodes hm1)"
    using Cons.IH [of hm1] Cons.prems 1 frame_functions [OF 1(3)] by auto
  then show ?case using 1 frame_trans by (intro exI [of _ hm2]) (auto simp: add.assoc add.left_commute)
qed simp

lemma push_empties_ok:
  assumes "vec_inv v"
  shows "\<exists>v'. mfold push_empty js v = Some v' \<and> vec_inv v' \<and>
    items v' = items v @ replicate (length js) rtVector_Create"
  using assms
proof (induction js arbitrary: v)
  case (Cons j js)
  obtain v1 where 1: "rtVector_PushBack True v rtVector_Create = Some (RT_OK, v1)" "vec_inv v1"
      "items v1 = items v @ [rtVector_Create]"
    using PushBack_ok [OF Cons.prems] by blast
  then show ?case using Cons.IH [OF 1(2)] by (auto simp: push_empty_def)
qed simp

text \<open>A table of \<open>n\<close> empty buckets.\<close>

lemma empty_table:
  assumes "vec_inv bs" "items bs = replicate n rtVector_Create" "0 < n"
  shows "placed (hm\<lparr>buckets := bs\<rparr>)" "nodes (hm\<lparr>buckets := bs\<rparr>) = []" "nb (hm\<lparr>buckets := bs\<rparr>) = n"
  using assms by (auto simp: placed_def bucket_lists_def nodes_def)

lemma Resize_ok:
  fixes hm :: "('k, 'v) rtHashMap"
  assumes "hm_functions_ok hm" "placed hm" "grow \<or> 2 \<le> nb hm"
  shows "\<exists>hm'. rtHashMap_Resize hm grow = Some hm' \<and> placed hm' \<and> frame hm hm' \<and>
    nb hm' = (if grow then nb hm * 2 else nb hm div 2) \<and> mset (nodes hm') = mset (nodes hm)"
proof -
  let ?n = "if grow then nb hm * 2 else nb hm div 2"
  have olds: "vec_inv (buckets hm)" "\<forall>b\<in>set (items (buckets hm)). vec_inv b" "0 < nb hm"
    using assms(2) by (auto simp: placed_def)
  have n: "0 < ?n" using assms(3) olds(3) by auto
  obtain bs :: "('k, 'v) rtHashMapNode rtVector rtVector" where bs: "mfold push_empty [0..<?n] rtVector_Create = Some bs" "vec_inv bs"
      "items bs = replicate ?n rtVector_Create"
    using push_empties_ok [of rtVector_Create "[0..<?n]"] by auto
  let ?h = "hm\<lparr>buckets := bs\<rparr>"
  note e = empty_table [OF bs(2,3) n, of hm]
  have f: "hm_functions_ok ?h" "frame hm ?h" using assms(1) by (simp_all add: hm_functions_ok_def frame_def)
  have len: "length (items (buckets hm)) = nb hm" by (simp add: bucket_lists_def)
  have cc: "concat (map (\<lambda>i. items (items (buckets hm) ! i)) [0..<nb hm]) = nodes hm"
  proof -
    have "map (\<lambda>i. items (items (buckets hm) ! i)) [0..<nb hm] = bucket_lists hm"
      by (rule nth_equalityI) (simp_all add: bucket_lists_def)
    then show ?thesis by (simp add: nodes_def)
  qed
  obtain hm' where "mfold (rehash_bucket (buckets hm)) [0..<nb hm] ?h = Some hm'" "placed hm'" "frame ?h hm'"
      "nb hm' = ?n" "mset (nodes hm') = mset (nodes hm)"
    using rehash_buckets_ok [OF f(1) e(1) olds(1) _ olds(2), of "[0..<nb hm]"] len e(2,3) cc by auto
  then show ?thesis
    using bs(1) f(2) frame_trans nb_size [OF olds(1)]
    by (intro exI [of _ hm']) (auto simp: rtHashMap_Resize_def Let_def)
qed

section \<open>The operations on the map\<close>

text \<open>A key can only be found in the bucket it hashes to.\<close>

lemma node_in_bucket:
  assumes "placed hm" "nd \<in> set (nodes hm)"
  shows "nd \<in> set (bucket_lists hm ! H hm (nkey nd))" "H hm (nkey nd) < nb hm"
proof -
  obtain i where i: "i < nb hm" "nd \<in> set (bucket_lists hm ! i)"
    using assms(2) by (auto simp: nodes_def) (metis in_set_conv_nth)
  then have "H hm (nkey nd) = i" using assms(1) by (auto simp: placed_def H_def)
  then show "nd \<in> set (bucket_lists hm ! H hm (nkey nd))" "H hm (nkey nd) < nb hm" using i by auto
qed

lemma bucket_in_nodes: "i < nb hm \<Longrightarrow> nd \<in> set (bucket_lists hm ! i) \<Longrightarrow> nd \<in> set (nodes hm)"
  by (auto simp: nodes_def)

text \<open>The map depends only on the set of nodes.\<close>

lemma hm_map_iff:
  assumes "distinct (map nkey (nodes hm))"
  shows "hm_map hm k = Some v \<longleftrightarrow> (\<exists>nd\<in>set (nodes hm). nkey nd = k \<and> nvalue nd = v)"
proof -
  have "distinct (map fst (map (\<lambda>nd. (nkey nd, nvalue nd)) (nodes hm)))"
    using assms by (simp add: comp_def)
  from map_of_eq_Some_iff [OF this] show ?thesis by (force simp: hm_map_def)
qed

lemma hm_map_None_iff: "hm_map hm k = None \<longleftrightarrow> (\<forall>nd\<in>set (nodes hm). nkey nd \<noteq> k)"
  by (auto simp: hm_map_def map_of_eq_None_iff image_iff)

lemma hm_map_eqI:
  assumes "distinct (map nkey (nodes hm))"
    and "\<And>k v. f k = Some v \<longleftrightarrow> (\<exists>nd\<in>set (nodes hm). nkey nd = k \<and> nvalue nd = v)"
  shows "hm_map hm = f"
proof
  fix k
  show "hm_map hm k = f k"
    using hm_map_iff [OF assms(1), of k] assms(2) [of k] by (metis not_None_eq)
qed

lemma distinct_keys_mset:
  "mset (nodes hm) = mset (nodes hm') \<Longrightarrow> distinct (map nkey (nodes hm)) = distinct (map nkey (nodes hm'))"
  by (metis mset_eq_imp_distinct_iff mset_map)

lemma hm_map_mset:
  assumes "mset (nodes hm') = mset (nodes hm)" "distinct (map nkey (nodes hm))"
  shows "hm_map hm' = hm_map hm"
  using assms distinct_keys_mset [OF assms(1)]
  by (intro hm_map_eqI) (auto simp: hm_map_iff dest: mset_eq_setD)

lemma Compare_Node_ok: "hm_functions_ok hm \<Longrightarrow> rtHashMap_Compare_Node hm nd k = 0 \<longleftrightarrow> nkey nd = k"
  by (simp add: hm_functions_ok_def rtHashMap_Compare_Node_def)

lemma find_unique:
  assumes "distinct (map nkey xs)"
  shows "find (\<lambda>nd. nkey nd = k) xs = Some nd \<longleftrightarrow> nd \<in> set xs \<and> nkey nd = k"
  using assms by (induction xs) (auto simp: image_iff)

lemma distinct_bucket:
  fixes hm :: "('k, 'v) rtHashMap"
  shows "distinct (map nkey (nodes hm)) \<Longrightarrow> i < nb hm \<Longrightarrow> distinct (map nkey (bucket_lists hm ! i))"
proof -
  have "distinct (map f (concat xss)) \<Longrightarrow> i < length xss \<Longrightarrow> distinct (map f (xss ! i))"
    for f :: "('k, 'v) rtHashMapNode \<Rightarrow> 'k" and xss i
    by (induction xss arbitrary: i) (auto simp: nth_Cons split: nat.splits)
  then show "distinct (map nkey (nodes hm)) \<Longrightarrow> i < nb hm \<Longrightarrow> distinct (map nkey (bucket_lists hm ! i))"
    by (simp add: nodes_def)
qed

lemma GetNode_ok:
  assumes "hm_inv hm"
  shows "\<exists>r. rtHashMap_GetNode hm k = Some r \<and> map_option nvalue r = hm_map hm k"
proof -
  have f: "hm_functions_ok hm" "placed hm" "distinct (map nkey (nodes hm))"
    using assms by (auto simp: hm_inv_def)
  note g = GetBucket_ok [OF f(1,2), of k]
  obtain b where b: "bucket_at hm (Some (H hm k)) = Some b" "vec_inv b" "items b = bucket_lists hm ! H hm k"
    using bucket_at_ok [OF f(2) g(2)] .
  define r where "r = find (\<lambda>nd. nkey nd = k) (items b)"
  have "rtHashMap_GetNode hm k = Some r"
    using g(1) b(1) Find_ok [OF b(2), of k "rtHashMap_Compare_Node hm"]
    by (simp add: rtHashMap_GetNode_def Compare_Node_ok [OF f(1)] r_def Let_def)
  moreover have "map_option nvalue r = hm_map hm k"
  proof (cases r)
    case None
    then have "\<forall>nd\<in>set (items b). nkey nd \<noteq> k" by (auto simp: r_def find_None_iff)
    then have "hm_map hm k = None"
      using node_in_bucket(1) [OF f(2)] b(3) by (auto simp: hm_map_None_iff)
    then show ?thesis using None by simp
  next
    case (Some nd)
    then have "nd \<in> set (items b)" "nkey nd = k"
      using find_unique [OF distinct_bucket [OF f(3) g(2)]] by (auto simp: r_def b(3))
    then have "hm_map hm k = Some (nvalue nd)"
      using hm_map_iff [OF f(3)] bucket_in_nodes [OF g(2)] b(3) by auto
    then show ?thesis using Some by simp
  qed
  ultimately show ?thesis by blast
qed

lemma Get_ok: "hm_inv hm \<Longrightarrow> rtHashMap_Get hm k = Some (hm_map hm k)"
  using GetNode_ok [of hm k] by (auto simp: rtHashMap_Get_def)

lemma Contains_ok: "hm_inv hm \<Longrightarrow> rtHashMap_Contains hm k = Some (if hm_map hm k \<noteq> None then 1 else 0)"
  using GetNode_ok [of hm k] by (auto simp: rtHashMap_Contains_def)

text \<open>How the map changes when one node is added, replaced or taken away.\<close>

lemma keys_perm: "mset xs = mset ys \<Longrightarrow> distinct (map nkey xs) = distinct (map nkey ys)"
  by (metis mset_eq_imp_distinct_iff mset_map)

lemma nodes_add:
  assumes "distinct (map nkey (nodes hm))" "\<forall>nd\<in>set (nodes hm). nkey nd \<noteq> nkey x"
    and "mset (nodes hm') = add_mset x (mset (nodes hm))"
  shows "distinct (map nkey (nodes hm'))" "length (nodes hm') = Suc (length (nodes hm))"
    "hm_map hm' = (hm_map hm)(nkey x \<mapsto> nvalue x)"
proof -
  have m: "mset (nodes hm') = mset (x # nodes hm)" using assms(3) by simp
  show d: "distinct (map nkey (nodes hm'))"
    unfolding keys_perm [OF m] using assms(1,2) by auto
  show "length (nodes hm') = Suc (length (nodes hm))" using arg_cong [OF assms(3), of size] by simp
  have "set (nodes hm') = insert x (set (nodes hm))" using mset_eq_setD [OF m] by simp
  then show "hm_map hm' = (hm_map hm)(nkey x \<mapsto> nvalue x)"
    using assms(1,2) by (intro hm_map_eqI [OF d]) (auto simp: hm_map_iff)
qed

lemma nodes_take:
  assumes "distinct (map nkey (nodes hm))" "mset (nodes hm) = add_mset x (mset (nodes hm'))"
  shows "distinct (map nkey (nodes hm'))" "length (nodes hm) = Suc (length (nodes hm'))"
    "hm_map hm' = (hm_map hm)(nkey x := None)" "\<forall>nd\<in>set (nodes hm'). nkey nd \<noteq> nkey x"
proof -
  have m: "mset (nodes hm) = mset (x # nodes hm')" using assms(2) by simp
  have dx: "distinct (map nkey (x # nodes hm'))" using assms(1) keys_perm [OF m] by simp
  then show d: "distinct (map nkey (nodes hm'))" by simp
  from dx show n: "\<forall>nd\<in>set (nodes hm'). nkey nd \<noteq> nkey x" by (auto simp: image_iff)
  show "length (nodes hm) = Suc (length (nodes hm'))" using arg_cong [OF assms(2), of size] by simp
  have "set (nodes hm) = insert x (set (nodes hm'))" using mset_eq_setD [OF m] by simp
  then show "hm_map hm' = (hm_map hm)(nkey x := None)"
    using assms(1) n by (intro hm_map_eqI [OF d]) (auto simp: hm_map_iff)
qed

lemma nodes_replace:
  assumes "distinct (map nkey (nodes hm))" "mset (nodes hm) = add_mset old M"
    and "mset (nodes hm') = add_mset x M" "nkey x = nkey old"
  shows "distinct (map nkey (nodes hm'))" "length (nodes hm') = length (nodes hm)"
    "hm_map hm' = (hm_map hm)(nkey x \<mapsto> nvalue x)"
proof -
  obtain ms where ms: "mset ms = M" using ex_mset by blast
  have m: "mset (nodes hm) = mset (old # ms)" "mset (nodes hm') = mset (x # ms)"
    using assms(2,3) ms by simp_all
  have dx: "distinct (map nkey (old # ms))" using assms(1) keys_perm [OF m(1)] by simp
  then show d: "distinct (map nkey (nodes hm'))"
    unfolding keys_perm [OF m(2)] using assms(4) by simp
  show "length (nodes hm') = length (nodes hm)"
    using arg_cong [OF assms(2), of size] arg_cong [OF assms(3), of size] by simp
  have "set (nodes hm) = insert old (set ms)" "set (nodes hm') = insert x (set ms)"
    using mset_eq_setD [OF m(1)] mset_eq_setD [OF m(2)] by simp_all
  then show "hm_map hm' = (hm_map hm)(nkey x \<mapsto> nvalue x)"
    using assms(1,4) dx by (intro hm_map_eqI [OF d]) (auto simp: hm_map_iff image_iff)
qed

lemma hm_invI:
  assumes "hm_inv hm" "placed hm'" "frame hm hm'" "distinct (map nkey (nodes hm'))"
    "table_size (nb hm')"
  shows "hm_inv (hm'\<lparr>hsize := length (nodes hm')\<rparr>)" "hm_map (hm'\<lparr>hsize := n\<rparr>) = hm_map hm'"
  using assms frame_functions [OF assms(3)]
  by (simp_all add: hm_inv_def hm_functions_ok_def placed_def bucket_lists_def nodes_def hm_map_def)

lemma Set_new_ok:
  assumes "hm_inv hm" "\<forall>nd\<in>set (nodes hm). nkey nd \<noteq> k" "placed hm1" "frame hm hm1"
    "mset (nodes hm1) = mset (nodes hm)" "table_size (nb hm1)"
  shows "\<exists>b b' hm'. bucket_at hm1 (rtHashMap_GetBucket hm1 k) = Some b \<and>
    rtHashMap_GetBucket hm1 k = Some (H hm1 k) \<and>
    rtVector_PushBack True b \<lparr>nkey = k, nvalue = v\<rparr> = Some (RT_OK, b') \<and>
    hm' = (set_bucket hm1 (H hm1 k) b')\<lparr>hsize := hsize hm1 + 1\<rparr> \<and>
    hm_inv hm' \<and> hm_map hm' = (hm_map hm)(k \<mapsto> v)"
proof -
  let ?x = "\<lparr>nkey = k, nvalue = v\<rparr>"
  have f: "hm_functions_ok hm1" "distinct (map nkey (nodes hm))" "hsize hm = length (nodes hm)"
    using assms(1) frame_functions [OF assms(4)] by (auto simp: hm_inv_def)
  note g = GetBucket_ok [OF f(1) assms(3), of k]
  obtain b where b: "bucket_at hm1 (Some (H hm1 k)) = Some b" "vec_inv b" "items b = bucket_lists hm1 ! H hm1 k"
    using bucket_at_ok [OF assms(3) g(2)] .
  obtain b' where b': "rtVector_PushBack True b ?x = Some (RT_OK, b')" "vec_inv b'" "items b' = items b @ [?x]"
    using PushBack_ok [OF b(2)] by blast
  have "\<forall>nd\<in>set (items b'). H hm1 (nkey nd) = H hm1 k"
    using assms(3) g(2) b(3) b'(3) by (auto simp: placed_def H_def)
  note s = set_bucket_ok [OF assms(3) g(2) b'(2) this]
  let ?h = "set_bucket hm1 (H hm1 k) b'"
  have m: "mset (nodes ?h) = add_mset ?x (mset (nodes hm))"
    using s(4) b(3) b'(3) assms(5) by simp
  have "\<forall>nd\<in>set (nodes hm). nkey nd \<noteq> nkey ?x" using assms(2) by simp
  note n = nodes_add [OF f(2) this m]
  have "frame hm ?h" using frame_trans [OF assms(4) s(3)] .
  moreover have "table_size (nb ?h)" using s(2) assms(6) by simp
  ultimately have "hm_inv (?h\<lparr>hsize := length (nodes ?h)\<rparr>)" "hm_map (?h\<lparr>hsize := hsize hm1 + 1\<rparr>) = hm_map ?h"
    using hm_invI [OF assms(1) s(1) _ n(1)] by auto
  moreover have "length (nodes ?h) = hsize hm1 + 1" using n(2) f(3) assms(4) by (simp add: frame_def)
  ultimately show ?thesis using g(1) b(1) b'(1) n(3) by auto
qed

lemma Resize_inv:
  assumes "hm_inv hm" "grow \<or> RTHASHMAP_INITSIZE < nb hm"
  shows "\<exists>hm'. rtHashMap_Resize hm grow = Some hm' \<and> hm_inv hm' \<and> frame hm hm' \<and>
    nb hm' = (if grow then nb hm * 2 else nb hm div 2) \<and> mset (nodes hm') = mset (nodes hm)"
proof -
  have f: "hm_functions_ok hm" "placed hm" "distinct (map nkey (nodes hm))" "table_size (nb hm)" "hsize hm = length (nodes hm)"
    using assms(1) by (auto simp: hm_inv_def)
  have "grow \<or> 2 \<le> nb hm" using assms(2) by (auto simp: RTHASHMAP_INITSIZE_def)
  then obtain hm' where h: "rtHashMap_Resize hm grow = Some hm'" "placed hm'" "frame hm hm'"
      "nb hm' = (if grow then nb hm * 2 else nb hm div 2)" "mset (nodes hm') = mset (nodes hm)"
    using Resize_ok [OF f(1,2)] by blast
  obtain e where e: "nb hm = RTHASHMAP_INITSIZE * 2 ^ e" using f(4) by (auto simp: table_size_def)
  have "table_size (nb hm')"
  proof (cases grow)
    case True
    then have "nb hm' = RTHASHMAP_INITSIZE * 2 ^ Suc e" using h(4) e by simp
    then show ?thesis unfolding table_size_def by blast
  next
    case False
    then have "0 < e" using assms(2) e by (cases e) auto
    then have "nb hm' = RTHASHMAP_INITSIZE * 2 ^ (e - 1)" using False h(4) e by (cases e) auto
    then show ?thesis unfolding table_size_def by blast
  qed
  moreover have "hsize hm' = length (nodes hm')"
    using h(3,5) f(5) mset_eq_length [OF h(5)] by (simp add: frame_def)
  ultimately have "hm_inv hm'"
    using h f distinct_keys_mset [OF h(5)] frame_functions [OF h(3)] by (simp add: hm_inv_def)
  then show ?thesis using h by blast
qed

text \<open>Searching the bucket of a key finds the index of its node, or the end of the bucket.\<close>

lemma search_bucket:
  assumes "hm_functions_ok hm" "vec_inv b"
  obtains j where "vec_search (\<lambda>x. rtHashMap_Compare_Node hm x k = 0) (block b) 0 (vcount b) = Some j"
    "vcount b = length (items b)" "j < length (items b) \<Longrightarrow> nkey (items b ! j) = k"
    "\<not> j < length (items b) \<Longrightarrow> \<forall>nd\<in>set (items b). nkey nd \<noteq> k"
proof -
  let ?j = "length (takeWhile (\<lambda>x. \<not> nkey x = k) (items b))"
  obtain junk where b: "block b = map Some (items b) @ junk" "length (items b) = vcount b"
    using vec_repr [OF assms(2)] by metis
  have "vec_search (\<lambda>x. nkey x = k) (block b) 0 (vcount b) = Some ?j"
    using vec_search_ok [of 0 "items b" "\<lambda>x. nkey x = k" junk] b by simp
  moreover have "?j < length (items b) \<Longrightarrow> nkey (items b ! ?j) = k"
    using nth_length_takeWhile [of "\<lambda>x. \<not> nkey x = k" "items b"] by simp
  moreover have "\<not> ?j < length (items b) \<Longrightarrow> \<forall>nd\<in>set (items b). nkey nd \<noteq> k"
    using takeWhile_all_iff [of "\<lambda>x. nkey x = k" "items b"]
      length_takeWhile_le [of "\<lambda>x. \<not> nkey x = k" "items b"] by simp
  ultimately show thesis
    using that [of ?j] b(2) unfolding Compare_Node_ok [OF assms(1)] by metis
qed

lemma mset_exchange:
  assumes "A + {# y #} = B + {# x #}" "N + B = L + A" "L = add_mset y M"
  shows "N = add_mset x M"
proof -
  have "N + B + {# y #} = add_mset y M + (B + {# x #})" using assms by (metis add.assoc)
  then have "N + B + {# y #} = add_mset x M + B + {# y #}" by (simp add: ac_simps)
  then show ?thesis by (metis add_right_cancel)
qed

lemma Set_old_ok:
  assumes "hm_inv hm" "bucket_at hm (Some (H hm k)) = Some b" "vec_inv b" "items b = bucket_lists hm ! H hm k"
    "H hm k < nb hm" "j < length (items b)" "nkey (items b ! j) = k"
  shows "hm_inv (set_bucket hm (H hm k) (set_item b j \<lparr>nkey = k, nvalue = v\<rparr>))"
    "hm_map (set_bucket hm (H hm k) (set_item b j \<lparr>nkey = k, nvalue = v\<rparr>)) = (hm_map hm)(k \<mapsto> v)"
proof -
  let ?x = "\<lparr>nkey = k, nvalue = v\<rparr>" and ?old = "items b ! j"
  let ?h = "set_bucket hm (H hm k) (set_item b j ?x)"
  have f: "placed hm" "distinct (map nkey (nodes hm))" "table_size (nb hm)" "hsize hm = length (nodes hm)"
    using assms(1) by (auto simp: hm_inv_def)
  note si = set_item_ok [OF assms(3,6), of ?x]
  have "\<forall>nd\<in>set (items (set_item b j ?x)). H hm (nkey nd) = H hm k"
    using f(1) assms(4,5) unfolding si(2)
    by (auto simp: placed_def H_def dest!: set_update_subset_insert [THEN subsetD])
  note s = set_bucket_ok [OF f(1) assms(5) si(1) this]
  have "?old \<in># mset (nodes hm)" using assms(4,5,6) nth_mem [OF assms(6)] by (auto intro: bucket_in_nodes)
  then obtain M where M: "mset (nodes hm) = add_mset ?old M" by (metis mset_add)
  have "mset (items (set_item b j ?x)) + {# ?old #} = mset (items b) + {# ?x #}"
    unfolding si(2) by (simp add: mset_update assms(6))
  from mset_exchange [OF this s(4) [folded assms(4)] M] have M': "mset (nodes ?h) = add_mset ?x M" .
  note n = nodes_replace [OF f(2) M M']
  have "hm_inv (?h\<lparr>hsize := length (nodes ?h)\<rparr>)"
    by (rule hm_invI(1) [OF assms(1) s(1) s(3)]) (use n assms(7) s(2) f(3) in auto)
  moreover have "?h\<lparr>hsize := length (nodes ?h)\<rparr> = ?h"
    using n(2) assms(7) f(4) by (simp add: set_bucket_def)
  ultimately show "hm_inv ?h" by simp
  show "hm_map ?h = (hm_map hm)(k \<mapsto> v)" using n(3) assms(7) by simp
qed

lemma maybe_Resize:
  assumes "hm_inv hm" "c \<Longrightarrow> grow \<or> RTHASHMAP_INITSIZE < nb hm"
  obtains hm' where "(if c then rtHashMap_Resize hm grow else Some hm) = Some hm'" "hm_inv hm'" "frame hm hm'"
    "mset (nodes hm') = mset (nodes hm)"
  using Resize_inv [OF assms(1), of grow] assms by (cases c) auto

lemma Set_ok:
  assumes "hm_inv hm"
  shows "\<exists>hm'. rtHashMap_Set hm k v = Some hm' \<and> hm_inv hm' \<and> hm_map hm' = (hm_map hm)(k \<mapsto> v)"
proof -
  have f: "hm_functions_ok hm" "placed hm" "table_size (nb hm)" using assms by (auto simp: hm_inv_def)
  note g = GetBucket_ok [OF f(1,2), of k]
  obtain b where b: "bucket_at hm (Some (H hm k)) = Some b" "vec_inv b" "items b = bucket_lists hm ! H hm k"
    using bucket_at_ok [OF f(2) g(2)] .
  obtain j where j: "vec_search (\<lambda>x. rtHashMap_Compare_Node hm x k = 0) (block b) 0 (vcount b) = Some j"
    "vcount b = length (items b)" "j < length (items b) \<Longrightarrow> nkey (items b ! j) = k"
    "\<not> j < length (items b) \<Longrightarrow> \<forall>nd\<in>set (items b). nkey nd \<noteq> k"
    using search_bucket [OF f(1) b(2)] by blast
  show ?thesis
  proof (cases "j < length (items b)")
    case True
    then show ?thesis
      using Set_old_ok [OF assms b g(2) True j(3) [OF True], of v] g(1) b(1) j(1,2)
      by (simp add: rtHashMap_Set_def)
  next
    case False
    have new: "\<forall>nd\<in>set (nodes hm). nkey nd \<noteq> k"
      using j(4) [OF False] node_in_bucket(1) [OF f(2)] b(3) by auto
    define c where "c \<longleftrightarrow> load_factor hm < of_nat (Suc (hsize hm)) / of_nat (rtVector_Size (buckets hm))"
    define r where "r = (if c then rtHashMap_Resize hm True else Some hm)"
    obtain hm1 where h: "r = Some hm1" "hm_inv hm1" "frame hm hm1" "mset (nodes hm1) = mset (nodes hm)"
      using maybe_Resize [OF assms, of c True] unfolding r_def by blast
    have "placed hm1" "table_size (nb hm1)" using h(2) by (auto simp: hm_inv_def)
    then show ?thesis
      using Set_new_ok [OF assms new _ h(3,4), of v] g(1) b(1) j(1,2) False h(1)
      by (auto simp: rtHashMap_Set_def r_def [symmetric] c_def [symmetric] simp del: of_nat_add of_nat_Suc)
  qed
qed

lemma remove_first_mset:
  "(\<exists>x\<in>set xs. P x) \<Longrightarrow> \<exists>x\<in>set xs. P x \<and> mset xs = add_mset x (mset (remove_first P xs))"
  by (induction xs) auto

lemma Remove_old_ok:
  assumes "hm_inv hm" "vec_inv b" "items b = remove_first (\<lambda>x. nkey x = k) (bucket_lists hm ! H hm k)"
    "\<exists>x\<in>set (bucket_lists hm ! H hm k). nkey x = k"
  shows "hm_inv ((set_bucket hm (H hm k) b)\<lparr>hsize := hsize hm - 1\<rparr>)"
    "hm_map ((set_bucket hm (H hm k) b)\<lparr>hsize := hsize hm - 1\<rparr>) = (hm_map hm)(k := None)"
    "hm_map hm k \<noteq> None"
proof -
  let ?h = "set_bucket hm (H hm k) b"
  have f: "hm_functions_ok hm" "placed hm" "distinct (map nkey (nodes hm))" "table_size (nb hm)" "hsize hm = length (nodes hm)"
    using assms(1) by (auto simp: hm_inv_def)
  note g = GetBucket_ok [OF f(1,2), of k]
  obtain x where x: "x \<in> set (bucket_lists hm ! H hm k)" "nkey x = k"
      "mset (bucket_lists hm ! H hm k) = add_mset x (mset (items b))"
    using remove_first_mset [OF assms(4)] assms(3) by auto
  have "set (items b) \<subseteq> set (bucket_lists hm ! H hm k)"
    using arg_cong [OF x(3), of set_mset] by auto
  then have "\<forall>nd\<in>set (items b). H hm (nkey nd) = H hm k"
    using f(2) g(2) by (auto simp: placed_def H_def)
  note s = set_bucket_ok [OF f(2) g(2) assms(2) this]
  have "mset (nodes hm) = add_mset x (mset (nodes ?h))" using s(4) x(3) by simp
  note n = nodes_take [OF f(3) this]
  have "hm_inv (?h\<lparr>hsize := length (nodes ?h)\<rparr>)" "hm_map (?h\<lparr>hsize := hsize hm - 1\<rparr>) = hm_map ?h"
    using hm_invI [OF assms(1) s(1) s(3) n(1)] s(2) f(4) by auto
  moreover have "length (nodes ?h) = hsize hm - 1" using n(2) f(5) by simp
  ultimately show "hm_inv (?h\<lparr>hsize := hsize hm - 1\<rparr>)" "hm_map (?h\<lparr>hsize := hsize hm - 1\<rparr>) = (hm_map hm)(k := None)"
    using n(3) x(2) by auto
  show "hm_map hm k \<noteq> None" using bucket_in_nodes [OF g(2) x(1)] x(2) by (auto simp: hm_map_None_iff)
qed

lemma Remove_ok:
  assumes "hm_inv hm"
  shows "\<exists>hm'. rtHashMap_Remove hm k = Some (if hm_map hm k \<noteq> None then 1 else 0, hm') \<and> hm_inv hm' \<and>
    hm_map hm' = (hm_map hm)(k := None)"
proof -
  have f: "hm_functions_ok hm" "placed hm" using assms by (auto simp: hm_inv_def)
  note g = GetBucket_ok [OF f(1,2), of k]
  obtain b where b: "bucket_at hm (Some (H hm k)) = Some b" "vec_inv b" "items b = bucket_lists hm ! H hm k"
    using bucket_at_ok [OF f(2) g(2)] .
  obtain rc b' where b': "rtVector_RemoveItemByCompare b k (rtHashMap_Compare_Node hm) = Some (rc, b')" "vec_inv b'"
      "items b' = remove_first (\<lambda>x. nkey x = k) (items b)"
      "rc = (if \<exists>x\<in>set (items b). nkey x = k then RT_OK else RT_FAIL)"
    using vec_remove_ok [OF b(2), of "\<lambda>x. nkey x = k"]
    unfolding rtVector_RemoveItemByCompare_def Compare_Node_ok [OF f(1)] by blast
  show ?thesis
  proof (cases "\<exists>x\<in>set (items b). nkey x = k")
    case False
    then have "hm_map hm k = None"
      using node_in_bucket(1) [OF f(2)] b(3) by (auto simp: hm_map_None_iff)
    moreover have "rc \<noteq> RT_OK" using False b'(4) by (simp add: RT_OK_def RT_FAIL_def)
    ultimately show ?thesis
      using g(1) b(1) b'(1) assms by (auto simp: rtHashMap_Remove_def fun_upd_idem)
  next
    case True
    define hm1 where "hm1 = (set_bucket hm (H hm k) b')\<lparr>hsize := hsize hm - 1\<rparr>"
    have h1: "hm_inv hm1" "hm_map hm1 = (hm_map hm)(k := None)" "hm_map hm k \<noteq> None"
      using Remove_old_ok [OF assms b'(2)] b'(3) b(3) True by (auto simp: hm1_def)
    define c where "c \<longleftrightarrow> rtVector_Size (buckets hm1) > RTHASHMAP_INITSIZE \<and>
      of_nat (hsize hm1 div rtVector_Size (buckets hm1)) / 2 < load_factor hm1"
    define r where "r = (if c then rtHashMap_Resize hm1 False else Some hm1)"
    have d: "placed hm1" "distinct (map nkey (nodes hm1))" using h1(1) by (auto simp: hm_inv_def)
    have "rtVector_Size (buckets hm1) = nb hm1" using d(1) by (simp add: placed_def nb_size)
    then have "c \<Longrightarrow> RTHASHMAP_INITSIZE < nb hm1" by (simp add: c_def)
    then obtain hm2 where "r = Some hm2" "hm_inv hm2" "mset (nodes hm2) = mset (nodes hm1)"
      using maybe_Resize [OF h1(1), of c False] unfolding r_def by blast
    moreover have "rtHashMap_Remove hm k = do { hm \<leftarrow> r; Some (1, hm) }"
      unfolding rtHashMap_Remove_def r_def c_def hm1_def Let_def
      using g(1) b(1) b'(1,4) True by simp
    ultimately show ?thesis using h1(2,3) hm_map_mset [OF _ d(2), of hm2] by simp
  qed
qed

lemma CreateEx_ok:
  assumes "\<forall>n k. 0 < n \<longrightarrow> unat (hasher n k) < n" "\<forall>a b. comparer a b = 0 \<longleftrightarrow> a = b"
  shows "\<exists>hm. rtHashMap_CreateEx lf hasher comparer = Some (hm :: ('k, 'v) rtHashMap) \<and> hm_inv hm \<and> hm_map hm = Map.empty"
proof -
  obtain bs :: "('k, 'v) rtHashMapNode rtVector rtVector" where bs:
      "mfold push_empty [0..<RTHASHMAP_INITSIZE] rtVector_Create = Some bs" "vec_inv bs"
      "items bs = replicate RTHASHMAP_INITSIZE rtVector_Create"
    using push_empties_ok [of rtVector_Create "[0..<RTHASHMAP_INITSIZE]"] by auto
  let ?hm = "\<lparr>buckets = bs, hsize = 0, load_factor = (if lf = 0 then RTHASHMAP_LOAD_FACTOR else lf),
              key_hasher = hasher, key_comparer = comparer\<rparr>"
  have "0 < RTHASHMAP_INITSIZE" by (simp add: RTHASHMAP_INITSIZE_def)
  from empty_table [OF bs(2,3) this, of ?hm]
  have "placed ?hm" "nodes ?hm = []" "nb ?hm = RTHASHMAP_INITSIZE" by simp_all
  moreover from this have "table_size (nb ?hm)" unfolding table_size_def by (intro exI [of _ 0]) simp
  ultimately have "hm_inv ?hm" "hm_map ?hm = Map.empty"
    using assms by (auto simp: hm_inv_def hm_functions_ok_def hm_map_def)
  then show ?thesis using bs(1) by (simp add: rtHashMap_CreateEx_def)
qed

lemma Hash_Func_String_range: "0 < n \<Longrightarrow> unat (rtHashMap_Hash_Func_String n k) < n"
proof -
  assume n: "0 < n"
  have "unat (word_of_nat (m mod n) :: u32) < n" for m
    using mod_less_divisor [OF n, of m] mod_less_eq_dividend [of "m mod n" "2 ^ 32"]
    by (simp add: unat_of_nat)
  then show ?thesis using n by (simp add: rtHashMap_Hash_Func_String_def Let_def)
qed

lemma HashMap_Create_ok:
  "\<exists>hm. rtHashMap_Create = Some (hm :: (string, 'v) rtHashMap) \<and> hm_inv hm \<and> hm_map hm = Map.empty"
  unfolding rtHashMap_Create_def
  by (rule CreateEx_ok) (simp_all add: Hash_Func_String_range rtHashMap_Compare_Func_String_def)

section \<open>The interface of a key-value map\<close>

text \<open>
  What the users of the hash map rely on, and what follows for every sequence of updates: a
  lookup returns what the last update of its key left there.
\<close>

datatype ('k, 'v) map_op = SetOp 'k 'v | RemoveOp 'k

fun abstract_op :: "('k, 'v) map_op \<Rightarrow> ('k \<Rightarrow> 'v option) \<Rightarrow> 'k \<Rightarrow> 'v option" where
  "abstract_op (SetOp k v) m = m(k \<mapsto> v)"
| "abstract_op (RemoveOp k) m = m(k := None)"

locale key_value_map =
  fixes inv :: "'s \<Rightarrow> bool"
    and \<alpha> :: "'s \<Rightarrow> 'k \<Rightarrow> 'v option"
    and set_key :: "'s \<Rightarrow> 'k \<Rightarrow> 'v \<Rightarrow> 's run"
    and remove_key :: "'s \<Rightarrow> 'k \<Rightarrow> (int \<times> 's) run"
    and get_key :: "'s \<Rightarrow> 'k \<Rightarrow> 'v option run"
    and count_keys :: "'s \<Rightarrow> nat"
  assumes set_updates: "inv s \<Longrightarrow> \<exists>s'. set_key s k v = Some s' \<and> inv s' \<and> \<alpha> s' = (\<alpha> s)(k \<mapsto> v)"
    and remove_deletes: "inv s \<Longrightarrow>
      \<exists>s'. remove_key s k = Some (if \<alpha> s k \<noteq> None then 1 else 0, s') \<and> inv s' \<and> \<alpha> s' = (\<alpha> s)(k := None)"
    and get_looks_up: "inv s \<Longrightarrow> get_key s k = Some (\<alpha> s k)"
    and counts: "inv s \<Longrightarrow> count_keys s = card (dom (\<alpha> s))"
begin

fun apply_op :: "('k, 'v) map_op \<Rightarrow> 's \<Rightarrow> 's run" where
  "apply_op (SetOp k v) s = set_key s k v"
| "apply_op (RemoveOp k) s = do { (n, s) \<leftarrow> remove_key s k; Some s }"

lemma apply_op_refines:
  assumes "inv s"
  shows "\<exists>s'. apply_op p s = Some s' \<and> inv s' \<and> \<alpha> s' = abstract_op p (\<alpha> s)"
proof (cases p)
  case (SetOp k v)
  then show ?thesis using set_updates [OF assms, of k v] by auto
next
  case (RemoveOp k)
  then show ?thesis using remove_deletes [OF assms, of k] by auto
qed

lemma sequence_refines:
  assumes "inv s"
  shows "\<exists>s'. mfold apply_op ops s = Some s' \<and> inv s' \<and> \<alpha> s' = fold abstract_op ops (\<alpha> s) \<and>
    (\<forall>k. get_key s' k = Some (fold abstract_op ops (\<alpha> s) k)) \<and>
    count_keys s' = card (dom (fold abstract_op ops (\<alpha> s)))"
  using assms
proof (induction ops arbitrary: s)
  case Nil
  then show ?case using get_looks_up counts by auto
next
  case (Cons p ops)
  obtain s1 where s1: "apply_op p s = Some s1" "inv s1" "\<alpha> s1 = abstract_op p (\<alpha> s)"
    using apply_op_refines [OF Cons.prems] by blast
  then show ?case using Cons.IH [OF s1(2)] by auto
qed

end

lemma GetSize_ok:
  assumes "hm_inv hm"
  shows "rtHashMap_GetSize hm = card (dom (hm_map hm))"
proof -
  have d: "distinct (map nkey (nodes hm))" "hsize hm = length (nodes hm)" using assms by (auto simp: hm_inv_def)
  have "dom (hm_map hm) = set (map nkey (nodes hm))" by (simp add: hm_map_def dom_map_of_conv_image_fst image_image)
  then show ?thesis using d distinct_card [OF d(1)] by (simp add: rtHashMap_GetSize_def)
qed

interpretation hm: key_value_map hm_inv hm_map rtHashMap_Set rtHashMap_Remove rtHashMap_Get rtHashMap_GetSize
  by unfold_locales (fact Set_ok Remove_ok Get_ok GetSize_ok)+

fun hashmap_op :: "('k, 'v) map_op \<Rightarrow> ('k, 'v) rtHashMap \<Rightarrow> ('k, 'v) rtHashMap run" where
  "hashmap_op (SetOp k v) hm = rtHashMap_Set hm k v"
| "hashmap_op (RemoveOp k) hm = do { (n, hm) \<leftarrow> rtHashMap_Remove hm k; Some hm }"

lemma hashmap_op_eq: "hashmap_op = hm.apply_op"
proof (rule ext, rule ext)
  show "hashmap_op p hm = hm.apply_op p hm" for p :: "('a, 'b) map_op" and hm by (cases p) simp_all
qed

text \<open>
  C31. A map from \<open>rtHashMap_Create\<close> never fails: after any sequence of \<open>rtHashMap_Set\<close> and
  \<open>rtHashMap_Remove\<close>, with all the growing, shrinking and rehashing they do, a lookup returns
  the value the last update of that key left (NULL when there is none) and the size is the
  number of keys present.
\<close>

theorem HashMap_refines_map:
  fixes ops :: "(string, 'v) map_op list"
  shows "\<exists>hm0 hm. rtHashMap_Create = Some hm0 \<and> mfold hashmap_op ops hm0 = Some hm \<and> hm_inv hm \<and>
    (\<forall>k. rtHashMap_Get hm k = Some (fold abstract_op ops Map.empty k)) \<and>
    (\<forall>k. rtHashMap_Contains hm k = Some (if fold abstract_op ops Map.empty k \<noteq> None then 1 else 0)) \<and>
    rtHashMap_GetSize hm = card (dom (fold abstract_op ops Map.empty))"
proof -
  obtain hm0 :: "(string, 'v) rtHashMap" where 0: "rtHashMap_Create = Some hm0" "hm_inv hm0" "hm_map hm0 = Map.empty"
    using HashMap_Create_ok by blast
  show ?thesis
    using hm.sequence_refines [OF 0(2), of ops] 0(1,3) Contains_ok unfolding hashmap_op_eq by fastforce
qed



end
