(* ===== verification/RT_List.thy ===== *)
theory RT_List
  imports RT_Vector
begin

text \<open>
  The doubly linked list of \<^verbatim>\<open>src/src/rtmessage/rtList.c\<close> on an explicit heap, with the list of
  recycled items it keeps, and the proof that it stands for a sequence of data pointers.
\<close>

section \<open>Items, lists and the heap\<close>

text \<open>
  A pointer to an item is an address, 0 is NULL. The heap maps the address of an item to its
  fields; an access through NULL or through an address that holds no item is undefined. The
  data pointer is \<open>None\<close> when it is NULL. The argument \<open>new\<close> of an operation is what the
  allocator returns if it is asked: the address of the new item, or 0 when there is no memory.
\<close>

record 'a rtListItem =
  idata :: "'a option"
  inext :: addr
  iprev :: addr

record rtList =
  lfront :: addr
  lback :: addr
  free_items :: addr
  lsize :: u64

type_synonym 'a heap = "addr \<Rightarrow> 'a rtListItem option"

text \<open>The sentinel \<open>rtListReuseData\<close> as data to push keeps what a recycled item holds.\<close>

datatype 'a push_data = Data "'a option" | ReuseData

definition deref :: "'a heap \<Rightarrow> addr \<Rightarrow> 'a rtListItem run" where
  "deref h p = (if p = 0 then None else h p)"

definition upd :: "'a heap \<Rightarrow> addr \<Rightarrow> ('a rtListItem \<Rightarrow> 'a rtListItem) \<Rightarrow> 'a heap run" where
  "upd h p f = do { it \<leftarrow> deref h p; Some (h(p \<mapsto> f it)) }"

definition rtList_Create :: rtList where
  "rtList_Create = \<lparr>lfront = 0, lback = 0, free_items = 0, lsize = 0\<rparr>"

text \<open>The links of a new item are written before they are read, so their first values do not matter.\<close>

definition rtList_GetFreeItem :: "addr \<Rightarrow> 'a heap \<Rightarrow> rtList \<Rightarrow> (addr \<times> 'a heap \<times> rtList) run" where
  "rtList_GetFreeItem new h list =
     (if free_items list \<noteq> 0
      then do { it \<leftarrow> deref h (free_items list);
                Some (free_items list, h, list\<lparr>free_items := inext it\<rparr>) }
      else if new \<noteq> 0 then Some (new, h(new \<mapsto> \<lparr>idata = None, inext = 0, iprev = 0\<rparr>), list)
      else Some (0, h, list))"

definition rtList_SetFreeItem :: "'a heap \<Rightarrow> rtList \<Rightarrow> addr \<Rightarrow> ('a heap \<times> rtList) run" where
  "rtList_SetFreeItem h list item =
     (if free_items list \<noteq> 0
      then do { h \<leftarrow> upd h (free_items list) (\<lambda>it. it\<lparr>iprev := item\<rparr>);
                h \<leftarrow> upd h item (\<lambda>it. it\<lparr>inext := free_items list\<rparr>);
                h \<leftarrow> upd h item (\<lambda>it. it\<lparr>iprev := 0\<rparr>);
                Some (h, list\<lparr>free_items := item\<rparr>) }
      else do { h \<leftarrow> upd h item (\<lambda>it. it\<lparr>inext := 0, iprev := 0\<rparr>);
                Some (h, list\<lparr>free_items := item\<rparr>) })"

definition set_data :: "'a heap \<Rightarrow> addr \<Rightarrow> 'a push_data \<Rightarrow> 'a heap run" where
  "set_data h item data =
     (case data of Data d \<Rightarrow> upd h item (\<lambda>it. it\<lparr>idata := d\<rparr>) | ReuseData \<Rightarrow> Some h)"

section \<open>Inserting\<close>

text \<open>A result is the return code, the item handed back, the heap and the list.\<close>

type_synonym 'a list_result = "(int \<times> addr \<times> 'a heap \<times> rtList option) run"

definition rtList_PushFront :: "addr \<Rightarrow> 'a heap \<Rightarrow> rtList option \<Rightarrow> 'a push_data \<Rightarrow> 'a list_result" where
  "rtList_PushFront new h plist data =
     (case plist of
        None \<Rightarrow> Some (RT_ERROR_INVALID_ARG, 0, h, None)
      | Some list \<Rightarrow>
          do { (item, h, list) \<leftarrow> rtList_GetFreeItem new h list;
               if item = 0 then Some (RT_ENOMEM, 0, h, Some list)
               else do { h \<leftarrow> set_data h item data;
                         h \<leftarrow> upd h item (\<lambda>it. it\<lparr>iprev := 0\<rparr>);
                         h \<leftarrow> upd h item (\<lambda>it. it\<lparr>inext := lfront list\<rparr>);
                         h \<leftarrow> (if lfront list \<noteq> 0 then upd h (lfront list) (\<lambda>it. it\<lparr>iprev := item\<rparr>) else Some h);
                         let list = list\<lparr>lfront := item\<rparr>;
                         let list = (if lback list = 0 then list\<lparr>lback := item\<rparr> else list);
                         Some (RT_OK, item, h, Some (list\<lparr>lsize := lsize list + 1\<rparr>)) } })"

definition rtList_PushBack :: "addr \<Rightarrow> 'a heap \<Rightarrow> rtList option \<Rightarrow> 'a push_data \<Rightarrow> 'a list_result" where
  "rtList_PushBack new h plist data =
     (case plist of
        None \<Rightarrow> Some (RT_ERROR_INVALID_ARG, 0, h, None)
      | Some list \<Rightarrow>
          do { (item, h, list) \<leftarrow> rtList_GetFreeItem new h list;
               if item = 0 then Some (RT_ENOMEM, 0, h, Some list)
               else do { h \<leftarrow> set_data h item data;
                         h \<leftarrow> upd h item (\<lambda>it. it\<lparr>inext := 0\<rparr>);
                         h \<leftarrow> upd h item (\<lambda>it. it\<lparr>iprev := lback list\<rparr>);
                         h \<leftarrow> (if lback list \<noteq> 0 then upd h (lback list) (\<lambda>it. it\<lparr>inext := item\<rparr>) else Some h);
                         let list = list\<lparr>lback := item\<rparr>;
                         let list = (if lfront list = 0 then list\<lparr>lfront := item\<rparr> else list);
                         Some (RT_OK, item, h, Some (list\<lparr>lsize := lsize list + 1\<rparr>)) } })"

definition rtList_InsertBefore :: "addr \<Rightarrow> 'a heap \<Rightarrow> rtList option \<Rightarrow> 'a push_data \<Rightarrow> addr \<Rightarrow> 'a list_result" where
  "rtList_InsertBefore new h plist data pos =
     (case plist of
        None \<Rightarrow> Some (RT_ERROR_INVALID_ARG, 0, h, None)
      | Some list \<Rightarrow>
          if pos = 0 then Some (RT_ERROR_INVALID_ARG, 0, h, Some list)
          else
          do { (item, h, list) \<leftarrow> rtList_GetFreeItem new h list;
               if item = 0 then Some (RT_ENOMEM, 0, h, Some list)
               else do { h \<leftarrow> set_data h item data;
                         h \<leftarrow> upd h item (\<lambda>it. it\<lparr>inext := pos\<rparr>);
                         ai \<leftarrow> deref h pos;
                         h \<leftarrow> upd h item (\<lambda>it. it\<lparr>iprev := iprev ai\<rparr>);
                         h \<leftarrow> upd h pos (\<lambda>it. it\<lparr>iprev := item\<rparr>);
                         (h, list) \<leftarrow> (if pos = lfront list then Some (h, list\<lparr>lfront := item\<rparr>)
                                      else do { it \<leftarrow> deref h item;
                                                h \<leftarrow> upd h (iprev it) (\<lambda>it. it\<lparr>inext := item\<rparr>);
                                                Some (h, list) });
                         Some (RT_OK, item, h, Some (list\<lparr>lsize := lsize list + 1\<rparr>)) } })"

definition rtList_InsertAfter :: "addr \<Rightarrow> 'a heap \<Rightarrow> rtList option \<Rightarrow> 'a push_data \<Rightarrow> addr \<Rightarrow> 'a list_result" where
  "rtList_InsertAfter new h plist data pos =
     (case plist of
        None \<Rightarrow> Some (RT_ERROR_INVALID_ARG, 0, h, None)
      | Some list \<Rightarrow>
          if pos = 0 then Some (RT_ERROR_INVALID_ARG, 0, h, Some list)
          else
          do { (item, h, list) \<leftarrow> rtList_GetFreeItem new h list;
               if item = 0 then Some (RT_ENOMEM, 0, h, Some list)
               else do { h \<leftarrow> set_data h item data;
                         ai \<leftarrow> deref h pos;
                         h \<leftarrow> upd h item (\<lambda>it. it\<lparr>inext := inext ai\<rparr>);
                         h \<leftarrow> upd h item (\<lambda>it. it\<lparr>iprev := pos\<rparr>);
                         h \<leftarrow> upd h pos (\<lambda>it. it\<lparr>inext := item\<rparr>);
                         (h, list) \<leftarrow> (if pos = lback list then Some (h, list\<lparr>lback := item\<rparr>)
                                      else do { it \<leftarrow> deref h item;
                                                h \<leftarrow> upd h (inext it) (\<lambda>it. it\<lparr>iprev := item\<rparr>);
                                                Some (h, list) });
                         Some (RT_OK, item, h, Some (list\<lparr>lsize := lsize list + 1\<rparr>)) } })"

section \<open>Removing\<close>

text \<open>
  The flag says whether a destroyer is passed; it is called on the data (once, if it is not
  NULL), which has no effect on the list, and the item forgets the data.
\<close>

definition run_destroyer :: "bool \<Rightarrow> 'a heap \<Rightarrow> addr \<Rightarrow> 'a heap run" where
  "run_destroyer destroyer h item =
     do { it \<leftarrow> deref h item;
          if destroyer \<and> idata it \<noteq> None then upd h item (\<lambda>it. it\<lparr>idata := None\<rparr>) else Some h }"

definition rtList_RemoveItem :: "'a heap \<Rightarrow> rtList option \<Rightarrow> addr \<Rightarrow> bool \<Rightarrow> (int \<times> 'a heap \<times> rtList option) run" where
  "rtList_RemoveItem h plist item destroyer =
     (case plist of
        None \<Rightarrow> Some (RT_ERROR_INVALID_ARG, h, None)
      | Some list \<Rightarrow>
          if item = 0 then Some (RT_ERROR_INVALID_ARG, h, Some list)
          else
          do { it \<leftarrow> deref h item;
               h \<leftarrow> (if iprev it \<noteq> 0 then upd h (iprev it) (\<lambda>p. p\<lparr>inext := inext it\<rparr>) else Some h);
               it \<leftarrow> deref h item;
               h \<leftarrow> (if inext it \<noteq> 0 then upd h (inext it) (\<lambda>n. n\<lparr>iprev := iprev it\<rparr>) else Some h);
               it \<leftarrow> deref h item;
               let list = (if lfront list = item then list\<lparr>lfront := inext it\<rparr> else list);
               let list = (if lback list = item then list\<lparr>lback := iprev it\<rparr> else list);
               h \<leftarrow> run_destroyer destroyer h item;
               (h, list) \<leftarrow> rtList_SetFreeItem h list item;
               Some (RT_OK, h, Some (list\<lparr>lsize := lsize list - 1\<rparr>)) })"

text \<open>
  The search loops: from \<open>item\<close> to the first item whose data satisfies \<open>P\<close>, or NULL. On a
  cyclic chain the loop does not end.
\<close>

partial_function (option) list_search :: "('a option \<Rightarrow> bool) \<Rightarrow> 'a heap \<Rightarrow> addr \<Rightarrow> addr run" where
  "list_search P h item =
     (if item = 0 then Some 0
      else do { it \<leftarrow> deref h item;
                if P (idata it) then Some item else list_search P h (inext it) })"

definition rtList_RemoveItemWithData ::
  "'a heap \<Rightarrow> rtList option \<Rightarrow> 'a option \<Rightarrow> bool \<Rightarrow> (int \<times> 'a heap \<times> rtList option) run" where
  "rtList_RemoveItemWithData h plist data destroyer =
     (case plist of
        None \<Rightarrow> Some (RT_ERROR_INVALID_ARG, h, None)
      | Some list \<Rightarrow>
          do { item \<leftarrow> list_search (\<lambda>d. d = data) h (lfront list);
               if item = 0 then Some (RT_ERROR_INVALID_ARG, h, Some list)
               else rtList_RemoveItem h (Some list) item destroyer })"

text \<open>
  The front of the list is read before the list is checked for NULL. A NULL \<open>comparison\<close> is an
  error; \<open>compare\<close> is not NULL at any call.
\<close>

definition rtList_RemoveItemByCompare ::
  "'a heap \<Rightarrow> rtList option \<Rightarrow> 'k option \<Rightarrow> ('a option \<Rightarrow> 'k \<Rightarrow> int) \<Rightarrow> bool \<Rightarrow> (int \<times> 'a heap \<times> rtList option) run" where
  "rtList_RemoveItemByCompare h plist comparison compare destroyer =
     (case plist of
        None \<Rightarrow> None
      | Some list \<Rightarrow>
          (case comparison of
             None \<Rightarrow> Some (RT_ERROR_INVALID_ARG, h, Some list)
           | Some k \<Rightarrow>
               do { item \<leftarrow> list_search (\<lambda>d. compare d k = 0) h (lfront list);
                    if item = 0 then Some (RT_ERROR, h, Some list)
                    else do { (rc, h, l) \<leftarrow> rtList_RemoveItem h (Some list) item destroyer;
                              Some (RT_OK, h, l) } }))"

partial_function (option) remove_all_loop ::
  "bool \<Rightarrow> addr \<Rightarrow> 'a heap \<Rightarrow> rtList \<Rightarrow> ('a heap \<times> rtList) run" where
  "remove_all_loop destroyer item h list =
     (if item = 0 then Some (h, list)
      else do { it \<leftarrow> deref h item;
                h \<leftarrow> run_destroyer destroyer h item;
                (h, list) \<leftarrow> rtList_SetFreeItem h list item;
                remove_all_loop destroyer (inext it) h list })"

definition rtList_RemoveAllItems :: "'a heap \<Rightarrow> rtList option \<Rightarrow> bool \<Rightarrow> (int \<times> 'a heap \<times> rtList option) run" where
  "rtList_RemoveAllItems h plist destroyer =
     (case plist of
        None \<Rightarrow> Some (RT_ERROR_INVALID_ARG, h, None)
      | Some list \<Rightarrow>
          do { (h, list) \<leftarrow> remove_all_loop destroyer (lfront list) h list;
               Some (RT_OK, h, Some (list\<lparr>lsize := 0, lfront := 0, lback := 0\<rparr>)) })"

section \<open>Reading\<close>

definition rtList_Find :: "'a heap \<Rightarrow> rtList option \<Rightarrow> 'k option \<Rightarrow> ('a option \<Rightarrow> 'k \<Rightarrow> int) \<Rightarrow> 'a option run" where
  "rtList_Find h plist comparison compare =
     (case (plist, comparison) of
        (Some list, Some k) \<Rightarrow>
          do { item \<leftarrow> list_search (\<lambda>d. compare d k = 0) h (lfront list);
               if item = 0 then Some None else do { it \<leftarrow> deref h item; Some (idata it) } }
      | _ \<Rightarrow> Some None)"

definition rtList_HasItem :: "'a heap \<Rightarrow> rtList option \<Rightarrow> 'k option \<Rightarrow> ('a option \<Rightarrow> 'k \<Rightarrow> int) \<Rightarrow> int run" where
  "rtList_HasItem h plist comparison compare =
     (if plist = None \<or> comparison = None then Some 0
      else do { d \<leftarrow> rtList_Find h plist comparison compare; Some (if d \<noteq> None then 1 else 0) })"

definition rtList_GetSize :: "rtList option \<Rightarrow> int \<times> u64" where
  "rtList_GetSize plist = (case plist of None \<Rightarrow> (RT_ERROR_INVALID_ARG, 0) | Some list \<Rightarrow> (RT_OK, lsize list))"

definition rtList_GetFront :: "rtList option \<Rightarrow> int \<times> addr" where
  "rtList_GetFront plist = (case plist of None \<Rightarrow> (RT_ERROR_INVALID_ARG, 0) | Some list \<Rightarrow> (RT_OK, lfront list))"

definition rtList_GetBack :: "rtList option \<Rightarrow> int \<times> addr" where
  "rtList_GetBack plist = (case plist of None \<Rightarrow> (RT_ERROR_INVALID_ARG, 0) | Some list \<Rightarrow> (RT_OK, lback list))"

definition rtListItem_GetData :: "'a heap \<Rightarrow> addr \<Rightarrow> (int \<times> 'a option) run" where
  "rtListItem_GetData h item =
     (if item = 0 then Some (RT_ERROR_INVALID_ARG, None) else do { it \<leftarrow> deref h item; Some (RT_OK, idata it) })"

definition rtListItem_SetData :: "'a heap \<Rightarrow> addr \<Rightarrow> 'a option \<Rightarrow> (int \<times> 'a heap) run" where
  "rtListItem_SetData h item data =
     (if item = 0 then Some (RT_ERROR_INVALID_ARG, h)
      else do { h \<leftarrow> upd h item (\<lambda>it. it\<lparr>idata := data\<rparr>); Some (RT_OK, h) })"

definition rtListItem_GetNext :: "'a heap \<Rightarrow> addr \<Rightarrow> (int \<times> addr) run" where
  "rtListItem_GetNext h item =
     (if item = 0 then Some (RT_ERROR_INVALID_ARG, 0) else do { it \<leftarrow> deref h item; Some (RT_OK, inext it) })"

definition rtListItem_GetPrev :: "'a heap \<Rightarrow> addr \<Rightarrow> (int \<times> addr) run" where
  "rtListItem_GetPrev h item =
     (if item = 0 then Some (RT_ERROR_INVALID_ARG, 0) else do { it \<leftarrow> deref h item; Some (RT_OK, iprev it) })"

definition rtList_Compare_String :: "string option \<Rightarrow> string option \<Rightarrow> int" where
  "rtList_Compare_String left right =
     (case left of None \<Rightarrow> - 1 | Some l \<Rightarrow> (case right of None \<Rightarrow> 1 | Some r \<Rightarrow> strcmp l r))"

section \<open>The representation\<close>

text \<open>The first item of a chain, and the last one before it goes on.\<close>

definition first :: "addr list \<Rightarrow> addr \<Rightarrow> addr" where
  "first ps a = (case ps of [] \<Rightarrow> a | p # _ \<Rightarrow> p)"

definition final :: "addr list \<Rightarrow> addr \<Rightarrow> addr" where
  "final ps b = (if ps = [] then b else last ps)"

lemma first_simps [simp]: "first [] a = a" "first (p # ps) a = p"
  by (simp_all add: first_def)

lemma final_simps [simp]: "final [] b = b" "final (ps @ [p]) b = p" "final (p # ps) b = final ps p"
  by (simp_all add: final_def)

lemma first_append [simp]: "first (ps @ qs) a = first ps (first qs a)"
  by (cases ps) simp_all

lemma final_append [simp]: "final (ps @ qs) b = final qs (final ps b)"
  by (auto simp: final_def)

lemma in_nonzero: "0 \<notin> set ps \<Longrightarrow> p \<in> set ps \<Longrightarrow> 0 < (p :: addr)"
  by (metis gr0I)

lemma first_cases: "first ps a = a \<or> first ps a \<in> set ps"
  by (cases ps) auto

lemma final_cases: "final ps b = b \<or> final ps b \<in> set ps"
  by (auto simp: final_def)

text \<open>A doubly linked segment, and the singly linked list of free items.\<close>

definition links :: "'a heap \<Rightarrow> addr \<Rightarrow> (addr \<times> addr) option" where
  "links h p = map_option (\<lambda>it. (iprev it, inext it)) (h p)"

fun dll :: "'a heap \<Rightarrow> addr \<Rightarrow> addr list \<Rightarrow> addr \<Rightarrow> bool" where
  "dll h b [] a \<longleftrightarrow> True"
| "dll h b (p # ps) a \<longleftrightarrow>
     links h p = Some (b, first ps a) \<and> dll h p ps a"

fun sll :: "'a heap \<Rightarrow> addr list \<Rightarrow> bool" where
  "sll h [] \<longleftrightarrow> True"
| "sll h (p # ps) \<longleftrightarrow> map_option snd (links h p) = Some (first ps 0) \<and> sll h ps"

definition contents :: "'a heap \<Rightarrow> addr list \<Rightarrow> 'a option list" where
  "contents h ps = map (\<lambda>p. idata (the (h p))) ps"

text \<open>The list \<open>list\<close> has the items \<open>ps\<close>, in order, and keeps the items \<open>fs\<close> for reuse.\<close>

definition list_rep :: "'a heap \<Rightarrow> rtList \<Rightarrow> addr list \<Rightarrow> addr list \<Rightarrow> bool" where
  "list_rep h list ps fs \<longleftrightarrow> dll h 0 ps 0 \<and> sll h fs \<and> distinct (ps @ fs) \<and> 0 \<notin> set (ps @ fs) \<and>
     lfront list = first ps 0 \<and> lback list = final ps 0 \<and> free_items list = first fs 0 \<and>
     lsize list = of_nat (length ps)"

lemma dll_append: "dll h b (ps @ qs) a \<longleftrightarrow> dll h b ps (first qs a) \<and> dll h (final ps b) qs a"
  by (induction ps arbitrary: b) auto

lemma dll_links: "(\<And>p. p \<in> set ps \<Longrightarrow> links h p = links h' p) \<Longrightarrow> dll h b ps a = dll h' b ps a"
  by (induction ps arbitrary: b) auto

lemma sll_links: "(\<And>p. p \<in> set ps \<Longrightarrow> links h p = links h' p) \<Longrightarrow> sll h ps = sll h' ps"
  by (induction ps) auto

lemma dll_cong: "(\<And>p. p \<in> set ps \<Longrightarrow> h p = h' p) \<Longrightarrow> dll h b ps a = dll h' b ps a"
  by (rule dll_links) (simp add: links_def)

lemma sll_cong: "(\<And>p. p \<in> set ps \<Longrightarrow> h p = h' p) \<Longrightarrow> sll h ps = sll h' ps"
  by (rule sll_links) (simp add: links_def)

lemma dll_allocated: "dll h b ps a \<Longrightarrow> p \<in> set ps \<Longrightarrow> \<exists>it. h p = Some it"
  by (induction ps arbitrary: b) (auto simp: links_def)

lemma sll_allocated: "sll h ps \<Longrightarrow> p \<in> set ps \<Longrightarrow> \<exists>it. h p = Some it"
  by (induction ps) (auto simp: links_def)

text \<open>Redirecting the outgoing link of a segment, and its incoming one.\<close>

lemma dll_set_next:
  assumes "dll h b ps a" "distinct ps" "ps \<noteq> []" "h (last ps) = Some it"
  shows "dll (h(last ps \<mapsto> it\<lparr>inext := a'\<rparr>)) b ps a'"
proof -
  obtain qs p where ps: "ps = qs @ [p]" using assms(3) by (cases ps rule: rev_cases) auto
  have "dll (h(p \<mapsto> it\<lparr>inext := a'\<rparr>)) b qs p = dll h b qs p"
    using assms(2) ps by (intro dll_cong) auto
  then show ?thesis using assms(1,4) ps by (auto simp: dll_append links_def)
qed

lemma dll_set_prev:
  assumes "dll h b ps a" "distinct ps" "ps \<noteq> []" "h (hd ps) = Some it"
  shows "dll (h(hd ps \<mapsto> it\<lparr>iprev := b'\<rparr>)) b' ps a"
proof -
  obtain p qs where ps: "ps = p # qs" using assms(3) by (cases ps) auto
  have "dll (h(p \<mapsto> it\<lparr>iprev := b'\<rparr>)) p qs a = dll h p qs a"
    using assms(2) ps by (intro dll_cong) auto
  then show ?thesis using assms(1,4) ps by (auto simp: links_def)
qed

text \<open>
  The effect on the heap of linking an item in between \<open>a\<close> and \<open>b\<close>, and of bridging \<open>a\<close> and
  \<open>b\<close>, either of which may be NULL.
\<close>

definition bridge :: "'a heap \<Rightarrow> addr \<Rightarrow> addr \<Rightarrow> addr \<Rightarrow> addr \<Rightarrow> 'a heap" where
  "bridge h a a' b b' =
     (let h1 = (if a = 0 then h else h(a := map_option (\<lambda>it. it\<lparr>inext := a'\<rparr>) (h a)))
      in if b = 0 then h1 else h1(b := map_option (\<lambda>it. it\<lparr>iprev := b'\<rparr>) (h1 b)))"

lemma bridge_other: "q \<noteq> a \<Longrightarrow> q \<noteq> b \<Longrightarrow> bridge h a a' b b' q = h q"
  by (simp add: bridge_def Let_def)

lemma bridge_left:
  assumes "dll h 0 ps x" "distinct ps" "0 \<notin> set ps" "b \<notin> set ps"
  shows "dll (bridge h (final ps 0) a' b b') 0 ps a'"
proof (cases "ps = []")
  case False
  have "last ps \<in> set ps" using False by simp
  then have l: "last ps \<in> set ps" "final ps 0 = last ps" "last ps \<noteq> 0"
    using False in_nonzero [OF assms(3)] by (simp_all add: final_def)
  then obtain it where it: "h (last ps) = Some it" using dll_allocated [OF assms(1)] by blast
  have "dll (bridge h (last ps) a' b b') 0 ps a' = dll (h(last ps \<mapsto> it\<lparr>inext := a'\<rparr>)) 0 ps a'"
    using assms(4) l it by (intro dll_cong) (auto simp: bridge_def Let_def)
  then show ?thesis using dll_set_next [OF assms(1,2) False it] l by simp
qed simp

lemma bridge_right:
  assumes "dll h x ps 0" "distinct ps" "0 \<notin> set ps" "a \<notin> set ps"
  shows "dll (bridge h a a' (first ps 0) b') b' ps 0"
proof (cases ps)
  case (Cons p qs)
  then have l: "p \<in> set ps" "first ps 0 = p" "p \<noteq> 0" "p \<noteq> a" "hd ps = p" "ps \<noteq> []" using assms(3,4) by auto
  then obtain it where it: "h p = Some it" using dll_allocated [OF assms(1)] by blast
  have "dll (bridge h a a' p b') b' ps 0 = dll (h(p \<mapsto> it\<lparr>iprev := b'\<rparr>)) b' ps 0"
    using assms(4) l it by (intro dll_cong) (auto simp: bridge_def Let_def)
  then show ?thesis using dll_set_prev [OF assms(1,2) l(6), of it b'] l it by simp
qed simp

lemma bridge_data:
  assumes "p \<noteq> 0"
  shows "map_option idata (bridge h a a' b b' p) = map_option idata (h p)"
  by (cases "h p") (auto simp: bridge_def Let_def option.map_comp comp_def)

section \<open>The operations keep the representation\<close>

lemma links_upd [simp]: "links (h(p \<mapsto> it)) q = (if q = p then Some (iprev it, inext it) else links h q)"
  by (simp add: links_def)

lemma list_rep_bounds:
  assumes "list_rep h list ps fs"
  shows "\<And>p. p \<in> set ps \<Longrightarrow> p \<noteq> 0 \<and> (\<exists>it. h p = Some it)" "\<And>p. p \<in> set fs \<Longrightarrow> p \<noteq> 0 \<and> (\<exists>it. h p = Some it)"
  using assms dll_allocated sll_allocated unfolding list_rep_def by (metis Un_iff set_append)+

text \<open>
  An item from the free list or from the allocator: it belongs to neither list, and the other
  items are untouched.
\<close>

lemma GetFreeItem_ok:
  assumes "list_rep h list ps fs" "new \<noteq> 0" "h new = None"
  shows "\<exists>p h' list' it. rtList_GetFreeItem new h list = Some (p, h', list') \<and> p \<noteq> 0 \<and> p \<notin> set ps \<and> h' p = Some it \<and>
    list_rep h' list' ps (tl fs) \<and> p \<notin> set (tl fs) \<and> (\<forall>q. q \<noteq> p \<longrightarrow> h' q = h q) \<and>
    lfront list' = lfront list \<and> lback list' = lback list \<and> lsize list' = lsize list \<and>
    (if fs = [] then p = new else p = hd fs \<and> h' = h)"
proof (cases fs)
  case Nil
  have "new \<notin> set ps" using list_rep_bounds(1) [OF assms(1), of new] assms(3) by auto
  moreover have "dll (h(new \<mapsto> x)) 0 ps 0 = dll h 0 ps 0" for x
    using calculation by (intro dll_cong) auto
  ultimately show ?thesis
    using assms Nil by (auto simp: rtList_GetFreeItem_def list_rep_def)
next
  case (Cons p gs)
  obtain it where "h p = Some it" "p \<noteq> 0" using list_rep_bounds(2) [OF assms(1), of p] Cons by auto
  then show ?thesis
    using assms(1) Cons by (auto simp: rtList_GetFreeItem_def list_rep_def deref_def links_def)
qed

text \<open>Linking an item in.\<close>

lemma link_ok:
  assumes "list_rep h list (ps @ qs) fs" "p \<notin> set (ps @ qs @ fs)" "p \<noteq> 0"
    and "h' p = Some \<lparr>idata = d, inext = first qs 0, iprev = final ps 0\<rparr>"
    and "\<And>q. q \<noteq> p \<Longrightarrow> h' q = bridge h (final ps 0) p (first qs 0) p q"
  shows "list_rep h' (list\<lparr>lfront := first ps p, lback := final qs p, lsize := lsize list + 1\<rparr>) (ps @ p # qs) fs"
    "contents h' (ps @ p # qs) = contents h ps @ d # contents h qs"
proof -
  have r: "dll h 0 ps (first qs 0)" "dll h (final ps 0) qs 0" "sll h fs" "distinct (ps @ qs @ fs)"
      "0 \<notin> set (ps @ qs @ fs)" "free_items list = first fs 0" "lsize list = of_nat (length ps + length qs)"
    using assms(1) by (auto simp: list_rep_def dll_append)
  have sep: "first qs 0 \<notin> set ps" "final ps 0 \<notin> set qs" "first qs 0 \<notin> set fs" "final ps 0 \<notin> set fs"
    using r(4,5) first_cases [of qs 0] final_cases [of ps 0] by auto
  have eq: "h' q = bridge h (final ps 0) p (first qs 0) p q" if "q \<in> set ps \<or> q \<in> set qs \<or> q \<in> set fs" for q
    using that assms(2) by (intro assms(5)) auto
  have "dll h' 0 ps p = dll (bridge h (final ps 0) p (first qs 0) p) 0 ps p"
    by (rule dll_cong) (simp add: eq)
  moreover have "dll h' p qs 0 = dll (bridge h (final ps 0) p (first qs 0) p) p qs 0"
    by (rule dll_cong) (simp add: eq)
  moreover have "sll h' fs = sll h fs"
    using sep eq by (intro sll_cong) (metis bridge_other)
  moreover have "links h' p = Some (final ps 0, first qs 0)" using assms(4) by (simp add: links_def)
  ultimately show "list_rep h' (list\<lparr>lfront := first ps p, lback := final qs p, lsize := lsize list + 1\<rparr>) (ps @ p # qs) fs"
    using bridge_left [OF r(1) _ _ sep(1), of p p] bridge_right [OF r(2) _ _ sep(2), of p p] r assms(2,3)
    by (auto simp: list_rep_def dll_append)
  have "map_option idata (h' q) = map_option idata (h q)" if "q \<in> set (ps @ qs)" for q
  proof -
    have "q \<noteq> 0" using that in_nonzero [OF r(5), of q] by auto
    then show ?thesis using that by (auto simp: eq bridge_data)
  qed
  then have "idata (the (h' q)) = idata (the (h q))" if "q \<in> set (ps @ qs)" for q
    using that dll_allocated [OF r(1), of q] dll_allocated [OF r(2), of q] by force
  then show "contents h' (ps @ p # qs) = contents h ps @ d # contents h qs"
    using assms(4) by (simp add: contents_def)
qed

text \<open>The item an operation links in, with its data set.\<close>

definition pushed :: "'a push_data \<Rightarrow> 'a heap \<Rightarrow> addr list \<Rightarrow> 'a option" where
  "pushed data h fs =
     (case data of Data d \<Rightarrow> d | ReuseData \<Rightarrow> if fs = [] then None else idata (the (h (hd fs))))"

lemma fresh_item:
  assumes "list_rep h list ps fs" "new \<noteq> 0" "h new = None"
  obtains p h1 h2 list' it where "rtList_GetFreeItem new h list = Some (p, h1, list')"
    "set_data h1 p data = Some h2" "list_rep h2 list' ps (tl fs)" "p \<notin> set (ps @ tl fs)" "p \<noteq> 0"
    "h2 p = Some it" "idata it = pushed data h fs" "contents h2 ps = contents h ps"
    "p = (if fs = [] then new else hd fs)" "dom h2 \<subseteq> insert p (dom h)"
proof -
  obtain p h1 list' it where g: "rtList_GetFreeItem new h list = Some (p, h1, list')" "p \<noteq> 0" "p \<notin> set ps"
      "h1 p = Some it" "list_rep h1 list' ps (tl fs)" "p \<notin> set (tl fs)" "\<forall>q. q \<noteq> p \<longrightarrow> h1 q = h q"
      "if fs = [] then p = new else p = hd fs \<and> h1 = h"
    using GetFreeItem_ok [OF assms] by blast
  have fresh: "it = \<lparr>idata = None, inext = 0, iprev = 0\<rparr>" if "fs = []"
    using g(1,4) that assms(1,2) by (auto simp: rtList_GetFreeItem_def list_rep_def)
  define it' where "it' = (case data of Data d \<Rightarrow> it\<lparr>idata := d\<rparr> | ReuseData \<Rightarrow> it)"
  define h2 where "h2 = h1(p \<mapsto> it')"
  have s: "set_data h1 p data = Some h2"
    using g(2,4) by (auto simp: set_data_def upd_def deref_def h2_def it'_def fun_upd_idem split: push_data.splits)
  have "dll h2 0 ps 0 = dll h1 0 ps 0" "sll h2 (tl fs) = sll h1 (tl fs)"
    using g(3,6) by (auto intro!: dll_cong sll_cong simp: h2_def)
  then have "list_rep h2 list' ps (tl fs)" using g(5) by (simp add: list_rep_def)
  moreover have "contents h2 ps = contents h ps"
    using g(3,7) by (auto simp: contents_def h2_def)
  moreover have "idata it' = pushed data h fs"
    using fresh g(4,8) by (auto simp: it'_def pushed_def split: push_data.splits if_splits)
  moreover have "dom h2 \<subseteq> insert p (dom h)" using g(7) by (auto simp: h2_def dom_def)
  ultimately show thesis
    using that [OF g(1) s] g(2,3,6,8) by (auto simp: h2_def split: if_splits)
qed

lemma bridge_new [simp]: "a = 0 \<Longrightarrow> b = 0 \<Longrightarrow> bridge h a a' b b' = h"
  by (simp add: bridge_def)

lemma list_rep_ends:
  assumes "list_rep h list (ps @ qs) fs"
  shows "ps \<noteq> [] \<Longrightarrow> \<exists>it. h (final ps 0) = Some it \<and> final ps 0 \<noteq> 0"
    "qs \<noteq> [] \<Longrightarrow> \<exists>it. h (first qs 0) = Some it \<and> first qs 0 \<noteq> 0"
proof -
  show "\<exists>it. h (final ps 0) = Some it \<and> final ps 0 \<noteq> 0" if "ps \<noteq> []"
    using list_rep_bounds(1) [OF assms, of "final ps 0"] that by (auto simp: final_def)
  show "\<exists>it. h (first qs 0) = Some it \<and> first qs 0 \<noteq> 0" if "qs \<noteq> []"
    using list_rep_bounds(1) [OF assms, of "first qs 0"] that by (cases qs) auto
qed

lemma PushFront_ok:
  assumes "list_rep h list ps fs" "new \<noteq> 0" "h new = None"
  shows "\<exists>p h' list'. rtList_PushFront new h (Some list) data = Some (RT_OK, p, h', Some list') \<and>
    p = (if fs = [] then new else hd fs) \<and> dom h' \<subseteq> insert p (dom h) \<and>
    list_rep h' list' (p # ps) (tl fs) \<and> contents h' (p # ps) = pushed data h fs # contents h ps"
proof -
  obtain p h1 h2 l2 it where f: "rtList_GetFreeItem new h list = Some (p, h1, l2)"
    "set_data h1 p data = Some h2" "list_rep h2 l2 ([] @ ps) (tl fs)" "p \<notin> set ([] @ ps @ tl fs)" "p \<noteq> 0"
    "h2 p = Some it" "idata it = pushed data h fs" "contents h2 ps = contents h ps"
    "p = (if fs = [] then new else hd fs)" "dom h2 \<subseteq> insert p (dom h)"
    using fresh_item [OF assms, of data] by (metis append_Nil)
  define h' where "h' = (bridge h2 0 p (first ps 0) p)(p \<mapsto> it\<lparr>iprev := 0, inext := first ps 0\<rparr>)"
  have fr: "lfront l2 = first ps 0" "lback l2 = final ps 0" using f(3) by (auto simp: list_rep_def)
  note L = link_ok [OF f(3,4,5), of h' "pushed data h fs"]
  have l: "list_rep h' (l2\<lparr>lfront := p, lback := final ps p, lsize := lsize l2 + 1\<rparr>) (p # ps) (tl fs)"
    "contents h' (p # ps) = pushed data h fs # contents h ps"
    using L f(7,8) by (simp_all add: h'_def contents_def)
  have "rtList_PushFront new h (Some list) data =
      Some (RT_OK, p, h', Some (l2\<lparr>lfront := p, lback := final ps p, lsize := lsize l2 + 1\<rparr>))"
  proof (cases "ps = []")
    case True
    then show ?thesis using f(1,2,5,6) fr
      by (simp add: rtList_PushFront_def upd_def deref_def h'_def)
  next
    case False
    then obtain jt where j: "h2 (first ps 0) = Some jt" "first ps 0 \<noteq> 0" using list_rep_ends(2) [OF f(3)] by auto
    moreover have "first ps 0 \<noteq> p" using f(4) False by (cases ps) auto
    moreover have "final ps 0 = final ps p" "final ps 0 \<noteq> 0"
      using False in_nonzero [of ps "last ps"] f(3) by (auto simp: final_def list_rep_def)
    ultimately show ?thesis using f(1,2,5,6) fr
      by (simp add: rtList_PushFront_def upd_def deref_def h'_def bridge_def fun_upd_twist)
  qed
  moreover have "dom h' \<subseteq> insert p (dom h)"
    using f(10) by (auto simp: h'_def bridge_def Let_def dom_def split: if_splits)
  ultimately show ?thesis using l f(9) by blast
qed

lemma List_PushBack_ok:
  assumes "list_rep h list ps fs" "new \<noteq> 0" "h new = None"
  shows "\<exists>p h' list'. rtList_PushBack new h (Some list) data = Some (RT_OK, p, h', Some list') \<and>
    p = (if fs = [] then new else hd fs) \<and> dom h' \<subseteq> insert p (dom h) \<and>
    list_rep h' list' (ps @ [p]) (tl fs) \<and> contents h' (ps @ [p]) = contents h ps @ [pushed data h fs]"
proof -
  obtain p h1 h2 l2 it where f: "rtList_GetFreeItem new h list = Some (p, h1, l2)"
    "set_data h1 p data = Some h2" "list_rep h2 l2 (ps @ []) (tl fs)" "p \<notin> set (ps @ [] @ tl fs)" "p \<noteq> 0"
    "h2 p = Some it" "idata it = pushed data h fs" "contents h2 ps = contents h ps"
    "p = (if fs = [] then new else hd fs)" "dom h2 \<subseteq> insert p (dom h)"
    using fresh_item [OF assms, of data] by (metis append_Nil append_Nil2)
  define h' where "h' = (bridge h2 (final ps 0) p 0 p)(p \<mapsto> it\<lparr>inext := 0, iprev := final ps 0\<rparr>)"
  have fr: "lfront l2 = first ps 0" "lback l2 = final ps 0" using f(3) by (auto simp: list_rep_def)
  note L = link_ok [OF f(3,4,5), of h' "pushed data h fs"]
  have l: "list_rep h' (l2\<lparr>lfront := first ps p, lback := p, lsize := lsize l2 + 1\<rparr>) (ps @ [p]) (tl fs)"
    "contents h' (ps @ [p]) = contents h ps @ [pushed data h fs]"
    using L f(7,8) by (simp_all add: h'_def contents_def)
  have "rtList_PushBack new h (Some list) data =
      Some (RT_OK, p, h', Some (l2\<lparr>lfront := first ps p, lback := p, lsize := lsize l2 + 1\<rparr>))"
  proof (cases "ps = []")
    case True
    then show ?thesis using f(1,2,5,6) fr
      by (simp add: rtList_PushBack_def upd_def deref_def h'_def)
  next
    case False
    then obtain jt where j: "h2 (final ps 0) = Some jt" "final ps 0 \<noteq> 0" using list_rep_ends(1) [OF f(3)] by auto
    moreover have "final ps 0 \<noteq> p" using f(4) False by (auto simp: final_def)
    moreover have "first ps 0 = first ps p" "first ps 0 \<noteq> 0"
      using False in_nonzero [of ps "hd ps"] f(3) by (cases ps; auto simp: list_rep_def)+
    ultimately show ?thesis using f(1,2,5,6) fr
      by (simp add: rtList_PushBack_def upd_def deref_def h'_def bridge_def fun_upd_twist)
  qed
  moreover have "dom h' \<subseteq> insert p (dom h)"
    using f(10) by (auto simp: h'_def bridge_def Let_def dom_def split: if_splits)
  ultimately show ?thesis using l f(9) by blast
qed

lemma InsertBefore_ok:
  assumes "list_rep h list (ps @ a # qs) fs" "new \<noteq> 0" "h new = None"
  shows "\<exists>p h' list'. rtList_InsertBefore new h (Some list) data a = Some (RT_OK, p, h', Some list') \<and>
    p = (if fs = [] then new else hd fs) \<and>
    list_rep h' list' (ps @ p # a # qs) (tl fs) \<and>
    contents h' (ps @ p # a # qs) = contents h ps @ pushed data h fs # contents h (a # qs)"
proof -
  obtain p h1 h2 l2 it where f: "rtList_GetFreeItem new h list = Some (p, h1, l2)"
    "set_data h1 p data = Some h2" "list_rep h2 l2 (ps @ a # qs) (tl fs)" "p \<notin> set (ps @ (a # qs) @ tl fs)" "p \<noteq> 0"
    "h2 p = Some it" "idata it = pushed data h fs" "contents h2 (ps @ a # qs) = contents h (ps @ a # qs)"
    "p = (if fs = [] then new else hd fs)" "dom h2 \<subseteq> insert p (dom h)"
    using fresh_item [OF assms, of data] by (metis append_assoc)
  define h' where "h' = (bridge h2 (final ps 0) p a p)(p \<mapsto> it\<lparr>inext := a, iprev := final ps 0\<rparr>)"
  have fr: "lfront l2 = first ps a" "lback l2 = final qs a" using f(3) by (auto simp: list_rep_def)
  note L = link_ok [OF f(3,4,5), of h' "pushed data h fs"]
  have l: "list_rep h' (l2\<lparr>lfront := first ps p, lback := final qs a, lsize := lsize l2 + 1\<rparr>) (ps @ p # a # qs) (tl fs)"
    "contents h' (ps @ p # a # qs) = contents h ps @ pushed data h fs # contents h (a # qs)"
    using L f(7,8) by (simp_all add: h'_def contents_def)
  have a: "a \<noteq> 0" "a \<noteq> p" "a \<noteq> final ps 0" using list_rep_bounds(1) [OF f(3), of a] f(3,4) final_cases [of ps 0]
    by (auto simp: list_rep_def)
  have "links h2 a = Some (final ps 0, first qs 0)" using f(3) by (simp add: list_rep_def dll_append)
  then obtain ai where ai: "h2 a = Some ai" "iprev ai = final ps 0" by (auto simp: links_def)
  have "rtList_InsertBefore new h (Some list) data a =
      Some (RT_OK, p, h', Some (l2\<lparr>lfront := first ps p, lback := final qs a, lsize := lsize l2 + 1\<rparr>))"
  proof (cases "ps = []")
    case True
    then show ?thesis using f(1,2,5,6) fr a ai
      by (simp add: rtList_InsertBefore_def upd_def deref_def h'_def bridge_def fun_upd_twist)
  next
    case False
    then obtain jt where j: "h2 (final ps 0) = Some jt" "final ps 0 \<noteq> 0" using list_rep_ends(1) [OF f(3)] by auto
    moreover have "final ps 0 \<noteq> p" using f(4) False by (auto simp: final_def)
    moreover have "first ps a = first ps p" "first ps a \<noteq> a"
      using False f(3) by (cases ps; auto simp: list_rep_def)+
    ultimately show ?thesis using f(1,2,5,6) fr a ai
      by (simp add: rtList_InsertBefore_def upd_def deref_def h'_def bridge_def fun_upd_twist)
  qed
  then show ?thesis using l f(9) by blast
qed

lemma InsertAfter_ok:
  assumes "list_rep h list (ps @ a # qs) fs" "new \<noteq> 0" "h new = None"
  shows "\<exists>p h' list'. rtList_InsertAfter new h (Some list) data a = Some (RT_OK, p, h', Some list') \<and>
    p = (if fs = [] then new else hd fs) \<and>
    list_rep h' list' (ps @ a # p # qs) (tl fs) \<and>
    contents h' (ps @ a # p # qs) = contents h (ps @ [a]) @ pushed data h fs # contents h qs"
proof -
  obtain p h1 h2 l2 it where f: "rtList_GetFreeItem new h list = Some (p, h1, l2)"
    "set_data h1 p data = Some h2" "list_rep h2 l2 ((ps @ [a]) @ qs) (tl fs)" "p \<notin> set ((ps @ [a]) @ qs @ tl fs)" "p \<noteq> 0"
    "h2 p = Some it" "idata it = pushed data h fs" "contents h2 (ps @ a # qs) = contents h (ps @ a # qs)"
    "p = (if fs = [] then new else hd fs)" "dom h2 \<subseteq> insert p (dom h)"
    using fresh_item [OF assms, of data] by (metis append_assoc append_Cons append_Nil)
  define h' where "h' = (bridge h2 a p (first qs 0) p)(p \<mapsto> it\<lparr>inext := first qs 0, iprev := a\<rparr>)"
  have fr: "lfront l2 = first ps a" "lback l2 = final qs a" using f(3) by (auto simp: list_rep_def)
  note L = link_ok [OF f(3,4,5), of h' "pushed data h fs"]
  have l: "list_rep h' (l2\<lparr>lfront := first ps a, lback := final qs p, lsize := lsize l2 + 1\<rparr>) (ps @ a # p # qs) (tl fs)"
    "contents h' (ps @ a # p # qs) = contents h (ps @ [a]) @ pushed data h fs # contents h qs"
    using L f(7,8) by (simp_all add: h'_def contents_def)
  have a: "a \<noteq> 0" "a \<noteq> p" "a \<noteq> first qs 0" using list_rep_bounds(1) [OF f(3), of a] f(3,4) first_cases [of qs 0]
    by (auto simp: list_rep_def)
  have "links h2 a = Some (final ps 0, first qs 0)" using f(3) by (simp add: list_rep_def dll_append)
  then obtain ai where ai: "h2 a = Some ai" "inext ai = first qs 0" by (auto simp: links_def)
  have "rtList_InsertAfter new h (Some list) data a =
      Some (RT_OK, p, h', Some (l2\<lparr>lfront := first ps a, lback := final qs p, lsize := lsize l2 + 1\<rparr>))"
  proof (cases "qs = []")
    case True
    then show ?thesis using f(1,2,5,6) fr a ai
      by (simp add: rtList_InsertAfter_def upd_def deref_def h'_def bridge_def fun_upd_twist)
  next
    case False
    then obtain jt where j: "h2 (first qs 0) = Some jt" "first qs 0 \<noteq> 0" using list_rep_ends(2) [OF f(3)] by auto
    moreover have "first qs 0 \<noteq> p" using f(4) False by (cases qs) auto
    moreover have "final qs a = final qs p" "final qs a \<noteq> a"
      using False f(3) by (auto simp: list_rep_def final_def)
    ultimately show ?thesis using f(1,2,5,6) fr a ai
      by (simp add: rtList_InsertAfter_def upd_def deref_def h'_def bridge_def fun_upd_twist)
  qed
  then show ?thesis using l f(9) by blast
qed

text \<open>Putting an item on the free list.\<close>

lemma SetFreeItem_ok:
  assumes "sll h fs" "0 \<notin> set fs" "distinct fs" "free_items list = first fs 0" "p \<notin> set fs" "p \<noteq> 0" "h p = Some it"
  shows "\<exists>h'. rtList_SetFreeItem h list p = Some (h', list\<lparr>free_items := p\<rparr>) \<and> sll h' (p # fs) \<and>
    (\<forall>q. q \<notin> set (p # fs) \<longrightarrow> h' q = h q) \<and> dom h' = dom h"
proof (cases fs)
  case Nil
  then show ?thesis using assms by (auto simp: rtList_SetFreeItem_def upd_def deref_def links_def)
next
  case (Cons f gs)
  then obtain ft where ft: "h f = Some ft" "f \<noteq> 0" "f \<noteq> p"
    using sll_allocated [OF assms(1), of f] assms(2,5) by auto
  define h' where "h' = h(f \<mapsto> ft\<lparr>iprev := p\<rparr>, p \<mapsto> it\<lparr>inext := f, iprev := 0\<rparr>)"
  have "sll h' gs = sll h gs" using assms(3,5) Cons by (intro sll_cong) (auto simp: h'_def)
  then have "sll h' (p # fs)" using assms(1) Cons ft by (simp add: h'_def links_def)
  moreover have "rtList_SetFreeItem h list p = Some (h', list\<lparr>free_items := p\<rparr>)"
    using Cons assms(4,6,7) ft by (simp add: rtList_SetFreeItem_def upd_def deref_def h'_def)
  ultimately show ?thesis using Cons ft assms(7) by (auto simp: h'_def dom_def)
qed

lemma run_destroyer_ok:
  assumes "h p = Some it" "p \<noteq> 0"
  shows "\<exists>d. run_destroyer destroyer h p = Some (h(p \<mapsto> it\<lparr>idata := d\<rparr>))"
proof (cases "destroyer \<and> idata it \<noteq> None")
  case True
  then show ?thesis using assms by (auto simp: run_destroyer_def upd_def deref_def)
next
  case False
  have "h(p \<mapsto> it\<lparr>idata := idata it\<rparr>) = h" using assms(1) by auto
  then show ?thesis using False assms by (intro exI [of _ "idata it"]) (auto simp: run_destroyer_def deref_def)
qed

text \<open>Taking an item out: its neighbours are bridged and it goes on the free list.\<close>

lemma unlink_ok:
  assumes "list_rep h list (ps @ p # qs) fs" "h' = bridge h (final ps 0) (first qs 0) (first qs 0) (final ps 0)"
  shows "dll h' 0 (ps @ qs) 0" "sll h' fs" "h' p = h p" "contents h' (ps @ qs) = contents h (ps @ qs)" "dom h' = dom h"
proof -
  have r: "dll h 0 ps p" "dll h p qs 0" "sll h fs" "distinct (ps @ p # qs @ fs)" "0 \<notin> set (ps @ p # qs @ fs)"
    using assms(1) by (auto simp: list_rep_def dll_append)
  have sep: "first qs 0 \<notin> set ps" "final ps 0 \<notin> set qs" "first qs 0 \<notin> set fs" "final ps 0 \<notin> set fs"
      "first qs 0 \<noteq> p" "final ps 0 \<noteq> p"
    using r(4,5) first_cases [of qs 0] final_cases [of ps 0] by auto
  show "dll h' 0 (ps @ qs) 0"
    using bridge_left [OF r(1) _ _ sep(1), of "first qs 0" "final ps 0"]
      bridge_right [OF r(2) _ _ sep(2), of "first qs 0" "final ps 0"] r(4,5) assms(2)
    by (auto simp: dll_append)
  show "sll h' fs"
  proof -
    have "sll h' fs = sll h fs" unfolding assms(2) using sep by (intro sll_cong) (metis bridge_other)
    then show ?thesis using r(3) by simp
  qed
  show "h' p = h p" using sep(5,6) by (simp add: assms(2) bridge_other)
  show "dom h' = dom h" by (auto simp: assms(2) bridge_def Let_def dom_def split: if_splits)
  have "map_option idata (h' q) = map_option idata (h q)" if "q \<in> set (ps @ qs)" for q
    using that in_nonzero [OF r(5), of q] by (auto simp: assms(2) bridge_data)
  then have "idata (the (h' q)) = idata (the (h q))" if "q \<in> set (ps @ qs)" for q
    using that dll_allocated [OF r(1), of q] dll_allocated [OF r(2), of q] by force
  then show "contents h' (ps @ qs) = contents h (ps @ qs)" by (simp add: contents_def)
qed

lemma RemoveItem_ok:
  assumes "list_rep h list (ps @ p # qs) fs"
  shows "\<exists>h' list'. rtList_RemoveItem h (Some list) p destroyer = Some (RT_OK, h', Some list') \<and>
    list_rep h' list' (ps @ qs) (p # fs) \<and> contents h' (ps @ qs) = contents h (ps @ qs) \<and> dom h' = dom h"
proof -
  define a b where "a = final ps 0" and "b = first qs 0"
  define h2 where "h2 = bridge h a b b a"
  note u = unlink_ok [OF assms, folded a_def b_def, OF h2_def]
  have r: "distinct (ps @ p # qs @ fs)" "0 \<notin> set (ps @ p # qs @ fs)" "links h p = Some (a, b)"
      "lfront list = first ps p" "lback list = final qs p" "free_items list = first fs 0"
      "lsize list = of_nat (length ps + length qs + 1)"
    using assms by (auto simp: list_rep_def dll_append a_def b_def)
  obtain it where it: "h p = Some it" "iprev it = a" "inext it = b" using r(3) by (auto simp: links_def)
  have sep: "a \<noteq> p" "b \<noteq> p" "p \<noteq> 0" "a \<noteq> 0 \<Longrightarrow> a \<in> set ps" "b \<noteq> 0 \<Longrightarrow> b \<in> set qs"
    using r(1,2) first_cases [of qs 0] final_cases [of ps 0] by (auto simp: a_def b_def)
  have alloc: "a \<noteq> 0 \<Longrightarrow> \<exists>x. h a = Some x" "b \<noteq> 0 \<Longrightarrow> \<exists>x. h b = Some x"
    using list_rep_bounds(1) [OF assms] sep(4,5) by auto
  have ab: "a \<noteq> 0 \<Longrightarrow> b \<noteq> a" using sep(4,5) r(1,2) by auto
  obtain d where d: "run_destroyer destroyer h2 p = Some (h2(p \<mapsto> it\<lparr>idata := d\<rparr>))"
    using run_destroyer_ok [of h2 p it] u(3) it(1) sep(3) by auto
  define h3 where "h3 = h2(p \<mapsto> it\<lparr>idata := d\<rparr>)"
  have f3: "sll h3 fs" "dll h3 0 (ps @ qs) 0" "contents h3 (ps @ qs) = contents h (ps @ qs)"
  proof -
    have "sll h3 fs = sll h2 fs" "dll h3 0 (ps @ qs) 0 = dll h2 0 (ps @ qs) 0"
      using r(1) by (auto simp: h3_def intro!: sll_cong dll_cong)
    then show "sll h3 fs" "dll h3 0 (ps @ qs) 0" using u(1,2) by auto
    show "contents h3 (ps @ qs) = contents h (ps @ qs)" unfolding u(4) [symmetric] using r(1) by (auto simp: contents_def h3_def)
  qed
  define l1 where "l1 = list\<lparr>lfront := first ps b, lback := final qs a\<rparr>"
  have l1: "l1 = (let l = (if lfront list = p then list\<lparr>lfront := b\<rparr> else list) in if lback l = p then l\<lparr>lback := a\<rparr> else l)"
    using r(1,4,5) by (cases ps; cases qs rule: rev_cases) (auto simp: l1_def a_def b_def Let_def)
  obtain h4 where h4: "rtList_SetFreeItem h3 l1 p = Some (h4, l1\<lparr>free_items := p\<rparr>)" "sll h4 (p # fs)"
      "\<forall>q. q \<notin> set (p # fs) \<longrightarrow> h4 q = h3 q" "dom h4 = dom h3"
    using SetFreeItem_ok [OF f3(1), of l1 p] r sep(3) by (auto simp: l1_def h3_def)
  have "rtList_RemoveItem h (Some list) p destroyer = Some (RT_OK, h4, Some (l1\<lparr>free_items := p, lsize := lsize list - 1\<rparr>))"
  proof -
    have sz: "lsize l1 = lsize list" by (simp add: l1_def)
    have e1: "(if a \<noteq> 0 then upd h a (\<lambda>x. x\<lparr>inext := b\<rparr>) else Some h) = Some (bridge h a b 0 0)"
      using alloc(1) by (auto simp: upd_def deref_def bridge_def)
    have e2: "(if b \<noteq> 0 then upd (bridge h a b 0 0) b (\<lambda>x. x\<lparr>iprev := a\<rparr>) else Some (bridge h a b 0 0)) = Some h2"
      using alloc(2) ab by (auto simp: upd_def deref_def bridge_def h2_def Let_def)
    have e3: "bridge h a b 0 0 p = Some it" "h2 p = Some it" using it(1) sep u(3) by (auto simp: bridge_other)
    show ?thesis
      using it sep(3) e1 e2 e3 d h4(1) l1 [unfolded Let_def, symmetric] sz
      by (simp add: rtList_RemoveItem_def deref_def h3_def [symmetric] Let_def split del: if_split cong: if_cong)
  qed
  moreover have "list_rep h4 (l1\<lparr>free_items := p, lsize := lsize list - 1\<rparr>) (ps @ qs) (p # fs)"
  proof -
    have "dll h4 0 (ps @ qs) 0 = dll h3 0 (ps @ qs) 0" using h4(3) r(1) by (intro dll_cong) auto
    then show ?thesis using f3(2) h4(2) r by (auto simp: list_rep_def l1_def a_def b_def)
  qed
  moreover have "contents h4 (ps @ qs) = contents h (ps @ qs)"
    unfolding f3(3) [symmetric] using h4(3) r(1) by (auto simp: contents_def)
  moreover have "dom h4 = dom h" using h4(4) u(3,5) it(1) by (auto simp: h3_def)
  ultimately show ?thesis by blast
qed

section \<open>Searching\<close>

abbreviation holds :: "('a option \<Rightarrow> bool) \<Rightarrow> 'a heap \<Rightarrow> addr \<Rightarrow> bool" where
  "holds P h p \<equiv> P (idata (the (h p)))"

lemma list_search_ok:
  "dll h b ps 0 \<Longrightarrow> 0 \<notin> set ps \<Longrightarrow>
   list_search P h (first ps 0) = Some (first (dropWhile (\<lambda>p. \<not> holds P h p) ps) 0)"
proof (induction ps arbitrary: b)
  case Nil
  then show ?case by (simp add: list_search.simps)
next
  case (Cons p ps)
  then obtain it where "h p = Some it" "inext it = first ps 0" by (auto simp: links_def)
  with Cons show ?case by (subst list_search.simps) (auto simp: deref_def)
qed

text \<open>The search ends at the first item that matches, or at the end of the list.\<close>

lemma search_split:
  assumes "list_rep h list ps fs"
  obtains (found) qs p rs where "ps = qs @ p # rs" "list_search P h (lfront list) = Some p" "p \<noteq> 0"
      "\<forall>q\<in>set qs. \<not> holds P h q" "holds P h p"
    | (none) "list_search P h (lfront list) = Some 0" "\<forall>q\<in>set ps. \<not> holds P h q"
proof -
  have s: "list_search P h (lfront list) = Some (first (dropWhile (\<lambda>p. \<not> holds P h p) ps) 0)"
    using assms list_search_ok [of h 0 ps P] by (auto simp: list_rep_def)
  show thesis
  proof (cases "dropWhile (\<lambda>p. \<not> holds P h p) ps")
    case Nil
    then have "\<forall>q\<in>set ps. \<not> holds P h q" by (simp add: dropWhile_eq_Nil_conv)
    then show thesis using s none Nil by simp
  next
    case (Cons p rs)
    have "ps = takeWhile (\<lambda>p. \<not> holds P h p) ps @ p # rs" using takeWhile_dropWhile_id Cons by metis
    moreover have "holds P h p" using Cons by (metis dropWhile_eq_Cons_conv)
    moreover have "p \<noteq> 0" using list_rep_bounds(1) [OF assms, of p] calculation(1) by (metis in_set_conv_decomp)
    ultimately show thesis using found s Cons by (metis first_simps(2) set_takeWhileD)
  qed
qed

lemma contents_simps [simp]: "contents h [] = []" "contents h (p # ps) = idata (the (h p)) # contents h ps"
  "contents h (ps @ qs) = contents h ps @ contents h qs"
  by (simp_all add: contents_def)

lemma contents_none: "\<forall>q\<in>set ps. \<not> holds P h q \<Longrightarrow> remove_first P (contents h ps @ xs) = contents h ps @ remove_first P xs"
  "\<forall>q\<in>set ps. \<not> holds P h q \<Longrightarrow> find P (contents h ps @ xs) = find P xs"
  by (induction ps) auto

lemma set_contents: "set (contents h ps) = (\<lambda>p. idata (the (h p))) ` set ps"
  by (simp add: contents_def)

lemma Find_ok_list:
  assumes "list_rep h list ps fs"
  shows "rtList_Find h (Some list) (Some k) cmp =
    Some (case find (\<lambda>d. cmp d k = 0) (contents h ps) of None \<Rightarrow> None | Some d \<Rightarrow> d)"
  using assms
proof (cases rule: search_split [where P = "\<lambda>d. cmp d k = 0"])
  case (found qs p rs)
  then obtain it where "h p = Some it" using list_rep_bounds(1) [OF assms, of p] by auto
  then show ?thesis using found contents_none(2) [OF found(4)] by (simp add: rtList_Find_def deref_def)
next
  case none
  then show ?thesis using contents_none(2) [OF none(2), of "[]"] by (simp add: rtList_Find_def)
qed

lemma RemoveItemByCompare_ok:
  assumes "list_rep h list ps fs"
  shows "\<exists>rc h' list' ps' fs'. rtList_RemoveItemByCompare h (Some list) (Some k) cmp destroyer = Some (rc, h', Some list') \<and>
    list_rep h' list' ps' fs' \<and> contents h' ps' = remove_first (\<lambda>d. cmp d k = 0) (contents h ps) \<and>
    dom h' = dom h \<and> rc = (if \<exists>d\<in>set (contents h ps). cmp d k = 0 then RT_OK else RT_ERROR)"
  using assms
proof (cases rule: search_split [where P = "\<lambda>d. cmp d k = 0"])
  case (found qs p rs)
  obtain h' list' where "rtList_RemoveItem h (Some list) p destroyer = Some (RT_OK, h', Some list')"
      "list_rep h' list' (qs @ rs) (p # fs)" "contents h' (qs @ rs) = contents h (qs @ rs)" "dom h' = dom h"
    using RemoveItem_ok assms found(1) by blast
  moreover have "remove_first (\<lambda>d. cmp d k = 0) (contents h ps) = contents h (qs @ rs)"
    using found contents_none(1) [OF found(4)] by simp
  moreover have "\<exists>d\<in>set (contents h ps). cmp d k = 0" using found(1,5) by (auto simp: set_contents)
  ultimately show ?thesis using found(2,3) by (auto simp: rtList_RemoveItemByCompare_def)
next
  case none
  then show ?thesis
    using assms contents_none(1) [OF none(2), of "[]"] by (auto simp: rtList_RemoveItemByCompare_def set_contents)
qed

lemma RemoveItemWithData_ok:
  assumes "list_rep h list ps fs"
  shows "\<exists>rc h' list' ps' fs'. rtList_RemoveItemWithData h (Some list) d destroyer = Some (rc, h', Some list') \<and>
    list_rep h' list' ps' fs' \<and> contents h' ps' = remove1 d (contents h ps) \<and>
    rc = (if d \<in> set (contents h ps) then RT_OK else RT_ERROR_INVALID_ARG)"
proof -
  have r1: "remove1 d xs = remove_first (\<lambda>y. y = d) xs" for xs by (induction xs) auto
  from assms show ?thesis
  proof (cases rule: search_split [where P = "\<lambda>y. y = d"])
    case (found qs p rs)
    obtain h' list' where "rtList_RemoveItem h (Some list) p destroyer = Some (RT_OK, h', Some list')"
        "list_rep h' list' (qs @ rs) (p # fs)" "contents h' (qs @ rs) = contents h (qs @ rs)" "dom h' = dom h"
      using RemoveItem_ok assms found(1) by blast
    moreover have "remove1 d (contents h ps) = contents h (qs @ rs)"
      unfolding r1 using found contents_none(1) [OF found(4)] by simp
    moreover have "d \<in> set (contents h ps)" using found(1,5) by (auto simp: set_contents)
    ultimately show ?thesis using found(2,3) by (auto simp: rtList_RemoveItemWithData_def)
  next
    case none
    then show ?thesis unfolding r1
      using assms contents_none(1) [OF none(2), of "[]"] by (auto simp: rtList_RemoveItemWithData_def set_contents)
  qed
qed

text \<open>Removing all items moves them, last first, onto the free list.\<close>

lemma remove_all_loop_ok:
  assumes "dll h b ps 0" "sll h fs" "distinct (ps @ fs)" "0 \<notin> set (ps @ fs)" "free_items list = first fs 0"
  shows "\<exists>h'. remove_all_loop destroyer (first ps 0) h list = Some (h', list\<lparr>free_items := first (rev ps @ fs) 0\<rparr>) \<and>
    sll h' (rev ps @ fs) \<and> dom h' = dom h"
  using assms
proof (induction ps arbitrary: b h fs list)
  case Nil
  have "list\<lparr>free_items := first fs 0\<rparr> = list" using Nil.prems(5) by simp
  then show ?case using Nil.prems(2) by (simp add: remove_all_loop.simps)
next
  case (Cons p ps)
  obtain it where it: "h p = Some it" "inext it = first ps 0" "p \<noteq> 0"
    using Cons.prems(1,4) by (auto simp: links_def)
  obtain d where d: "run_destroyer destroyer h p = Some (h(p \<mapsto> it\<lparr>idata := d\<rparr>))"
    using run_destroyer_ok [of h p it destroyer] it by blast
  define h1 where "h1 = h(p \<mapsto> it\<lparr>idata := d\<rparr>)"
  have "sll h1 fs = sll h fs" using Cons.prems(3) by (intro sll_cong) (auto simp: h1_def)
  then obtain h2 where h2: "rtList_SetFreeItem h1 list p = Some (h2, list\<lparr>free_items := p\<rparr>)" "sll h2 (p # fs)"
      "\<forall>q. q \<notin> set (p # fs) \<longrightarrow> h2 q = h1 q" "dom h2 = dom h1"
    using SetFreeItem_ok [of h1 fs list p "it\<lparr>idata := d\<rparr>"] Cons.prems it by (auto simp: h1_def)
  have "h2 q = h q" if "q \<in> set ps" for q
    using h2(3) Cons.prems(3) that by (auto simp: h1_def)
  then have "dll h2 p ps 0 = dll h p ps 0" by (intro dll_cong)
  then obtain h' where "remove_all_loop destroyer (first ps 0) h2 (list\<lparr>free_items := p\<rparr>) =
      Some (h', list\<lparr>free_items := first (rev ps @ p # fs) 0\<rparr>)" "sll h' (rev ps @ p # fs)" "dom h' = dom h2"
    using Cons.IH [of h2 p "p # fs" "list\<lparr>free_items := p\<rparr>"] Cons.prems h2(2) by auto
  moreover have "dom h1 = dom h" using it(1) by (auto simp: h1_def)
  moreover have "remove_all_loop destroyer p h list = remove_all_loop destroyer (first ps 0) h2 (list\<lparr>free_items := p\<rparr>)"
    using it d h2(1) by (subst remove_all_loop.simps) (simp add: deref_def h1_def [symmetric])
  ultimately show ?case using h2(4) by simp
qed

lemma RemoveAllItems_ok:
  assumes "list_rep h list ps fs"
  shows "\<exists>h' list'. rtList_RemoveAllItems h (Some list) destroyer = Some (RT_OK, h', Some list') \<and>
    list_rep h' list' [] (rev ps @ fs) \<and> dom h' = dom h"
  using remove_all_loop_ok [of h 0 ps fs list destroyer] assms
  by (auto simp: list_rep_def rtList_RemoveAllItems_def)

section \<open>The list as a collection\<close>

text \<open>
  The state of a program with one list and an allocator that hands out the next address: the
  list implements the interface of a collection. Its contents are read off by walking the
  chain.
\<close>

type_synonym 'a list_state = "addr \<times> 'a heap \<times> rtList"

partial_function (option) walk :: "'a heap \<Rightarrow> addr \<Rightarrow> 'a option list run" where
  "walk h p = (if p = 0 then Some [] else do { it \<leftarrow> deref h p; xs \<leftarrow> walk h (inext it); Some (idata it # xs) })"

lemma walk_ok: "dll h b ps 0 \<Longrightarrow> 0 \<notin> set ps \<Longrightarrow> walk h (first ps 0) = Some (contents h ps)"
proof (induction ps arbitrary: b)
  case Nil
  then show ?case by (simp add: walk.simps)
next
  case (Cons p ps)
  then obtain it where "h p = Some it" "inext it = first ps 0" by (auto simp: links_def)
  with Cons show ?case by (subst walk.simps) (auto simp: deref_def)
qed

fun list_inv :: "'a list_state \<Rightarrow> bool" where
  "list_inv (new, h, list) \<longleftrightarrow> new \<noteq> 0 \<and> (\<forall>q\<ge>new. h q = None) \<and> (\<exists>ps fs. list_rep h list ps fs)"

fun list_contents :: "'a list_state \<Rightarrow> 'a option list" where
  "list_contents (new, h, list) = the (walk h (lfront list))"

definition list_create :: "'a list_state" where
  "list_create = (1, Map.empty, rtList_Create)"

fun list_push :: "'a list_state \<Rightarrow> 'a option \<Rightarrow> (int \<times> 'a list_state) run" where
  "list_push (new, h, list) d =
     do { (rc, p, h, l) \<leftarrow> rtList_PushBack new h (Some list) (Data d); l \<leftarrow> l; Some (rc, (new + 1, h, l)) }"

fun list_remove :: "('a option \<Rightarrow> bool) \<Rightarrow> 'a list_state \<Rightarrow> (int \<times> 'a list_state) run" where
  "list_remove P (new, h, list) =
     do { (rc, h, l) \<leftarrow> rtList_RemoveItemByCompare h (Some list) (Some ()) (\<lambda>d _. if P d then 0 else 1) False;
          l \<leftarrow> l; Some (rc, (new, h, l)) }"

lemma list_contents_rep: "list_rep h list ps fs \<Longrightarrow> list_contents (new, h, list) = contents h ps"
  using walk_ok [of h 0 ps] by (simp add: list_rep_def)

lemma list_push_ok:
  assumes "list_inv st"
  shows "\<exists>st'. list_push st d = Some (RT_OK, st') \<and> list_inv st' \<and> list_contents st' = list_contents st @ [d]"
proof -
  obtain new h list ps fs where st: "st = (new, h, list)" "new \<noteq> 0" "\<forall>q\<ge>new. h q = None" "list_rep h list ps fs"
    using assms by (cases st rule: list_inv.cases) auto
  obtain p h' list' where p: "rtList_PushBack new h (Some list) (Data d) = Some (RT_OK, p, h', Some list')"
      "p = (if fs = [] then new else hd fs)" "dom h' \<subseteq> insert p (dom h)" "list_rep h' list' (ps @ [p]) (tl fs)"
      "contents h' (ps @ [p]) = contents h ps @ [d]"
    using List_PushBack_ok [OF st(4,2), of "Data d"] st(3) unfolding pushed_def by auto
  have "p \<le> new"
  proof (cases fs)
    case (Cons f gs)
    then have "h p \<noteq> None" using list_rep_bounds(2) [OF st(4), of p] p(2) by auto
    then show ?thesis using st(3) by (metis nat_le_linear)
  qed (use p(2) in simp)
  then have "\<forall>q\<ge>new + 1. h' q = None" using p(3) st(3) by (fastforce simp: dom_def)
  then show ?thesis
    using p st list_contents_rep [OF st(4)] list_contents_rep [OF p(4)] by auto
qed

lemma list_remove_ok:
  assumes "list_inv st"
  shows "\<exists>rc st'. list_remove P st = Some (rc, st') \<and> list_inv st' \<and>
    list_contents st' = remove_first P (list_contents st) \<and>
    rc = (if \<exists>x\<in>set (list_contents st). P x then RT_OK else RT_ERROR)"
proof -
  obtain new h list ps fs where st: "st = (new, h, list)" "new \<noteq> 0" "\<forall>q\<ge>new. h q = None" "list_rep h list ps fs"
    using assms by (cases st rule: list_inv.cases) auto
  let ?c = "\<lambda>d (_ :: unit). if P d then 0 else 1 :: int"
  have e: "(?c d () = 0) = P d" for d by simp
  obtain rc h' list' ps' fs' where
    "rtList_RemoveItemByCompare h (Some list) (Some ()) ?c False = Some (rc, h', Some list')"
    "list_rep h' list' ps' fs'" "contents h' ps' = remove_first P (contents h ps)" "dom h' = dom h"
    "rc = (if \<exists>d\<in>set (contents h ps). P d then RT_OK else RT_ERROR)"
    using RemoveItemByCompare_ok [OF st(4), of "()" ?c False] unfolding e by blast
  moreover from this(4) have "\<forall>q\<ge>new. h' q = None" using st(3) by (metis domIff)
  ultimately show ?thesis
    using st list_contents_rep [OF st(4)] list_contents_rep [of h' list' ps' fs'] by auto
qed

interpretation rtlist: collection list_inv list_contents list_create list_push list_remove
proof
  have "list_rep (Map.empty :: 'a heap) rtList_Create [] []" by (simp add: list_rep_def rtList_Create_def)
  then show "list_inv (list_create :: 'a list_state)" "list_contents (list_create :: 'a list_state) = []"
    using list_contents_rep by (fastforce simp: list_create_def)+
qed (fact list_push_ok list_remove_ok)+

text \<open>
  C33. Inserting and removing through item pointers: on a well-formed list each operation
  succeeds, puts its data at the place it names (front, back, before or after the given item),
  takes out exactly the given item, keeps the order of all others and leaves the list, its
  links in both directions, its end pointers, its size and its free list well-formed.
\<close>

theorem List_links_correct:
  assumes "list_rep h list (ps @ a # qs) fs" "new \<noteq> 0" "h new = None"
  shows "(\<exists>p h' l'. rtList_PushFront new h (Some list) (Data d) = Some (RT_OK, p, h', Some l') \<and>
      list_rep h' l' (p # ps @ a # qs) (tl fs) \<and> contents h' (p # ps @ a # qs) = d # contents h (ps @ a # qs)) \<and>
    (\<exists>p h' l'. rtList_PushBack new h (Some list) (Data d) = Some (RT_OK, p, h', Some l') \<and>
      list_rep h' l' (ps @ a # qs @ [p]) (tl fs) \<and> contents h' (ps @ a # qs @ [p]) = contents h (ps @ a # qs) @ [d]) \<and>
    (\<exists>p h' l'. rtList_InsertBefore new h (Some list) (Data d) a = Some (RT_OK, p, h', Some l') \<and>
      list_rep h' l' (ps @ p # a # qs) (tl fs) \<and>
      contents h' (ps @ p # a # qs) = contents h ps @ d # contents h (a # qs)) \<and>
    (\<exists>p h' l'. rtList_InsertAfter new h (Some list) (Data d) a = Some (RT_OK, p, h', Some l') \<and>
      list_rep h' l' (ps @ a # p # qs) (tl fs) \<and>
      contents h' (ps @ a # p # qs) = contents h (ps @ [a]) @ d # contents h qs) \<and>
    (\<exists>h' l'. rtList_RemoveItem h (Some list) a destroyer = Some (RT_OK, h', Some l') \<and>
      list_rep h' l' (ps @ qs) (a # fs) \<and> contents h' (ps @ qs) = contents h (ps @ qs))"
proof -
  have d: "pushed (Data d) h fs = d" by (simp add: pushed_def)
  show ?thesis
    using PushFront_ok [OF assms, of "Data d", unfolded d] List_PushBack_ok [OF assms, of "Data d", unfolded d]
      InsertBefore_ok [OF assms, of "Data d", unfolded d] InsertAfter_ok [OF assms, of "Data d", unfolded d]
      RemoveItem_ok [OF assms(1), of destroyer]
    unfolding append_assoc append_Cons by blast
qed

text \<open>
  C34. Searching always ends. Finding returns the first data that compares equal (NULL if there
  is none), removing by comparison takes out the first match and says whether there was one,
  removing all items empties the list and keeps every item for reuse, and the size is the
  number of items.
\<close>

theorem List_search_correct:
  assumes "list_rep h list ps fs"
  shows "rtList_Find h (Some list) (Some k) cmp =
      Some (case find (\<lambda>d. cmp d k = 0) (contents h ps) of None \<Rightarrow> None | Some d \<Rightarrow> d) \<and>
    (\<exists>rc h' l' ps' fs'. rtList_RemoveItemByCompare h (Some list) (Some k) cmp destroyer = Some (rc, h', Some l') \<and>
      list_rep h' l' ps' fs' \<and> contents h' ps' = remove_first (\<lambda>d. cmp d k = 0) (contents h ps) \<and>
      rc = (if \<exists>d\<in>set (contents h ps). cmp d k = 0 then RT_OK else RT_ERROR)) \<and>
    (\<exists>h' l'. rtList_RemoveAllItems h (Some list) destroyer = Some (RT_OK, h', Some l') \<and>
      list_rep h' l' [] (rev ps @ fs)) \<and>
    rtList_GetSize (Some list) = (RT_OK, of_nat (length ps))"
proof (intro conjI)
  show "rtList_GetSize (Some list) = (RT_OK, of_nat (length ps))"
    using assms by (simp add: rtList_GetSize_def list_rep_def)
next
  show "\<exists>rc h' l' ps' fs'. rtList_RemoveItemByCompare h (Some list) (Some k) cmp destroyer = Some (rc, h', Some l') \<and>
      list_rep h' l' ps' fs' \<and> contents h' ps' = remove_first (\<lambda>d. cmp d k = 0) (contents h ps) \<and>
      rc = (if \<exists>d\<in>set (contents h ps). cmp d k = 0 then RT_OK else RT_ERROR)"
    using RemoveItemByCompare_ok [OF assms, of k cmp destroyer] by metis
next
  show "\<exists>h' l'. rtList_RemoveAllItems h (Some list) destroyer = Some (RT_OK, h', Some l') \<and> list_rep h' l' [] (rev ps @ fs)"
    using RemoveAllItems_ok [OF assms] by blast
qed (fact Find_ok_list [OF assms])

text \<open>An example: the list of two items with one more kept for reuse.\<close>

definition example_heap :: "nat heap" where
  "example_heap = [1 \<mapsto> \<lparr>idata = Some 10, inext = 2, iprev = 0\<rparr>, 2 \<mapsto> \<lparr>idata = Some 20, inext = 0, iprev = 1\<rparr>,
     3 \<mapsto> \<lparr>idata = None, inext = 0, iprev = 0\<rparr>]"

definition example_list :: rtList where
  "example_list = \<lparr>lfront = 1, lback = 2, free_items = 3, lsize = 2\<rparr>"

lemma example_rep: "list_rep example_heap example_list ([1] @ 2 # []) [3]"
  by (simp add: list_rep_def example_heap_def example_list_def links_def)

theorem List_links_correct_witness:
  "\<exists>p h' l'. rtList_InsertBefore 4 example_heap (Some example_list) (Data (Some 15)) 2 = Some (RT_OK, p, h', Some l') \<and>
    list_rep h' l' [1, p, 2] [] \<and> contents h' [1, p, 2] = [Some 10, Some 15, Some 20]"
proof -
  have new: "example_heap 4 = None" by (simp add: example_heap_def)
  have c: "contents example_heap [1] = [Some 10]" "contents example_heap (2 # []) = [Some 20]"
    by (simp_all add: example_heap_def contents_def)
  obtain p h' l' where "rtList_InsertBefore 4 example_heap (Some example_list) (Data (Some 15)) 2 = Some (RT_OK, p, h', Some l')"
      "list_rep h' l' ([1] @ p # 2 # []) (tl [3])"
      "contents h' ([1] @ p # 2 # []) = contents example_heap [1] @ Some 15 # contents example_heap (2 # [])"
    using List_links_correct [OF example_rep _ new, of "Some 15" False] by auto
  then show ?thesis unfolding c by (intro exI [of _ p] exI [of _ h'] exI [of _ l']) (simp del: contents_simps)
qed

theorem List_search_correct_witness:
  "rtList_Find example_heap (Some example_list) (Some 20) (\<lambda>d k. if d = Some k then 0 else 1) = Some (Some 20)"
proof -
  have c: "contents example_heap ([1] @ 2 # []) = [Some 10, Some 20]" by (simp add: example_heap_def contents_def)
  show ?thesis
    using List_search_correct [OF example_rep, of "20 :: nat" "\<lambda>d k. if d = Some k then 0 else 1" False]
    unfolding c by simp
qed

end
