(* ===== verification/RT_RoutingTree.thy ===== *)
theory RT_RoutingTree
  imports RT_List "HOL-Library.Sublist"
begin

text \<open>
  The routing tree of the broker, \<^verbatim>\<open>src/src/rtmessage/rtRoutingTree.c\<close>: a tree of topics, each with
  the routes assigned to it, and the list of all routes with the topics each is assigned to. It
  implements a routing table, a map from topics to the routes that listen to them.
\<close>

section \<open>Topics and routes\<close>

text \<open>
  The lists of the tree are \<open>rtList\<close>s, modelled by their contents (theory \<open>RT_List\<close>); \<open>None\<close> is
  a list pointer that is still NULL, where the code tells it from an empty list. Siblings have
  different names, so a pointer to a topic is the list of the names on the way from the root,
  and the root, whose name is never read, is the empty path. A pointer to a route is the address
  of its \<open>rtTreeRoute\<close>; the routes in \<open>rt->routeList\<close> are kept with their addresses, and a route
  that has been freed is no longer there: using a pointer to it is undefined.
\<close>

type_synonym topic_ptr = "string list"
type_synonym route_ptr = addr

datatype rtTreeTopic =
  Topic (tname: string) (fullName: "string option") (isTable: bool)
    (routeList: "route_ptr list option") (routeList2: "route_ptr list option") (childList: "rtTreeTopic list")

record rtTreeRoute =
  rdata :: addr
  topicList :: "topic_ptr list"

type_synonym route_store = "(route_ptr \<times> rtTreeRoute) list"

record rtRoutingTree =
  topicRoot :: rtTreeTopic
  allRoutes :: route_store

definition MAX_TOKENS :: nat where "MAX_TOKENS = 32"
definition MAX_TOKEN_BUFFER_SIZE :: nat where "MAX_TOKEN_BUFFER_SIZE = 512"

section \<open>Expressions\<close>

text \<open>The first character of a C string, which is its terminator when the string is empty.\<close>

definition first_char :: "string \<Rightarrow> char" where
  "first_char s = (case s of [] \<Rightarrow> CHR 0x00 | c # _ \<Rightarrow> c)"

fun validate_loop :: "string \<Rightarrow> nat \<Rightarrow> nat \<Rightarrow> int \<times> nat \<times> nat" where
  "validate_loop [] token_count token_length = (0, token_count, token_length)"
| "validate_loop (c # cs) token_count token_length =
     (if c = CHR ''.''
      then if first_char cs = CHR ''.'' then (- 1, token_count, token_length)
           else validate_loop cs (token_count + 1) (token_length + 1)
      else validate_loop cs token_count (token_length + 1))"

definition validateExpression :: "string \<Rightarrow> int" where
  "validateExpression expr =
     (case validate_loop expr 0 0 of (result, token_count, token_length) \<Rightarrow>
        if token_length > MAX_TOKEN_BUFFER_SIZE \<or> token_count > MAX_TOKENS then - 1 else result)"

text \<open>
  The tokenizer copies the expression into a static buffer, one terminated string per token, and
  records where each token starts in a static array; writing past the end of either is
  undefined. \<open>i\<close> is the number of tokens and \<open>n\<close> the number of bytes written so far.
\<close>

function tokenize_loop :: "string \<Rightarrow> nat \<Rightarrow> nat \<Rightarrow> string list run" where
  "tokenize_loop from i n =
     (if from = [] then Some []
      else if MAX_TOKENS \<le> i then None
      else let tok = takeWhile (\<lambda>c. c \<noteq> CHR ''.'') from;
               rest = dropWhile (\<lambda>c. c \<noteq> CHR ''.'') from;
               n = n + length tok + 1
           in if n > MAX_TOKEN_BUFFER_SIZE then None
              else do { toks \<leftarrow> tokenize_loop (tl rest) (i + 1) n; Some (tok # toks) })"
  by pat_completeness auto

termination
proof (relation "measure (\<lambda>(from, i, n). length from)")
  fix "from" :: string and rest
  assume "from \<noteq> []" and rest: "rest = dropWhile (\<lambda>c. c \<noteq> CHR ''.'') from"
  have "length rest \<le> length from" unfolding rest by (rule length_dropWhile_le)
  then show "((tl rest, i + 1, n'), from, i, n) \<in> measure (\<lambda>(from, i, n). length from)" for i n n'
    using \<open>from \<noteq> []\<close> by (cases "rest") auto
qed simp

definition tokenizeExpression :: "string \<Rightarrow> string list run" where
  "tokenizeExpression expression = tokenize_loop expression 0 0"

section \<open>Children\<close>

text \<open>How a child matches a name: exactly, as the row of a table, or in conflict with it.\<close>

datatype match = Exact | Instance | Conflict

definition match_child :: "string \<Rightarrow> string \<Rightarrow> match option" where
  "match_child child name =
     (if strcmp child name = 0 then Some Exact
      else if first_char child = CHR ''{'' \<and>
              (isdigit (first_char name) \<or> first_char name = CHR ''['' \<or> first_char name = CHR ''*'')
      then Some Instance
      else if first_char child = CHR ''{'' \<or> first_char name = CHR ''{'' then Some Conflict
      else None)"

fun find_child :: "rtTreeTopic list \<Rightarrow> string \<Rightarrow> (rtTreeTopic \<times> match) option" where
  "find_child [] name = None"
| "find_child (c # cs) name =
     (case match_child (tname c) name of Some m \<Rightarrow> Some (c, m) | None \<Rightarrow> find_child cs name)"

fun createTreeTopic :: "string \<Rightarrow> rtTreeTopic \<Rightarrow> rtTreeTopic \<times> rtTreeTopic" where
  "createTreeTopic name (Topic pn pf pt rl rl2 cs) =
     (let full = (case pf of Some f \<Rightarrow> f @ CHR ''.'' # name | None \<Rightarrow> name);
          treeTopic = Topic name (Some full) False None None []
      in (treeTopic, Topic pn pf (pt \<or> first_char name = CHR ''{'') rl rl2 (cs @ [treeTopic])))"

text \<open>
  \<open>getChildByName\<close> without its remove flag: the child, whether it was created, whether there
  was a conflict, and the parent. A conflicting child is returned, too.
\<close>

definition getChildByName ::
  "rtTreeTopic \<Rightarrow> string \<Rightarrow> bool \<Rightarrow> rtTreeTopic option \<times> bool \<times> bool \<times> rtTreeTopic" where
  "getChildByName parent name create =
     (case find_child (childList parent) name of
        Some (c, m) \<Rightarrow> (Some c, False, m = Conflict, parent)
      | None \<Rightarrow> if create
                then (case createTreeTopic name parent of (c, parent) \<Rightarrow> (Some c, True, False, parent))
                else (None, False, False, parent))"

text \<open>Reaching a topic through its pointer, for reading and for writing.\<close>

fun topic_at :: "rtTreeTopic \<Rightarrow> topic_ptr \<Rightarrow> rtTreeTopic option" where
  "topic_at t [] = Some t"
| "topic_at t (n # ns) =
     (case find (\<lambda>c. tname c = n) (childList t) of None \<Rightarrow> None | Some c \<Rightarrow> topic_at c ns)"

fun set_children :: "rtTreeTopic list \<Rightarrow> rtTreeTopic \<Rightarrow> rtTreeTopic" where
  "set_children cs (Topic n f it rl rl2 _) = Topic n f it rl rl2 cs"

fun set_routes :: "route_ptr list option \<Rightarrow> rtTreeTopic \<Rightarrow> rtTreeTopic" where
  "set_routes rl (Topic n f it _ rl2 cs) = Topic n f it rl rl2 cs"

fun set_routes2 :: "route_ptr list option \<Rightarrow> rtTreeTopic \<Rightarrow> rtTreeTopic" where
  "set_routes2 rl2 (Topic n f it rl _ cs) = Topic n f it rl rl2 cs"

fun update_topic :: "(rtTreeTopic \<Rightarrow> rtTreeTopic) \<Rightarrow> topic_ptr \<Rightarrow> rtTreeTopic \<Rightarrow> rtTreeTopic" where
  "update_topic f [] t = f t"
| "update_topic f (n # ns) t =
     set_children (map (\<lambda>c. if tname c = n then update_topic f ns c else c) (childList t)) t"

section \<open>Adding a route\<close>

definition getTreeRoute :: "route_store \<Rightarrow> addr \<Rightarrow> (route_ptr \<times> rtTreeRoute) option" where
  "getTreeRoute rs data = find (\<lambda>(p, r). rdata r = data) rs"

definition addPointerToListOnce :: "'a list \<Rightarrow> 'a \<Rightarrow> 'a list" where
  "addPointerToListOnce xs p = (if p \<in> set xs then xs else xs @ [p])"

fun update_route :: "route_ptr \<Rightarrow> (rtTreeRoute \<Rightarrow> rtTreeRoute) \<Rightarrow> route_store \<Rightarrow> route_store" where
  "update_route p f [] = []"
| "update_route p f ((q, r) # rs) = (if q = p then (q, f r) # rs else (q, r) # update_route p f rs)"

text \<open>From the topic up to the child of the root.\<close>

function optimizeTopicsBackpropagate :: "topic_ptr \<Rightarrow> route_ptr \<Rightarrow> rtTreeTopic \<Rightarrow> rtTreeTopic" where
  "optimizeTopicsBackpropagate topic r root =
     (let root = update_topic
          (\<lambda>t. set_routes2 (Some (addPointerToListOnce (case routeList2 t of None \<Rightarrow> [] | Some l \<Rightarrow> l) r)) t)
          topic root
      in if 2 \<le> length topic then optimizeTopicsBackpropagate (butlast topic) r root else root)"
  by pat_completeness auto

termination
  by (relation "measure (\<lambda>(topic, r, root). length topic)") auto

text \<open>
  The loop over the tokens descends from \<open>topic\<close>; what it creates is put back on the way up. Its
  result is the pointer to the last topic and whether that was created, or \<open>None\<close> after a
  conflict.
\<close>

fun add_loop :: "string list \<Rightarrow> bool \<Rightarrow> rtTreeTopic \<Rightarrow> (topic_ptr \<times> bool) option \<times> rtTreeTopic" where
  "add_loop [] isCreated topic = (Some ([], isCreated), topic)"
| "add_loop (tok # toks) isCreated topic =
     (case getChildByName topic tok True of
        (None, _, _, topic) \<Rightarrow> (None, topic)
      | (Some c, created, error, topic) \<Rightarrow>
          if error then (None, topic)
          else (case add_loop toks created c of
                  (res, c') \<Rightarrow>
                    (map_option (\<lambda>(ptr, cr). (tname c # ptr, cr)) res,
                     set_children (map (\<lambda>d. if tname d = tname c then c' else d) (childList topic)) topic)))"

definition rtRoutingTree_Create :: rtRoutingTree where
  "rtRoutingTree_Create = \<lparr>topicRoot = Topic [] None False None None [], allRoutes = []\<rparr>"

text \<open>\<open>new\<close> is the address the allocator returns for a new route.\<close>

definition rtRoutingTree_AddTopicRoute ::
  "route_ptr \<Rightarrow> rtRoutingTree \<Rightarrow> string \<Rightarrow> addr \<Rightarrow> bool \<Rightarrow> (int \<times> rtRoutingTree) run" where
  "rtRoutingTree_AddTopicRoute new rt topicPath routeData err_on_dup =
     (if validateExpression topicPath < 0 then Some (RT_ERROR_INVALID_EXPRESSION, rt)
      else do {
        tokens \<leftarrow> tokenizeExpression topicPath;
        if tokens = [] then Some (RT_OK, rt)
        else
          let (r, rt) = (case getTreeRoute (allRoutes rt) routeData of
                           Some (p, _) \<Rightarrow> (p, rt)
                         | None \<Rightarrow> (new, rt\<lparr>allRoutes := allRoutes rt @ [(new, \<lparr>rdata = routeData, topicList = []\<rparr>)]\<rparr>));
              (res, root) = add_loop tokens False (topicRoot rt);
              rt = rt\<lparr>topicRoot := root\<rparr>
          in case res of
               None \<Rightarrow> Some (RT_ERROR_PROTOCOL_ERROR, rt)
             | Some (ptr, isCreated) \<Rightarrow>
                 do { topic \<leftarrow> topic_at (topicRoot rt) ptr;
                      if err_on_dup \<and> \<not> isCreated \<and> routeList topic \<noteq> None \<and> topicPath \<noteq> ''_RTROUTED.ADVISORY''
                      then Some (RT_ERROR_DUPLICATE_ENTRY, rt)
                      else
                        let rt = rt\<lparr>topicRoot := update_topic
                                     (\<lambda>t. set_routes (Some ((case routeList t of None \<Rightarrow> [] | Some l \<Rightarrow> l) @ [r])) t)
                                     ptr (topicRoot rt)\<rparr>;
                            rt = rt\<lparr>allRoutes := update_route r
                                     (\<lambda>x. x\<lparr>topicList := addPointerToListOnce (topicList x) ptr\<rparr>) (allRoutes rt)\<rparr>;
                            rt = (if 2 \<le> length ptr
                                  then rt\<lparr>topicRoot := optimizeTopicsBackpropagate (butlast ptr) r (topicRoot rt)\<rparr>
                                  else rt)
                        in Some (RT_OK, rt) } })"

section \<open>Looking up\<close>

text \<open>Following the tokens of an expression; conflicts are followed, too.\<close>

fun lookup_loop :: "string list \<Rightarrow> rtTreeTopic \<Rightarrow> rtTreeTopic option" where
  "lookup_loop [] t = Some t"
| "lookup_loop (tok # toks) t =
     (case getChildByName t tok False of (None, _) \<Rightarrow> None | (Some c, _) \<Rightarrow> lookup_loop toks c)"

definition rtRoutingTree_GetTopicRoutes :: "rtRoutingTree \<Rightarrow> string \<Rightarrow> route_ptr list option run" where
  "rtRoutingTree_GetTopicRoutes rt topic =
     do { tokens \<leftarrow> tokenizeExpression topic;
          if tokens = [] then Some None
          else (case lookup_loop tokens (topicRoot rt) of
                  None \<Rightarrow> Some None
                | Some t \<Rightarrow>
                    if last topic = CHR ''.'' then Some (routeList2 t)
                    else if isTable t
                    then (case getChildByName t ''{i}'' False of
                            (Some curlyChild, _) \<Rightarrow> Some (routeList curlyChild)
                          | _ \<Rightarrow> Some None)
                    else Some (routeList t)) }"

definition rtRoutingTree_GetRouteTopics :: "rtRoutingTree \<Rightarrow> addr \<Rightarrow> topic_ptr list option" where
  "rtRoutingTree_GetRouteTopics rt data = map_option (\<lambda>(p, r). topicList r) (getTreeRoute (allRoutes rt) data)"

text \<open>
  One topic name per route below the topic: the first of each route's topics. A freed route, or
  a route without topics, is a use of memory that is not there.
\<close>

definition route_name :: "rtRoutingTree \<Rightarrow> route_ptr \<Rightarrow> string option run" where
  "route_name rt p =
     do { r \<leftarrow> map_of (allRoutes rt) p;
          ptr \<leftarrow> (case topicList r of [] \<Rightarrow> None | q # _ \<Rightarrow> Some q);
          t \<leftarrow> topic_at (topicRoot rt) ptr;
          Some (fullName t) }"

fun route_names :: "rtRoutingTree \<Rightarrow> route_ptr list \<Rightarrow> string option list run" where
  "route_names rt [] = Some []"
| "route_names rt (p # ps) = do { n \<leftarrow> route_name rt p; ns \<leftarrow> route_names rt ps; Some (n # ns) }"

definition rtRoutingTree_ResolvePartialPath :: "rtRoutingTree \<Rightarrow> string \<Rightarrow> string option list run" where
  "rtRoutingTree_ResolvePartialPath rt partialPath =
     do { tokens \<leftarrow> tokenizeExpression partialPath;
          if tokens = [] then Some []
          else (case lookup_loop tokens (topicRoot rt) of
                  None \<Rightarrow> Some []
                | Some t \<Rightarrow> (case routeList2 t of None \<Rightarrow> Some [] | Some ps \<Rightarrow> route_names rt ps)) }"

section \<open>Removing\<close>

text \<open>The size of a list that may be NULL.\<close>

definition list_size :: "'a list option \<Rightarrow> nat" where
  "list_size l = (case l of None \<Rightarrow> 0 | Some xs \<Rightarrow> length xs)"

definition strip_route :: "route_ptr \<Rightarrow> rtTreeTopic \<Rightarrow> rtTreeTopic" where
  "strip_route r t =
     set_routes2 (map_option (remove1 r) (routeList2 t)) (set_routes (map_option (remove1 r) (routeList t)) t)"

fun removeRouteFromTopicTree :: "route_ptr \<Rightarrow> rtTreeTopic \<Rightarrow> rtTreeTopic"
  and removeRouteFromChildren :: "route_ptr \<Rightarrow> rtTreeTopic list \<Rightarrow> rtTreeTopic list" where
  "removeRouteFromTopicTree r (Topic n f it rl rl2 cs) = Topic n f it rl rl2 (removeRouteFromChildren r cs)"
| "removeRouteFromChildren r [] = []"
| "removeRouteFromChildren r (c # cs) =
     (let child = strip_route r (removeRouteFromTopicTree r c);
          rest = removeRouteFromChildren r cs
      in if childList child = [] \<and> list_size (routeList child) = 0 then rest else child # rest)"

definition rtRoutingTree_RemoveRoute :: "rtRoutingTree \<Rightarrow> addr \<Rightarrow> rtRoutingTree" where
  "rtRoutingTree_RemoveRoute rt data =
     (case getTreeRoute (allRoutes rt) data of
        None \<Rightarrow> rt
      | Some (p, r) \<Rightarrow>
          rt\<lparr>topicRoot := removeRouteFromTopicTree p (topicRoot rt),
             allRoutes := filter (\<lambda>(q, x). q \<noteq> p) (allRoutes rt)\<rparr>)"

text \<open>A topic that goes away is taken off the routes assigned to it; a route left without topics is freed.\<close>

fun unassign :: "topic_ptr \<Rightarrow> route_ptr list \<Rightarrow> route_store \<Rightarrow> route_store run" where
  "unassign ptr [] rs = Some rs"
| "unassign ptr (p # ps) rs =
     do { r \<leftarrow> map_of rs p;
          let ts = remove1 ptr (topicList r);
          unassign ptr ps (if ts = [] then filter (\<lambda>(q, x). q \<noteq> p) rs
                           else update_route p (\<lambda>x. x\<lparr>topicList := ts\<rparr>) rs) }"

fun removeTopicFromRoutes :: "topic_ptr \<Rightarrow> rtTreeTopic \<Rightarrow> route_store \<Rightarrow> route_store run"
  and removeChildrenFromRoutes :: "topic_ptr \<Rightarrow> rtTreeTopic list \<Rightarrow> route_store \<Rightarrow> route_store run" where
  "removeTopicFromRoutes ptr (Topic n f it rl rl2 cs) rs =
     do { rs \<leftarrow> unassign ptr (case rl of None \<Rightarrow> [] | Some l \<Rightarrow> l) rs; removeChildrenFromRoutes ptr cs rs }"
| "removeChildrenFromRoutes ptr [] rs = Some rs"
| "removeChildrenFromRoutes ptr (c # cs) rs =
     do { rs \<leftarrow> removeTopicFromRoutes (ptr @ [tname c]) c rs; removeChildrenFromRoutes ptr cs rs }"

text \<open>
  The loop over the tokens of \<open>rtRoutingTree_RemoveTopic\<close>, with the remove flag of
  \<open>getChildByName\<close> set for the last one: an exact match is removed, any other match stays.
  \<open>ptr\<close> is the pointer to \<open>topic\<close>.
\<close>

fun remove_loop :: "topic_ptr \<Rightarrow> string list \<Rightarrow> rtTreeTopic \<Rightarrow> route_store \<Rightarrow> (rtTreeTopic \<times> route_store) run" where
  "remove_loop ptr [] topic rs = Some (topic, rs)"
| "remove_loop ptr (tok # toks) topic rs =
     (case find_child (childList topic) tok of
        None \<Rightarrow> Some (topic, rs)
      | Some (c, m) \<Rightarrow>
          if toks = [] \<and> m = Exact
          then do { rs \<leftarrow> removeTopicFromRoutes (ptr @ [tname c]) c rs;
                    Some (set_children (filter (\<lambda>d. tname d \<noteq> tname c) (childList topic)) topic, rs) }
          else do { (c', rs) \<leftarrow> remove_loop (ptr @ [tname c]) toks c rs;
                    Some (set_children (map (\<lambda>d. if tname d = tname c then c' else d) (childList topic)) topic, rs) })"

definition rtRoutingTree_RemoveTopic :: "rtRoutingTree \<Rightarrow> string \<Rightarrow> rtRoutingTree run" where
  "rtRoutingTree_RemoveTopic rt topic =
     do { tokens \<leftarrow> tokenizeExpression topic;
          (root, rs) \<leftarrow> remove_loop [] tokens (topicRoot rt) (allRoutes rt);
          Some \<lparr>topicRoot = root, allRoutes = rs\<rparr> }"

section \<open>The tree as a map from paths\<close>

text \<open>What a topic says about itself, apart from its name and its children.\<close>

definition info :: "rtTreeTopic \<Rightarrow> string option \<times> bool \<times> route_ptr list option \<times> route_ptr list option" where
  "info t = (fullName t, isTable t, routeList t, routeList2 t)"

definition routes_of :: "'a list option \<Rightarrow> 'a list" where
  "routes_of l = (case l of None \<Rightarrow> [] | Some xs \<Rightarrow> xs)"

definition routes_at :: "rtTreeTopic \<Rightarrow> topic_ptr \<Rightarrow> route_ptr list" where
  "routes_at t q = (case topic_at t q of None \<Rightarrow> [] | Some x \<Rightarrow> routes_of (routeList x))"

definition routes2_at :: "rtTreeTopic \<Rightarrow> topic_ptr \<Rightarrow> route_ptr list" where
  "routes2_at t q = (case topic_at t q of None \<Rightarrow> [] | Some x \<Rightarrow> routes_of (routeList2 x))"

fun wf_topic :: "rtTreeTopic \<Rightarrow> bool" where
  "wf_topic (Topic n f it rl rl2 cs) \<longleftrightarrow> distinct (map tname cs) \<and> (\<forall>c\<in>set cs. wf_topic c)"

text \<open>The pointer a list of tokens leads to.\<close>

fun resolve :: "string list \<Rightarrow> rtTreeTopic \<Rightarrow> topic_ptr option" where
  "resolve [] t = Some []"
| "resolve (tok # toks) t =
     (case find_child (childList t) tok of
        None \<Rightarrow> None | Some (c, m) \<Rightarrow> map_option ((#) (tname c)) (resolve toks c))"

lemma wf_topic_iff: "wf_topic t \<longleftrightarrow> distinct (map tname (childList t)) \<and> (\<forall>c\<in>set (childList t). wf_topic c)"
  by (cases t) simp

lemma routes_of_simps [simp]: "routes_of None = []" "routes_of (Some l) = l"
  by (simp_all add: routes_of_def)

lemma option_list_eq: "(case l of None \<Rightarrow> [] | Some xs \<Rightarrow> xs) = routes_of l"
  by (simp add: routes_of_def)

lemma set_simps [simp]:
  "childList (set_children cs t) = cs" "tname (set_children cs t) = tname t" "info (set_children cs t) = info t"
  "childList (set_routes rl t) = childList t" "tname (set_routes rl t) = tname t" "routeList (set_routes rl t) = rl"
  "childList (set_routes2 rl t) = childList t" "tname (set_routes2 rl t) = tname t" "routeList2 (set_routes2 rl t) = rl"
  "routeList (set_routes2 rl t) = routeList t" "routeList2 (set_routes rl t) = routeList2 t"
  "isTable (set_routes rl t) = isTable t" "isTable (set_routes2 rl t) = isTable t"
  "routeList (set_children cs t) = routeList t" "routeList2 (set_children cs t) = routeList2 t" "isTable (set_children cs t) = isTable t"
  by (cases t; simp add: info_def)+

lemma set_children_id [simp]: "set_children (childList t) t = t"
  by (cases t) simp

lemma find_named:
  assumes "distinct (map tname cs)"
  shows "find (\<lambda>c. tname c = n) cs = Some c \<longleftrightarrow> c \<in> set cs \<and> tname c = n"
  using assms by (induction cs) (auto simp: image_iff)

lemma find_map_named:
  "(\<And>c. tname (g c) = tname c) \<Longrightarrow> find (\<lambda>c. tname c = n) (map g cs) = map_option g (find (\<lambda>c. tname c = n) cs)"
  by (induction cs) auto

lemma topic_at_wf: "wf_topic t \<Longrightarrow> topic_at t q = Some x \<Longrightarrow> wf_topic x"
proof (induction t q rule: topic_at.induct)
  case (2 t n ns)
  then obtain c where "find (\<lambda>c. tname c = n) (childList t) = Some c" "topic_at c ns = Some x"
    by (auto split: option.splits)
  with 2 show ?case by (auto simp: wf_topic_iff [of t] find_Some_iff)
qed simp

lemma topic_at_append: "topic_at t (p @ q) = (case topic_at t p of None \<Rightarrow> None | Some x \<Rightarrow> topic_at x q)"
  by (induction t p rule: topic_at.induct) (auto split: option.splits)

text \<open>Changing one topic in place.\<close>

lemma tname_update_topic [simp]: "(\<And>t. tname (f t) = tname t) \<Longrightarrow> tname (update_topic f p t) = tname t"
  by (cases p) simp_all

lemma update_topic_at:
  assumes "wf_topic t" "\<And>t. tname (f t) = tname t" "\<And>t. childList (f t) = childList t"
  shows "map_option info (topic_at (update_topic f p t) q) =
    map_option (if q = p then info \<circ> f else info) (topic_at t q)"
  using assms(1)
proof (induction p arbitrary: q t)
  case Nil
  then show ?case using assms(3) by (cases q) auto
next
  case (Cons n ns)
  let ?g = "\<lambda>c. if tname c = n then update_topic f ns c else c"
  have g: "tname (?g c) = tname c" for c using assms(2) by simp
  show ?case
  proof (cases q)
    case Nil
    then show ?thesis by simp
  next
    case q: (Cons m ms)
    show ?thesis
    proof (cases "find (\<lambda>c. tname c = m) (childList t)")
      case None
      then show ?thesis by (simp add: q find_map_named [of ?g, OF g])
    next
      case (Some c)
      then have c: "c \<in> set (childList t)" "tname c = m" by (auto simp: find_Some_iff)
      have "wf_topic c" using Cons.prems c(1) by (simp add: wf_topic_iff [of t])
      then show ?thesis
        using Some c Cons.IH by (auto simp: q find_map_named [of ?g, OF g])
    qed
  qed
qed

lemma wf_update_topic:
  assumes "wf_topic t" "\<And>t. tname (f t) = tname t" "\<And>t. childList (f t) = childList t"
  shows "wf_topic (update_topic f p t)"
  using assms(1)
proof (induction p arbitrary: t)
  case Nil
  then show ?case unfolding wf_topic_iff [of t] wf_topic_iff [of "update_topic f [] t"] by (simp add: assms(3))
next
  case (Cons n ns)
  let ?cs = "map (\<lambda>c. if tname c = n then update_topic f ns c else c) (childList t)"
  have "map tname ?cs = map tname (childList t)" using assms(2) by auto
  moreover have "distinct (map tname (childList t))" "\<forall>c\<in>set (childList t). wf_topic c"
    using Cons.prems unfolding wf_topic_iff [of t] by blast+
  moreover from this(2) have "\<forall>c\<in>set ?cs. wf_topic c" using Cons.IH by fastforce
  ultimately show ?case unfolding wf_topic_iff [of "update_topic f (n # ns) t"] by (simp del: map_map)
qed

lemma find_child_map:
  assumes "\<And>c. tname (g c) = tname c"
  shows "find_child (map g cs) name = map_option (\<lambda>(c, m). (g c, m)) (find_child cs name)"
  by (induction cs) (auto simp: assms split: option.splits)

lemma resolve_update:
  assumes "\<And>t. tname (f t) = tname t" "\<And>t. childList (f t) = childList t"
  shows "resolve toks (update_topic f p t) = resolve toks t"
proof (induction toks arbitrary: p t)
  case (Cons tok toks)
  show ?case
  proof (cases p)
    case Nil
    then show ?thesis using assms by simp
  next
    case p: (Cons n ns)
    let ?g = "\<lambda>c. if tname c = n then update_topic f ns c else c"
    have g: "tname (?g c) = tname c" for c using assms by simp
    show ?thesis
      using Cons.IH assms by (auto simp: p find_child_map [of ?g, OF g] split: option.splits)
  qed
qed simp

lemma find_child_mem: "find_child cs name = Some (c, m) \<Longrightarrow> c \<in> set cs"
  by (induction cs) (auto split: option.splits)

lemma find_child_Exact: "find_child cs name = Some (c, Exact) \<Longrightarrow> tname c = name"
  by (induction cs) (auto simp: match_child_def split: option.splits if_splits)

lemma lookup_resolve:
  "wf_topic t \<Longrightarrow> lookup_loop toks t = (case resolve toks t of None \<Rightarrow> None | Some p \<Rightarrow> topic_at t p)"
proof (induction toks arbitrary: t)
  case (Cons tok toks)
  show ?case
  proof (cases "find_child (childList t) tok")
    case None
    then show ?thesis by (simp add: getChildByName_def)
  next
    case (Some cm)
    then obtain c m where cm: "find_child (childList t) tok = Some (c, m)" by (cases cm) auto
    have c: "c \<in> set (childList t)" using find_child_mem [OF cm] .
    then have "find (\<lambda>d. tname d = tname c) (childList t) = Some c" "wf_topic c"
      using Cons.prems by (auto simp: wf_topic_iff [of t] find_named)
    then show ?thesis using Cons.IH cm by (auto simp: getChildByName_def split: option.splits)
  qed
qed simp

section \<open>Creating the topics of a path\<close>

text \<open>The tree grows: what was there is still there, with the same routes, and new topics have none.\<close>

definition grows :: "rtTreeTopic \<Rightarrow> rtTreeTopic \<Rightarrow> bool" where
  "grows t t' \<longleftrightarrow> tname t' = tname t \<and> (\<forall>q. routes_at t' q = routes_at t q \<and> routes2_at t' q = routes2_at t q) \<and>
     (\<forall>q. topic_at t q \<noteq> None \<longrightarrow> topic_at t' q \<noteq> None) \<and>
     (\<forall>toks q. resolve toks t = Some q \<longrightarrow> resolve toks t' = Some q)"

definition put_back :: "rtTreeTopic \<Rightarrow> rtTreeTopic \<Rightarrow> rtTreeTopic \<Rightarrow> rtTreeTopic" where
  "put_back t c c' = set_children (map (\<lambda>d. if tname d = tname c then c' else d) (childList t)) t"

lemma grows_refl [simp]: "grows t t"
  by (simp add: grows_def)

lemma grows_trans: "grows s t \<Longrightarrow> grows t u \<Longrightarrow> grows s u"
  by (simp add: grows_def)

lemma routes_at_simps:
  "routes_at t [] = routes_of (routeList t)" "routes2_at t [] = routes_of (routeList2 t)"
  "routes_at t (n # ns) = (case find (\<lambda>c. tname c = n) (childList t) of None \<Rightarrow> [] | Some c \<Rightarrow> routes_at c ns)"
  "routes2_at t (n # ns) = (case find (\<lambda>c. tname c = n) (childList t) of None \<Rightarrow> [] | Some c \<Rightarrow> routes2_at c ns)"
  by (simp_all add: routes_at_def routes2_at_def split: option.splits)

lemma find_SomeD: "find P xs = Some x \<Longrightarrow> P x \<and> x \<in> set xs"
  by (auto simp: find_Some_iff)

lemma put_back_find:
  assumes "wf_topic t" "c \<in> set (childList t)" "tname c' = tname c"
  shows "find (\<lambda>d. tname d = n) (childList (put_back t c c')) =
    (if n = tname c then Some c' else find (\<lambda>d. tname d = n) (childList t))"
proof -
  let ?g = "\<lambda>d. if tname d = tname c then c' else d"
  have g: "tname (?g d) = tname d" for d using assms(3) by simp
  have "find (\<lambda>d. tname d = tname c) (childList t) = Some c"
    using assms(1,2) by (simp add: wf_topic_iff [of t] find_named)
  moreover have "map_option ?g (find (\<lambda>d. tname d = n) (childList t)) = find (\<lambda>d. tname d = n) (childList t)"
    if "n \<noteq> tname c"
    using that by (cases "find (\<lambda>d. tname d = n) (childList t)") (auto dest: find_SomeD)
  ultimately show ?thesis
    by (simp add: put_back_def find_map_named [of ?g, OF g])
qed

lemma wf_put_back:
  assumes "wf_topic t" "wf_topic c'" "tname c' = tname c"
  shows "wf_topic (put_back t c c')"
proof -
  have "map tname (map (\<lambda>d. if tname d = tname c then c' else d) (childList t)) = map tname (childList t)"
    using assms(3) by auto
  moreover have "childList (put_back t c c') = map (\<lambda>d. if tname d = tname c then c' else d) (childList t)"
    by (simp add: put_back_def)
  ultimately show ?thesis
    using assms unfolding wf_topic_iff [of t] wf_topic_iff [of "put_back t c c'"] by (auto simp del: map_map)
qed

lemma put_back_same:
  assumes "wf_topic t" "c \<in> set (childList t)"
  shows "put_back t c c = t"
proof -
  have "\<forall>d\<in>set (childList t). tname d = tname c \<longrightarrow> d = c"
    using assms by (metis find_named option.inject wf_topic_iff)
  then have "map (\<lambda>d. if tname d = tname c then c else d) (childList t) = childList t"
    by (intro map_idI) auto
  then show ?thesis by (simp add: put_back_def)
qed

lemma put_back_grows:
  assumes "wf_topic t" "c \<in> set (childList t)" "grows c c'"
  shows "grows t (put_back t c c')"
proof -
  have n: "tname c' = tname c" using assms(3) by (simp add: grows_def)
  note f = put_back_find [OF assms(1,2) n]
  have c: "find (\<lambda>d. tname d = tname c) (childList t) = Some c"
    using assms(1,2) by (simp add: wf_topic_iff [of t] find_named)
  have r: "routes_at (put_back t c c') q = routes_at t q \<and> routes2_at (put_back t c c') q = routes2_at t q" for q
  proof (cases q)
    case Nil
    then show ?thesis by (simp add: routes_at_simps put_back_def)
  next
    case (Cons m ms)
    then show ?thesis using assms(3) c by (simp add: routes_at_simps f grows_def)
  qed
  have e: "topic_at (put_back t c c') q \<noteq> None" if "topic_at t q \<noteq> None" for q
    using that assms(3) c by (cases q) (auto simp: f grows_def)
  have s: "resolve toks (put_back t c c') = Some q" if res: "resolve toks t = Some q" for toks q
  proof (cases toks)
    case (Cons tok toks')
    let ?g = "\<lambda>d. if tname d = tname c then c' else d"
    have g: "tname (?g d) = tname d" for d using n by simp
    obtain d m where d: "find_child (childList t) tok = Some (d, m)"
      using res Cons by (auto split: option.splits)
    have "tname d = tname c \<Longrightarrow> d = c"
      using find_child_mem [OF d] assms(1,2) by (metis c find_named option.inject wf_topic_iff)
    then show ?thesis
      using res Cons d assms(3) n
      by (auto simp: put_back_def find_child_map [of ?g, OF g] grows_def)
  qed (use res in simp)
  show ?thesis unfolding grows_def using n r e s by (simp add: put_back_def)
qed

lemma find_child_None: "find_child cs name = None \<Longrightarrow> name \<notin> tname ` set cs"
  by (induction cs) (auto simp: match_child_def split: option.splits if_splits)

lemma find_child_append:
  "find_child (cs @ ds) name = (case find_child cs name of None \<Rightarrow> find_child ds name | Some x \<Rightarrow> Some x)"
  by (induction cs) (auto split: option.splits)

lemma match_child_same [simp]: "match_child n n = Some Exact"
  by (simp add: match_child_def)

text \<open>A topic that was just created.\<close>

lemma create_ok:
  assumes "wf_topic t" "find_child (childList t) tok = None" "createTreeTopic tok t = (c, t')"
  shows "wf_topic t'" "grows t t'" "wf_topic c" "tname c = tok" "childList c = []" "c \<in> set (childList t')"
    "find_child (childList t') tok = Some (c, Exact)" "find (\<lambda>d. tname d = tok) (childList t) = None"
    "routes_at c q = []" "routes2_at c q = []"
proof -
  obtain pn pf pt rl rl2 cs where t: "t = Topic pn pf pt rl rl2 cs" by (cases t)
  have c: "tname c = tok" "childList c = []" "routeList c = None" "routeList2 c = None"
    and t': "childList t' = childList t @ [c]" "tname t' = tname t" "routeList t' = routeList t" "routeList2 t' = routeList2 t"
    using assms(3) by (auto simp: t Let_def)
  show "tname c = tok" "childList c = []" by fact+
  show wc: "wf_topic c" using c(2) unfolding wf_topic_iff [of c] by simp
  have nt: "tok \<notin> tname ` set (childList t)" using find_child_None [OF assms(2)] .
  then show fn: "find (\<lambda>d. tname d = tok) (childList t) = None" by (auto simp: find_None_iff)
  show "wf_topic t'"
    using assms(1) nt wc c(1) t'(1) unfolding wf_topic_iff [of t] wf_topic_iff [of t'] by auto
  show "c \<in> set (childList t')" by (simp add: t'(1))
  show "find_child (childList t') tok = Some (c, Exact)"
    using assms(2) c(1) by (simp add: t'(1) find_child_append)
  show rc: "routes_at c q = []" "routes2_at c q = []" for q
    using c by (cases q; simp add: routes_at_simps)+
  have f: "find (\<lambda>d. tname d = n) (childList t') = (case find (\<lambda>d. tname d = n) (childList t) of
      None \<Rightarrow> if n = tok then Some c else None | Some d \<Rightarrow> Some d)" for n
  proof -
    have "find (\<lambda>d. tname d = n) (ds @ [c]) = (case find (\<lambda>d. tname d = n) ds of
      None \<Rightarrow> if n = tok then Some c else None | Some d \<Rightarrow> Some d)" for ds
      using c(1) by (induction ds) auto
    then show ?thesis by (simp add: t'(1))
  qed
  have "routes_at t' q = routes_at t q \<and> routes2_at t' q = routes2_at t q" for q
    using rc by (cases q) (auto simp: routes_at_simps f t'(2-4) split: option.splits)
  moreover have "topic_at t q \<noteq> None \<Longrightarrow> topic_at t' q \<noteq> None" for q
    by (cases q) (auto simp: f split: option.splits)
  moreover have "resolve toks t = Some q \<Longrightarrow> resolve toks t' = Some q" for toks q
    by (cases toks) (auto simp: t'(1) find_child_append split: option.splits)
  ultimately show "grows t t'" using t'(2) by (simp add: grows_def)
qed

text \<open>One turn of the loop, in its three outcomes.\<close>

lemma add_loop_Cons:
  "add_loop (tok # toks) cr t =
     (case find_child (childList t) tok of
        Some (c, m) \<Rightarrow>
          if m = Conflict then (None, t)
          else (map_option (\<lambda>(p, x). (tname c # p, x)) (fst (add_loop toks False c)),
                put_back t c (snd (add_loop toks False c)))
      | None \<Rightarrow>
          (case createTreeTopic tok t of
             (c, t1) \<Rightarrow> (map_option (\<lambda>(p, x). (tname c # p, x)) (fst (add_loop toks True c)),
                         put_back t1 c (snd (add_loop toks True c)))))"
  by (auto simp: getChildByName_def put_back_def split: option.splits prod.splits cong: if_cong)

declare add_loop.simps(2) [simp del]

lemma resolve_length: "resolve toks t = Some p \<Longrightarrow> length p = length toks"
  by (induction toks arbitrary: t p) (auto split: option.splits)

lemma childless_at: "childList t = [] \<Longrightarrow> p \<noteq> [] \<Longrightarrow> topic_at t p = None"
  by (cases p) simp_all

text \<open>
  A successful walk: the expression now leads to the topic, which exists; the topic was created
  exactly when it was not there before.
\<close>

definition walked :: "string list \<Rightarrow> bool \<Rightarrow> rtTreeTopic \<Rightarrow> topic_ptr \<Rightarrow> bool \<Rightarrow> rtTreeTopic \<Rightarrow> bool" where
  "walked toks cr t p cr' t' \<longleftrightarrow> wf_topic t' \<and> grows t t' \<and> resolve toks t' = Some p \<and> topic_at t' p \<noteq> None \<and>
     cr' = (if toks = [] then cr else topic_at t p = None)"

lemma walked_Cons:
  assumes "wf_topic t" "c \<in> set (childList t)" "find_child (childList t) tok = Some (c, m)"
    and "walked toks cr c p cr' c'"
  shows "wf_topic (put_back t c c')" "grows t (put_back t c c')"
    "resolve (tok # toks) (put_back t c c') = Some (tname c # p)"
    "topic_at (put_back t c c') (tname c # p) \<noteq> None" "topic_at t (tname c # p) = topic_at c p"
proof -
  have w: "wf_topic c'" "grows c c'" "resolve toks c' = Some p" "topic_at c' p \<noteq> None"
    using assms(4) by (auto simp: walked_def)
  have n: "tname c' = tname c" using w(2) by (simp add: grows_def)
  show "wf_topic (put_back t c c')" by (rule wf_put_back [OF assms(1) w(1) n])
  show "grows t (put_back t c c')" by (rule put_back_grows [OF assms(1,2) w(2)])
  let ?g = "\<lambda>d. if tname d = tname c then c' else d"
  have g: "tname (?g d) = tname d" for d using n by simp
  show "resolve (tok # toks) (put_back t c c') = Some (tname c # p)"
    using assms(3) w(3) n by (simp add: put_back_def find_child_map [of ?g, OF g])
  show "topic_at (put_back t c c') (tname c # p) \<noteq> None"
    using put_back_find [OF assms(1,2) n, of "tname c"] w(4) by simp
  show "topic_at t (tname c # p) = topic_at c p"
    using assms(1,2) find_named [of "childList t" "tname c" c] by (simp add: wf_topic_iff [of t])
qed

lemma add_loop_walked:
  "wf_topic t \<Longrightarrow> add_loop toks cr t = (Some (p, cr'), t') \<Longrightarrow> walked toks cr t p cr' t'"
proof (induction toks arbitrary: cr t p cr' t')
  case Nil
  then show ?case by (auto simp: walked_def)
next
  case (Cons tok toks)
  show ?case
  proof (cases "find_child (childList t) tok")
    case (Some cm)
    then obtain c m where f: "find_child (childList t) tok = Some (c, m)" by (cases cm) auto
    have c: "c \<in> set (childList t)" "wf_topic c"
      using find_child_mem [OF f] Cons.prems(1) by (auto simp: wf_topic_iff [of t])
    obtain p1 c' where a: "add_loop toks False c = (Some (p1, cr'), c')" "p = tname c # p1" "t' = put_back t c c'"
      using Cons.prems(2) f by (cases "add_loop toks False c") (auto simp: add_loop_Cons split: if_splits)
    note w = Cons.IH [OF c(2) a(1)]
    have "cr' = (topic_at c p1 = None)" using w by (auto simp: walked_def split: if_splits)
    then show ?thesis using walked_Cons [OF Cons.prems(1) c(1) f w] a(2,3) by (simp add: walked_def)
  next
    case None
    obtain c t1 where ct: "createTreeTopic tok t = (c, t1)" by (cases "createTreeTopic tok t")
    note k = create_ok [OF Cons.prems(1) None ct]
    obtain p1 c' where a: "add_loop toks True c = (Some (p1, cr'), c')" "p = tname c # p1" "t' = put_back t1 c c'"
      using Cons.prems(2) None ct by (cases "add_loop toks True c") (auto simp: add_loop_Cons)
    note w = Cons.IH [OF k(3) a(1)]
    have "cr'"
    proof (cases "toks = []")
      case False
      then have "p1 \<noteq> []" using w resolve_length [of toks c' p1] by (auto simp: walked_def)
      then show ?thesis using w False childless_at [OF k(5)] by (auto simp: walked_def)
    qed (use w in \<open>auto simp: walked_def\<close>)
    moreover have "topic_at t p = None" using k(4,8) a(2) by simp
    ultimately show ?thesis
      using walked_Cons [OF k(1,6,7) w] a(2,3) grows_trans [OF k(2)] by (simp add: walked_def)
  qed
qed

text \<open>
  After a conflict the tree is as it was: below a topic that was just created there is nothing
  to be in conflict with.
\<close>

lemma add_loop_childless: "childList t = [] \<Longrightarrow> fst (add_loop toks cr t) \<noteq> None"
proof (induction toks arbitrary: cr t)
  case (Cons tok toks)
  obtain c t1 where ct: "createTreeTopic tok t = (c, t1)" by (cases "createTreeTopic tok t")
  then have "childList c = []" by (cases t) (auto simp: Let_def)
  then show ?case using Cons.IH [of c True] Cons.prems ct by (simp add: add_loop_Cons)
qed simp

lemma add_loop_unchanged:
  "wf_topic t \<Longrightarrow> add_loop toks cr t = (res, t') \<Longrightarrow> res = None \<or> toks \<noteq> [] \<and> \<not> snd (the res) \<Longrightarrow> t' = t"
proof (induction toks arbitrary: cr t res t')
  case (Cons tok toks)
  show ?case
  proof (cases "find_child (childList t) tok")
    case (Some cm)
    then obtain c m where f: "find_child (childList t) tok = Some (c, m)" by (cases cm) auto
    have c: "c \<in> set (childList t)" "wf_topic c"
      using find_child_mem [OF f] Cons.prems(1) by (auto simp: wf_topic_iff [of t])
    obtain res1 c' where a: "add_loop toks False c = (res1, c')" by (cases "add_loop toks False c")
    have id: "put_back t c c = t" by (rule put_back_same [OF Cons.prems(1) c(1)])
    show ?thesis
    proof (cases "m = Conflict")
      case False
      have e: "res = map_option (\<lambda>(p, x). (tname c # p, x)) res1" "t' = put_back t c c'"
        using Cons.prems(2) f a False by (auto simp: add_loop_Cons)
      have "c' = c"
      proof (cases "toks = []")
        case False
        then show ?thesis using Cons.IH [OF c(2) a] Cons.prems(3) e(1) by (cases res1) auto
      qed (use a in auto)
      then show ?thesis using e(2) id by simp
    qed (use Cons.prems(2) f in \<open>simp add: add_loop_Cons\<close>)
  next
    case None
    obtain c t1 where ct: "createTreeTopic tok t = (c, t1)" by (cases "createTreeTopic tok t")
    note k = create_ok [OF Cons.prems(1) None ct]
    have "res \<noteq> None"
      using Cons.prems(2) None ct add_loop_childless [OF k(5), of toks True] by (auto simp: add_loop_Cons)
    then obtain p cr' where r: "res = Some (p, cr')" by auto
    have "walked (tok # toks) cr t p cr' t'" using add_loop_walked [OF Cons.prems(1)] Cons.prems(2) r by simp
    moreover obtain p1 where "p = tname c # p1"
      using Cons.prems(2) None ct r by (auto simp: add_loop_Cons split: prod.splits)
    then have "topic_at t p = None" using k(4,8) by simp
    ultimately have "cr'" by (simp add: walked_def)
    then show ?thesis using Cons.prems(3) r by simp
  qed
qed simp

section \<open>Changing the routes of a topic\<close>

definition keeps_shape :: "(rtTreeTopic \<Rightarrow> rtTreeTopic) \<Rightarrow> bool" where
  "keeps_shape f \<longleftrightarrow> (\<forall>t. tname (f t) = tname t \<and> childList (f t) = childList t)"

lemma routes_at_info:
  "routes_at t q = (case map_option info (topic_at t q) of None \<Rightarrow> [] | Some (f, i, rl, rl2) \<Rightarrow> routes_of rl)"
  "routes2_at t q = (case map_option info (topic_at t q) of None \<Rightarrow> [] | Some (f, i, rl, rl2) \<Rightarrow> routes_of rl2)"
  by (simp_all add: routes_at_def routes2_at_def info_def split: option.splits)

lemma update_topic_ok:
  assumes "wf_topic t" "keeps_shape f"
  shows "wf_topic (update_topic f p t)" "resolve toks (update_topic f p t) = resolve toks t"
    "topic_at (update_topic f p t) q = None \<longleftrightarrow> topic_at t q = None"
    "routes_at (update_topic f p t) q =
      (if q = p then case topic_at t p of None \<Rightarrow> [] | Some x \<Rightarrow> routes_of (routeList (f x)) else routes_at t q)"
    "routes2_at (update_topic f p t) q =
      (if q = p then case topic_at t p of None \<Rightarrow> [] | Some x \<Rightarrow> routes_of (routeList2 (f x)) else routes2_at t q)"
    "map_option isTable (topic_at (update_topic f p t) q) =
      (if q = p then map_option (isTable \<circ> f) (topic_at t p) else map_option isTable (topic_at t q))"
proof -
  have k: "\<And>t. tname (f t) = tname t" "\<And>t. childList (f t) = childList t" using assms(2) by (auto simp: keeps_shape_def)
  show "wf_topic (update_topic f p t)" "resolve toks (update_topic f p t) = resolve toks t"
    using wf_update_topic [OF assms(1) k] resolve_update [OF k] by auto
  note u = update_topic_at [OF assms(1) k, of p q]
  show "topic_at (update_topic f p t) q = None \<longleftrightarrow> topic_at t q = None"
    using arg_cong [OF u, of "\<lambda>x. x = None"] by simp
  show "routes_at (update_topic f p t) q =
      (if q = p then case topic_at t p of None \<Rightarrow> [] | Some x \<Rightarrow> routes_of (routeList (f x)) else routes_at t q)"
    "routes2_at (update_topic f p t) q =
      (if q = p then case topic_at t p of None \<Rightarrow> [] | Some x \<Rightarrow> routes_of (routeList2 (f x)) else routes2_at t q)"
    unfolding routes_at_info u by (auto simp: info_def split: option.splits)
  have i: "map_option isTable x = map_option (\<lambda>(f, i, rl, rl2). i) (map_option info x)" for x
    by (cases x) (simp_all add: info_def)
  show "map_option isTable (topic_at (update_topic f p t) q) =
      (if q = p then map_option (isTable \<circ> f) (topic_at t p) else map_option isTable (topic_at t q))"
    unfolding i [of "topic_at (update_topic f p t) q"] u by (auto simp: option.map_comp info_def comp_def)
qed

lemma addPointerToListOnce_simps [simp]:
  "set (addPointerToListOnce xs p) = insert p (set xs)" "distinct (addPointerToListOnce xs p) = distinct xs"
  by (auto simp: addPointerToListOnce_def)

text \<open>The new route is noted at every topic on the way up, the child of the root included.\<close>

definition same_shape :: "rtTreeTopic \<Rightarrow> rtTreeTopic \<Rightarrow> bool" where
  "same_shape t t' \<longleftrightarrow> wf_topic t' \<and> (\<forall>toks. resolve toks t' = resolve toks t) \<and>
     (\<forall>q. (topic_at t' q = None) = (topic_at t q = None)) \<and>
     (\<forall>q. map_option isTable (topic_at t' q) = map_option isTable (topic_at t q))"

lemma backpropagate_ok:
  assumes "wf_topic t" "topic_at t p \<noteq> None" "p \<noteq> []"
  shows "same_shape t (optimizeTopicsBackpropagate p r t) \<and>
    (\<forall>q. routes_at (optimizeTopicsBackpropagate p r t) q = routes_at t q) \<and>
    (\<forall>q. routes2_at (optimizeTopicsBackpropagate p r t) q =
      (if q \<noteq> [] \<and> prefix q p then addPointerToListOnce (routes2_at t q) r else routes2_at t q))"
  using assms
proof (induction p arbitrary: t rule: rev_induct)
  case (snoc x p)
  define f where "f = (\<lambda>t. set_routes2 (Some (addPointerToListOnce (case routeList2 t of None \<Rightarrow> [] | Some l \<Rightarrow> l) r)) t)"
  define t1 where "t1 = update_topic f (p @ [x]) t"
  have f: "keeps_shape f" "\<And>x. isTable (f x) = isTable x" "\<And>x. routeList (f x) = routeList x"
      "\<And>x. routeList2 (f x) = Some (addPointerToListOnce (routes_of (routeList2 x)) r)"
    by (simp_all add: f_def keeps_shape_def option_list_eq)
  note u = update_topic_ok [OF snoc.prems(1) f(1), where p = "p @ [x]", folded t1_def]
  have i: "map_option isTable (topic_at t1 q) = map_option isTable (topic_at t q)" for q
    unfolding u(6) using f(2) by (auto simp: comp_def)
  have s1: "same_shape t t1" unfolding same_shape_def using u(1-3) i by blast
  have r1: "routes_at t1 q = routes_at t q" for q
    unfolding u(4) by (simp add: f(3) routes_at_def split: option.splits)
  have r2: "routes2_at t1 q = (if q = p @ [x] then addPointerToListOnce (routes2_at t q) r else routes2_at t q)" for q
    unfolding u(5) using snoc.prems(2) by (auto simp: f(4) routes2_at_def split: option.splits)
  have b: "optimizeTopicsBackpropagate (p @ [x]) r t = (if p = [] then t1 else optimizeTopicsBackpropagate p r t1)"
    unfolding t1_def f_def by (subst optimizeTopicsBackpropagate.simps) (cases p; simp)
  show ?case
  proof (cases "p = []")
    case True
    then show ?thesis using b s1 r1 r2 by (auto simp: prefix_Cons)
  next
    case False
    have "topic_at t1 p \<noteq> None" using snoc.prems(2) u(3) by (auto simp: topic_at_append split: option.splits)
    note IH = snoc.IH [OF u(1) this False]
    have "same_shape t (optimizeTopicsBackpropagate p r t1)" using s1 IH unfolding same_shape_def by metis
    moreover have "prefix q (p @ [x]) \<longleftrightarrow> q = p @ [x] \<or> prefix q p" for q by (simp add: prefix_snoc)
    moreover have "\<not> prefix (p @ [x]) p" by (auto dest: prefix_length_le)
    ultimately show ?thesis using IH b False r1 r2 by auto
  qed
qed simp

declare optimizeTopicsBackpropagate.simps [simp del]

section \<open>Invariant and routing table\<close>

text \<open>
  The topic tree and the routes agree with each other: every pointer in a topic's list is a route
  of the tree, the topics of a route are those it is assigned to, and a route assigned below a
  topic is known there.
\<close>

definition rt_inv :: "rtRoutingTree \<Rightarrow> bool" where
  "rt_inv rt \<longleftrightarrow>
     wf_topic (topicRoot rt) \<and> routes_at (topicRoot rt) [] = [] \<and>
     distinct (map fst (allRoutes rt)) \<and> distinct (map (rdata \<circ> snd) (allRoutes rt)) \<and>
     (\<forall>q. distinct (routes_at (topicRoot rt) q) \<and> set (routes_at (topicRoot rt) q) \<subseteq> dom (map_of (allRoutes rt))) \<and>
     (\<forall>p r. map_of (allRoutes rt) p = Some r \<longrightarrow>
        distinct (topicList r) \<and> set (topicList r) = {q. p \<in> set (routes_at (topicRoot rt) q)}) \<and>
     (\<forall>q. distinct (routes2_at (topicRoot rt) q)) \<and>
     (\<forall>q ns p. q \<noteq> [] \<longrightarrow> ns \<noteq> [] \<longrightarrow> p \<in> set (routes_at (topicRoot rt) (q @ ns)) \<longrightarrow> p \<in> set (routes2_at (topicRoot rt) q))"

text \<open>The converse for partial paths: a route known at a topic is assigned below it.\<close>

definition partial_sound :: "rtRoutingTree \<Rightarrow> bool" where
  "partial_sound rt \<longleftrightarrow> (\<forall>q p. q \<noteq> [] \<longrightarrow> p \<in> set (routes2_at (topicRoot rt) q) \<longrightarrow>
     (\<exists>ns. ns \<noteq> [] \<and> p \<in> set (routes_at (topicRoot rt) (q @ ns))))"

text \<open>The routing table: the data of the routes assigned to each topic; \<open>None\<close> would be a freed route.\<close>

definition table :: "rtRoutingTree \<Rightarrow> topic_ptr \<Rightarrow> addr option list" where
  "table rt q = map (\<lambda>p. map_option rdata (map_of (allRoutes rt) p)) (routes_at (topicRoot rt) q)"

lemma map_of_update_route: "map_of (update_route p f rs) q = (if q = p then map_option f (map_of rs p) else map_of rs q)"
  by (induction p f rs rule: update_route.induct) auto

lemma update_route_keys: "map fst (update_route p f rs) = map fst rs"
  by (induction p f rs rule: update_route.induct) auto

lemma update_route_data: "(\<And>r. rdata (f r) = rdata r) \<Longrightarrow> map (rdata \<circ> snd) (update_route p f rs) = map (rdata \<circ> snd) rs"
  by (induction p f rs rule: update_route.induct) auto

lemma getTreeRoute_SomeD:
  assumes "getTreeRoute rs data = Some (p, r)" "distinct (map fst rs)"
  shows "map_of rs p = Some r" "rdata r = data" "(p, r) \<in> set rs"
  using assms find_SomeD [of _ rs "(p, r)"] by (auto simp: getTreeRoute_def)

lemma getTreeRoute_None: "getTreeRoute rs data = None \<longleftrightarrow> data \<notin> (rdata \<circ> snd) ` set rs"
  by (force simp: getTreeRoute_def find_None_iff)

lemma rdata_inject:
  assumes "distinct (map (rdata \<circ> snd) rs)" "map_of rs p = Some r" "map_of rs q = Some s" "rdata r = rdata s"
  shows "p = q"
proof -
  have "(p, r) \<in> set rs" "(q, s) \<in> set rs" using assms(2,3) by (auto dest: map_of_SomeD)
  then show ?thesis using assms(1,4) unfolding distinct_map inj_on_def by (metis comp_apply prod.inject snd_conv)
qed

text \<open>Assigning a route to a topic, as \<open>rtRoutingTree_AddTopicRoute\<close> ends.\<close>

definition assign :: "topic_ptr \<Rightarrow> route_ptr \<Rightarrow> rtTreeTopic \<Rightarrow> rtTreeTopic" where
  "assign ptr r t =
     (let t = update_topic (\<lambda>t. set_routes (Some ((case routeList t of None \<Rightarrow> [] | Some l \<Rightarrow> l) @ [r])) t) ptr t
      in if 2 \<le> length ptr then optimizeTopicsBackpropagate (butlast ptr) r t else t)"

lemma same_shape_trans: "same_shape s t \<Longrightarrow> same_shape t u \<Longrightarrow> same_shape s u"
  by (simp add: same_shape_def)

lemma assign_ok:
  assumes "wf_topic t" "topic_at t ptr \<noteq> None" "ptr \<noteq> []"
  shows "same_shape t (assign ptr r t)"
    "routes_at (assign ptr r t) q = routes_at t q @ (if q = ptr then [r] else [])"
    "routes2_at (assign ptr r t) q =
      (if q \<noteq> [] \<and> strict_prefix q ptr then addPointerToListOnce (routes2_at t q) r else routes2_at t q)"
proof -
  define f where "f = (\<lambda>t. set_routes (Some ((case routeList t of None \<Rightarrow> [] | Some l \<Rightarrow> l) @ [r])) t)"
  define t1 where "t1 = update_topic f ptr t"
  have f: "keeps_shape f" "\<And>x. isTable (f x) = isTable x" "\<And>x. routeList2 (f x) = routeList2 x"
      "\<And>x. routeList (f x) = Some (routes_of (routeList x) @ [r])"
    by (simp_all add: f_def keeps_shape_def option_list_eq)
  note u = update_topic_ok [OF assms(1) f(1), where p = ptr, folded t1_def]
  have i: "map_option isTable (topic_at t1 q) = map_option isTable (topic_at t q)" for q
    unfolding u(6) using f(2) by (auto simp: comp_def)
  have s1: "same_shape t t1" unfolding same_shape_def using u(1-3) i by blast
  have r1: "routes_at t1 q = routes_at t q @ (if q = ptr then [r] else [])" for q
    unfolding u(4) using assms(2) by (auto simp: f(4) routes_at_def split: option.splits)
  have r2: "routes2_at t1 q = routes2_at t q" for q
    unfolding u(5) by (simp add: f(3) routes2_at_def split: option.splits)
  have a: "assign ptr r t = (if 2 \<le> length ptr then optimizeTopicsBackpropagate (butlast ptr) r t1 else t1)"
    by (simp add: assign_def t1_def f_def Let_def)
  obtain x p where p: "ptr = p @ [x]" using assms(3) by (cases ptr rule: rev_cases) auto
  have sp: "q \<noteq> [] \<and> strict_prefix q ptr \<longleftrightarrow> q \<noteq> [] \<and> prefix q p" for q
    unfolding p by (auto simp: strict_prefix_def prefix_snoc dest: prefix_length_le)
  have "same_shape t (assign ptr r t) \<and>
    routes_at (assign ptr r t) q = routes_at t q @ (if q = ptr then [r] else []) \<and>
    routes2_at (assign ptr r t) q =
      (if q \<noteq> [] \<and> strict_prefix q ptr then addPointerToListOnce (routes2_at t q) r else routes2_at t q)" for q
  proof (cases "p = []")
    case True
    then show ?thesis using a s1 r1 r2 sp [of q] by (auto simp: p)
  next
    case False
    have "topic_at t1 p \<noteq> None" using assms(2) u(3) by (auto simp: p topic_at_append split: option.splits)
    note b = backpropagate_ok [OF u(1) this False, of r]
    have "assign ptr r t = optimizeTopicsBackpropagate p r t1" using a False by (cases p) (simp_all add: p)
    then show ?thesis using b same_shape_trans [OF s1] r1 r2 sp [of q] by auto
  qed
  then show "same_shape t (assign ptr r t)"
    "routes_at (assign ptr r t) q = routes_at t q @ (if q = ptr then [r] else [])"
    "routes2_at (assign ptr r t) q =
      (if q \<noteq> [] \<and> strict_prefix q ptr then addPointerToListOnce (routes2_at t q) r else routes2_at t q)"
    by blast+
qed

text \<open>The route of \<open>data\<close>, made if there is none.\<close>

definition get_or_make :: "route_ptr \<Rightarrow> route_store \<Rightarrow> addr \<Rightarrow> route_ptr \<times> route_store" where
  "get_or_make new rs data =
     (case getTreeRoute rs data of
        Some (p, r) \<Rightarrow> (p, rs) | None \<Rightarrow> (new, rs @ [(new, \<lparr>rdata = data, topicList = []\<rparr>)]))"

lemma get_or_make_ok:
  assumes "distinct (map fst rs)" "distinct (map (rdata \<circ> snd) rs)" "new \<notin> dom (map_of rs)"
    and "get_or_make new rs data = (p, rs1)"
  shows "distinct (map fst rs1)" "distinct (map (rdata \<circ> snd) rs1)"
    "map_of rs1 = (if getTreeRoute rs data = None then (map_of rs)(new \<mapsto> \<lparr>rdata = data, topicList = []\<rparr>) else map_of rs)"
    "map_option rdata (map_of rs1 p) = Some data"
    "if getTreeRoute rs data = None then p = new else p \<in> dom (map_of rs)"
proof -
  have n: "new \<notin> fst ` set rs" using assms(3) by (simp add: dom_map_of_conv_image_fst)
  consider (old) r where "getTreeRoute rs data = Some (p, r)" "rs1 = rs"
    | (made) "getTreeRoute rs data = None" "p = new" "rs1 = rs @ [(new, \<lparr>rdata = data, topicList = []\<rparr>)]"
    using assms(4) by (auto simp: get_or_make_def split: option.splits)
  then have "distinct (map fst rs1) \<and> distinct (map (rdata \<circ> snd) rs1) \<and>
    map_of rs1 = (if getTreeRoute rs data = None then (map_of rs)(new \<mapsto> \<lparr>rdata = data, topicList = []\<rparr>) else map_of rs) \<and>
    map_option rdata (map_of rs1 p) = Some data \<and>
    (if getTreeRoute rs data = None then p = new else p \<in> dom (map_of rs))"
  proof cases
    case old
    then show ?thesis using getTreeRoute_SomeD [OF old(1) assms(1)] assms(1,2) by auto
  next
    case made
    have "map_of rs1 = (map_of rs)(new \<mapsto> \<lparr>rdata = data, topicList = []\<rparr>)"
      using assms(3) made(3) by (auto simp: map_add_def fun_eq_iff split: option.splits)
    then show ?thesis
      using made assms(1,2) n getTreeRoute_None [of rs data] by (auto simp: image_iff)
  qed
  then show "distinct (map fst rs1)" "distinct (map (rdata \<circ> snd) rs1)"
    "map_of rs1 = (if getTreeRoute rs data = None then (map_of rs)(new \<mapsto> \<lparr>rdata = data, topicList = []\<rparr>) else map_of rs)"
    "map_option rdata (map_of rs1 p) = Some data"
    "if getTreeRoute rs data = None then p = new else p \<in> dom (map_of rs)" by blast+
qed

text \<open>The outcomes of \<open>rtRoutingTree_AddTopicRoute\<close>.\<close>

lemma AddTopicRoute_cases:
  assumes "wf_topic (topicRoot rt)" "rtRoutingTree_AddTopicRoute new rt topic data dup = Some (rc, rt')"
    and "get_or_make new (allRoutes rt) data = (r, rs)"
  obtains (invalid) "rc = RT_ERROR_INVALID_EXPRESSION" "rt' = rt" "validateExpression topic < 0"
    | (empty) "rc = RT_OK" "rt' = rt" "tokenizeExpression topic = Some []"
    | (conflict) toks where "rc = RT_ERROR_PROTOCOL_ERROR" "tokenizeExpression topic = Some toks" "toks \<noteq> []"
      "rt' = rt\<lparr>allRoutes := rs\<rparr>" "fst (add_loop toks False (topicRoot rt)) = None"
    | (duplicate) toks ptr x where "rc = RT_ERROR_DUPLICATE_ENTRY" "rt' = rt\<lparr>allRoutes := rs\<rparr>" "dup"
      "tokenizeExpression topic = Some toks" "toks \<noteq> []" "resolve toks (topicRoot rt) = Some ptr"
      "topic_at (topicRoot rt) ptr = Some x" "routeList x \<noteq> None"
    | (added) toks ptr root where "rc = RT_OK" "tokenizeExpression topic = Some toks" "toks \<noteq> []"
      "walked toks False (topicRoot rt) ptr (topic_at (topicRoot rt) ptr = None) root" "ptr \<noteq> []"
      "rt' = \<lparr>topicRoot = assign ptr r root, allRoutes = update_route r (\<lambda>x. x\<lparr>topicList := addPointerToListOnce (topicList x) ptr\<rparr>) rs\<rparr>"
      "dup \<and> topic \<noteq> ''_RTROUTED.ADVISORY'' \<Longrightarrow> routes_at (topicRoot rt) ptr = []"
proof -
  consider "validateExpression topic < 0" | "\<not> validateExpression topic < 0" "tokenizeExpression topic = Some []"
    | toks where "\<not> validateExpression topic < 0" "tokenizeExpression topic = Some toks" "toks \<noteq> []"
    using assms(2) by (cases "tokenizeExpression topic") (auto simp: rtRoutingTree_AddTopicRoute_def split: if_splits)
  then show thesis
  proof cases
    case 1
    then show thesis using assms(2) invalid by (simp add: rtRoutingTree_AddTopicRoute_def)
  next
    case 2
    then show thesis using assms(2) empty by (simp add: rtRoutingTree_AddTopicRoute_def)
  next
    case 3
    define rt1 where "rt1 = rt\<lparr>allRoutes := rs\<rparr>"
    obtain res root where a: "add_loop toks False (topicRoot rt) = (res, root)"
      by (cases "add_loop toks False (topicRoot rt)")
    have g: "(case getTreeRoute (allRoutes rt) data of
                           Some (p, _) \<Rightarrow> (p, rt)
                         | None \<Rightarrow> (new, rt\<lparr>allRoutes := allRoutes rt @ [(new, \<lparr>rdata = data, topicList = []\<rparr>)]\<rparr>)) = (r, rt1)"
      using assms(3) by (auto simp: get_or_make_def rt1_def split: option.splits)
    have t1: "topicRoot rt1 = topicRoot rt" "allRoutes rt1 = rs" by (simp_all add: rt1_def)
    show thesis
    proof (cases res)
      case None
      have "root = topicRoot rt" using add_loop_unchanged [OF assms(1) a] None by simp
      then have "rc = RT_ERROR_PROTOCOL_ERROR \<and> rt' = rt1"
        using assms(2) 3 None a g t1 by (simp add: rtRoutingTree_AddTopicRoute_def Let_def rt1_def)
      then show thesis using conflict 3 a None by (simp add: rt1_def)
    next
      case (Some pc)
      then obtain ptr cr where pc: "res = Some (ptr, cr)" by (cases pc) auto
      have w: "walked toks False (topicRoot rt) ptr cr root" using add_loop_walked [OF assms(1)] a pc by simp
      then obtain x where x: "topic_at root ptr = Some x" by (auto simp: walked_def)
      have cr: "cr = (topic_at (topicRoot rt) ptr = None)" using w 3(3) by (simp add: walked_def)
      have p: "ptr \<noteq> []" using w 3(3) resolve_length [of toks root ptr] by (auto simp: walked_def)
      show thesis
      proof (cases "dup \<and> \<not> cr \<and> routeList x \<noteq> None \<and> topic \<noteq> ''_RTROUTED.ADVISORY''")
        case True
        have "root = topicRoot rt" using add_loop_unchanged [OF assms(1) a] True pc 3(3) by simp
        then have "rc = RT_ERROR_DUPLICATE_ENTRY \<and> rt' = rt1"
          using assms(2) 3 pc a g t1 x True by (simp add: rtRoutingTree_AddTopicRoute_def Let_def rt1_def)
        then show thesis
          using duplicate [of toks ptr x] 3 x True w \<open>root = topicRoot rt\<close> by (simp add: walked_def rt1_def)
      next
        case False
        have "rc = RT_OK \<and> rt' = \<lparr>topicRoot = assign ptr r root,
            allRoutes = update_route r (\<lambda>x. x\<lparr>topicList := addPointerToListOnce (topicList x) ptr\<rparr>) rs\<rparr>"
          using assms(2) 3 pc a g t1 x False
          by (auto simp: rtRoutingTree_AddTopicRoute_def Let_def rt1_def assign_def)
        moreover have "routes_at (topicRoot rt) ptr = []" if "dup \<and> topic \<noteq> ''_RTROUTED.ADVISORY''"
        proof (cases cr)
          case True
          then show ?thesis using cr by (simp add: routes_at_def)
        next
          case False
          then have "routeList x = None" using that \<open>\<not> (dup \<and> _)\<close> by blast
          then have "routes_at root ptr = []" using x by (simp add: routes_at_def)
          then show ?thesis using w by (simp add: walked_def grows_def)
        qed
        ultimately show thesis using added [of toks ptr root] 3 w cr p by simp
      qed
    qed
  qed
qed

section \<open>Adding keeps the invariant\<close>

lemma rt_invD:
  assumes "rt_inv rt"
  shows "wf_topic (topicRoot rt)" "routes_at (topicRoot rt) [] = []"
    "distinct (map fst (allRoutes rt))" "distinct (map (rdata \<circ> snd) (allRoutes rt))"
    "distinct (routes_at (topicRoot rt) q)" "set (routes_at (topicRoot rt) q) \<subseteq> dom (map_of (allRoutes rt))"
    "map_of (allRoutes rt) p = Some r \<Longrightarrow> distinct (topicList r)"
    "map_of (allRoutes rt) p = Some r \<Longrightarrow> q \<in> set (topicList r) \<longleftrightarrow> p \<in> set (routes_at (topicRoot rt) q)"
    "distinct (routes2_at (topicRoot rt) q)"
    "q \<noteq> [] \<Longrightarrow> ns \<noteq> [] \<Longrightarrow> p \<in> set (routes_at (topicRoot rt) (q @ ns)) \<Longrightarrow> p \<in> set (routes2_at (topicRoot rt) q)"
  using assms unfolding rt_inv_def by blast+

lemma new_unassigned: "rt_inv rt \<Longrightarrow> new \<notin> dom (map_of (allRoutes rt)) \<Longrightarrow> new \<notin> set (routes_at (topicRoot rt) q)"
  using rt_invD(6) by blast

lemma get_or_make_inv:
  assumes "rt_inv rt" "new \<notin> dom (map_of (allRoutes rt))" "get_or_make new (allRoutes rt) data = (r, rs)"
  shows "rt_inv (rt\<lparr>allRoutes := rs\<rparr>)" "table (rt\<lparr>allRoutes := rs\<rparr>) = table rt"
proof -
  note i = rt_invD [OF assms(1)]
  note g = get_or_make_ok [OF i(3,4) assms(2,3)]
  have n: "new \<notin> set (routes_at (topicRoot rt) q)" for q using new_unassigned [OF assms(1,2)] .
  show "table (rt\<lparr>allRoutes := rs\<rparr>) = table rt"
    using n by (auto simp: table_def g(3) fun_eq_iff)
  have "distinct (topicList x) \<and> set (topicList x) = {q. p \<in> set (routes_at (topicRoot rt) q)}"
    if "map_of rs p = Some x" for p x
    using that i(7,8) n unfolding g(3) by (auto split: if_splits)
  moreover have "dom (map_of (allRoutes rt)) \<subseteq> dom (map_of rs)" unfolding g(3) by auto
  ultimately show "rt_inv (rt\<lparr>allRoutes := rs\<rparr>)"
    using i(1,2,5,6,9,10) g(1,2) unfolding rt_inv_def by simp blast
qed

text \<open>The shape of the result of assigning a route to a topic.\<close>

lemma added_ok:
  assumes "rt_inv rt" "map_of (allRoutes rt) r = Some x" "rdata x = data"
    and "walked toks False (topicRoot rt) ptr cr root" "ptr \<noteq> []" "r \<notin> set (routes_at (topicRoot rt) ptr)"
    and rt': "rt' = \<lparr>topicRoot = assign ptr r root,
      allRoutes = update_route r (\<lambda>x. x\<lparr>topicList := addPointerToListOnce (topicList x) ptr\<rparr>) (allRoutes rt)\<rparr>"
  shows "rt_inv rt'" "table rt' = (table rt)(ptr := table rt ptr @ [Some data])" "partial_sound rt \<Longrightarrow> partial_sound rt'"
    "resolve toks (topicRoot rt') = Some ptr"
    "resolve toks' (topicRoot rt) = Some q \<Longrightarrow> resolve toks' (topicRoot rt') = Some q"
    "routes_at (topicRoot rt') q = routes_at (topicRoot rt) q @ (if q = ptr then [r] else [])"
proof -
  note i = rt_invD [OF assms(1)]
  have w: "wf_topic root" "grows (topicRoot rt) root" "resolve toks root = Some ptr" "topic_at root ptr \<noteq> None"
    using assms(4) by (auto simp: walked_def)
  have same: "routes_at root q = routes_at (topicRoot rt) q" "routes2_at root q = routes2_at (topicRoot rt) q" for q
    using w(2) by (auto simp: grows_def)
  note a = assign_ok [OF w(1,4) assms(5), of r, unfolded same]
  define f where "f = (\<lambda>x :: rtTreeRoute. x\<lparr>topicList := addPointerToListOnce (topicList x) ptr\<rparr>)"
  have t': "topicRoot rt' = assign ptr r root" "allRoutes rt' = update_route r f (allRoutes rt)" by (simp_all add: rt' f_def)
  have ra: "routes_at (topicRoot rt') q = routes_at (topicRoot rt) q @ (if q = ptr then [r] else [])" for q
    using a(2) t' by simp
  then show "routes_at (topicRoot rt') q = routes_at (topicRoot rt) q @ (if q = ptr then [r] else [])" .
  have rb: "routes2_at (topicRoot rt') q = (if q \<noteq> [] \<and> strict_prefix q ptr
      then addPointerToListOnce (routes2_at (topicRoot rt) q) r else routes2_at (topicRoot rt) q)" for q
    using a(3) t' by simp
  have m: "map_of (allRoutes rt') p = (if p = r then Some (f x) else map_of (allRoutes rt) p)" for p
    using assms(2) by (simp add: t' map_of_update_route)
  have fd: "rdata (f y) = rdata y" for y by (simp add: f_def)
  show "resolve toks (topicRoot rt') = Some ptr" using a(1) w(3) t' by (simp add: same_shape_def)
  show "resolve toks' (topicRoot rt) = Some q \<Longrightarrow> resolve toks' (topicRoot rt') = Some q"
    using a(1) w(2) t' by (simp add: same_shape_def grows_def)
  show "table rt' = (table rt)(ptr := table rt ptr @ [Some data])"
    using assms(2,3) by (auto simp: table_def ra m fd fun_eq_iff)
  have below: "\<exists>ns. ns \<noteq> [] \<and> ptr = q @ ns" if "strict_prefix q ptr" for q
    using that by (auto simp: strict_prefix_def prefix_def)
  show "partial_sound rt'" if "partial_sound rt"
    using that below unfolding partial_sound_def ra rb by (auto split: if_splits) blast+
  have "distinct (topicList y) \<and> set (topicList y) = {q. p \<in> set (routes_at (topicRoot rt') q)}"
    if "map_of (allRoutes rt') p = Some y" for p y
    using that i(7,8) assms(2) unfolding m ra by (auto simp: f_def split: if_splits)
  moreover have "distinct (routes_at (topicRoot rt') q) \<and> set (routes_at (topicRoot rt') q) \<subseteq> dom (map_of (allRoutes rt'))" for q
    using i(5,6) assms(2,6) unfolding ra by (auto simp: m dom_def)
  moreover have "p \<in> set (routes2_at (topicRoot rt') q)"
    if "q \<noteq> []" "ns \<noteq> []" "p \<in> set (routes_at (topicRoot rt') (q @ ns))" for q ns p
    using that i(10) unfolding ra rb by (auto simp: strict_prefix_def split: if_splits)
  moreover have "distinct (map fst (allRoutes rt'))" "distinct (map (rdata \<circ> snd) (allRoutes rt'))"
    using i(3,4) by (simp_all only: t' update_route_keys update_route_data [of f, OF fd])
  moreover have "wf_topic (topicRoot rt')" using a(1) t' by (simp add: same_shape_def)
  moreover have "routes_at (topicRoot rt') [] = []" using i(2) assms(5) by (simp add: ra)
  moreover have "distinct (routes2_at (topicRoot rt') q)" for q using i(9) unfolding rb by simp
  ultimately show "rt_inv rt'" unfolding rt_inv_def by blast
qed

section \<open>Removing a route\<close>

lemma prune_simps [simp]:
  "childList (removeRouteFromTopicTree r t) = removeRouteFromChildren r (childList t)"
  "tname (removeRouteFromTopicTree r t) = tname t" "routeList (removeRouteFromTopicTree r t) = routeList t"
  "routeList2 (removeRouteFromTopicTree r t) = routeList2 t"
  by (cases t; simp)+

lemma strip_simps [simp]:
  "childList (strip_route r t) = childList t" "tname (strip_route r t) = tname t"
  "routeList (strip_route r t) = map_option (remove1 r) (routeList t)"
  "routeList2 (strip_route r t) = map_option (remove1 r) (routeList2 t)"
  by (simp_all add: strip_route_def)

lemma routes_of_map: "f [] = [] \<Longrightarrow> routes_of (map_option f l) = f (routes_of l)"
  by (cases l) simp_all

lemma prune_names: "set (map tname (removeRouteFromChildren r cs)) \<subseteq> set (map tname cs)"
  by (induction cs) (auto simp: Let_def)

lemma prune_children_find:
  "distinct (map tname cs) \<Longrightarrow>
   (case find (\<lambda>c. tname c = n) (removeRouteFromChildren r cs) of
      Some d \<Rightarrow> \<exists>c. find (\<lambda>c. tname c = n) cs = Some c \<and> d = strip_route r (removeRouteFromTopicTree r c)
    | None \<Rightarrow> find (\<lambda>c. tname c = n) cs = None \<or>
        (\<exists>c. find (\<lambda>c. tname c = n) cs = Some c \<and> removeRouteFromChildren r (childList c) = [] \<and>
           remove1 r (routes_of (routeList c)) = []))"
proof (induction cs)
  case (Cons c cs)
  have no: "find (\<lambda>d. tname d = tname c) (removeRouteFromChildren r cs) = None"
  proof -
    have "tname c \<notin> tname ` set (removeRouteFromChildren r cs)" using Cons.prems prune_names [of r cs] by auto
    then show ?thesis unfolding find_None_iff by (metis imageI)
  qed
  have z: "list_size (map_option (remove1 r) l) = 0 \<longleftrightarrow> remove1 r (routes_of l) = []" for l
    by (cases l) (simp_all add: list_size_def)
  show ?case
    using Cons no by (cases "tname c = n") (auto simp: Let_def z split: option.splits)
qed simp

lemma wf_prune: "wf_topic t \<Longrightarrow> wf_topic (removeRouteFromTopicTree r t)"
  and wf_prune_children: "distinct (map tname cs) \<Longrightarrow> (\<forall>c\<in>set cs. wf_topic c) \<Longrightarrow>
    distinct (map tname (removeRouteFromChildren r cs)) \<and> (\<forall>c\<in>set (removeRouteFromChildren r cs). wf_topic c)"
proof (induction r t and r cs rule: removeRouteFromTopicTree_removeRouteFromChildren.induct)
  case (3 r c cs)
  have "wf_topic (strip_route r (removeRouteFromTopicTree r c))"
    using 3(1) 3(4) unfolding wf_topic_iff [of "strip_route _ _"] wf_topic_iff [of "removeRouteFromTopicTree r c"] by simp
  then show ?case using 3 prune_names [of r cs] by (auto simp: Let_def)
qed simp_all

lemma prune_at:
  assumes "wf_topic t" "q \<noteq> []"
  shows "routes_at (removeRouteFromTopicTree r t) q = remove1 r (routes_at t q) \<and>
    (topic_at (removeRouteFromTopicTree r t) q \<noteq> None \<longrightarrow>
       routes2_at (removeRouteFromTopicTree r t) q = remove1 r (routes2_at t q)) \<and>
    (topic_at (removeRouteFromTopicTree r t) q \<noteq> None \<longrightarrow> topic_at t q \<noteq> None)"
  using assms
proof (induction q arbitrary: t)
  case (Cons n ns)
  have d: "distinct (map tname (childList t))" using Cons.prems(1) by (simp add: wf_topic_iff [of t])
  note f = prune_children_find [OF d, of n r]
  have wf: "wf_topic c" if "find (\<lambda>c. tname c = n) (childList t) = Some c" for c
    using find_SomeD [OF that] Cons.prems(1) by (auto simp: wf_topic_iff [of t])
  show ?case
  proof (cases "find (\<lambda>c. tname c = n) (removeRouteFromChildren r (childList t))")
    case (Some x)
    then obtain c where c: "find (\<lambda>c. tname c = n) (childList t) = Some c" "x = strip_route r (removeRouteFromTopicTree r c)"
      using f by auto
    show ?thesis
    proof (cases "ns = []")
      case True
      then show ?thesis using Some c by (simp add: routes_at_simps routes_of_map)
    next
      case False
      then obtain m ms where ns: "ns = m # ms" by (cases ns) auto
      show ?thesis using Some c Cons.IH [OF wf [OF c(1)] False] by (simp add: routes_at_simps ns)
    qed
  next
    case None
    then consider "find (\<lambda>c. tname c = n) (childList t) = None"
      | c where "find (\<lambda>c. tname c = n) (childList t) = Some c" "removeRouteFromChildren r (childList c) = []"
        "remove1 r (routes_of (routeList c)) = []"
      using f by auto
    then show ?thesis
    proof cases
      case (2 c)
      show ?thesis
      proof (cases ns)
        case (Cons m ms)
        then have "remove1 r (routes_at c ns) = []"
          using \<open>\<And>t. wf_topic t \<Longrightarrow> ns \<noteq> [] \<Longrightarrow> _\<close> [OF wf [OF 2(1)]] 2(2) by (simp add: routes_at_simps)
        then show ?thesis using None 2 by (simp add: routes_at_simps)
      qed (use None 2 in \<open>simp add: routes_at_simps\<close>)
    qed (use None in \<open>simp add: routes_at_simps\<close>)
  qed
qed simp

lemma map_of_filter_key: "map_of (filter (\<lambda>(q, x). q \<noteq> p) rs) k = (if k = p then None else map_of rs k)"
  by (induction rs) auto

lemma routes_exist:
  "p \<in> set (routes_at t q) \<Longrightarrow> topic_at t q \<noteq> None" "p \<in> set (routes2_at t q) \<Longrightarrow> topic_at t q \<noteq> None"
  by (cases "topic_at t q"; simp add: routes_at_def routes2_at_def)+

lemma RemoveRoute_inv:
  assumes "rt_inv rt" "rt' = rtRoutingTree_RemoveRoute rt data"
  shows "rt_inv rt'" "table rt' q = filter (\<lambda>d. d \<noteq> Some data) (table rt q)" "partial_sound rt \<Longrightarrow> partial_sound rt'"
    "getTreeRoute (allRoutes rt') data = None"
proof -
  note i = rt_invD [OF assms(1)]
  have main: "rt_inv rt' \<and> (\<forall>q. table rt' q = filter (\<lambda>d. d \<noteq> Some data) (table rt q)) \<and>
    (partial_sound rt \<longrightarrow> partial_sound rt') \<and> getTreeRoute (allRoutes rt') data = None"
  proof (cases "getTreeRoute (allRoutes rt) data")
    case None
    have "Some data \<notin> set (table rt q)" for q
    proof
      assume "Some data \<in> set (table rt q)"
      then obtain p where "map_option rdata (map_of (allRoutes rt) p) = Some data"
        unfolding table_def set_map by (metis imageE)
      then obtain x where "map_of (allRoutes rt) p = Some x" "rdata x = data" by (auto simp: map_option_eq_Some)
      then show False using None getTreeRoute_None [of "allRoutes rt" data] by (force dest: map_of_SomeD)
    qed
    then have "table rt q = filter (\<lambda>d. d \<noteq> Some data) (table rt q)" for q by (metis (mono_tags) filter_True)
    then show ?thesis using None assms by (simp add: rtRoutingTree_RemoveRoute_def)
  next
    case (Some pr)
    then obtain p r where pr: "getTreeRoute (allRoutes rt) data = Some (p, r)" by (cases pr) auto
    note g = getTreeRoute_SomeD [OF pr i(3)]
    have t': "topicRoot rt' = removeRouteFromTopicTree p (topicRoot rt)"
      "allRoutes rt' = filter (\<lambda>(q, x). q \<noteq> p) (allRoutes rt)"
      using assms(2) pr by (simp_all add: rtRoutingTree_RemoveRoute_def)
    have m: "map_of (allRoutes rt') k = (if k = p then None else map_of (allRoutes rt) k)" for k
      by (simp add: t' map_of_filter_key)
    note at = prune_at [OF i(1), of _ p, folded t'(1)]
    have ra: "routes_at (topicRoot rt') q = filter (\<lambda>x. x \<noteq> p) (routes_at (topicRoot rt) q)" for q
    proof (cases "q = []")
      case True
      then show ?thesis using i(2) by (simp add: t' routes_at_simps)
    next
      case False
      then show ?thesis using at distinct_remove1_removeAll [OF i(5)] by (simp add: removeAll_filter_not_eq conj_commute eq_commute)
    qed
    have rb: "set (routes2_at (topicRoot rt') q) = set (routes2_at (topicRoot rt) q) - {p}"
      "distinct (routes2_at (topicRoot rt') q)" if "q \<noteq> []" "topic_at (topicRoot rt') q \<noteq> None" for q
      using at [OF that(1)] that(2) i(9) by (simp_all add: set_remove1_eq)
    have rb0: "distinct (routes2_at (topicRoot rt') q)" for q
    proof (cases "q = [] \<or> topic_at (topicRoot rt') q = None")
      case True
      then show ?thesis using i(9) [of "[]"] by (auto simp: routes2_at_def t')
    qed (use rb(2) in blast)
    have inv: "rt_inv rt'"
      unfolding rt_inv_def
    proof (intro conjI allI impI)
      show "wf_topic (topicRoot rt')" using wf_prune [OF i(1)] by (simp add: t')
      show "routes_at (topicRoot rt') [] = []" using i(2) by (simp add: ra)
      show "distinct (map fst (allRoutes rt'))" "distinct (map (rdata \<circ> snd) (allRoutes rt'))"
        using i(3,4) by (simp_all add: t' distinct_map_filter)
      show "distinct (routes_at (topicRoot rt') q)" for q using i(5) by (simp add: ra)
      show "set (routes_at (topicRoot rt') q) \<subseteq> dom (map_of (allRoutes rt'))" for q
        using i(6) [of q] by (auto simp: ra m dom_def)
      show "distinct (topicList x)" if "map_of (allRoutes rt') k = Some x" for k x
        using that i(7) by (auto simp: m split: if_splits)
      show "set (topicList x) = {q. k \<in> set (routes_at (topicRoot rt') q)}" if "map_of (allRoutes rt') k = Some x" for k x
        using that i(8) by (auto simp: m ra split: if_splits)
      show "distinct (routes2_at (topicRoot rt') q)" for q by (rule rb0)
      show "k \<in> set (routes2_at (topicRoot rt') q)"
        if "q \<noteq> []" "ns \<noteq> []" "k \<in> set (routes_at (topicRoot rt') (q @ ns))" for q ns k
      proof -
        have "topic_at (topicRoot rt') (q @ ns) \<noteq> None" using that(3) by (rule routes_exist)
        then have "topic_at (topicRoot rt') q \<noteq> None" by (auto simp: topic_at_append split: option.splits)
        then show ?thesis using rb(1) [OF that(1)] that(3) i(10) [OF that(1,2)] by (auto simp: ra)
      qed
    qed
    have tab: "table rt' q = filter (\<lambda>d. d \<noteq> Some data) (table rt q)" for q
    proof -
      define d d' where "d = (\<lambda>k. map_option rdata (map_of (allRoutes rt) k))"
        and "d' = (\<lambda>k. map_option rdata (map_of (allRoutes rt') k))"
      have "d k = Some data \<longleftrightarrow> k = p" for k
        unfolding d_def map_option_eq_Some using g(1,2) rdata_inject [OF i(4) g(1)] by metis
      moreover have "k \<noteq> p \<Longrightarrow> d' k = d k" for k by (simp add: d_def d'_def m)
      ultimately have "map d' (filter (\<lambda>x. x \<noteq> p) xs) = filter (\<lambda>d. d \<noteq> Some data) (map d xs)" for xs
        by (induction xs) auto
      then show ?thesis by (simp add: table_def ra d_def d'_def)
    qed
    have ps: "partial_sound rt'" if "partial_sound rt"
      unfolding partial_sound_def
    proof (intro allI impI)
      fix q k assume q: "q \<noteq> []" and k: "k \<in> set (routes2_at (topicRoot rt') q)"
      then have "topic_at (topicRoot rt') q \<noteq> None" using routes_exist(2) by blast
      then have "k \<in> set (routes2_at (topicRoot rt) q)" "k \<noteq> p" using rb(1) [OF q] k by auto
      then show "\<exists>ns. ns \<noteq> [] \<and> k \<in> set (routes_at (topicRoot rt') (q @ ns))"
        using that q unfolding partial_sound_def ra by fastforce
    qed
    have "getTreeRoute (allRoutes rt') data = None"
      using rdata_inject [OF i(4) g(1)] i(3) g(2) unfolding getTreeRoute_None t'(2) by force
    then show ?thesis using inv tab ps by blast
  qed
  then show "rt_inv rt'" "table rt' q = filter (\<lambda>d. d \<noteq> Some data) (table rt q)" "partial_sound rt \<Longrightarrow> partial_sound rt'"
    "getTreeRoute (allRoutes rt') data = None"
    by blast+
qed

section \<open>Removing a topic\<close>

text \<open>What is left of a route when the topics in \<open>D\<close> are gone: nothing if it had topics and none is left.\<close>

definition without :: "topic_ptr set \<Rightarrow> rtTreeRoute option \<Rightarrow> rtTreeRoute option" where
  "without D x =
     (case x of None \<Rightarrow> None
      | Some r \<Rightarrow> if set (topicList r) \<inter> D = {} then Some r
                  else if set (topicList r) \<subseteq> D then None
                  else Some (r\<lparr>topicList := filter (\<lambda>q. q \<notin> D) (topicList r)\<rparr>))"

definition store_ok :: "route_store \<Rightarrow> bool" where
  "store_ok rs \<longleftrightarrow> distinct (map fst rs) \<and> distinct (map (rdata \<circ> snd) rs)"

lemma store_ok_filter: "store_ok rs \<Longrightarrow> store_ok (filter P rs)"
  by (simp add: store_ok_def distinct_map_filter)

lemma store_ok_update: "store_ok rs \<Longrightarrow> (\<And>r. rdata (f r) = rdata r) \<Longrightarrow> store_ok (update_route p f rs)"
  by (simp add: store_ok_def update_route_keys update_route_data del: map_map)

lemma without_empty [simp]: "without {} x = x"
  by (auto simp: without_def split: option.splits)

lemma without_more:
  assumes "x = Some r" "distinct (topicList r)" "q \<notin> D"
  shows "q \<notin> set (topicList r) \<Longrightarrow> without (insert q D) x = without D x"
    "q \<in> set (topicList r) \<Longrightarrow> \<exists>r'. without D x = Some r' \<and> rdata r' = rdata r \<and>
      without (insert q D) x =
        (if remove1 q (topicList r') = [] then None else Some (r'\<lparr>topicList := remove1 q (topicList r')\<rparr>))"
proof -
  assume "q \<notin> set (topicList r)"
  moreover from this have "filter (\<lambda>p. p \<noteq> q \<and> p \<notin> D) (topicList r) = filter (\<lambda>p. p \<notin> D) (topicList r)"
    by (intro filter_cong) auto
  ultimately show "without (insert q D) x = without D x" using assms(1) by (auto simp: without_def)
next
  assume q: "q \<in> set (topicList r)"
  let ?r' = "r\<lparr>topicList := filter (\<lambda>p. p \<notin> D) (topicList r)\<rparr>"
  have "without D x = Some ?r'"
  proof (cases "set (topicList r) \<inter> D = {}")
    case True
    then have "filter (\<lambda>p. p \<notin> D) (topicList r) = topicList r" by (intro filter_True) auto
    then show ?thesis using True assms(1) by (simp add: without_def)
  qed (use q assms in \<open>auto simp: without_def\<close>)
  moreover have "remove1 q (topicList ?r') = filter (\<lambda>p. p \<notin> insert q D) (topicList r)"
    using assms(2) by (simp add: distinct_remove1_removeAll removeAll_filter_not_eq conj_commute eq_commute)
  moreover have "filter (\<lambda>p. p \<notin> insert q D) (topicList r) = [] \<longleftrightarrow> set (topicList r) \<subseteq> insert q D"
    by (auto simp: filter_empty_conv)
  ultimately show "\<exists>r'. without D x = Some r' \<and> rdata r' = rdata r \<and>
      without (insert q D) x =
        (if remove1 q (topicList r') = [] then None else Some (r'\<lparr>topicList := remove1 q (topicList r')\<rparr>))"
    using q assms(1) by (intro exI [of _ ?r']) (auto simp: without_def)
qed

lemma unassign_ok:
  assumes "distinct ps" "q \<notin> D" "store_ok rs"
    and "\<And>p r. m0 p = Some r \<Longrightarrow> distinct (topicList r)"
    and "\<And>p. p \<in> set ps \<Longrightarrow> \<exists>r. m0 p = Some r \<and> q \<in> set (topicList r)"
    and "\<And>p. p \<in> set ps \<Longrightarrow> map_of rs p = without D (m0 p)"
  shows "\<exists>rs'. unassign q ps rs = Some rs' \<and> store_ok rs' \<and>
    (\<forall>p. map_of rs' p = (if p \<in> set ps then without (insert q D) (m0 p) else map_of rs p))"
  using assms(1,3,5,6)
proof (induction ps arbitrary: rs)
  case (Cons p ps)
  obtain r where r: "m0 p = Some r" "q \<in> set (topicList r)" using Cons.prems(3) by auto
  obtain r' where r': "without D (m0 p) = Some r'" "without (insert q D) (m0 p) =
        (if remove1 q (topicList r') = [] then None else Some (r'\<lparr>topicList := remove1 q (topicList r')\<rparr>))"
    using without_more(2) [OF r(1) assms(4) [OF r(1)] assms(2) r(2)] by blast
  let ?ts = "remove1 q (topicList r')"
  define rs1 where "rs1 = (if ?ts = [] then filter (\<lambda>(k, x). k \<noteq> p) rs else update_route p (\<lambda>x. x\<lparr>topicList := ?ts\<rparr>) rs)"
  have rp: "map_of rs p = Some r'" using Cons.prems(4) r'(1) by simp
  have m1: "map_of rs1 k = (if k = p then without (insert q D) (m0 p) else map_of rs k)" for k
    using rp r'(2) by (simp add: rs1_def map_of_filter_key map_of_update_route)
  have s1: "store_ok rs1" using Cons.prems(2) by (simp add: rs1_def store_ok_filter store_ok_update)
  have "map_of rs1 k = without D (m0 k)" if "k \<in> set ps" for k
    using that Cons.prems(1,4) m1 by auto
  then obtain rs' where "unassign q ps rs1 = Some rs'" "store_ok rs'"
      "\<forall>k. map_of rs' k = (if k \<in> set ps then without (insert q D) (m0 k) else map_of rs1 k)"
    using Cons.IH [OF _ s1] Cons.prems(1,3) by auto
  then show ?case using rp m1 Cons.prems(1) by (auto simp: rs1_def)
qed simp

lemma without_cong:
  assumes "\<And>r q. x = Some r \<Longrightarrow> q \<in> set (topicList r) \<Longrightarrow> q \<in> D \<longleftrightarrow> q \<in> D'"
  shows "without D x = without D' x"
proof (cases x)
  case (Some r)
  have "filter (\<lambda>q. q \<notin> D) (topicList r) = filter (\<lambda>q. q \<notin> D') (topicList r)"
    using assms Some by (intro filter_cong) auto
  moreover have "set (topicList r) \<inter> D = set (topicList r) \<inter> D'" "set (topicList r) \<subseteq> D \<longleftrightarrow> set (topicList r) \<subseteq> D'"
    using assms Some by blast+
  ultimately show ?thesis using Some by (simp add: without_def)
qed (simp add: without_def)

definition below :: "topic_ptr \<Rightarrow> rtTreeTopic list \<Rightarrow> topic_ptr set" where
  "below ptr cs = {q. \<exists>c\<in>set cs. prefix (ptr @ [tname c]) q}"

text \<open>The store \<open>rs\<close> is the routes of the tree without the topics in \<open>D\<close>.\<close>

definition left_of :: "rtRoutingTree \<Rightarrow> topic_ptr set \<Rightarrow> route_store \<Rightarrow> bool" where
  "left_of rt D rs \<longleftrightarrow> store_ok rs \<and> (\<forall>p. map_of rs p = without D (map_of (allRoutes rt) p))"

lemma prefix_child_inject: "prefix (p @ [a]) q \<Longrightarrow> prefix (p @ [b]) q \<Longrightarrow> a = b"
  by (auto simp: prefix_def)

lemma removeChildren_ok:
  assumes "\<And>c ptr D rs. c \<in> set cs \<Longrightarrow> topic_at (topicRoot rt) ptr = Some c \<Longrightarrow> D \<inter> {q. prefix ptr q} = {} \<Longrightarrow>
      left_of rt D rs \<Longrightarrow> \<exists>rs'. removeTopicFromRoutes ptr c rs = Some rs' \<and> left_of rt (D \<union> {q. prefix ptr q}) rs'"
    and "\<forall>c\<in>set cs. topic_at (topicRoot rt) (ptr @ [tname c]) = Some c" "distinct (map tname cs)"
    and "D \<inter> below ptr cs = {}" "left_of rt D rs"
  shows "\<exists>rs'. removeChildrenFromRoutes ptr cs rs = Some rs' \<and> left_of rt (D \<union> below ptr cs) rs'"
  using assms
proof (induction cs arbitrary: D rs)
  case Nil
  then show ?case by (simp add: below_def)
next
  case (Cons c cs)
  let ?P = "{q. prefix (ptr @ [tname c]) q}"
  have b: "below ptr (c # cs) = ?P \<union> below ptr cs" by (auto simp: below_def)
  obtain rs1 where 1: "removeTopicFromRoutes (ptr @ [tname c]) c rs = Some rs1" "left_of rt (D \<union> ?P) rs1"
    using Cons.prems(1) [of c "ptr @ [tname c]" D rs] Cons.prems(2,4,5) b by auto
  have "?P \<inter> below ptr cs = {}"
  proof (rule ccontr)
    assume "?P \<inter> below ptr cs \<noteq> {}"
    then obtain q d where "prefix (ptr @ [tname c]) q" "d \<in> set cs" "prefix (ptr @ [tname d]) q" by (auto simp: below_def)
    then show False using Cons.prems(3) prefix_child_inject by fastforce
  qed
  then have "(D \<union> ?P) \<inter> below ptr cs = {}" using Cons.prems(4) b by blast
  then obtain rs' where "removeChildrenFromRoutes ptr cs rs1 = Some rs'" "left_of rt ((D \<union> ?P) \<union> below ptr cs) rs'"
    using Cons.IH [of "D \<union> ?P" rs1] Cons.prems(1-3) 1(2) by auto
  then show ?case using 1(1) by (simp add: b Un_assoc)
qed

lemma removeTopic_ok:
  assumes "rt_inv rt"
  shows "topic_at (topicRoot rt) ptr = Some t \<Longrightarrow> D \<inter> {q. prefix ptr q} = {} \<Longrightarrow> left_of rt D rs \<Longrightarrow>
    \<exists>rs'. removeTopicFromRoutes ptr t rs = Some rs' \<and> left_of rt (D \<union> {q. prefix ptr q}) rs'"
proof (induction t arbitrary: ptr D rs)
  case (Topic n f it rl rl2 cs)
  note i = rt_invD [OF assms]
  let ?m = "map_of (allRoutes rt)"
  have ps: "routes_at (topicRoot rt) ptr = routes_of rl" using Topic.prems(1) by (simp add: routes_at_def)
  have d: "ptr \<notin> D" using Topic.prems(2) by auto
  have a: "distinct (routes_of rl)" "\<And>p. p \<in> set (routes_of rl) \<Longrightarrow> \<exists>r. ?m p = Some r \<and> ptr \<in> set (topicList r)"
  proof -
    show "distinct (routes_of rl)" using i(5) ps by metis
    show "\<exists>r. ?m p = Some r \<and> ptr \<in> set (topicList r)" if "p \<in> set (routes_of rl)" for p
      using that i(6) [of ptr] i(8) [of p _ ptr] by (auto simp: ps dom_def)
  qed
  obtain rs1 where 1: "unassign ptr (routes_of rl) rs = Some rs1" "store_ok rs1"
      "\<forall>p. map_of rs1 p = (if p \<in> set (routes_of rl) then without (insert ptr D) (?m p) else map_of rs p)"
    using unassign_ok [OF a(1) d, of rs ?m] a(2) i(7) Topic.prems(3) by (auto simp: left_of_def)
  have "map_of rs1 p = without (insert ptr D) (?m p)" for p
  proof (cases "p \<in> set (routes_of rl)")
    case False
    have "without D (?m p) = without (insert ptr D) (?m p)"
      using False i(8) ps by (intro without_cong) auto
    then show ?thesis using False 1(3) Topic.prems(3) by (simp add: left_of_def)
  qed (use 1(3) in simp)
  then have l1: "left_of rt (insert ptr D) rs1" using 1(2) by (simp add: left_of_def)
  have wf: "distinct (map tname cs)" using topic_at_wf [OF i(1) Topic.prems(1)] by simp
  have ch: "\<forall>c\<in>set cs. topic_at (topicRoot rt) (ptr @ [tname c]) = Some c"
  proof
    fix c assume "c \<in> set cs"
    then have "find (\<lambda>d. tname d = tname c) cs = Some c" using find_named [OF wf] by blast
    then show "topic_at (topicRoot rt) (ptr @ [tname c]) = Some c" using Topic.prems(1) by (simp add: topic_at_append)
  qed
  have "insert ptr D \<inter> below ptr cs = {}"
  proof -
    have "below ptr cs \<subseteq> {q. prefix ptr q}" "ptr \<notin> below ptr cs" by (auto simp: below_def prefix_def)
    then show ?thesis using Topic.prems(2) by blast
  qed
  then obtain rs' where 2: "removeChildrenFromRoutes ptr cs rs1 = Some rs'" "left_of rt (insert ptr D \<union> below ptr cs) rs'"
    using removeChildren_ok [OF Topic.IH ch wf _ l1] by blast
  have "without (insert ptr D \<union> below ptr cs) (?m p) = without (D \<union> {q. prefix ptr q}) (?m p)" for p
  proof (rule without_cong)
    fix r q assume "?m p = Some r" "q \<in> set (topicList r)"
    then have ex: "topic_at (topicRoot rt) q \<noteq> None" using i(8) routes_exist(1) by blast
    have "q = ptr \<or> q \<in> below ptr cs" if pre: "prefix ptr q"
    proof -
      obtain y where y: "q = ptr @ y" using pre by (auto simp: prefix_def)
      show ?thesis
      proof (cases y)
        case (Cons a as)
        then obtain c where "find (\<lambda>c. tname c = a) cs = Some c"
          using ex Topic.prems(1) y by (auto simp: topic_at_append split: option.splits)
        then show ?thesis using find_SomeD [of _ cs c] Cons y by (force simp: below_def)
      qed (use y in simp)
    qed
    moreover have "q \<in> below ptr cs \<Longrightarrow> prefix ptr q" by (auto simp: below_def prefix_def)
    ultimately show "q \<in> insert ptr D \<union> below ptr cs \<longleftrightarrow> q \<in> D \<union> {q. prefix ptr q}" by auto
  qed
  then have "left_of rt (D \<union> {q. prefix ptr q}) rs'" using 2(2) by (simp add: left_of_def)
  then show ?case using 1(1) 2(1) by (simp add: option_list_eq)
qed

text \<open>The loop that finds the topic: it goes where lookups go, and takes away an exact match.\<close>

lemma find_filter_named:
  "find (\<lambda>d. tname d = n) (filter (\<lambda>d. tname d \<noteq> k) cs) = (if n = k then None else find (\<lambda>d. tname d = n) cs)"
  by (induction cs) auto

definition cut :: "topic_ptr \<Rightarrow> rtTreeTopic \<Rightarrow> rtTreeTopic \<Rightarrow> bool" where
  "cut q t t' \<longleftrightarrow> wf_topic t' \<and> tname t' = tname t \<and>
     (\<forall>x. routes_at t' x = (if prefix q x then [] else routes_at t x) \<and>
          routes2_at t' x = (if prefix q x then [] else routes2_at t x))"

lemma put_back_cut:
  assumes "wf_topic t" "c \<in> set (childList t)" "cut q c c'"
  shows "cut (tname c # q) t (put_back t c c')"
proof -
  have n: "tname c' = tname c" "wf_topic c'" using assms(3) by (simp_all add: cut_def)
  note f = put_back_find [OF assms(1,2) n(1)]
  have c: "find (\<lambda>d. tname d = tname c) (childList t) = Some c"
    using assms(1,2) by (simp add: wf_topic_iff [of t] find_named)
  have "routes_at (put_back t c c') x = (if prefix (tname c # q) x then [] else routes_at t x) \<and>
     routes2_at (put_back t c c') x = (if prefix (tname c # q) x then [] else routes2_at t x)" for x
  proof (cases x)
    case (Cons a as)
    then show ?thesis using assms(3) c by (auto simp: routes_at_simps f cut_def)
  qed (simp add: routes_at_simps put_back_def)
  then show ?thesis using wf_put_back [OF assms(1) n(2,1)] by (simp add: cut_def put_back_def)
qed

lemma remove_loop_cases:
  assumes "wf_topic t" "remove_loop ptr toks t rs = Some (t', rs')"
  shows "t' = t \<and> rs' = rs \<or>
    (\<exists>q c. q \<noteq> [] \<and> topic_at t q = Some c \<and> resolve toks t = Some q \<and> removeTopicFromRoutes (ptr @ q) c rs = Some rs' \<and> cut q t t')"
  using assms
proof (induction toks arbitrary: ptr t t')
  case (Cons tok toks)
  show ?case
  proof (cases "find_child (childList t) tok")
    case None
    then show ?thesis using Cons.prems(2) by simp
  next
    case (Some cm)
    then obtain c m where f: "find_child (childList t) tok = Some (c, m)" by (cases cm) auto
    have c: "c \<in> set (childList t)" "wf_topic c" "find (\<lambda>d. tname d = tname c) (childList t) = Some c"
      using find_child_mem [OF f] Cons.prems(1) by (auto simp: wf_topic_iff [of t] find_named)
    show ?thesis
    proof (cases "toks = [] \<and> m = Exact")
      case True
      define t1 where "t1 = set_children (filter (\<lambda>d. tname d \<noteq> tname c) (childList t)) t"
      have r: "removeTopicFromRoutes (ptr @ [tname c]) c rs = Some rs'" "t' = t1"
        using Cons.prems(2) f True by (auto simp: t1_def split: option.splits bind_splits)
      have "childList t1 = filter (\<lambda>d. tname d \<noteq> tname c) (childList t)" by (simp add: t1_def)
      then have "wf_topic t1"
        using Cons.prems(1) unfolding wf_topic_iff [of t] wf_topic_iff [of t1] by (simp add: distinct_map_filter)
      moreover have "routes_at t1 x = (if prefix [tname c] x then [] else routes_at t x) \<and>
          routes2_at t1 x = (if prefix [tname c] x then [] else routes2_at t x)" for x
        by (cases x) (simp_all add: routes_at_simps t1_def find_filter_named)
      ultimately have "cut [tname c] t t1" by (simp add: cut_def t1_def)
      then show ?thesis using r c(3) f True by (intro disjI2 exI [of _ "[tname c]"] exI [of _ c]) simp
    next
      case False
      obtain c' where r: "remove_loop (ptr @ [tname c]) toks c rs = Some (c', rs')" "t' = put_back t c c'"
        using Cons.prems(2) f False by (auto simp: put_back_def split: bind_splits prod.splits)
      from Cons.IH [OF c(2) r(1)] show ?thesis
      proof (elim disjE exE conjE)
        assume "c' = c" "rs' = rs"
        then show ?thesis using r(2) put_back_same [OF Cons.prems(1) c(1)] by simp
      next
        fix q d
        assume q: "q \<noteq> []" "topic_at c q = Some d" "resolve toks c = Some q"
          "removeTopicFromRoutes ((ptr @ [tname c]) @ q) d rs = Some rs'" "cut q c c'"
        then show ?thesis
          using put_back_cut [OF Cons.prems(1) c(1) q(5)] r(2) f c(3)
          by (intro disjI2 exI [of _ "tname c # q"] exI [of _ d]) simp
      qed
    qed
  qed
qed simp

lemma remove_loop_total:
  assumes "rt_inv rt"
  shows "topic_at (topicRoot rt) ptr = Some t \<Longrightarrow> \<exists>x. remove_loop ptr toks t (allRoutes rt) = Some x"
proof (induction toks arbitrary: ptr t)
  case (Cons tok toks)
  have wf: "wf_topic t" using topic_at_wf [OF rt_invD(1) [OF assms] Cons.prems] .
  have left: "left_of rt {} (allRoutes rt)" using rt_invD(3,4) [OF assms] by (simp add: left_of_def store_ok_def)
  show ?case
  proof (cases "find_child (childList t) tok")
    case (Some cm)
    then obtain c m where f: "find_child (childList t) tok = Some (c, m)" by (cases cm) auto
    have "find (\<lambda>d. tname d = tname c) (childList t) = Some c"
      using find_child_mem [OF f] wf by (simp add: wf_topic_iff [of t] find_named)
    then have c: "topic_at (topicRoot rt) (ptr @ [tname c]) = Some c" using Cons.prems by (simp add: topic_at_append)
    then show ?thesis
      using removeTopic_ok [OF assms c _ left] Cons.IH [OF c] f by auto
  qed simp
qed simp

lemma RemoveTopic_inv:
  assumes "rt_inv rt" "rtRoutingTree_RemoveTopic rt topic = Some rt'"
  shows "rt_inv rt'" "table rt' = table rt \<or> (\<exists>q. q \<noteq> [] \<and> (\<exists>toks. tokenizeExpression topic = Some toks \<and> resolve toks (topicRoot rt) = Some q) \<and>
      table rt' = (\<lambda>x. if prefix q x then [] else table rt x))"
proof -
  note i = rt_invD [OF assms(1)]
  have left: "left_of rt {} (allRoutes rt)" using i(3,4) by (simp add: left_of_def store_ok_def)
  obtain toks root rs where r: "remove_loop [] toks (topicRoot rt) (allRoutes rt) = Some (root, rs)"
      "rt' = \<lparr>topicRoot = root, allRoutes = rs\<rparr>" "tokenizeExpression topic = Some toks"
    using assms(2) by (auto simp: rtRoutingTree_RemoveTopic_def split: bind_splits)
  from remove_loop_cases [OF i(1) r(1)]
  have "rt_inv rt' \<and> (table rt' = table rt \<or> (\<exists>q. q \<noteq> [] \<and> (\<exists>toks. tokenizeExpression topic = Some toks \<and> resolve toks (topicRoot rt) = Some q) \<and>
      table rt' = (\<lambda>x. if prefix q x then [] else table rt x)))"
  proof (elim disjE exE conjE)
    assume "root = topicRoot rt" "rs = allRoutes rt"
    then have "rt' = rt" using r(2) by (cases rt) simp
    then show ?thesis using assms(1) by simp
  next
    fix q c
    assume q: "q \<noteq> []" "topic_at (topicRoot rt) q = Some c" "removeTopicFromRoutes ([] @ q) c (allRoutes rt) = Some rs"
      "cut q (topicRoot rt) root" and res: "resolve toks (topicRoot rt) = Some q"
    let ?D = "{x. prefix q x}"
    have l: "store_ok rs" "\<And>p. map_of rs p = without ?D (map_of (allRoutes rt) p)"
      using removeTopic_ok [OF assms(1) q(2) _ left] q(3) by (auto simp: left_of_def)
    have ra: "routes_at root x = (if prefix q x then [] else routes_at (topicRoot rt) x)"
        "routes2_at root x = (if prefix q x then [] else routes2_at (topicRoot rt) x)" for x
      using q(4) by (auto simp: cut_def)
    have kept: "\<exists>r'. map_of rs p = Some r' \<and> rdata r' = rdata r" if "map_of (allRoutes rt) p = Some r"
      "p \<in> set (routes_at (topicRoot rt) x)" "\<not> prefix q x" for p r x
    proof -
      have "x \<in> set (topicList r)" using i(8) that(1,2) by blast
      then show ?thesis using that(1,3) l(2) [of p] by (auto simp: without_def)
    qed
    have "rt_inv rt'"
      unfolding rt_inv_def r(2) rtRoutingTree.simps
    proof (intro conjI allI impI)
      show "wf_topic root" using q(4) by (simp add: cut_def)
      show "routes_at root [] = []" using i(2) by (simp add: ra)
      show "distinct (map fst rs)" "distinct (map (rdata \<circ> snd) rs)" using l(1) by (auto simp: store_ok_def)
      show "distinct (routes_at root x)" for x using i(5) by (simp add: ra)
      show "set (routes_at root x) \<subseteq> dom (map_of rs)" for x
      proof
        fix p assume p: "p \<in> set (routes_at root x)"
        then have x: "\<not> prefix q x" "p \<in> set (routes_at (topicRoot rt) x)" by (auto simp: ra split: if_splits)
        then obtain r where "map_of (allRoutes rt) p = Some r" using i(6) [of x] by auto
        then show "p \<in> dom (map_of rs)" using kept [OF _ x(2,1)] by auto
      qed
      show "distinct (topicList y)" if "map_of rs p = Some y" for p y
        using that i(7) l(2) [of p] by (auto simp: without_def split: option.splits if_splits)
      show "set (topicList y) = {x. p \<in> set (routes_at root x)}" if "map_of rs p = Some y" for p y
        using that i(8) l(2) [of p] by (auto simp: without_def ra split: option.splits if_splits)
      show "distinct (routes2_at root x)" for x using i(9) by (simp add: ra)
      show "p \<in> set (routes2_at root x)" if "x \<noteq> []" "ns \<noteq> []" "p \<in> set (routes_at root (x @ ns))" for x ns p
      proof -
        have "\<not> prefix q (x @ ns)" "p \<in> set (routes_at (topicRoot rt) (x @ ns))" using that(3) by (auto simp: ra split: if_splits)
        then show ?thesis using i(10) [OF that(1,2)] by (auto simp: ra)
      qed
    qed
    moreover have "table rt' = (\<lambda>x. if prefix q x then [] else table rt x)"
    proof
      fix x
      have "map_option rdata (map_of rs p) = map_option rdata (map_of (allRoutes rt) p)"
        if p: "p \<in> set (routes_at (topicRoot rt) x)" "\<not> prefix q x" for p
      proof -
        obtain r where r: "map_of (allRoutes rt) p = Some r" using p(1) i(6) [of x] by (auto simp: dom_def)
        then show ?thesis using kept [OF r p] by auto
      qed
      then show "table rt' x = (if prefix q x then [] else table rt x)" by (auto simp: table_def r(2) ra)
    qed
    ultimately show ?thesis using q(1) r(3) res by blast
  qed
  then show "rt_inv rt'" "table rt' = table rt \<or> (\<exists>q. q \<noteq> [] \<and> (\<exists>toks. tokenizeExpression topic = Some toks \<and> resolve toks (topicRoot rt) = Some q) \<and>
      table rt' = (\<lambda>x. if prefix q x then [] else table rt x))"
    by blast+
qed

end
