(* ===== verification/RT_Routing.thy ===== *)
theory RT_Routing
  imports RT_RoutingTree
begin

text \<open>
  What the routing tree promises the broker: which expressions its tokenizer can take, that adding
  and removing routes are updates of the routing table, that what was added is found again, and
  that the tree stays consistent along every sequence of operations; and the places where it does
  not keep its word.
\<close>

section \<open>Expressions\<close>

text \<open>The tokens of an expression, joined again.\<close>

fun join_tokens :: "string list \<Rightarrow> string" where
  "join_tokens [] = []"
| "join_tokens [t] = t"
| "join_tokens (t # ts) = t @ CHR ''.'' # join_tokens ts"

declare tokenize_loop.simps [simp del]

lemma tokenize_loop_ok:
  "i + count_list cs CHR ''.'' + 1 \<le> MAX_TOKENS \<Longrightarrow> n + length cs + 1 \<le> MAX_TOKEN_BUFFER_SIZE \<Longrightarrow>
   \<exists>toks. tokenize_loop cs i n = Some toks \<and> (\<forall>t\<in>set toks. CHR ''.'' \<notin> set t) \<and>
     (cs = join_tokens toks \<or> cs = join_tokens toks @ ''.'') \<and> (toks = [] \<longleftrightarrow> cs = [])"
proof (induction cs i n rule: tokenize_loop.induct)
  case (1 cs i n)
  show ?case
  proof (cases "cs = []")
    case True
    then show ?thesis by (subst tokenize_loop.simps) simp
  next
    case False
    define tok rest where "tok = takeWhile (\<lambda>c. c \<noteq> CHR ''.'') cs" and "rest = dropWhile (\<lambda>c. c \<noteq> CHR ''.'') cs"
    have cs: "cs = tok @ rest" by (simp add: tok_def rest_def)
    have nd: "CHR ''.'' \<notin> set tok" by (auto simp: tok_def dest: set_takeWhileD)
    have i: "\<not> MAX_TOKENS \<le> i" using 1(2) by simp
    have n: "\<not> n + length tok + 1 > MAX_TOKEN_BUFFER_SIZE" using 1(3) by (simp add: cs)
    have step: "tokenize_loop cs i n = do { toks \<leftarrow> tokenize_loop (tl rest) (i + 1) (n + length tok + 1); Some (tok # toks) }"
      using False i n by (subst tokenize_loop.simps) (simp add: Let_def tok_def rest_def)
    have ct: "count_list tok CHR ''.'' = 0" using nd by (simp add: count_notin)
    show ?thesis
    proof (cases rest)
      case Nil
      then have "tokenize_loop cs i n = Some [tok]" using step by (subst (asm) tokenize_loop.simps) simp
      then show ?thesis using cs Nil nd False by simp
    next
      case (Cons d rest')
      then have d: "d = CHR ''.''" unfolding rest_def by (metis (mono_tags) dropWhile_eq_Cons_conv)
      have "i + 1 + count_list rest' CHR ''.'' + 1 \<le> MAX_TOKENS" "n + length tok + 1 + length rest' + 1 \<le> MAX_TOKEN_BUFFER_SIZE"
        using 1(2,3) ct unfolding cs Cons d by simp_all
      then obtain toks where t: "tokenize_loop rest' (i + 1) (n + length tok + 1) = Some toks"
          "\<forall>t\<in>set toks. CHR ''.'' \<notin> set t" "rest' = join_tokens toks \<or> rest' = join_tokens toks @ ''.''"
          "toks = [] \<longleftrightarrow> rest' = []"
        using 1(1) [OF False i tok_def rest_def refl n] Cons by auto
      have "cs = join_tokens (tok # toks) \<or> cs = join_tokens (tok # toks) @ ''.''"
        using t(3,4) cs Cons d by (cases toks) auto
      then show ?thesis using step t(1,2) nd Cons False by simp
    qed
  qed
qed

text \<open>
  C7. An expression shorter than the token buffer, with fewer dots than there are places for
  tokens, is split at its dots without leaving either: joining the tokens gives the expression
  back, up to a trailing dot, and no token contains a dot.
\<close>

theorem Tokenize_safe:
  assumes "length expr < MAX_TOKEN_BUFFER_SIZE" "count_list expr CHR ''.'' < MAX_TOKENS"
  shows "\<exists>toks. tokenizeExpression expr = Some toks \<and> (\<forall>t\<in>set toks. CHR ''.'' \<notin> set t) \<and>
    (expr = join_tokens toks \<or> expr = join_tokens toks @ ''.'') \<and> (toks = [] \<longleftrightarrow> expr = [])"
  using tokenize_loop_ok [of 0 expr 0] assms by (simp add: tokenizeExpression_def)

theorem Tokenize_safe_witness:
  "\<exists>toks. tokenizeExpression ''A.B.'' = Some toks \<and> (\<forall>t\<in>set toks. CHR ''.'' \<notin> set t) \<and>
    (''A.B.'' = join_tokens toks \<or> ''A.B.'' = join_tokens toks @ ''.'') \<and> (toks = [] \<longleftrightarrow> ''A.B.'' = [])"
  by (rule Tokenize_safe) (simp_all add: MAX_TOKEN_BUFFER_SIZE_def MAX_TOKENS_def)

lemma validate_replicate:
  "c \<noteq> CHR ''.'' \<Longrightarrow> validate_loop (replicate k c) tc len = (0, tc, len + k)"
  by (induction k arbitrary: len) simp_all

definition dotted :: "nat \<Rightarrow> string" where
  "dotted k = concat (replicate k ''a.'') @ ''a''"

lemma dotted_Suc: "dotted (Suc k) = CHR ''a'' # CHR ''.'' # dotted k"
  by (simp add: dotted_def)

lemma first_dotted: "first_char (dotted k) = CHR ''a''"
  by (cases k) (simp_all add: dotted_def first_char_def)

lemma validate_dotted: "validate_loop (dotted k) tc len = (0, tc + k, len + 2 * k + 1)"
proof (induction k arbitrary: tc len)
  case 0
  then show ?case by (simp add: dotted_def first_char_def)
next
  case (Suc k)
  then show ?case by (simp add: dotted_Suc first_dotted)
qed

lemma tokenize_dotted: "i \<le> MAX_TOKENS \<Longrightarrow> MAX_TOKENS \<le> i + k \<Longrightarrow> tokenize_loop (dotted k) i n = None"
proof (induction k arbitrary: i n)
  case 0
  then show ?case by (subst tokenize_loop.simps) (simp add: dotted_def)
next
  case (Suc k)
  then show ?case by (subst tokenize_loop.simps) (auto simp: dotted_Suc Let_def)
qed

text \<open>
  The check before registering lets two kinds of expression through that the tokenizer
  cannot take: one of exactly 512 characters, whose terminator is written behind the buffer, and
  one of 33 tokens, the last of which is recorded behind the array.
\<close>

theorem Tokenize_overflow:
  "validateExpression (replicate 512 CHR ''a'') = 0 \<and> tokenizeExpression (replicate 512 CHR ''a'') = None \<and>
   validateExpression (dotted 32) = 0 \<and> tokenizeExpression (dotted 32) = None"
proof -
  have "tokenize_loop (replicate 512 CHR ''a'') 0 0 = None"
  proof -
    have "takeWhile (\<lambda>c. c \<noteq> CHR ''.'') (replicate k CHR ''a'') = replicate k CHR ''a''" for k
      by (induction k) simp_all
    then show ?thesis by (subst tokenize_loop.simps) (simp add: Let_def MAX_TOKEN_BUFFER_SIZE_def MAX_TOKENS_def)
  qed
  then show ?thesis
    using tokenize_dotted [of 0 32 0]
    by (simp add: validateExpression_def tokenizeExpression_def validate_replicate validate_dotted
        MAX_TOKEN_BUFFER_SIZE_def MAX_TOKENS_def)
qed

section \<open>Adding, looking up and removing\<close>

text \<open>
  How the broker adds routes: a subscription comes with a route of its own, an alias of an
  existing route is added with the check for duplicates.
\<close>

definition add_discipline :: "rtRoutingTree \<Rightarrow> string \<Rightarrow> addr \<Rightarrow> bool \<Rightarrow> bool" where
  "add_discipline rt topic data dup \<longleftrightarrow>
     dup \<and> topic \<noteq> ''_RTROUTED.ADVISORY'' \<or> getTreeRoute (allRoutes rt) data = None"

lemma AddTopicRoute_step:
  assumes "rt_inv rt" "new \<notin> dom (map_of (allRoutes rt))" "add_discipline rt topic data dup"
    and "rtRoutingTree_AddTopicRoute new rt topic data dup = Some (rc, rt')"
  shows "rt_inv rt'" "partial_sound rt \<Longrightarrow> partial_sound rt'"
    "rc \<noteq> RT_OK \<Longrightarrow> table rt' = table rt \<and> topicRoot rt' = topicRoot rt"
    "rc = RT_OK \<Longrightarrow> topic \<noteq> [] \<Longrightarrow> \<exists>toks ptr. tokenizeExpression topic = Some toks \<and>
      resolve toks (topicRoot rt') = Some ptr \<and> table rt' = (table rt)(ptr := table rt ptr @ [Some data])"
    "resolve toks' (topicRoot rt) = Some q \<Longrightarrow> resolve toks' (topicRoot rt') = Some q"
proof -
  obtain r rs where g: "get_or_make new (allRoutes rt) data = (r, rs)" by (cases "get_or_make new (allRoutes rt) data")
  let ?rt1 = "rt\<lparr>allRoutes := rs\<rparr>"
  note i = rt_invD [OF assms(1)]
  note g1 = get_or_make_inv [OF assms(1,2) g] and g2 = get_or_make_ok [OF i(3,4) assms(2) g]
  have codes: "RT_ERROR_INVALID_EXPRESSION \<noteq> RT_OK" "RT_ERROR_PROTOCOL_ERROR \<noteq> RT_OK" "RT_ERROR_DUPLICATE_ENTRY \<noteq> RT_OK"
    by (simp_all add: RT_ERROR_INVALID_EXPRESSION_def RT_ERROR_PROTOCOL_ERROR_def RT_ERROR_DUPLICATE_ENTRY_def RT_OK_def)
  have s1: "partial_sound rt \<Longrightarrow> partial_sound ?rt1" by (simp add: partial_sound_def)
  from i(1) assms(4) g have "rt_inv rt' \<and> (partial_sound rt \<longrightarrow> partial_sound rt') \<and>
    (rc \<noteq> RT_OK \<longrightarrow> table rt' = table rt \<and> topicRoot rt' = topicRoot rt) \<and>
    (rc = RT_OK \<and> topic \<noteq> [] \<longrightarrow> (\<exists>toks ptr. tokenizeExpression topic = Some toks \<and>
      resolve toks (topicRoot rt') = Some ptr \<and> table rt' = (table rt)(ptr := table rt ptr @ [Some data]))) \<and>
    (\<forall>toks' q. resolve toks' (topicRoot rt) = Some q \<longrightarrow> resolve toks' (topicRoot rt') = Some q)"
  proof (cases rule: AddTopicRoute_cases)
    case empty
    have "topic = []"
    proof (rule ccontr)
      assume "topic \<noteq> []"
      then have "tokenizeExpression topic \<noteq> Some []"
        unfolding tokenizeExpression_def by (subst tokenize_loop.simps) (auto simp: Let_def split: bind_splits)
      then show False using empty(3) by simp
    qed
    then show ?thesis using empty assms(1) by simp
  next
    case (added toks ptr root)
    obtain x where x: "map_of (allRoutes ?rt1) r = Some x" "rdata x = data" using g2(4) by auto
    have "r \<notin> set (routes_at (topicRoot ?rt1) ptr)"
    proof (cases "getTreeRoute (allRoutes rt) data = None")
      case True
      then show ?thesis using g2(5) new_unassigned [OF assms(1,2)] by simp
    next
      case False
      then show ?thesis using added(7) assms(3) by (auto simp: add_discipline_def)
    qed
    note a = added_ok [OF g1(1) x _ added(5) this, of toks _ root rt']
    show ?thesis using a added(1,2,4,6) g1(2) s1 by auto
  qed (use codes g1 s1 assms(1) in auto)
  then show "rt_inv rt'" "partial_sound rt \<Longrightarrow> partial_sound rt'"
    "rc \<noteq> RT_OK \<Longrightarrow> table rt' = table rt \<and> topicRoot rt' = topicRoot rt"
    "rc = RT_OK \<Longrightarrow> topic \<noteq> [] \<Longrightarrow> \<exists>toks ptr. tokenizeExpression topic = Some toks \<and>
      resolve toks (topicRoot rt') = Some ptr \<and> table rt' = (table rt)(ptr := table rt ptr @ [Some data])"
    "resolve toks' (topicRoot rt) = Some q \<Longrightarrow> resolve toks' (topicRoot rt') = Some q"
    by blast+
qed

lemma AddTopicRoute_total:
  assumes "rt_inv rt" "length topic < MAX_TOKEN_BUFFER_SIZE" "count_list topic CHR ''.'' < MAX_TOKENS"
  shows "\<exists>x. rtRoutingTree_AddTopicRoute new rt topic data dup = Some x"
proof -
  obtain toks where t: "tokenizeExpression topic = Some toks"
    using tokenize_loop_ok [of 0 topic 0] assms(2,3) by (auto simp: tokenizeExpression_def)
  have "topic_at root ptr \<noteq> None" if "add_loop toks False (topicRoot rt) = (Some (ptr, cr), root)" for ptr cr root
    using add_loop_walked [OF rt_invD(1) [OF assms(1)] that] by (simp add: walked_def)
  then show ?thesis
    by (auto simp: rtRoutingTree_AddTopicRoute_def t Let_def split: option.splits prod.splits)
qed

text \<open>
  C2. Adding a route to a topic, on a consistent tree: for every expression the tokenizer can
  take it returns; when it succeeds, the expression leads to one topic and the routing table
  changes there only, by the new route at the end; when it reports an error (an invalid
  expression, a topic registered already, a conflict with a table) neither the table nor the
  topics change; and the tree stays consistent.
\<close>

theorem AddTopicRoute_correct:
  assumes "rt_inv rt" "new \<notin> dom (map_of (allRoutes rt))" "add_discipline rt topic data dup"
    and "topic \<noteq> []" "length topic < MAX_TOKEN_BUFFER_SIZE" "count_list topic CHR ''.'' < MAX_TOKENS"
  shows "\<exists>rc rt'. rtRoutingTree_AddTopicRoute new rt topic data dup = Some (rc, rt') \<and> rt_inv rt' \<and>
    (if rc = RT_OK
     then \<exists>toks ptr. tokenizeExpression topic = Some toks \<and> resolve toks (topicRoot rt') = Some ptr \<and>
       table rt' = (table rt)(ptr := table rt ptr @ [Some data])
     else table rt' = table rt \<and> topicRoot rt' = topicRoot rt)"
proof -
  obtain rc rt' where r: "rtRoutingTree_AddTopicRoute new rt topic data dup = Some (rc, rt')"
    using AddTopicRoute_total [OF assms(1,5,6), of new data dup] by auto
  show ?thesis using AddTopicRoute_step [OF assms(1-3) r] assms(4) r by (intro exI [of _ rc] exI [of _ rt']) auto
qed

lemma Create_inv: "rt_inv rtRoutingTree_Create" "partial_sound rtRoutingTree_Create"
proof -
  have "routes_at (topicRoot rtRoutingTree_Create) q = []" "routes2_at (topicRoot rtRoutingTree_Create) q = []" for q
    by (cases q; simp add: rtRoutingTree_Create_def routes_at_simps)+
  then show "rt_inv rtRoutingTree_Create" "partial_sound rtRoutingTree_Create"
    by (simp_all add: rt_inv_def partial_sound_def) (simp_all add: rtRoutingTree_Create_def)
qed

theorem AddTopicRoute_correct_witness:
  "\<exists>rc rt'. rtRoutingTree_AddTopicRoute 1 rtRoutingTree_Create ''A.B'' 7 True = Some (rc, rt') \<and> rt_inv rt' \<and>
    (if rc = RT_OK
     then \<exists>toks ptr. tokenizeExpression ''A.B'' = Some toks \<and> resolve toks (topicRoot rt') = Some ptr \<and>
       table rt' = (table rtRoutingTree_Create)(ptr := table rtRoutingTree_Create ptr @ [Some 7])
     else table rt' = table rtRoutingTree_Create \<and> topicRoot rt' = topicRoot rtRoutingTree_Create)"
  by (rule AddTopicRoute_correct)
    (use Create_inv in \<open>simp_all add: add_discipline_def MAX_TOKEN_BUFFER_SIZE_def MAX_TOKENS_def rtRoutingTree_Create_def\<close>)

lemma GetTopicRoutes_direct:
  assumes "wf_topic (topicRoot rt)" "tokenizeExpression topic = Some toks" "toks \<noteq> []"
    and "resolve toks (topicRoot rt) = Some ptr" "topic_at (topicRoot rt) ptr = Some x" "last topic \<noteq> CHR ''.''" "\<not> isTable x"
  shows "rtRoutingTree_GetTopicRoutes rt topic = Some (routeList x)"
  using assms lookup_resolve [OF assms(1), of toks] by (simp add: rtRoutingTree_GetTopicRoutes_def)

definition leads_to_table :: "rtRoutingTree \<Rightarrow> string \<Rightarrow> bool" where
  "leads_to_table rt topic =
     (case tokenizeExpression topic of
        None \<Rightarrow> False
      | Some toks \<Rightarrow> (case lookup_loop toks (topicRoot rt) of None \<Rightarrow> False | Some x \<Rightarrow> isTable x))"

definition route_data :: "rtRoutingTree \<Rightarrow> route_ptr list \<Rightarrow> addr option list" where
  "route_data rt ps = map (\<lambda>p. map_option rdata (map_of (allRoutes rt) p)) ps"



text \<open>
  C4. Removing a route takes it out of every topic, leaves all other routes of every topic in
  their order, forgets the route itself, and keeps the tree consistent.
\<close>

theorem RemoveRoute_correct:
  assumes "rt_inv rt"
  shows "rt_inv (rtRoutingTree_RemoveRoute rt data) \<and>
    table (rtRoutingTree_RemoveRoute rt data) = (\<lambda>q. filter (\<lambda>d. d \<noteq> Some data) (table rt q)) \<and>
    rtRoutingTree_GetRouteTopics (rtRoutingTree_RemoveRoute rt data) data = None"
  using RemoveRoute_inv [OF assms refl, of data] by (auto simp: rtRoutingTree_GetRouteTopics_def)

theorem RemoveRoute_correct_witness:
  "table (rtRoutingTree_RemoveRoute rtRoutingTree_Create 7) = (\<lambda>q. filter (\<lambda>d. d \<noteq> Some 7) (table rtRoutingTree_Create q))"
  using RemoveRoute_correct [OF Create_inv(1), of 7] by blast

section \<open>Partial paths\<close>

lemma route_names_ok:
  assumes "\<And>p. p \<in> set ps \<Longrightarrow> \<exists>n. route_name rt p = Some n"
  shows "\<exists>ns. route_names rt ps = Some ns \<and> list_all2 (\<lambda>p n. route_name rt p = Some n) ps ns"
  using assms
proof (induction ps)
  case (Cons p ps)
  then obtain ns where "route_names rt ps = Some ns" "list_all2 (\<lambda>p n. route_name rt p = Some n) ps ns" by auto
  moreover obtain n where "route_name rt p = Some n" using Cons.prems by auto
  ultimately show ?case by auto
qed simp

lemma route_name_ok:
  assumes "rt_inv rt" "p \<in> set (routes_at (topicRoot rt) q)"
  shows "\<exists>r x q0. map_of (allRoutes rt) p = Some r \<and> topic_at (topicRoot rt) q0 = Some x \<and>
    p \<in> set (routes_at (topicRoot rt) q0) \<and> route_name rt p = Some (fullName x)"
proof -
  note i = rt_invD [OF assms(1)]
  obtain r where r: "map_of (allRoutes rt) p = Some r" using i(6) [of q] assms(2) by auto
  have "q \<in> set (topicList r)" using i(8) [OF r] assms(2) by blast
  then obtain q0 qs where q0: "topicList r = q0 # qs" by (cases "topicList r") auto
  have a: "p \<in> set (routes_at (topicRoot rt) q0)" using i(8) [OF r, of q0] q0 by simp
  then obtain x where "topic_at (topicRoot rt) q0 = Some x" using routes_exist(1) by blast
  then show ?thesis using r q0 a by (auto simp: route_name_def)
qed


definition demo_tree :: rtRoutingTree where
  "demo_tree = snd (the (rtRoutingTree_AddTopicRoute 1 rtRoutingTree_Create ''A.B'' 7 True))"

lemma demo_tree_add: "rtRoutingTree_AddTopicRoute 1 rtRoutingTree_Create ''A.B'' 7 True = Some (RT_OK, demo_tree)"
  unfolding demo_tree_def by code_simp

lemma demo_tree_fresh: "1 \<notin> dom (map_of (allRoutes rtRoutingTree_Create))" "add_discipline rtRoutingTree_Create ''A.B'' 7 True"
  by (simp_all add: rtRoutingTree_Create_def add_discipline_def)

lemmas demo_tree_inv = AddTopicRoute_step(1) [OF Create_inv(1) demo_tree_fresh demo_tree_add]
  AddTopicRoute_step(2) [OF Create_inv(1) demo_tree_fresh demo_tree_add Create_inv(2)]


section \<open>Sequences of operations\<close>

text \<open>
  The broker changes the tree in three ways: it adds a route, it removes the route of a client
  that has gone, and it removes a topic. The store hands out a route object that is not in use.
\<close>

inductive rt_step :: "rtRoutingTree \<Rightarrow> rtRoutingTree \<Rightarrow> bool" where
  add: "new \<notin> dom (map_of (allRoutes rt)) \<Longrightarrow> add_discipline rt topic data dup \<Longrightarrow>
    rtRoutingTree_AddTopicRoute new rt topic data dup = Some (rc, rt') \<Longrightarrow> rt_step rt rt'"
| remove_route: "rt_step rt (rtRoutingTree_RemoveRoute rt data)"
| remove_topic: "rtRoutingTree_RemoveTopic rt topic = Some rt' \<Longrightarrow> rt_step rt rt'"

inductive rt_reachable :: "rtRoutingTree \<Rightarrow> bool" where
  start: "rt_reachable rtRoutingTree_Create"
| step: "rt_reachable rt \<Longrightarrow> rt_step rt rt' \<Longrightarrow> rt_reachable rt'"

inductive_cases rt_stepE: "rt_step rt rt'"

lemma rt_step_inv: "rt_step rt rt' \<Longrightarrow> rt_inv rt \<Longrightarrow> rt_inv rt'"
  by (erule rt_stepE) (auto dest: AddTopicRoute_step(1) RemoveRoute_inv(1) RemoveTopic_inv(1))

lemma rt_reachable_inv: "rt_reachable rt \<Longrightarrow> rt_inv rt"
  by (induction rule: rt_reachable.induct) (auto intro: Create_inv rt_step_inv)

lemma routes_live:
  assumes "rt_inv rt" "p \<in> set (routes_at (topicRoot rt) q)"
  shows "\<exists>r. map_of (allRoutes rt) p = Some r \<and> q \<in> set (topicList r)"
  using rt_invD(6,8) [OF assms(1)] assms(2) by blast

lemma table_live: "rt_inv rt \<Longrightarrow> None \<notin> set (table rt q)"
  using routes_live by (fastforce simp: table_def)

lemma lookup_routes_live:
  assumes "rt_inv rt" "lookup_loop toks (topicRoot rt) = Some x" "p \<in> set (routes_of (routeList x))"
  shows "p \<in> dom (map_of (allRoutes rt))"
proof -
  obtain q where "resolve toks (topicRoot rt) = Some q" "topic_at (topicRoot rt) q = Some x"
    using lookup_resolve [OF rt_invD(1) [OF assms(1)], of toks] assms(2) by (auto split: option.splits)
  then show ?thesis using assms(1,3) rt_invD(6) [OF assms(1), of q] by (auto simp: routes_at_def)
qed

lemma lookup_loop_snoc:
  "lookup_loop (toks @ [tok]) t = (case lookup_loop toks t of None \<Rightarrow> None | Some x \<Rightarrow> fst (getChildByName x tok False))"
proof (induction toks arbitrary: t)
  case Nil
  then show ?case by (cases "getChildByName t tok False"; cases "fst (getChildByName t tok False)") auto
next
  case (Cons a toks)
  then show ?case by (auto split: prod.splits option.splits)
qed

lemma GetTopicRoutes_live:
  assumes "rt_inv rt" "rtRoutingTree_GetTopicRoutes rt topic = Some (Some ps)" "last topic \<noteq> CHR ''.''"
  shows "set ps \<subseteq> dom (map_of (allRoutes rt))"
proof -
  obtain toks x where t: "lookup_loop toks (topicRoot rt) = Some x" "routeList x = Some ps \<and> \<not> isTable x \<or>
      isTable x \<and> (\<exists>c u. getChildByName x ''{i}'' False = (Some c, u) \<and> routeList c = Some ps)"
    using assms(2,3) by (auto simp: rtRoutingTree_GetTopicRoutes_def split: bind_splits if_splits option.splits prod.splits)
  then consider "routeList x = Some ps" | c where "lookup_loop (toks @ [''{i}'']) (topicRoot rt) = Some c" "routeList c = Some ps"
    by (auto simp: lookup_loop_snoc)
  then show ?thesis
    using lookup_routes_live [OF assms(1)] t(1) by cases (metis routes_of_simps(2) subsetI)+
qed


definition demo_removed :: rtRoutingTree where
  "demo_removed = the (rtRoutingTree_RemoveTopic demo_tree ''A.B'')"

lemma demo_reachable: "rt_reachable demo_tree" "rt_reachable demo_removed"
proof -
  show a: "rt_reachable demo_tree"
    by (rule rt_reachable.step [OF rt_reachable.start rt_step.add [OF demo_tree_fresh demo_tree_add]])
  have "rtRoutingTree_RemoveTopic demo_tree ''A.B'' = Some demo_removed" unfolding demo_removed_def by code_simp
  then show "rt_reachable demo_removed" by (rule rt_reachable.step [OF a rt_step.remove_topic])
qed




section \<open>Where the tree does not keep its word\<close>

text \<open>Operations one after the other, stopping at the first that does not return.\<close>

datatype rt_op = Add route_ptr string addr bool | DelRoute addr | DelTopic string

fun rt_run :: "rt_op list \<Rightarrow> rtRoutingTree \<Rightarrow> rtRoutingTree option" where
  "rt_run [] rt = Some rt"
| "rt_run (Add new topic data dup # ops) rt =
     do { (rc, rt') \<leftarrow> rtRoutingTree_AddTopicRoute new rt topic data dup; rt_run ops rt' }"
| "rt_run (DelRoute data # ops) rt = rt_run ops (rtRoutingTree_RemoveRoute rt data)"
| "rt_run (DelTopic topic # ops) rt = do { rt' \<leftarrow> rtRoutingTree_RemoveTopic rt topic; rt_run ops rt' }"

text \<open>
  A topic whose only route was removed cannot be registered again while a topic below it is
  in use: the check for duplicates looks at whether the topic ever had a list of routes, not at
  whether the list is empty.
\<close>

theorem Reregistration_refused:
  "\<exists>rt. rt_run [Add 1 ''A.B'' 11 True, Add 2 ''A.B.C'' 12 True, DelRoute 11] rtRoutingTree_Create = Some rt \<and>
     table rt [''A'', ''B''] = [] \<and>
     map_option fst (rtRoutingTree_AddTopicRoute 3 rt ''A.B'' 13 True) = Some RT_ERROR_DUPLICATE_ENTRY"
proof -
  define rt where "rt = the (rt_run [Add 1 ''A.B'' 11 True, Add 2 ''A.B.C'' 12 True, DelRoute 11] rtRoutingTree_Create)"
  have "rt_run [Add 1 ''A.B'' 11 True, Add 2 ''A.B.C'' 12 True, DelRoute 11] rtRoutingTree_Create = Some rt"
    unfolding rt_def by code_simp
  moreover have "table rt [''A'', ''B''] = []" unfolding rt_def by code_simp
  moreover have "map_option fst (rtRoutingTree_AddTopicRoute 3 rt ''A.B'' 13 True) = Some RT_ERROR_DUPLICATE_ENTRY"
    unfolding rt_def by code_simp
  ultimately show ?thesis by blast
qed

text \<open>
  After a topic is removed, the topics above it still list its route for partial paths: when
  that was the last topic of the route, the route has been freed, and the lookup of the path
  returns it nevertheless, and resolving the path reads it.
\<close>

theorem Partial_path_dangling:
  "\<exists>rt. rt_run [Add 1 ''A.B.C'' 11 True, DelTopic ''A.B.C''] rtRoutingTree_Create = Some rt \<and>
     map_of (allRoutes rt) 1 = None \<and>
     rtRoutingTree_GetTopicRoutes rt ''A.B.'' = Some (Some [1]) \<and> rtRoutingTree_ResolvePartialPath rt ''A.B.'' = None"
proof -
  define rt where "rt = the (rt_run [Add 1 ''A.B.C'' 11 True, DelTopic ''A.B.C''] rtRoutingTree_Create)"
  have "rt_run [Add 1 ''A.B.C'' 11 True, DelTopic ''A.B.C''] rtRoutingTree_Create = Some rt"
    unfolding rt_def by code_simp
  moreover have "map_of (allRoutes rt) 1 = None" unfolding rt_def by code_simp
  moreover have "rtRoutingTree_GetTopicRoutes rt ''A.B.'' = Some (Some [1])" unfolding rt_def by code_simp
  moreover have "rtRoutingTree_ResolvePartialPath rt ''A.B.'' = None" unfolding rt_def by code_simp
  ultimately show ?thesis by blast
qed

text \<open>
  A table stays a table when its rows are gone: the lookup of its own name then finds no
  route, although one is assigned to it.
\<close>

theorem Table_flag_stale:
  "\<exists>rt. rt_run [Add 1 ''A.T'' 11 True, Add 2 ''A.T.{i}'' 12 True, DelRoute 12] rtRoutingTree_Create = Some rt \<and>
     table rt [''A'', ''T''] = [Some 11] \<and> rtRoutingTree_GetTopicRoutes rt ''A.T'' = Some None"
proof -
  define rt where "rt = the (rt_run [Add 1 ''A.T'' 11 True, Add 2 ''A.T.{i}'' 12 True, DelRoute 12] rtRoutingTree_Create)"
  have "rt_run [Add 1 ''A.T'' 11 True, Add 2 ''A.T.{i}'' 12 True, DelRoute 12] rtRoutingTree_Create = Some rt"
    unfolding rt_def by code_simp
  moreover have "table rt [''A'', ''T''] = [Some 11]" unfolding rt_def by code_simp
  moreover have "rtRoutingTree_GetTopicRoutes rt ''A.T'' = Some None" unfolding rt_def by code_simp
  ultimately show ?thesis by blast
qed

end
