(* ===== verification/RB_Heap.thy ===== *)
theory RB_Heap
  imports RB_Value
begin

text \<open>
  Reference-counted values, properties and objects: \<^verbatim>\<open>src/src/rtmessage/rtRetainable.c\<close> and the
  destructors of \<^verbatim>\<open>rbus_value.c\<close>, \<^verbatim>\<open>rbus_property.c\<close> and \<^verbatim>\<open>rbus_object.c\<close>, on an explicit heap.
  The invariant \<open>heap_inv h ext\<close> says that the count of every cell is the number of references to it:
  those stored in other cells and the \<open>ext\<close> ones held outside the heap. Releasing a reference
  somebody holds then never touches freed memory and keeps the invariant; and nothing is left of a
  heap without cycles once all references are given back.
\<close>

section \<open>Cells\<close>

text \<open>
  A pointer is \<open>None\<close> for NULL or the address of a cell. Addresses of freed cells are not used
  again, so that every access to freed memory shows. A value holds data of its own, or a counted
  reference to a property or an object. The parent pointer of an object is not counted.
\<close>

type_synonym ptr = "addr option"

datatype content = Plain rbusData | PropertyRef ptr | ObjectRef ptr

datatype node =
    NValue (n_content: content)
  | NProperty (n_pname: "string option") (n_value: ptr) (n_next: ptr)
  | NObject (n_oname: "string option") (n_otype: rbusObjectType) (n_properties: ptr)
      (n_parent: ptr) (n_children: ptr) (n_sibling: ptr)

record cell =
  refCount :: int
  node :: node

type_synonym heap = "cell option list"

definition cell_at :: "heap \<Rightarrow> addr \<Rightarrow> cell option" where
  "cell_at h a = (if a < length h then h ! a else None)"

definition node_at :: "heap \<Rightarrow> addr \<Rightarrow> node option" where
  "node_at h a = map_option node (cell_at h a)"

definition alloc :: "node \<Rightarrow> heap \<Rightarrow> addr \<times> heap" where
  "alloc n h = (length h, h @ [Some \<lparr>refCount = 1, node = n\<rparr>])"

text \<open>Writing the fields of a cell, undefined where there is none.\<close>

definition set_node :: "addr \<Rightarrow> node \<Rightarrow> heap \<Rightarrow> heap run" where
  "set_node a n h = (case cell_at h a of None \<Rightarrow> None | Some c \<Rightarrow> Some (h[a := Some (c\<lparr>node := n\<rparr>)]))"

section \<open>Retaining and releasing\<close>

definition rtRetainable_retainInternal :: "addr \<Rightarrow> heap \<Rightarrow> heap run" where
  "rtRetainable_retainInternal r h =
     (case cell_at h r of
        None \<Rightarrow> None
      | Some c \<Rightarrow> Some (h[r := Some (c\<lparr>refCount := refCount c + 1\<rparr>)]))"

text \<open>The macros \<open>rtRetainable_retain\<close> and \<open>rtRetainable_release\<close> do nothing on NULL.\<close>

definition retain :: "ptr \<Rightarrow> heap \<Rightarrow> heap run" where
  "retain p h = (case p of None \<Rightarrow> Some h | Some a \<Rightarrow> rtRetainable_retainInternal a h)"

text \<open>
  Releasing may destroy the cell, which releases what it refers to, and so on. The calls that are
  still to be made are kept on an explicit stack: releasing a pointer and, after the releases of
  its destructor, freeing a cell.
\<close>

datatype pending = Release addr | Free addr

definition release_calls :: "ptr \<Rightarrow> pending list" where
  "release_calls p = (case p of None \<Rightarrow> [] | Some a \<Rightarrow> [Release a])"

fun rbusValue_Destroy :: "addr \<Rightarrow> content \<Rightarrow> pending list run" where
  "rbusValue_Destroy a (Plain d) = do { _ \<leftarrow> rbusValue_FreeInternal d; Some [Free a] }"
| "rbusValue_Destroy a (PropertyRef p) = Some (release_calls p @ [Free a])"
| "rbusValue_Destroy a (ObjectRef p) = Some (release_calls p @ [Free a])"

definition rbusProperty_Destroy :: "addr \<Rightarrow> ptr \<Rightarrow> ptr \<Rightarrow> pending list" where
  "rbusProperty_Destroy a value next = release_calls value @ release_calls next @ [Free a]"

definition rbusObject_Destroy :: "addr \<Rightarrow> ptr \<Rightarrow> ptr \<Rightarrow> ptr \<Rightarrow> pending list" where
  "rbusObject_Destroy a properties children next =
     release_calls properties @ release_calls children @ release_calls next @ [Free a]"

fun destructor :: "addr \<Rightarrow> node \<Rightarrow> pending list run" where
  "destructor a (NValue d) = rbusValue_Destroy a d"
| "destructor a (NProperty n v nx) = Some (rbusProperty_Destroy a v nx)"
| "destructor a (NObject n t ps par ch nx) = Some (rbusObject_Destroy a ps ch nx)"

text \<open>How many cells have references: each run of a destructor takes one away.\<close>

definition positive :: "cell option \<Rightarrow> bool" where
  "positive c = (case c of None \<Rightarrow> False | Some c \<Rightarrow> 0 < refCount c)"

definition positives :: "heap \<Rightarrow> nat" where
  "positives h = (\<Sum>c\<leftarrow>h. if positive c then 1 else 0)"

lemma sum_update:
  fixes f :: "'a \<Rightarrow> nat"
  shows "a < length xs \<Longrightarrow> (\<Sum>x\<leftarrow>xs[a := y]. f x) + f (xs ! a) = (\<Sum>x\<leftarrow>xs. f x) + f y"
proof (induction xs arbitrary: a)
  case (Cons x xs)
  then show ?case
  proof (cases a)
    case (Suc b)
    then show ?thesis using Cons.IH [of b] Cons.prems by simp
  qed simp
qed simp

lemma positives_release:
  assumes "cell_at h a = Some c"
  shows "refCount c = 1 \<Longrightarrow> positives (h[a := Some (c\<lparr>refCount := 0\<rparr>)]) < positives h"
    "refCount c \<noteq> 1 \<Longrightarrow> positives (h[a := Some (c\<lparr>refCount := refCount c - 1\<rparr>)]) = positives h"
    "positives (h[a := None]) \<le> positives h"
  using assms sum_update [of a h "\<lambda>c. if positive c then 1 else 0" "Some (c\<lparr>refCount := refCount c - 1\<rparr>)"]
    sum_update [of a h "\<lambda>c. if positive c then 1 else 0" None]
  unfolding positives_def by (auto split: if_splits simp: positive_def cell_at_def)

function run_calls :: "pending list \<Rightarrow> heap \<Rightarrow> heap run" where
  "run_calls [] h = Some h"
| "run_calls (Release a # w) h =
     (case cell_at h a of
        None \<Rightarrow> None
      | Some c \<Rightarrow>
          let h = h[a := Some (c\<lparr>refCount := refCount c - 1\<rparr>)]
          in if refCount c = 1
             then (case destructor a (node c) of None \<Rightarrow> None | Some ds \<Rightarrow> run_calls (ds @ w) h)
             else run_calls w h)"
| "run_calls (Free a # w) h = (case cell_at h a of None \<Rightarrow> None | Some c \<Rightarrow> run_calls w (h[a := None]))"
  by pat_completeness auto

termination run_calls
  by (relation "measures [positives \<circ> snd, length \<circ> fst]")
    (auto dest: positives_release simp: le_less positives_release)

definition rtRetainable_releaseInternal :: "addr \<Rightarrow> heap \<Rightarrow> heap run" where
  "rtRetainable_releaseInternal r h = run_calls [Release r] h"

definition release :: "ptr \<Rightarrow> heap \<Rightarrow> heap run" where
  "release p h = (case p of None \<Rightarrow> Some h | Some a \<Rightarrow> rtRetainable_releaseInternal a h)"

section \<open>Counting references\<close>

definition ptr_list :: "ptr \<Rightarrow> addr list" where
  "ptr_list p = (case p of None \<Rightarrow> [] | Some a \<Rightarrow> [a])"

fun refs :: "node \<Rightarrow> addr list" where
  "refs (NValue (Plain d)) = []"
| "refs (NValue (PropertyRef p)) = ptr_list p"
| "refs (NValue (ObjectRef p)) = ptr_list p"
| "refs (NProperty n v nx) = ptr_list v @ ptr_list nx"
| "refs (NObject n t ps par ch nx) = ptr_list ps @ ptr_list ch @ ptr_list nx"

fun plain :: "rbusData \<Rightarrow> bool" where
  "plain (DProperty _) = False" | "plain (DObject _) = False" | "plain _ = True"

fun node_ok :: "node \<Rightarrow> bool" where
  "node_ok (NValue (Plain d)) \<longleftrightarrow> data_inv d \<and> plain d"
| "node_ok _ \<longleftrightarrow> True"

lemma ptr_list_simps [simp]: "ptr_list None = []" "ptr_list (Some a) = [a]"
  by (simp_all add: ptr_list_def)

lemma release_calls_eq: "release_calls p = map Release (ptr_list p)"
  by (simp add: release_calls_def ptr_list_def split: option.split)

lemma destructor_refs: "node_ok n \<Longrightarrow> destructor a n = Some (map Release (refs n) @ [Free a])"
proof (cases n rule: refs.cases)
  case (1 d)
  moreover assume "node_ok n"
  ultimately obtain d' where "rbusValue_FreeInternal d = Some d'" using FreeInternal_ok [of d] by auto
  then show ?thesis using 1 by simp
qed (simp_all add: rbusProperty_Destroy_def rbusObject_Destroy_def release_calls_eq)

definition rcnt :: "heap \<Rightarrow> addr \<Rightarrow> int" where
  "rcnt h a = (case cell_at h a of None \<Rightarrow> 0 | Some c \<Rightarrow> refCount c)"

text \<open>A cell without references is being destroyed: its own references are on the stack already.\<close>

definition cell_refs :: "cell option \<Rightarrow> addr list" where
  "cell_refs c = (case c of None \<Rightarrow> [] | Some c \<Rightarrow> if 0 < refCount c then refs (node c) else [])"

definition stored :: "heap \<Rightarrow> addr \<Rightarrow> nat" where
  "stored h b = (\<Sum>c\<leftarrow>h. count_list (cell_refs c) b)"

definition calls_inv :: "heap \<Rightarrow> (addr \<Rightarrow> nat) \<Rightarrow> pending list \<Rightarrow> bool" where
  "calls_inv h ext w \<longleftrightarrow>
     (\<forall>b. rcnt h b = int (stored h b + ext b + count_list w (Release b))) \<and>
     (\<forall>b c. cell_at h b = Some c \<longrightarrow> refCount c = 0 \<longrightarrow> Free b \<in> set w) \<and>
     (\<forall>b. Free b \<in> set w \<longrightarrow> (\<exists>c. cell_at h b = Some c \<and> refCount c = 0)) \<and>
     (\<forall>b. count_list w (Free b) \<le> 1) \<and>
     (\<forall>b c. cell_at h b = Some c \<longrightarrow> node_ok (node c))"

lemma calls_invD:
  assumes "calls_inv h ext w"
  shows "rcnt h b = int (stored h b + ext b + count_list w (Release b))"
    "cell_at h b = Some c \<Longrightarrow> refCount c = 0 \<Longrightarrow> Free b \<in> set w"
    "Free b \<in> set w \<Longrightarrow> \<exists>c. cell_at h b = Some c \<and> refCount c = 0"
    "count_list w (Free b) \<le> 1"
    "cell_at h b = Some c \<Longrightarrow> node_ok (node c)"
  using assms unfolding calls_inv_def by blast+

lemma cell_at_update: "a < length h \<Longrightarrow> cell_at (h[a := x]) b = (if b = a then x else cell_at h b)"
  by (simp add: cell_at_def)

lemma cell_at_less: "cell_at h a = Some c \<Longrightarrow> a < length h"
  by (simp add: cell_at_def split: if_splits)

lemma stored_update:
  "cell_at h a = Some c \<Longrightarrow> stored (h[a := x]) b + count_list (cell_refs (Some c)) b = stored h b + count_list (cell_refs x) b"
  using sum_update [of a h "\<lambda>c. count_list (cell_refs c) b" x] unfolding stored_def
  by (simp add: cell_at_def split: if_splits)

lemma cell_refs_simps [simp]:
  "cell_refs None = []"
  "0 < refCount c \<Longrightarrow> cell_refs (Some c) = refs (node c)"
  "\<not> 0 < refCount c \<Longrightarrow> cell_refs (Some c) = []"
  by (simp_all add: cell_refs_def)

lemma count_list_map_Release [simp]:
  "count_list (map Release xs) (Release b) = count_list xs b" "count_list (map Release xs) (Free b) = 0"
  by (induction xs) auto

lemma calls_inv_release:
  assumes inv: "calls_inv h ext (Release a # w)" and c: "cell_at h a = Some c"
  shows "refCount c \<noteq> 1 \<Longrightarrow> calls_inv (h[a := Some (c\<lparr>refCount := refCount c - 1\<rparr>)]) ext w"
    "refCount c = 1 \<Longrightarrow> calls_inv (h[a := Some (c\<lparr>refCount := 0\<rparr>)]) ext ((map Release (refs (node c)) @ [Free a]) @ w)"
proof -
  note i = calls_invD [OF inv] and l = cell_at_less [OF c]
  have ca: "refCount c = int (stored h a + ext a + count_list w (Release a) + 1)"
    using i(1) [of a] c by (simp add: rcnt_def)
  show "calls_inv (h[a := Some (c\<lparr>refCount := refCount c - 1\<rparr>)]) ext w" if "refCount c \<noteq> 1"
  proof -
    let ?h = "h[a := Some (c\<lparr>refCount := refCount c - 1\<rparr>)]"
    have st: "stored ?h b = stored h b" for b
      using stored_update [OF c, of "Some (c\<lparr>refCount := refCount c - 1\<rparr>)" b] ca that by simp
    have "rcnt ?h b = int (stored ?h b + ext b + count_list w (Release b))" for b
      unfolding st using i(1) [of b] c l by (auto simp: rcnt_def cell_at_update)
    moreover have "\<not> Free a \<in> set w" using i(3) [of a] c ca by auto
    ultimately show ?thesis
      using i(2-5) c ca that l unfolding calls_inv_def by (auto simp: cell_at_update)
  qed
  show "calls_inv (h[a := Some (c\<lparr>refCount := 0\<rparr>)]) ext ((map Release (refs (node c)) @ [Free a]) @ w)" if r: "refCount c = 1"
  proof -
    let ?h = "h[a := Some (c\<lparr>refCount := 0\<rparr>)]"
    have st: "stored ?h b + count_list (refs (node c)) b = stored h b" for b
      using stored_update [OF c, of "Some (c\<lparr>refCount := 0\<rparr>)" b] r by simp
    have "rcnt ?h b = int (stored ?h b + ext b + count_list ((map Release (refs (node c)) @ [Free a]) @ w) (Release b))" for b
      using st [of b] i(1) [of b] c l r by (auto simp: rcnt_def cell_at_update)
    moreover have f: "Free a \<notin> set w" using i(3) [of a] c r by auto
    moreover have "count_list w (Free a) = 0" using f by (simp add: count_list_0_iff)
    ultimately show ?thesis
      using i(2-5) c l unfolding calls_inv_def by (auto simp: cell_at_update)
  qed
qed

lemma calls_inv_free:
  assumes inv: "calls_inv h ext (Free a # w)"
  shows "\<exists>c. cell_at h a = Some c \<and> calls_inv (h[a := None]) ext w"
proof -
  note i = calls_invD [OF inv]
  obtain c where c: "cell_at h a = Some c" "refCount c = 0" using i(3) [of a] by auto
  note l = cell_at_less [OF c(1)]
  have st: "stored (h[a := None]) b = stored h b" for b
    using stored_update [OF c(1), of None b] c(2) by simp
  have "rcnt (h[a := None]) b = int (stored (h[a := None]) b + ext b + count_list w (Release b))" for b
    unfolding st using i(1) [of b] c l by (auto simp: rcnt_def cell_at_update)
  moreover have f: "Free a \<notin> set w" using i(4) [of a] by (simp add: count_list_0_iff)
  moreover have "Free b \<in> set w" if "cell_at (h[a := None]) b = Some d" "refCount d = 0" for b d
    using i(2) [of b d] that l by (auto simp: cell_at_update split: if_splits)
  moreover have "\<exists>d. cell_at (h[a := None]) b = Some d \<and> refCount d = 0" if "Free b \<in> set w" for b
    using i(3) [of b] that f l by (auto simp: cell_at_update)
  moreover have "count_list w (Free b) \<le> 1" for b
    using i(4) [of b] by (auto split: if_splits)
  moreover have "node_ok (node d)" if "cell_at (h[a := None]) b = Some d" for b d
    using i(5) [of b d] that l by (auto simp: cell_at_update split: if_splits)
  ultimately show ?thesis using c(1) unfolding calls_inv_def by blast
qed

lemma run_calls_ok: "calls_inv h ext w \<Longrightarrow> \<exists>h'. run_calls w h = Some h' \<and> calls_inv h' ext []"
proof (induction w h rule: run_calls.induct)
  case (2 a w h)
  have "rcnt h a \<noteq> 0" using calls_invD(1) [OF "2.prems", of a] by simp
  then obtain c where c: "cell_at h a = Some c" by (auto simp: rcnt_def split: option.splits)
  note d = destructor_refs [OF calls_invD(5) [OF "2.prems" c], of a]
  show ?case
  proof (cases "refCount c = 1")
    case True
    with c d 2(1) [OF c refl True d] calls_inv_release(2) [OF "2.prems" c] show ?thesis by simp
  next
    case False
    with c 2(2) [OF c refl] calls_inv_release(1) [OF "2.prems" c] show ?thesis by simp
  qed
next
  case (3 a w h)
  then show ?case using calls_inv_free [OF "3.prems"] by auto
qed auto

section \<open>What a release leaves alone\<close>

text \<open>A surviving cell keeps its fields, and references only go away.\<close>

lemma run_calls_mono:
  "run_calls w h = Some h' \<Longrightarrow> cell_at h' a = Some c' \<Longrightarrow>
   \<exists>c. cell_at h a = Some c \<and> node c' = node c \<and> refCount c' \<le> refCount c"
proof (induction w h rule: run_calls.induct)
  case (2 b w h)
  then obtain c where c: "cell_at h b = Some c" by (auto split: option.splits)
  let ?h = "h[b := Some (c\<lparr>refCount := refCount c - 1\<rparr>)]"
  have "\<exists>c. cell_at ?h a = Some c \<and> node c' = node c \<and> refCount c' \<le> refCount c"
  proof (cases "refCount c = 1")
    case True
    then obtain ds where "destructor b (node c) = Some ds" "run_calls (ds @ w) ?h = Some h'"
      using "2.prems"(1) c by (auto split: option.splits)
    then show ?thesis using 2(1) [OF c refl True] "2.prems"(2) by simp
  next
    case False
    then show ?thesis using 2(2) [OF c refl] "2.prems" c by simp
  qed
  then show ?case using cell_at_less [OF c] c by (auto simp: cell_at_update split: if_splits)
next
  case (3 b w h)
  then obtain c where c: "cell_at h b = Some c" by (auto split: option.splits)
  then show ?case using 3 cell_at_less [OF c] by (auto simp: cell_at_update split: if_splits)
qed auto

lemma destructor_ne: "destructor a n = Some ds \<Longrightarrow> ds \<noteq> []"
  by (cases n rule: refs.cases) (auto simp: rbusProperty_Destroy_def rbusObject_Destroy_def split: bind_splits)

text \<open>A cell that is not destroyed may have any fields.\<close>

lemma set_node_commute:
  "a \<noteq> p \<Longrightarrow> a < length h \<Longrightarrow> set_node p n (h[a := x]) = map_option (\<lambda>h. h[a := x]) (set_node p n h)"
  by (auto simp: set_node_def cell_at_update list_update_swap split: option.splits)

lemma set_node_cell_at: "set_node p n h = Some hn \<Longrightarrow>
  cell_at hn a = (if a = p then map_option (\<lambda>c. c\<lparr>node := n\<rparr>) (cell_at h p) else cell_at h a)"
  by (auto simp: set_node_def cell_at_update dest: cell_at_less split: option.splits)

lemma run_calls_frame:
  "run_calls w h = Some h' \<Longrightarrow> cell_at h' p = Some c' \<Longrightarrow> 1 \<le> refCount c' \<Longrightarrow> set_node p n h = Some hn \<Longrightarrow>
   run_calls w hn = set_node p n h'"
proof (induction w h arbitrary: hn rule: run_calls.induct)
  case (2 a w h)
  then obtain c where c: "cell_at h a = Some c" by (auto split: option.splits)
  note l = cell_at_less [OF c]
  let ?h = "h[a := Some (c\<lparr>refCount := refCount c - 1\<rparr>)]"
  show ?case
  proof (cases "a = p")
    case True
    have hn: "hn = h[p := Some (c\<lparr>node := n\<rparr>)]" using "2.prems"(4) c True by (simp add: set_node_def)
    have ne: "refCount c \<noteq> 1"
    proof
      assume r: "refCount c = 1"
      then obtain ds where "run_calls (ds @ w) ?h = Some h'"
        using "2.prems"(1) c by (auto split: option.splits)
      from run_calls_mono [OF this "2.prems"(2)] show False
        using "2.prems"(3) l r True by (auto simp: cell_at_update)
    qed
    then have "run_calls w ?h = Some h'" using "2.prems"(1) c by simp
    moreover have "set_node p n ?h = Some (h[p := Some (c\<lparr>node := n, refCount := refCount c - 1\<rparr>)])"
      using l True by (cases c) (simp add: set_node_def cell_at_update)
    ultimately show ?thesis
      using 2(2) [OF c refl ne _ "2.prems"(2,3)] ne l True unfolding hn by (simp add: cell_at_update)
  next
    case False
    have s: "set_node p n ?h = Some (hn[a := Some (c\<lparr>refCount := refCount c - 1\<rparr>)])"
      using set_node_commute [OF False l] "2.prems"(4) by simp
    have c': "cell_at hn a = Some c" using set_node_cell_at [OF "2.prems"(4)] False c by simp
    show ?thesis
    proof (cases "refCount c = 1")
      case True
      then obtain ds where "destructor a (node c) = Some ds" "run_calls (ds @ w) ?h = Some h'"
        using "2.prems"(1) c by (auto split: option.splits)
      then show ?thesis using 2(1) [OF c refl True _ _ "2.prems"(2,3)] s c' True by simp
    next
      case f: False
      then show ?thesis using 2(2) [OF c refl f _ "2.prems"(2,3)] s c' c "2.prems"(1) by simp
    qed
  qed
next
  case (3 a w h)
  then obtain c where c: "cell_at h a = Some c" "run_calls w (h[a := None]) = Some h'" by (auto split: option.splits)
  note l = cell_at_less [OF c(1)]
  have "a \<noteq> p" using run_calls_mono [OF c(2) "3.prems"(2)] l by (auto simp: cell_at_update)
  then show ?case
    using 3(1) [OF c(1,2) "3.prems"(2,3)] set_node_commute [of a p h n None] l "3.prems"(4) set_node_cell_at [OF "3.prems"(4)] c(1)
    by simp
qed auto

section \<open>Consistent heaps\<close>

text \<open>The type of a pointer is the type of the cell it refers to.\<close>

datatype kind = KValue | KProperty | KObject

fun kind_of :: "node \<Rightarrow> kind" where
  "kind_of (NValue _) = KValue"
| "kind_of (NProperty _ _ _) = KProperty"
| "kind_of (NObject _ _ _ _ _ _) = KObject"

definition has_kind :: "heap \<Rightarrow> kind \<Rightarrow> ptr \<Rightarrow> bool" where
  "has_kind h k p \<longleftrightarrow> (case p of None \<Rightarrow> True | Some a \<Rightarrow> map_option kind_of (node_at h a) = Some k)"

fun typed :: "heap \<Rightarrow> node \<Rightarrow> bool" where
  "typed h (NValue (Plain d)) \<longleftrightarrow> True"
| "typed h (NValue (PropertyRef p)) \<longleftrightarrow> has_kind h KProperty p"
| "typed h (NValue (ObjectRef p)) \<longleftrightarrow> has_kind h KObject p"
| "typed h (NProperty n v nx) \<longleftrightarrow> has_kind h KValue v \<and> has_kind h KProperty nx"
| "typed h (NObject n t ps par ch nx) \<longleftrightarrow> has_kind h KProperty ps \<and> has_kind h KObject ch \<and> has_kind h KObject nx"

definition heap_inv :: "heap \<Rightarrow> (addr \<Rightarrow> nat) \<Rightarrow> bool" where
  "heap_inv h ext \<longleftrightarrow> calls_inv h ext [] \<and> (\<forall>a n. node_at h a = Some n \<longrightarrow> typed h n)"

lemma node_at_eq_Some: "node_at h a = Some n \<longleftrightarrow> (\<exists>c. cell_at h a = Some c \<and> node c = n)"
  by (auto simp: node_at_def)

lemma calls_inv_pos:
  assumes "calls_inv h ext []" "cell_at h a = Some c"
  shows "1 \<le> refCount c"
proof -
  have "refCount c = int (stored h a + ext a)"
    using calls_invD(1) [OF assms(1), of a] assms(2) by (simp add: rcnt_def)
  moreover have "refCount c \<noteq> 0" using calls_invD(2) [OF assms] by auto
  ultimately show ?thesis by linarith
qed

lemma heap_invD:
  assumes "heap_inv h ext"
  shows "calls_inv h ext []" "node_at h a = Some n \<Longrightarrow> typed h n" "node_at h a = Some n \<Longrightarrow> node_ok n"
    "cell_at h a = Some c \<Longrightarrow> 1 \<le> refCount c" "rcnt h a = int (stored h a + ext a)"
    "0 < ext a \<Longrightarrow> \<exists>c. cell_at h a = Some c"
proof -
  have i: "calls_inv h ext []" using assms by (simp add: heap_inv_def)
  note d = calls_invD [OF i]
  show "calls_inv h ext []" by (rule i)
  show "node_at h a = Some n \<Longrightarrow> typed h n" using assms by (simp add: heap_inv_def)
  show "node_at h a = Some n \<Longrightarrow> node_ok n" using d(5) by (auto simp: node_at_eq_Some)
  show r: "rcnt h a = int (stored h a + ext a)" using d(1) [of a] by simp
  show "1 \<le> refCount c" if "cell_at h a = Some c" by (rule calls_inv_pos [OF i that])
  show "\<exists>c. cell_at h a = Some c" if "0 < ext a"
    using r that by (auto simp: rcnt_def split: option.splits)
qed

lemma stored_pos: "stored h b \<noteq> 0 \<longleftrightarrow> (\<exists>a c. cell_at h a = Some c \<and> 0 < refCount c \<and> b \<in> set (refs (node c)))"
proof -
  have "stored h b \<noteq> 0 \<longleftrightarrow> (\<exists>c\<in>set h. b \<in> set (cell_refs c))"
    by (auto simp: stored_def count_list_0_iff)
  also have "\<dots> \<longleftrightarrow> (\<exists>a c. cell_at h a = Some c \<and> 0 < refCount c \<and> b \<in> set (refs (node c)))"
  proof
    assume "\<exists>c\<in>set h. b \<in> set (cell_refs c)"
    then obtain a where "a < length h" "b \<in> set (cell_refs (h ! a))" by (metis in_set_conv_nth)
    then show "\<exists>a c. cell_at h a = Some c \<and> 0 < refCount c \<and> b \<in> set (refs (node c))"
      by (cases "h ! a") (auto simp: cell_at_def cell_refs_def split: if_splits)
  next
    assume "\<exists>a c. cell_at h a = Some c \<and> 0 < refCount c \<and> b \<in> set (refs (node c))"
    then obtain a c where "cell_at h a = Some c" "0 < refCount c" "b \<in> set (refs (node c))" by blast
    then show "\<exists>c\<in>set h. b \<in> set (cell_refs c)"
      by (intro bexI [of _ "Some c"]) (auto simp: cell_at_def in_set_conv_nth split: if_splits)
  qed
  finally show ?thesis .
qed

lemma refs_live:
  assumes "heap_inv h ext" "node_at h a = Some n" "b \<in> set (refs n)"
  shows "\<exists>c. cell_at h b = Some c"
proof -
  have "stored h b \<noteq> 0"
    using assms heap_invD(4) [OF assms(1)] unfolding stored_pos node_at_eq_Some by force
  then show ?thesis using heap_invD(5) [OF assms(1), of b] by (auto simp: rcnt_def split: option.splits)
qed

text \<open>The cells somebody outside can reach.\<close>

inductive held :: "heap \<Rightarrow> (addr \<Rightarrow> nat) \<Rightarrow> addr \<Rightarrow> bool" for h ext where
  ext: "0 < ext a \<Longrightarrow> held h ext a"
| ref: "held h ext a \<Longrightarrow> node_at h a = Some n \<Longrightarrow> b \<in> set (refs n) \<Longrightarrow> held h ext b"

definition survives :: "heap \<Rightarrow> heap \<Rightarrow> addr \<Rightarrow> bool" where
  "survives h h' a \<longleftrightarrow> (\<exists>n. node_at h a = Some n \<and> node_at h' a = Some n)"

lemma has_kind_survives: "has_kind h k p \<Longrightarrow> (\<And>b. b \<in> set (ptr_list p) \<Longrightarrow> survives h h' b) \<Longrightarrow> has_kind h' k p"
  by (cases p) (auto simp: has_kind_def survives_def)

lemma typed_refs: "typed h n \<Longrightarrow> (\<And>b. b \<in> set (refs n) \<Longrightarrow> survives h h' b) \<Longrightarrow> typed h' n"
  by (cases n rule: refs.cases) (auto intro: has_kind_survives)

text \<open>Calls that are accounted for leave a consistent heap in which all that is reachable is as it was.\<close>

lemma run_calls_heap:
  assumes inv: "calls_inv h ext w" and typed: "\<And>a n. node_at h a = Some n \<Longrightarrow> typed h n"
  shows "\<exists>h'. run_calls w h = Some h' \<and> heap_inv h' ext \<and> (\<forall>a. held h ext a \<longrightarrow> survives h h' a)"
proof -
  obtain h' where r: "run_calls w h = Some h'" and i: "calls_inv h' ext []" using run_calls_ok [OF inv] by blast
  have m: "node_at h a = Some n" if "node_at h' a = Some n" for a n
    using run_calls_mono [OF r] that by (force simp: node_at_eq_Some)
  have live: "\<exists>n. node_at h' b = Some n" if "0 < rcnt h' b" for b
    using that by (auto simp: rcnt_def node_at_def split: option.splits)
  have rl: "survives h h' b" if nb: "node_at h' a = Some n" "b \<in> set (refs n)" for a n b
  proof -
    obtain c where c: "cell_at h' a = Some c" "node c = n" using nb(1) unfolding node_at_eq_Some by blast
    have "0 < refCount c" using calls_inv_pos [OF i c(1)] by simp
    then have "stored h' b \<noteq> 0" using c nb(2) unfolding stored_pos by blast
    then have "0 < rcnt h' b" using calls_invD(1) [OF i, of b] by simp
    then show ?thesis using live m unfolding survives_def by blast
  qed
  have "heap_inv h' ext"
    unfolding heap_inv_def using i typed_refs [OF typed, of _ _ h'] m rl by blast
  moreover have "survives h h' a" if "held h ext a" for a
    using that
  proof induction
    case (ext a)
    then have "0 < rcnt h' a" using calls_invD(1) [OF i, of a] by simp
    then show ?case using live m unfolding survives_def by blast
  next
    case (ref a n b)
    then show ?case using rl by (auto simp: survives_def)
  qed
  ultimately show ?thesis using r by blast
qed

section \<open>The primitive operations keep heaps consistent\<close>

definition give :: "ptr \<Rightarrow> (addr \<Rightarrow> nat) \<Rightarrow> addr \<Rightarrow> nat" where
  "give p ext = (case p of None \<Rightarrow> ext | Some a \<Rightarrow> ext(a := ext a + 1))"

definition take_back :: "ptr \<Rightarrow> (addr \<Rightarrow> nat) \<Rightarrow> addr \<Rightarrow> nat" where
  "take_back p ext = (case p of None \<Rightarrow> ext | Some a \<Rightarrow> ext(a := ext a - 1))"

lemma give_simps [simp]: "give None ext = ext" "give (Some a) ext = ext(a := ext a + 1)"
  by (simp_all add: give_def)

lemma take_back_simps [simp]: "take_back None ext = ext" "take_back (Some a) ext = ext(a := ext a - 1)"
  by (simp_all add: take_back_def)

lemma release_ok:
  assumes "heap_inv h ext" "0 < ext a"
  shows "\<exists>h'. release (Some a) h = Some h' \<and> heap_inv h' (take_back (Some a) ext) \<and>
    (\<forall>b. held h (take_back (Some a) ext) b \<longrightarrow> survives h h' b)"
proof -
  have "calls_inv h (take_back (Some a) ext) [Release a]"
    using calls_invD [OF heap_invD(1) [OF assms(1)]] assms(2) unfolding calls_inv_def by auto
  from run_calls_heap [OF this heap_invD(2) [OF assms(1)]] show ?thesis
    by (simp add: release_def rtRetainable_releaseInternal_def)
qed

lemma refs_in_stored:
  assumes "cell_at h a = Some c" "0 < refCount c"
  shows "count_list (refs (node c)) b \<le> stored h b"
  using stored_update [OF assms(1), of None b] assms(2) by simp

lemma node_at_retain:
  "rtRetainable_retainInternal a h = Some h' \<Longrightarrow> node_at h' = node_at h"
  by (auto simp: rtRetainable_retainInternal_def node_at_def cell_at_update cell_at_less fun_eq_iff split: option.splits)

lemma typed_cong: "map_option kind_of \<circ> node_at h' = map_option kind_of \<circ> node_at h \<Longrightarrow> typed h' n = typed h n"
proof -
  assume "map_option kind_of \<circ> node_at h' = map_option kind_of \<circ> node_at h"
  then have "has_kind h' = has_kind h" by (auto simp: has_kind_def fun_eq_iff split: option.split)
  then show ?thesis by (cases n rule: refs.cases) simp_all
qed

lemma retain_calls:
  assumes inv: "calls_inv h ext []" and c: "cell_at h a = Some c"
  shows "\<exists>h'. rtRetainable_retainInternal a h = Some h' \<and> calls_inv h' (give (Some a) ext) []"
proof -
  let ?h = "h[a := Some (c\<lparr>refCount := refCount c + 1\<rparr>)]"
  note l = cell_at_less [OF c] and r = calls_inv_pos [OF inv c] and d = calls_invD [OF inv]
  have st: "stored ?h b = stored h b" for b
    using stored_update [OF c, of "Some (c\<lparr>refCount := refCount c + 1\<rparr>)" b] r by simp
  have "rcnt ?h b = int (stored ?h b + give (Some a) ext b)" for b
    unfolding st using d(1) [of b] c l by (auto simp: rcnt_def cell_at_update)
  then have "calls_inv ?h (give (Some a) ext) []"
    using d(2,5) r l c unfolding calls_inv_def by (auto simp: cell_at_update)
  then show ?thesis using c by (simp add: rtRetainable_retainInternal_def)
qed

lemma retain_ok:
  assumes "heap_inv h ext" "p \<noteq> None \<longrightarrow> (\<exists>c. cell_at h (the p) = Some c)"
  shows "\<exists>h'. retain p h = Some h' \<and> heap_inv h' (give p ext) \<and> node_at h' = node_at h"
proof (cases p)
  case (Some a)
  then obtain c where c: "cell_at h a = Some c" using assms(2) by auto
  obtain h' where h': "rtRetainable_retainInternal a h = Some h'" "calls_inv h' (give p ext) []"
    using retain_calls [OF heap_invD(1) [OF assms(1)] c] Some by auto
  then show ?thesis
    using heap_invD(2) [OF assms(1)] node_at_retain [OF h'(1)] typed_cong [of h' h] Some
    by (simp add: retain_def heap_inv_def)
qed (use assms(1) in \<open>simp add: retain_def\<close>)

lemma alloc_ok:
  assumes "heap_inv h ext" "node_ok n" "refs n = []" "alloc n h = (a, h')"
  shows "heap_inv h' (ext(a := 1))" "node_at h' = (node_at h)(a \<mapsto> n)" "ext a = 0" "node_at h a = None"
proof -
  note d = calls_invD [OF heap_invD(1) [OF assms(1)]]
  have h': "h' = h @ [Some \<lparr>refCount = 1, node = n\<rparr>]" "a = length h" using assms(4) by (simp_all add: alloc_def)
  have c: "cell_at h' b = (if b = a then Some \<lparr>refCount = 1, node = n\<rparr> else cell_at h b)" for b
    by (auto simp: h' cell_at_def nth_append)
  have none: "cell_at h a = None" by (simp add: h'(2) cell_at_def)
  then show z: "ext a = 0" "node_at h a = None" using d(1) [of a] by (simp_all add: rcnt_def node_at_def)
  have st: "stored h' b = stored h b" for b using assms(3) by (simp add: stored_def h'(1))
  have sa: "stored h a = 0" using d(1) [of a] none by (simp add: rcnt_def)
  have "rcnt h' b = int (stored h' b + (ext(a := 1)) b)" for b
    using d(1) [of b] sa by (auto simp: st rcnt_def c)
  then have "calls_inv h' (ext(a := 1)) []"
    using d(2,5) assms(2) unfolding calls_inv_def by (auto simp: c split: if_splits)
  moreover show na: "node_at h' = (node_at h)(a \<mapsto> n)" by (auto simp: node_at_def c)
  moreover have "typed h' m" if m: "node_at h' b = Some m" for b m
  proof (cases "b = a")
    case True
    then show ?thesis using m na assms(3) by (cases n rule: refs.cases) (auto simp: has_kind_def ptr_list_def split: option.splits)
  next
    case False
    then have nb: "node_at h b = Some m" using m na by simp
    show ?thesis
    proof (rule typed_refs [OF heap_invD(2) [OF assms(1) nb]])
      fix x
      assume "x \<in> set (refs m)"
      then obtain n' where "node_at h x = Some n'" using refs_live [OF assms(1) nb] unfolding node_at_eq_Some by blast
      then show "survives h h' x" using na none by (auto simp: survives_def node_at_def)
    qed
  qed
  ultimately show "heap_inv h' (ext(a := 1))" by (auto simp: heap_inv_def)
qed

section \<open>Replacing a reference\<close>

text \<open>
  The setters of counted fields all read alike: release what the field refers to, overwrite it,
  retain what it refers to now.
\<close>

definition replace_ref :: "addr \<Rightarrow> ptr \<Rightarrow> ptr \<Rightarrow> (node \<Rightarrow> node) \<Rightarrow> heap \<Rightarrow> heap run" where
  "replace_ref p old new upd h =
     do { h \<leftarrow> release old h;
          n \<leftarrow> node_at h p;
          h \<leftarrow> set_node p (upd n) h;
          retain new h }"

lemma release_run: "release p h = run_calls (release_calls p) h"
  by (simp add: release_def release_calls_def rtRetainable_releaseInternal_def split: option.split)

lemma set_node_node_at: "set_node p n h = Some h' \<Longrightarrow> node_at h' = (node_at h)(p \<mapsto> n)"
  by (auto simp: fun_eq_iff node_at_def set_node_cell_at) (auto simp: set_node_def split: option.splits)

lemma set_node_exists: "node_at h p = Some m \<Longrightarrow> \<exists>h'. set_node p n h = Some h'"
  by (auto simp: set_node_def node_at_eq_Some)

lemma set_node_twice: "set_node p n h = Some h1 \<Longrightarrow> set_node p m h1 = set_node p m h"
  by (auto simp: set_node_def cell_at_update cell_at_less split: option.splits)

lemma set_node_id: "node_at h p = Some n \<Longrightarrow> set_node p n h = Some h"
proof -
  assume "node_at h p = Some n"
  then obtain c where c: "cell_at h p = Some c" "node c = n" by (auto simp: node_at_eq_Some)
  then have "h[p := Some (c\<lparr>node := n\<rparr>)] = h"
    by (metis cell.surjective cell.update_convs(2) cell_at_def list_update_id option.distinct(1))
  then show ?thesis using c(1) by (simp add: set_node_def)
qed

lemma set_node_calls:
  assumes inv: "calls_inv h ext w" and n: "node_at h p = Some n" "0 < rcnt h p" and s: "set_node p m h = Some h'"
    and refs: "\<And>b. count_list (refs m) b + ext' b + count_list w' (Release b) = count_list (refs n) b + ext b + count_list w (Release b)"
    and free: "\<And>b. count_list w' (Free b) = count_list w (Free b)" and ok: "node_ok m"
  shows "calls_inv h' ext' w'"
proof -
  note d = calls_invD [OF inv]
  obtain c where c: "cell_at h p = Some c" "node c = n" using n(1) by (auto simp: node_at_eq_Some)
  have pos: "0 < refCount c" using n(2) c(1) by (simp add: rcnt_def)
  have h': "h' = h[p := Some (c\<lparr>node := m\<rparr>)]" using s c(1) by (simp add: set_node_def)
  note l = cell_at_less [OF c(1)]
  have cb: "cell_at h' b = (if b = p then Some (c\<lparr>node := m\<rparr>) else cell_at h b)" for b
    using l by (simp add: h' cell_at_update)
  have st: "stored h' b + count_list (refs n) b = stored h b + count_list (refs m) b" for b
    using stored_update [OF c(1), of "Some (c\<lparr>node := m\<rparr>)" b] pos c(2) by (simp add: h')
  have "rcnt h' b = int (stored h' b + ext' b + count_list w' (Release b))" for b
  proof -
    have "rcnt h' b = rcnt h b" using c by (simp add: rcnt_def cb)
    then show ?thesis using d(1) [of b] st [of b] refs [of b] by linarith
  qed
  moreover have f: "Free b \<in> set w' \<longleftrightarrow> Free b \<in> set w" for b
    using free [of b] by (metis count_list_0_iff)
  ultimately show ?thesis
    using d(2-5) free pos ok c(1) unfolding calls_inv_def f by (auto simp: cb) force+
qed

lemma retain_set_node:
  assumes "retain q h = Some h1" "set_node p n h = Some h2"
  shows "\<exists>h3. retain q h2 = Some h3 \<and> set_node p n h1 = Some h3"
proof (cases q)
  case (Some a)
  then obtain c where c: "cell_at h a = Some c" "h1 = h[a := Some (c\<lparr>refCount := refCount c + 1\<rparr>)]"
    using assms(1) by (auto simp: retain_def rtRetainable_retainInternal_def split: option.splits)
  show ?thesis
  proof (cases "a = p")
    case True
    then show ?thesis using Some c assms(2) cell_at_less [OF c(1)]
      by (cases c) (auto simp: retain_def rtRetainable_retainInternal_def set_node_def cell_at_update)
  next
    case False
    then show ?thesis
      using Some c assms(2) cell_at_less [OF c(1)] set_node_commute [OF False cell_at_less [OF c(1)]] set_node_cell_at [OF assms(2)]
      by (simp add: retain_def rtRetainable_retainInternal_def)
  qed
qed (use assms in \<open>simp add: retain_def\<close>)

lemma kinds_set_node:
  "set_node p m h = Some h' \<Longrightarrow> node_at h p = Some n \<Longrightarrow> kind_of m = kind_of n \<Longrightarrow>
   map_option kind_of \<circ> node_at h' = map_option kind_of \<circ> node_at h"
  by (auto simp: fun_eq_iff set_node_node_at)

lemma typed_set_node:
  assumes "set_node p m h = Some h'" "node_at h p = Some n" "kind_of m = kind_of n" "typed h m"
    and "\<And>a k. node_at h a = Some k \<Longrightarrow> typed h k" "node_at h' a = Some k"
  shows "typed h' k"
  using assms typed_cong [OF kinds_set_node [OF assms(1-3)], of k]
  by (auto simp: set_node_node_at split: if_splits)

text \<open>
  Let \<open>n\<close> be the fields of \<open>p\<close>, \<open>n0\<close> the same without the old reference, \<open>n1\<close> with the new
  one. What can be reached without the old reference survives; if \<open>p\<close> and the new reference are
  among it, the setter is safe.
\<close>

lemma replace_ref_ok:
  assumes inv: "heap_inv h ext" and n: "node_at h p = Some n"
    and s: "set_node p n0 h = Some h0" and hp: "held h0 ext p" and hnew: "\<And>a. new = Some a \<Longrightarrow> held h0 ext a"
    and r0: "\<And>b. count_list (refs n) b = count_list (refs n0) b + count_list (ptr_list old) b"
    and r1: "\<And>b. count_list (refs n1) b = count_list (refs n0) b + count_list (ptr_list new) b"
    and ok: "node_ok n0" "node_ok n1" and kinds: "kind_of n0 = kind_of n" "kind_of n1 = kind_of n"
    and ty: "typed h n0" "typed h n1" and upd: "upd n = n1"
  shows "\<exists>h'. replace_ref p old new upd h = Some h' \<and> heap_inv h' ext \<and> node_at h' p = Some n1 \<and>
    (\<forall>a. held h0 ext a \<longrightarrow> a \<noteq> p \<longrightarrow> (\<exists>m. node_at h a = Some m \<and> node_at h' a = Some m))"
proof -
  have pos: "0 < rcnt h p"
    using n heap_invD(4) [OF inv] by (fastforce simp: rcnt_def node_at_eq_Some)
  have c0: "calls_inv h0 ext (release_calls old)"
    by (rule set_node_calls [OF heap_invD(1) [OF inv] n pos s]) (use r0 ok in \<open>auto simp: release_calls_eq\<close>)
  have t0: "typed h0 k" if "node_at h0 a = Some k" for a k
    using typed_set_node [OF s n kinds(1) ty(1) _ that] heap_invD(2) [OF inv] by blast
  obtain h0' where h0': "run_calls (release_calls old) h0 = Some h0'" "heap_inv h0' ext"
      "\<And>a. held h0 ext a \<Longrightarrow> survives h0 h0' a"
    using run_calls_heap [OF c0] t0 by blast
  have n0: "node_at h0' p = Some n0" using h0'(3) [OF hp] set_node_node_at [OF s] by (auto simp: survives_def)
  obtain cp where cp: "cell_at h0' p = Some cp" using n0 by (auto simp: node_at_eq_Some)
  have "set_node p n h0 = Some h" using set_node_twice [OF s] set_node_id [OF n] by simp
  from run_calls_frame [OF h0'(1) cp heap_invD(4) [OF h0'(2) cp] this]
  obtain h1 where h1: "release old h = Some h1" "set_node p n h0' = Some h1"
    using set_node_exists [OF n0, of n] by (auto simp: release_run)
  obtain h2 where h2: "set_node p n1 h0' = Some h2" using set_node_exists [OF n0] by blast
  have live: "new \<noteq> None \<longrightarrow> (\<exists>c. cell_at h0' (the new) = Some c)"
    using hnew h0'(3) unfolding survives_def node_at_eq_Some by (metis option.collapse)
  obtain hr where hr: "retain new h0' = Some hr" "heap_inv hr (give new ext)" "node_at hr = node_at h0'"
    using retain_ok [OF h0'(2) live] by blast
  obtain h3 where h3: "retain new h2 = Some h3" "set_node p n1 hr = Some h3"
    using retain_set_node [OF hr(1) h2] by blast
  have "replace_ref p old new upd h = Some h3"
    using h1 h2 h3(1) set_node_twice [OF h1(2)] set_node_node_at [OF h1(2)] upd by (simp add: replace_ref_def)
  moreover have "heap_inv h3 ext"
  proof -
    have nr: "node_at hr p = Some n0" using hr(3) n0 by simp
    have pr: "0 < rcnt hr p" using nr heap_invD(4) [OF hr(2)] by (fastforce simp: rcnt_def node_at_eq_Some)
    have c3: "calls_inv h3 ext []"
      by (rule set_node_calls [OF heap_invD(1) [OF hr(2)] nr pr h3(2)]) (use r1 ok in \<open>auto simp: give_def split: option.splits\<close>)
    have "typed h0 n1" using typed_cong [OF kinds_set_node [OF s n kinds(1)]] ty(2) by simp
    then have t1: "typed hr n1"
    proof (rule typed_refs)
      fix b
      assume b: "b \<in> set (refs n1)"
      have "b \<in> set (refs n0) \<or> new = Some b"
      proof (rule ccontr)
        assume "\<not> (b \<in> set (refs n0) \<or> new = Some b)"
        then have "count_list (refs n1) b = 0" using r1 [of b] by (cases new) auto
        then show False using b by (simp add: count_list_0_iff)
      qed
      then have "held h0 ext b" using hnew held.ref [OF hp, of n0 b] set_node_node_at [OF s] by auto
      then show "survives h0 hr b" using h0'(3) hr(3) by (simp add: survives_def)
    qed
    have "typed h3 k" if "node_at h3 a = Some k" for a k
      using typed_set_node [OF h3(2) nr _ t1 _ that] kinds heap_invD(2) [OF hr(2)] by auto
    then show ?thesis using c3 by (simp add: heap_inv_def)
  qed
  moreover have "node_at h3 p = Some n1" using set_node_node_at [OF h3(2)] by simp
  moreover have "\<exists>m. node_at h a = Some m \<and> node_at h3 a = Some m" if "held h0 ext a" "a \<noteq> p" for a
    using h0'(3) [OF that(1)] that(2) set_node_node_at [OF h3(2)] set_node_node_at [OF s] hr(3) by (auto simp: survives_def)
  ultimately show ?thesis by blast
qed

section \<open>Nothing is left behind\<close>

definition acyclic_heap :: "heap \<Rightarrow> bool" where
  "acyclic_heap h \<longleftrightarrow> (\<exists>rank :: addr \<Rightarrow> nat. \<forall>a n b. node_at h a = Some n \<longrightarrow> b \<in> set (refs n) \<longrightarrow> rank b < rank a)"

lemma no_leak:
  assumes inv: "heap_inv h (\<lambda>_. 0)" and "acyclic_heap h"
  shows "cell_at h a = None"
proof (rule ccontr)
  assume "cell_at h a \<noteq> None"
  obtain rank :: "addr \<Rightarrow> nat" where rank: "\<And>a n b. node_at h a = Some n \<Longrightarrow> b \<in> set (refs n) \<Longrightarrow> rank b < rank a"
    using assms(2) unfolding acyclic_heap_def by blast
  let ?L = "{a. cell_at h a \<noteq> None}"
  have fin: "finite ?L" by (rule finite_subset [of _ "{..<length h}"]) (auto simp: cell_at_def split: if_splits)
  have up: "\<exists>b\<in>?L. rank a < rank b" if a: "a \<in> ?L" for a
  proof -
    obtain c where c: "cell_at h a = Some c" using a by blast
    have "stored h a \<noteq> 0" using heap_invD(4) [OF inv c] heap_invD(5) [OF inv, of a] c by (auto simp: rcnt_def)
    then obtain b d where "cell_at h b = Some d" "a \<in> set (refs (node d))" unfolding stored_pos by blast
    then show ?thesis using rank [of b "node d" a] by (auto simp: node_at_eq_Some)
  qed
  have "rank ` ?L \<noteq> {}" using \<open>cell_at h a \<noteq> None\<close> by blast
  then have "Max (rank ` ?L) \<in> rank ` ?L" using fin by (intro Max_in finite_imageI)
  then obtain m where m: "m \<in> ?L" "Max (rank ` ?L) = rank m" by (rule imageE)
  then obtain b where "b \<in> ?L" "rank m < rank b" using up by blast
  moreover have "rank b \<le> Max (rank ` ?L)" using fin \<open>b \<in> ?L\<close> by (intro Max_ge finite_imageI imageI)
  ultimately show False using m(2) by simp
qed

end
