(* ===== verification/RB_Objects.thy ===== *)
theory RB_Objects
  imports RB_Heap
begin

text \<open>
  Properties and objects on the heap of \<open>RB_Heap\<close>: \<^verbatim>\<open>src/src/rbus/rbus_property.c\<close>,
  \<^verbatim>\<open>src/src/rbus/rbus_object.c\<close> and the setters of \<^verbatim>\<open>rbus_value.c\<close> that store references. A client
  that passes only handles it holds never makes the library touch freed memory; the properties of an
  object are a map from names to values, kept as a linked list.
\<close>

section \<open>Values on the heap\<close>

definition value_at :: "heap \<Rightarrow> addr \<Rightarrow> content run" where
  "value_at h a = (case node_at h a of Some (NValue c) \<Rightarrow> Some c | _ \<Rightarrow> None)"

definition Value_Init :: "heap \<Rightarrow> addr \<times> heap" where
  "Value_Init h = alloc (NValue (Plain DNone)) h"

definition Value_FreeInternal :: "addr \<Rightarrow> heap \<Rightarrow> heap run" where
  "Value_FreeInternal v h =
     do { c \<leftarrow> value_at h v;
          case c of
            Plain d \<Rightarrow> do { d \<leftarrow> rbusValue_FreeInternal d; set_node v (NValue (Plain d)) h }
          | PropertyRef p \<Rightarrow> do { h \<leftarrow> release p h; set_node v (NValue (PropertyRef None)) h }
          | ObjectRef p \<Rightarrow> do { h \<leftarrow> release p h; set_node v (NValue (ObjectRef None)) h } }"

text \<open>The setters of scalars: \<open>d\<close> is the union member and the type they store.\<close>

definition Value_SetPlain :: "addr \<Rightarrow> rbusData \<Rightarrow> heap \<Rightarrow> heap run" where
  "Value_SetPlain v d h = do { h \<leftarrow> Value_FreeInternal v h; set_node v (NValue (Plain d)) h }"

definition Value_SetProperty :: "ptr \<Rightarrow> ptr \<Rightarrow> heap \<Rightarrow> heap run" where
  "Value_SetProperty v property h =
     (case v of
        None \<Rightarrow> Some h
      | Some v \<Rightarrow> do { h \<leftarrow> Value_FreeInternal v h;
                       h \<leftarrow> set_node v (NValue (PropertyRef property)) h;
                       retain property h })"

definition Value_SetObject :: "ptr \<Rightarrow> ptr \<Rightarrow> heap \<Rightarrow> heap run" where
  "Value_SetObject v obj h =
     (case v of
        None \<Rightarrow> Some h
      | Some v \<Rightarrow> do { h \<leftarrow> Value_FreeInternal v h;
                       h \<leftarrow> set_node v (NValue (ObjectRef obj)) h;
                       retain obj h })"

text \<open>
  \<open>rbusValue_SetString\<close> frees what the value holds only when the string is NULL; otherwise the
  union is overwritten unless it is a buffer already.
\<close>

definition Value_SetString :: "ptr \<Rightarrow> mem option \<Rightarrow> heap \<Rightarrow> heap run" where
  "Value_SetString v s h =
     (case v of
        None \<Rightarrow> Some h
      | Some v \<Rightarrow>
          (case s of
             None \<Rightarrow> do { h \<leftarrow> Value_FreeInternal v h; set_node v (NValue (Plain (DString None))) h }
           | Some p \<Rightarrow>
               do { c \<leftarrow> value_at h v;
                    d \<leftarrow> data_SetString (case c of Plain d \<Rightarrow> d | _ \<Rightarrow> DNone) s;
                    set_node v (NValue (Plain d)) h }))"

section \<open>Properties\<close>

definition property_at :: "heap \<Rightarrow> addr \<Rightarrow> (string option \<times> ptr \<times> ptr) run" where
  "property_at h a = (case node_at h a of Some (NProperty n v nx) \<Rightarrow> Some (n, v, nx) | _ \<Rightarrow> None)"

definition rbusProperty_GetName :: "addr \<Rightarrow> heap \<Rightarrow> string option run" where
  "rbusProperty_GetName p h = map_option (\<lambda>(n, v, nx). n) (property_at h p)"

definition rbusProperty_GetValue :: "addr \<Rightarrow> heap \<Rightarrow> ptr run" where
  "rbusProperty_GetValue p h = map_option (\<lambda>(n, v, nx). v) (property_at h p)"

definition rbusProperty_GetNext :: "addr \<Rightarrow> heap \<Rightarrow> ptr run" where
  "rbusProperty_GetNext p h = map_option (\<lambda>(n, v, nx). nx) (property_at h p)"

fun with_pname :: "string option \<Rightarrow> node \<Rightarrow> node" where
  "with_pname n (NProperty _ v nx) = NProperty n v nx" | "with_pname n m = m"
fun with_value :: "ptr \<Rightarrow> node \<Rightarrow> node" where
  "with_value v (NProperty n _ nx) = NProperty n v nx" | "with_value v m = m"
fun with_next :: "ptr \<Rightarrow> node \<Rightarrow> node" where
  "with_next nx (NProperty n v _) = NProperty n v nx" | "with_next nx m = m"

definition rbusProperty_SetName :: "ptr \<Rightarrow> string option \<Rightarrow> heap \<Rightarrow> heap run" where
  "rbusProperty_SetName p name h =
     (case p of
        None \<Rightarrow> Some h
      | Some a \<Rightarrow> do { (n, v, nx) \<leftarrow> property_at h a; set_node a (NProperty name v nx) h })"

definition rbusProperty_SetValue :: "ptr \<Rightarrow> ptr \<Rightarrow> heap \<Rightarrow> heap run" where
  "rbusProperty_SetValue p v h =
     (case p of
        None \<Rightarrow> Some h
      | Some a \<Rightarrow> do { old \<leftarrow> rbusProperty_GetValue a h; replace_ref a old v (with_value v) h })"

definition rbusProperty_SetNext :: "ptr \<Rightarrow> ptr \<Rightarrow> heap \<Rightarrow> heap run" where
  "rbusProperty_SetNext p next h =
     (case p of
        None \<Rightarrow> Some h
      | Some a \<Rightarrow> do { old \<leftarrow> rbusProperty_GetNext a h; replace_ref a old next (with_next next) h })"

definition rbusProperty_Init :: "string option \<Rightarrow> ptr \<Rightarrow> heap \<Rightarrow> (addr \<times> heap) run" where
  "rbusProperty_Init name v h =
     (let (p, h) = alloc (NProperty name None None) h
      in do { h \<leftarrow> (if v = None then Some h else rbusProperty_SetValue (Some p) v h); Some (p, h) })"

text \<open>A loop that does not end, on a list with a cycle, has no result.\<close>

partial_function (option) property_last :: "heap \<Rightarrow> addr \<Rightarrow> addr option" where
  "property_last h a =
     do { nx \<leftarrow> rbusProperty_GetNext a h; case nx of None \<Rightarrow> Some a | Some b \<Rightarrow> property_last h b }"

definition rbusProperty_Append :: "ptr \<Rightarrow> ptr \<Rightarrow> heap \<Rightarrow> heap run" where
  "rbusProperty_Append p new_back h =
     (case p of
        None \<Rightarrow> Some h
      | Some a \<Rightarrow> do { last \<leftarrow> property_last h a; rbusProperty_SetNext (Some last) new_back h })"

partial_function (option) property_count :: "heap \<Rightarrow> addr \<Rightarrow> u32 \<Rightarrow> u32 option" where
  "property_count h a count =
     do { nx \<leftarrow> rbusProperty_GetNext a h;
          case nx of None \<Rightarrow> Some count | Some b \<Rightarrow> property_count h b (count + 1) }"

definition rbusProperty_Count :: "ptr \<Rightarrow> heap \<Rightarrow> u32 run" where
  "rbusProperty_Count p h = (case p of None \<Rightarrow> Some 0 | Some a \<Rightarrow> property_count h a 1)"

text \<open>\<open>rbusProperty_Init##T\<close>, \<open>rbusProperty_Set##T\<close> and \<open>rbusProperty_Append##T\<close> of the scalar types.\<close>

definition property_InitPlain :: "string option \<Rightarrow> rbusData \<Rightarrow> heap \<Rightarrow> (addr \<times> heap) run" where
  "property_InitPlain name d h =
     (let (v, h) = Value_Init h
      in do { h \<leftarrow> Value_SetPlain v d h;
              (p, h) \<leftarrow> rbusProperty_Init name (Some v) h;
              h \<leftarrow> release (Some v) h;
              Some (p, h) })"

definition property_SetPlain :: "addr \<Rightarrow> rbusData \<Rightarrow> heap \<Rightarrow> heap run" where
  "property_SetPlain p d h =
     do { old \<leftarrow> rbusProperty_GetValue p h;
          h \<leftarrow> release old h;
          let (v, h) = Value_Init h;
          h \<leftarrow> Value_SetPlain v d h;
          n \<leftarrow> node_at h p;
          set_node p (with_value (Some v) n) h }"

definition property_AppendPlain :: "ptr \<Rightarrow> string option \<Rightarrow> rbusData \<Rightarrow> heap \<Rightarrow> (addr \<times> heap) run" where
  "property_AppendPlain property name d h =
     do { (p, h) \<leftarrow> property_InitPlain name d h;
          if property = None then Some (p, h)
          else do { h \<leftarrow> rbusProperty_Append property (Some p) h;
                    h \<leftarrow> release (Some p) h;
                    Some (p, h) } }"

section \<open>Objects\<close>

definition object_at :: "heap \<Rightarrow> addr \<Rightarrow> node run" where
  "object_at h a = (case node_at h a of Some (NObject n t ps par ch nx) \<Rightarrow> Some (NObject n t ps par ch nx) | _ \<Rightarrow> None)"

fun with_oname :: "string option \<Rightarrow> node \<Rightarrow> node" where
  "with_oname n (NObject _ t ps par ch nx) = NObject n t ps par ch nx" | "with_oname n m = m"
fun with_otype :: "rbusObjectType \<Rightarrow> node \<Rightarrow> node" where
  "with_otype t (NObject n _ ps par ch nx) = NObject n t ps par ch nx" | "with_otype t m = m"
fun with_properties :: "ptr \<Rightarrow> node \<Rightarrow> node" where
  "with_properties ps (NObject n t _ par ch nx) = NObject n t ps par ch nx" | "with_properties ps m = m"
fun with_parent :: "ptr \<Rightarrow> node \<Rightarrow> node" where
  "with_parent par (NObject n t ps _ ch nx) = NObject n t ps par ch nx" | "with_parent par m = m"
fun with_children :: "ptr \<Rightarrow> node \<Rightarrow> node" where
  "with_children ch (NObject n t ps par _ nx) = NObject n t ps par ch nx" | "with_children ch m = m"
fun with_sibling :: "ptr \<Rightarrow> node \<Rightarrow> node" where
  "with_sibling nx (NObject n t ps par ch _) = NObject n t ps par ch nx" | "with_sibling nx m = m"

definition rbusObject_Init :: "string option \<Rightarrow> heap \<Rightarrow> addr \<times> heap" where
  "rbusObject_Init name h = alloc (NObject name RBUS_OBJECT_SINGLE_INSTANCE None None None None) h"

definition rbusObject_InitMultiInstance :: "string option \<Rightarrow> heap \<Rightarrow> (addr \<times> heap) run" where
  "rbusObject_InitMultiInstance name h =
     (let (a, h) = rbusObject_Init name h
      in do { n \<leftarrow> object_at h a; h \<leftarrow> set_node a (with_otype RBUS_OBJECT_MULTI_INSTANCE n) h; Some (a, h) })"

definition rbusObject_SetName :: "ptr \<Rightarrow> string option \<Rightarrow> heap \<Rightarrow> heap run" where
  "rbusObject_SetName ob name h =
     (case ob of None \<Rightarrow> Some h | Some a \<Rightarrow> do { n \<leftarrow> object_at h a; set_node a (with_oname name n) h })"

definition rbusObject_GetProperties :: "ptr \<Rightarrow> heap \<Rightarrow> ptr run" where
  "rbusObject_GetProperties ob h = (case ob of None \<Rightarrow> Some None | Some a \<Rightarrow> map_option n_properties (object_at h a))"

definition rbusObject_GetName :: "addr \<Rightarrow> heap \<Rightarrow> string option run" where
  "rbusObject_GetName a h = map_option n_oname (object_at h a)"

definition rbusObject_GetType :: "addr \<Rightarrow> heap \<Rightarrow> rbusObjectType run" where
  "rbusObject_GetType a h = map_option n_otype (object_at h a)"

definition rbusObject_GetParent :: "addr \<Rightarrow> heap \<Rightarrow> ptr run" where
  "rbusObject_GetParent a h = map_option n_parent (object_at h a)"

definition rbusObject_SetProperties :: "ptr \<Rightarrow> ptr \<Rightarrow> heap \<Rightarrow> heap run" where
  "rbusObject_SetProperties ob properties h =
     (case ob of
        None \<Rightarrow> Some h
      | Some a \<Rightarrow> do { n \<leftarrow> object_at h a; replace_ref a (n_properties n) properties (with_properties properties) h })"

definition rbusObject_SetParent :: "ptr \<Rightarrow> ptr \<Rightarrow> heap \<Rightarrow> heap run" where
  "rbusObject_SetParent ob parent h =
     (case ob of None \<Rightarrow> Some h | Some a \<Rightarrow> do { n \<leftarrow> object_at h a; set_node a (with_parent parent n) h })"

definition rbusObject_SetChildren :: "ptr \<Rightarrow> ptr \<Rightarrow> heap \<Rightarrow> heap run" where
  "rbusObject_SetChildren ob children h =
     (case ob of
        None \<Rightarrow> Some h
      | Some a \<Rightarrow> do { n \<leftarrow> object_at h a; replace_ref a (n_children n) children (with_children children) h })"

definition rbusObject_SetNext :: "ptr \<Rightarrow> ptr \<Rightarrow> heap \<Rightarrow> heap run" where
  "rbusObject_SetNext ob next h =
     (case ob of
        None \<Rightarrow> Some h
      | Some a \<Rightarrow> do { n \<leftarrow> object_at h a; replace_ref a (n_sibling n) next (with_sibling next) h })"

definition rbusObject_GetChildren :: "ptr \<Rightarrow> heap \<Rightarrow> ptr run" where
  "rbusObject_GetChildren ob h = (case ob of None \<Rightarrow> Some None | Some a \<Rightarrow> map_option n_children (object_at h a))"

definition rbusObject_GetNext :: "ptr \<Rightarrow> heap \<Rightarrow> ptr run" where
  "rbusObject_GetNext ob h = (case ob of None \<Rightarrow> Some None | Some a \<Rightarrow> map_option n_sibling (object_at h a))"

text \<open>
  The search for a property by name. Comparing with a property that has no name is undefined.
\<close>

partial_function (option) find_property :: "heap \<Rightarrow> string \<Rightarrow> ptr \<Rightarrow> ptr option" where
  "find_property h name prop =
     (case prop of
        None \<Rightarrow> Some None
      | Some a \<Rightarrow>
          do { n \<leftarrow> rbusProperty_GetName a h;
               n \<leftarrow> n;
               if strcmp n name = 0 then Some prop
               else do { nx \<leftarrow> rbusProperty_GetNext a h; find_property h name nx } })"

definition rbusObject_GetProperty :: "ptr \<Rightarrow> string \<Rightarrow> heap \<Rightarrow> ptr run" where
  "rbusObject_GetProperty ob name h =
     (case ob of
        None \<Rightarrow> Some None
      | Some a \<Rightarrow> do { n \<leftarrow> object_at h a; find_property h name (n_properties n) })"

definition rbusObject_GetPropertyValue :: "ptr \<Rightarrow> string option \<Rightarrow> heap \<Rightarrow> ptr run" where
  "rbusObject_GetPropertyValue ob name h =
     (case ob of
        None \<Rightarrow> Some None
      | Some a \<Rightarrow>
          do { prop \<leftarrow> (case name of
                          Some s \<Rightarrow> rbusObject_GetProperty ob s h
                        | None \<Rightarrow> map_option n_properties (object_at h a));
               case prop of None \<Rightarrow> Some None | Some p \<Rightarrow> rbusProperty_GetValue p h })"

definition rbusObject_SetPropertyValue :: "ptr \<Rightarrow> string option \<Rightarrow> ptr \<Rightarrow> heap \<Rightarrow> heap run" where
  "rbusObject_SetPropertyValue ob name v h =
     (case (ob, v, name) of
        (Some a, Some _, Some s) \<Rightarrow>
          do { prop \<leftarrow> rbusObject_GetProperty ob s h;
               case prop of
                 Some p \<Rightarrow> rbusProperty_SetValue prop v h
               | None \<Rightarrow>
                   do { (p, h) \<leftarrow> rbusProperty_Init name v h;
                        n \<leftarrow> object_at h a;
                        h \<leftarrow> (if n_properties n = None then rbusObject_SetProperties ob (Some p) h
                              else rbusProperty_Append (n_properties n) (Some p) h);
                        release (Some p) h } }
      | _ \<Rightarrow> Some h)"

text \<open>
  The search in \<open>rbusObject_SetProperty\<close> also remembers the property before the one it stops at.
\<close>

partial_function (option) find_with_last :: "heap \<Rightarrow> string option \<Rightarrow> ptr \<Rightarrow> ptr \<Rightarrow> (ptr \<times> ptr) option" where
  "find_with_last h name oldProp lastProp =
     (case oldProp of
        None \<Rightarrow> Some (None, lastProp)
      | Some a \<Rightarrow>
          do { n \<leftarrow> rbusProperty_GetName a h;
               n \<leftarrow> n;
               s \<leftarrow> name;
               if strcmp n s = 0 then Some (oldProp, lastProp)
               else do { nx \<leftarrow> rbusProperty_GetNext a h; find_with_last h name nx oldProp } })"

definition rbusObject_SetProperty :: "ptr \<Rightarrow> addr \<Rightarrow> heap \<Rightarrow> heap run" where
  "rbusObject_SetProperty ob newProp h =
     (case ob of
        None \<Rightarrow> Some h
      | Some a \<Rightarrow>
          do { n \<leftarrow> object_at h a;
               if n_properties n = None then rbusObject_SetProperties ob (Some newProp) h
               else
                 do { name \<leftarrow> rbusProperty_GetName newProp h;
                      (oldProp, lastProp) \<leftarrow> find_with_last h name (n_properties n) None;
                      case oldProp of
                        Some old \<Rightarrow>
                          do { next \<leftarrow> rbusProperty_GetNext old h;
                               h \<leftarrow> (if next = None then Some h else rbusProperty_Append (Some newProp) next h);
                               if lastProp = None then rbusObject_SetProperties ob (Some newProp) h
                               else rbusProperty_SetNext lastProp (Some newProp) h }
                      | None \<Rightarrow> rbusProperty_SetNext lastProp (Some newProp) h } })"

text \<open>\<open>rbusObject_SetProperty##T\<close> of the scalar types.\<close>

definition object_SetPlain :: "ptr \<Rightarrow> string option \<Rightarrow> rbusData \<Rightarrow> heap \<Rightarrow> heap run" where
  "object_SetPlain ob name d h =
     (let (v, h) = Value_Init h
      in do { h \<leftarrow> Value_SetPlain v d h;
              h \<leftarrow> rbusObject_SetPropertyValue ob name (Some v) h;
              release (Some v) h })"

definition object_GetPlain :: "ptr \<Rightarrow> string \<Rightarrow> (rbusData \<Rightarrow> 'a option) \<Rightarrow> heap \<Rightarrow> (rbusValueError \<times> 'a option) run" where
  "object_GetPlain ob name sel h =
     do { p \<leftarrow> rbusObject_GetProperty ob name h;
          case p of
            None \<Rightarrow> Some (RBUS_VALUE_ERROR_NOT_FOUND, None)
          | Some a \<Rightarrow>
              do { v \<leftarrow> rbusProperty_GetValue a h;
                   case v of
                     None \<Rightarrow> Some (RBUS_VALUE_ERROR_NULL, None)
                   | Some b \<Rightarrow>
                       do { c \<leftarrow> value_at h b;
                            Some (case c of
                                    Plain d \<Rightarrow> (case sel d of None \<Rightarrow> (RBUS_VALUE_ERROR_TYPE, None)
                                                           | Some x \<Rightarrow> (RBUS_VALUE_ERROR_SUCCESS, Some x))
                                  | _ \<Rightarrow> (RBUS_VALUE_ERROR_TYPE, None)) } } }"

declare property_last.simps [code] property_count.simps [code] find_property.simps [code] find_with_last.simps [code]

section \<open>Counted fields\<close>

definition put_node :: "addr \<Rightarrow> node \<Rightarrow> heap \<Rightarrow> heap" where
  "put_node a n h = (case set_node a n h of None \<Rightarrow> h | Some h' \<Rightarrow> h')"

lemma put_set_node: "node_at h a = Some m \<Longrightarrow> set_node a n h = Some (put_node a n h)"
  using set_node_exists [of h a m n] by (auto simp: put_node_def)

lemma node_at_put: "node_at h a = Some m \<Longrightarrow> node_at (put_node a n h) = (node_at h)(a \<mapsto> n)"
  using set_node_node_at [OF put_set_node] by blast

text \<open>
  A field of a cell that holds a counted reference: what it refers to, and how it is written. The
  setter built on it is safe whenever the cell and the new reference can be reached without the
  old one.
\<close>

locale counted_field =
  fixes field :: "node \<Rightarrow> ptr" and with_field :: "ptr \<Rightarrow> node \<Rightarrow> node" and has_field :: "node \<Rightarrow> bool" and target :: kind
  assumes has_with: "has_field n \<Longrightarrow> has_field (with_field p n)"
    and with_twice: "has_field n \<Longrightarrow> with_field p (with_field q n) = with_field p n"
    and with_same: "has_field n \<Longrightarrow> with_field (field n) n = n"
    and kind_with: "has_field n \<Longrightarrow> kind_of (with_field p n) = kind_of n"
    and ok_with: "has_field n \<Longrightarrow> node_ok (with_field p n)"
    and refs_with: "has_field n \<Longrightarrow>
      count_list (refs (with_field p n)) b = count_list (refs (with_field None n)) b + count_list (ptr_list p) b"
    and typed_with: "has_field n \<Longrightarrow> typed h (with_field p n) \<longleftrightarrow> typed h (with_field None n) \<and> has_kind h target p"
begin

definition reaches :: "heap \<Rightarrow> (addr \<Rightarrow> nat) \<Rightarrow> addr \<Rightarrow> node \<Rightarrow> addr \<Rightarrow> bool" where
  "reaches h ext a n = held (put_node a (with_field None n) h) ext"

lemma set_field_ok:
  assumes "heap_inv h ext" "node_at h a = Some n" "has_field n" "reaches h ext a n a"
    and "\<And>b. new = Some b \<Longrightarrow> reaches h ext a n b" "has_kind h target new"
  shows "\<exists>h'. replace_ref a (field n) new (with_field new) h = Some h' \<and> heap_inv h' ext \<and>
    node_at h' a = Some (with_field new n) \<and>
    (\<forall>b. reaches h ext a n b \<longrightarrow> b \<noteq> a \<longrightarrow> (\<exists>m. node_at h b = Some m \<and> node_at h' b = Some m))"
proof -
  let ?n0 = "with_field None n"
  have ty: "typed h n" using heap_invD(2) [OF assms(1,2)] .
  have t0: "typed h ?n0" using typed_with [OF assms(3), of h "field n"] with_same [OF assms(3)] ty by simp
  show ?thesis unfolding reaches_def
  proof (rule replace_ref_ok [OF assms(1,2) put_set_node [OF assms(2)]])
    show "held (put_node a ?n0 h) ext a" using assms(4) by (simp add: reaches_def)
    show "held (put_node a ?n0 h) ext b" if "new = Some b" for b using assms(5) [OF that] by (simp add: reaches_def)
    show "count_list (refs n) b = count_list (refs ?n0) b + count_list (ptr_list (field n)) b" for b
      using refs_with [OF assms(3), of "field n" b] with_same [OF assms(3)] by simp
    show "typed h (with_field new n)" using t0 assms(6) typed_with [OF assms(3), of h new] by blast
    show "count_list (refs (with_field new n)) b = count_list (refs ?n0) b + count_list (ptr_list new) b" for b
      by (rule refs_with [OF assms(3)])
  qed (rule t0 ok_with kind_with assms(3) refl)+
qed

lemma reaches_ext: "0 < ext b \<Longrightarrow> reaches h ext a n b"
  by (simp add: reaches_def held.ext)

lemma reaches_other:
  "reaches h ext a n b \<Longrightarrow> node_at h a = Some n \<Longrightarrow> b \<noteq> a \<Longrightarrow> node_at h b = Some m \<Longrightarrow> c \<in> set (refs m) \<Longrightarrow>
   reaches h ext a n c"
  unfolding reaches_def by (erule held.ref) (auto simp: node_at_put)

lemma reaches_self:
  "reaches h ext a n a \<Longrightarrow> node_at h a = Some n \<Longrightarrow> c \<in> set (refs (with_field None n)) \<Longrightarrow> reaches h ext a n c"
  unfolding reaches_def by (erule held.ref) (auto simp: node_at_put)

end

fun is_property :: "node \<Rightarrow> bool" where
  "is_property (NProperty _ _ _) = True" | "is_property _ = False"
fun is_object :: "node \<Rightarrow> bool" where
  "is_object (NObject _ _ _ _ _ _) = True" | "is_object _ = False"

lemma is_property_iff: "is_property n \<longleftrightarrow> (\<exists>m v nx. n = NProperty m v nx)"
  by (cases n) auto

lemma is_object_iff: "is_object n \<longleftrightarrow> (\<exists>m t ps par ch nx. n = NObject m t ps par ch nx)"
  by (cases n) auto

lemma has_kind_None [simp]: "has_kind h k None"
  by (simp add: has_kind_def)

interpretation pvalue: counted_field n_value with_value is_property KValue
  by unfold_locales (auto simp: is_property_iff)

interpretation pnext: counted_field n_next with_next is_property KProperty
  by unfold_locales (auto simp: is_property_iff)

interpretation oprops: counted_field n_properties with_properties is_object KProperty
  by unfold_locales (auto simp: is_object_iff)

interpretation ochildren: counted_field n_children with_children is_object KObject
  by unfold_locales (auto simp: is_object_iff)

interpretation osibling: counted_field n_sibling with_sibling is_object KObject
  by unfold_locales (auto simp: is_object_iff)

section \<open>Every call is safe\<close>

fun content_ref :: "content \<Rightarrow> ptr" where
  "content_ref (Plain d) = None" | "content_ref (PropertyRef p) = p" | "content_ref (ObjectRef p) = p"

lemma value_at_eq_Some: "value_at h a = Some c \<longleftrightarrow> node_at h a = Some (NValue c)"
  by (auto simp: value_at_def split: option.splits node.splits)

lemma property_at_eq_Some: "property_at h a = Some (n, v, nx) \<longleftrightarrow> node_at h a = Some (NProperty n v nx)"
  by (auto simp: property_at_def split: option.splits node.splits)

lemma object_at_eq_Some: "object_at h a = Some n \<longleftrightarrow> node_at h a = Some n \<and> is_object n"
  by (cases n) (auto simp: object_at_def split: option.splits node.splits)

lemma get_property:
  assumes "node_at h a = Some (NProperty n v nx)"
  shows "rbusProperty_GetName a h = Some n" "rbusProperty_GetValue a h = Some v" "rbusProperty_GetNext a h = Some nx"
  using assms property_at_eq_Some [of h a n v nx]
  by (simp_all add: rbusProperty_GetName_def rbusProperty_GetValue_def rbusProperty_GetNext_def)

lemma release_None [simp]: "release None h = Some h"
  by (simp add: release_def)

lemma Value_assign:
  assumes "value_at h a = Some c" "node_ok (NValue c)"
  shows "do { h \<leftarrow> Value_FreeInternal a h; h \<leftarrow> set_node a m h; retain q h } = replace_ref a (content_ref c) q (\<lambda>_. m) h"
proof (cases c)
  case (Plain d)
  then obtain d' where d': "rbusValue_FreeInternal d = Some d'" using assms(2) FreeInternal_ok [of d] by auto
  obtain h1 where h1: "set_node a (NValue (Plain d')) h = Some h1"
    using set_node_exists assms(1) unfolding value_at_eq_Some by blast
  have "node_at h a = Some (NValue c)" using assms(1) by (simp add: value_at_eq_Some)
  then show ?thesis using assms(1) Plain d' h1 set_node_twice [OF h1]
    by (simp add: Value_FreeInternal_def replace_ref_def)
next
  case (PropertyRef p)
  then show ?thesis using assms(1)
    by (cases "release p h") (auto simp: Value_FreeInternal_def replace_ref_def node_at_def set_node_def cell_at_update cell_at_less split: option.splits bind_splits)
next
  case (ObjectRef p)
  then show ?thesis using assms(1)
    by (cases "release p h") (auto simp: Value_FreeInternal_def replace_ref_def node_at_def set_node_def cell_at_update cell_at_less split: option.splits bind_splits)
qed

definition holds :: "(addr \<Rightarrow> nat) \<Rightarrow> ptr \<Rightarrow> bool" where
  "holds ext p \<longleftrightarrow> (case p of None \<Rightarrow> True | Some a \<Rightarrow> 0 < ext a)"

lemma Value_set_ok:
  assumes inv: "heap_inv h ext" and a: "node_at h a = Some (NValue c)" "0 < ext a"
    and new: "holds ext q" "node_ok (NValue m)" "refs (NValue m) = ptr_list q" "typed h (NValue m)"
  shows "\<exists>h'. do { h \<leftarrow> Value_FreeInternal a h; h \<leftarrow> set_node a (NValue m) h; retain q h } = Some h' \<and> heap_inv h' ext"
proof -
  let ?n0 = "NValue (Plain DNone)"
  have "\<exists>h'. replace_ref a (content_ref c) q (\<lambda>_. NValue m) h = Some h' \<and> heap_inv h' ext \<and> node_at h' a = Some (NValue m) \<and>
      (\<forall>b. held (put_node a ?n0 h) ext b \<longrightarrow> b \<noteq> a \<longrightarrow> (\<exists>m. node_at h b = Some m \<and> node_at h' b = Some m))"
  proof (rule replace_ref_ok [OF inv a(1) put_set_node [OF a(1)]])
    show "count_list (refs (NValue c)) b = count_list (refs ?n0) b + count_list (ptr_list (content_ref c)) b" for b
      by (cases c) simp_all
    show "held (put_node a ?n0 h) ext b" if "q = Some b" for b using new(1) that by (simp add: holds_def held.ext)
  qed (use a(2) new in \<open>simp_all add: held.ext\<close>)
  then show ?thesis
    using Value_assign [of h a c] a(1) heap_invD(3) [OF inv a(1)] by (auto simp: value_at_eq_Some)
qed

lemma pSetValue_ok:
  assumes "heap_inv h ext" "node_at h a = Some (NProperty n v nx)" "0 < ext a" "holds ext q" "has_kind h KValue q"
  shows "\<exists>h'. rbusProperty_SetValue (Some a) q h = Some h' \<and> heap_inv h' ext"
  using pvalue.set_field_ok [OF assms(1,2), of q] assms get_property [OF assms(2)]
  by (fastforce simp: rbusProperty_SetValue_def holds_def intro: pvalue.reaches_ext)

lemma pSetNext_ok:
  assumes "heap_inv h ext" "node_at h a = Some (NProperty n v nx)" "0 < ext a" "holds ext q" "has_kind h KProperty q"
  shows "\<exists>h'. rbusProperty_SetNext (Some a) q h = Some h' \<and> heap_inv h' ext"
  using pnext.set_field_ok [OF assms(1,2), of q] assms get_property [OF assms(2)]
  by (fastforce simp: rbusProperty_SetNext_def holds_def intro: pnext.reaches_ext)

lemma object_field_ok:
  assumes "heap_inv h ext" "node_at h a = Some n" "is_object n" "0 < ext a" "holds ext q"
  shows "has_kind h KProperty q \<Longrightarrow> \<exists>h'. rbusObject_SetProperties (Some a) q h = Some h' \<and> heap_inv h' ext"
    "has_kind h KObject q \<Longrightarrow> \<exists>h'. rbusObject_SetChildren (Some a) q h = Some h' \<and> heap_inv h' ext"
    "has_kind h KObject q \<Longrightarrow> \<exists>h'. rbusObject_SetNext (Some a) q h = Some h' \<and> heap_inv h' ext"
proof -
  have o: "object_at h a = Some n" using assms by (simp add: object_at_eq_Some)
  have q: "0 < ext b" if "q = Some b" for b using assms(5) that by (simp add: holds_def)
  show "\<exists>h'. rbusObject_SetProperties (Some a) q h = Some h' \<and> heap_inv h' ext" if "has_kind h KProperty q"
    using oprops.set_field_ok [OF assms(1-3) oprops.reaches_ext oprops.reaches_ext that] assms(4) q o
    by (fastforce simp: rbusObject_SetProperties_def)
  show "\<exists>h'. rbusObject_SetChildren (Some a) q h = Some h' \<and> heap_inv h' ext" if "has_kind h KObject q"
    using ochildren.set_field_ok [OF assms(1-3) ochildren.reaches_ext ochildren.reaches_ext that] assms(4) q o
    by (fastforce simp: rbusObject_SetChildren_def)
  show "\<exists>h'. rbusObject_SetNext (Some a) q h = Some h' \<and> heap_inv h' ext" if "has_kind h KObject q"
    using osibling.set_field_ok [OF assms(1-3) osibling.reaches_ext osibling.reaches_ext that] assms(4) q o
    by (fastforce simp: rbusObject_SetNext_def)
qed

lemma Property_Init_ok:
  assumes inv: "heap_inv h ext" and v: "holds ext v" "has_kind h KValue v"
  shows "\<exists>p h'. rbusProperty_Init name v h = Some (p, h') \<and> heap_inv h' (ext(p := 1)) \<and> ext p = 0 \<and>
    node_at h p = None"
proof -
  obtain p h1 where al: "alloc (NProperty name None None) h = (p, h1)" by fastforce
  note a = alloc_ok [OF inv _ _ al]
  have i1: "heap_inv h1 (ext(p := 1))" "node_at h1 = (node_at h)(p \<mapsto> NProperty name None None)" "ext p = 0" "node_at h p = None"
    using a by simp_all
  show ?thesis
  proof (cases v)
    case None
    then show ?thesis using al i1 by (simp add: rbusProperty_Init_def)
  next
    case (Some b)
    then have b: "0 < ext b" "b \<noteq> p" using v(1) i1(3) by (auto simp: holds_def)
    have "has_kind h1 KValue v" using v(2) b(2) Some i1(2) by (simp add: has_kind_def)
    then obtain h' where "rbusProperty_SetValue (Some p) v h1 = Some h'" "heap_inv h' (ext(p := 1))"
      using pSetValue_ok [OF i1(1), of p name None None v] i1(2) Some b by (auto simp: holds_def)
    then show ?thesis using al i1 Some by (simp add: rbusProperty_Init_def)
  qed
qed

text \<open>
  The calls a client makes, the handle a call returns, and the references the client holds after
  it. A client passes a call only handles it holds, of the right type.
\<close>

datatype api_call =
    Value_Init_call | Property_Init_call "string option" ptr | Object_Init_call "string option"
  | Retain_call addr | Release_call addr
  | Value_SetPlain_call addr rbusData | Value_SetProperty_call addr ptr | Value_SetObject_call addr ptr
  | Property_SetValue_call addr ptr | Property_SetNext_call addr ptr
  | Object_SetProperties_call addr ptr | Object_SetChildren_call addr ptr | Object_SetNext_call addr ptr

fun api_exec :: "api_call \<Rightarrow> heap \<Rightarrow> (ptr \<times> heap) run" where
  "api_exec Value_Init_call h = (case Value_Init h of (a, h) \<Rightarrow> Some (Some a, h))"
| "api_exec (Property_Init_call name v) h = map_option (\<lambda>(a, h). (Some a, h)) (rbusProperty_Init name v h)"
| "api_exec (Object_Init_call name) h = (case rbusObject_Init name h of (a, h) \<Rightarrow> Some (Some a, h))"
| "api_exec (Retain_call a) h = map_option (Pair None) (retain (Some a) h)"
| "api_exec (Release_call a) h = map_option (Pair None) (release (Some a) h)"
| "api_exec (Value_SetPlain_call a d) h = map_option (Pair None) (Value_SetPlain a d h)"
| "api_exec (Value_SetProperty_call a p) h = map_option (Pair None) (Value_SetProperty (Some a) p h)"
| "api_exec (Value_SetObject_call a p) h = map_option (Pair None) (Value_SetObject (Some a) p h)"
| "api_exec (Property_SetValue_call a p) h = map_option (Pair None) (rbusProperty_SetValue (Some a) p h)"
| "api_exec (Property_SetNext_call a p) h = map_option (Pair None) (rbusProperty_SetNext (Some a) p h)"
| "api_exec (Object_SetProperties_call a p) h = map_option (Pair None) (rbusObject_SetProperties (Some a) p h)"
| "api_exec (Object_SetChildren_call a p) h = map_option (Pair None) (rbusObject_SetChildren (Some a) p h)"
| "api_exec (Object_SetNext_call a p) h = map_option (Pair None) (rbusObject_SetNext (Some a) p h)"

fun handles_after :: "api_call \<Rightarrow> ptr \<Rightarrow> (addr \<Rightarrow> nat) \<Rightarrow> addr \<Rightarrow> nat" where
  "handles_after (Retain_call a) r ext = ext(a := ext a + 1)"
| "handles_after (Release_call a) r ext = ext(a := ext a - 1)"
| "handles_after _ r ext = (case r of None \<Rightarrow> ext | Some a \<Rightarrow> ext(a := 1))"

definition handle :: "heap \<Rightarrow> (addr \<Rightarrow> nat) \<Rightarrow> kind \<Rightarrow> ptr \<Rightarrow> bool" where
  "handle h ext k p \<longleftrightarrow> holds ext p \<and> has_kind h k p"

fun call_ok :: "heap \<Rightarrow> (addr \<Rightarrow> nat) \<Rightarrow> api_call \<Rightarrow> bool" where
  "call_ok h ext (Property_Init_call name v) \<longleftrightarrow> handle h ext KValue v"
| "call_ok h ext (Retain_call a) \<longleftrightarrow> 0 < ext a"
| "call_ok h ext (Release_call a) \<longleftrightarrow> 0 < ext a"
| "call_ok h ext (Value_SetPlain_call a d) \<longleftrightarrow> handle h ext KValue (Some a) \<and> plain d \<and> data_inv d"
| "call_ok h ext (Value_SetProperty_call a p) \<longleftrightarrow> handle h ext KValue (Some a) \<and> handle h ext KProperty p"
| "call_ok h ext (Value_SetObject_call a p) \<longleftrightarrow> handle h ext KValue (Some a) \<and> handle h ext KObject p"
| "call_ok h ext (Property_SetValue_call a p) \<longleftrightarrow> handle h ext KProperty (Some a) \<and> handle h ext KValue p"
| "call_ok h ext (Property_SetNext_call a p) \<longleftrightarrow> handle h ext KProperty (Some a) \<and> handle h ext KProperty p"
| "call_ok h ext (Object_SetProperties_call a p) \<longleftrightarrow> handle h ext KObject (Some a) \<and> handle h ext KProperty p"
| "call_ok h ext (Object_SetChildren_call a p) \<longleftrightarrow> handle h ext KObject (Some a) \<and> handle h ext KObject p"
| "call_ok h ext (Object_SetNext_call a p) \<longleftrightarrow> handle h ext KObject (Some a) \<and> handle h ext KObject p"
| "call_ok h ext _ \<longleftrightarrow> True"

lemma handleD:
  assumes "handle h ext k (Some a)"
  shows "0 < ext a" "k = KValue \<Longrightarrow> \<exists>c. node_at h a = Some (NValue c)"
    "k = KProperty \<Longrightarrow> \<exists>n v nx. node_at h a = Some (NProperty n v nx)"
    "k = KObject \<Longrightarrow> \<exists>n. node_at h a = Some n \<and> is_object n"
  using assms by (auto simp: handle_def holds_def has_kind_def elim: kind_of.elims)

lemma init_ok:
  assumes "heap_inv h ext"
  shows "\<exists>a h'. Value_Init h = (a, h') \<and> heap_inv h' (ext(a := 1))"
    "\<exists>a h'. rbusObject_Init name h = (a, h') \<and> heap_inv h' (ext(a := 1))"
  using alloc_ok(1) [OF assms, of "NValue (Plain DNone)"]
    alloc_ok(1) [OF assms, of "NObject name RBUS_OBJECT_SINGLE_INSTANCE None None None None"]
  by (auto simp: Value_Init_def rbusObject_Init_def alloc_def)

lemma Value_calls_ok:
  assumes "heap_inv h ext" "handle h ext KValue (Some a)"
  shows "plain d \<Longrightarrow> data_inv d \<Longrightarrow> \<exists>h'. Value_SetPlain a d h = Some h' \<and> heap_inv h' ext"
    "handle h ext KProperty p \<Longrightarrow> \<exists>h'. Value_SetProperty (Some a) p h = Some h' \<and> heap_inv h' ext"
    "handle h ext KObject p \<Longrightarrow> \<exists>h'. Value_SetObject (Some a) p h = Some h' \<and> heap_inv h' ext"
proof -
  obtain c where c: "node_at h a = Some (NValue c)" using handleD(2) [OF assms(2)] by blast
  note ok = Value_set_ok [OF assms(1) c handleD(1) [OF assms(2)]]
  show "\<exists>h'. Value_SetPlain a d h = Some h' \<and> heap_inv h' ext" if "plain d" "data_inv d"
    using ok [of None "Plain d"] that by (simp add: Value_SetPlain_def holds_def retain_def)
  show "\<exists>h'. Value_SetProperty (Some a) p h = Some h' \<and> heap_inv h' ext" if "handle h ext KProperty p"
    using ok [of p "PropertyRef p"] that by (simp add: Value_SetProperty_def handle_def)
  show "\<exists>h'. Value_SetObject (Some a) p h = Some h' \<and> heap_inv h' ext" if "handle h ext KObject p"
    using ok [of p "ObjectRef p"] that by (simp add: Value_SetObject_def handle_def)
qed

lemma api_exec_ok:
  assumes "heap_inv h ext" "call_ok h ext call"
  shows "\<exists>r h'. api_exec call h = Some (r, h') \<and> heap_inv h' (handles_after call r ext)"
proof (cases call)
  case (Property_Init_call name v)
  then show ?thesis using Property_Init_ok [OF assms(1), of v name] assms(2) by (auto simp: handle_def)
next
  case (Retain_call a)
  then show ?thesis using retain_ok [OF assms(1), of "Some a"] heap_invD(6) [OF assms(1), of a] assms(2) by auto
next
  case (Release_call a)
  then show ?thesis using release_ok [OF assms(1), of a] assms(2) by auto
next
  case (Property_SetValue_call a p)
  then show ?thesis using pSetValue_ok [OF assms(1), of a _ _ _ p] handleD(1,3) [of h ext KProperty a] assms(2) by (fastforce simp: handle_def)
next
  case (Property_SetNext_call a p)
  then show ?thesis using pSetNext_ok [OF assms(1), of a _ _ _ p] handleD(1,3) [of h ext KProperty a] assms(2) by (fastforce simp: handle_def)
next
  case (Object_SetProperties_call a p)
  then show ?thesis using object_field_ok(1) [OF assms(1), of a _ p] handleD(1,4) [of h ext KObject a] assms(2) by (fastforce simp: handle_def)
next
  case (Object_SetChildren_call a p)
  then show ?thesis using object_field_ok(2) [OF assms(1), of a _ p] handleD(1,4) [of h ext KObject a] assms(2) by (fastforce simp: handle_def)
next
  case (Object_SetNext_call a p)
  then show ?thesis using object_field_ok(3) [OF assms(1), of a _ p] handleD(1,4) [of h ext KObject a] assms(2) by (fastforce simp: handle_def)
next
  case Value_Init_call
  then show ?thesis using init_ok(1) [OF assms(1)] by auto
next
  case (Object_Init_call name)
  then show ?thesis using init_ok(2) [OF assms(1), of name] by auto
next
  case (Value_SetPlain_call a d)
  then show ?thesis using Value_calls_ok(1) [OF assms(1), of a d] assms(2) by auto
next
  case (Value_SetProperty_call a p)
  then show ?thesis using Value_calls_ok(2) [OF assms(1), of a p] assms(2) by auto
next
  case (Value_SetObject_call a p)
  then show ?thesis using Value_calls_ok(3) [OF assms(1), of a p] assms(2) by auto
qed

inductive client :: "heap \<Rightarrow> (addr \<Rightarrow> nat) \<Rightarrow> bool" where
  start: "client [] (\<lambda>_. 0)"
| call: "client h ext \<Longrightarrow> call_ok h ext call \<Longrightarrow> api_exec call h = Some (r, h') \<Longrightarrow> client h' (handles_after call r ext)"

inductive_cases clientE: "client h ext"

lemma empty_heap_inv: "heap_inv [] (\<lambda>_. 0)"
  by (simp add: heap_inv_def calls_inv_def cell_at_def node_at_def rcnt_def stored_def)

lemma client_inv: "client h ext \<Longrightarrow> heap_inv h ext"
proof (induction rule: client.induct)
  case start
  then show ?case by (rule empty_heap_inv)
next
  case (call h ext c r h')
  then show ?case using api_exec_ok [OF call.IH call.hyps(2)] by auto
qed

end
