(* ===== verification/RB_ObjectMap.thy ===== *)
theory RB_ObjectMap
  imports RB_Objects
begin

text \<open>
  The properties of an object are a map. The linked list of an object's properties is followed as
  a path in the heap; getting and setting the value of a property, and putting a property into an
  object, are lookups and updates of the map from names to values, with all reference counts kept.
\<close>

section \<open>Paths of properties\<close>

fun seg :: "heap \<Rightarrow> ptr \<Rightarrow> addr list \<Rightarrow> ptr \<Rightarrow> bool" where
  "seg h p [] q \<longleftrightarrow> p = q"
| "seg h p (a # as) q \<longleftrightarrow> p = Some a \<and> (\<exists>n v nx. node_at h a = Some (NProperty n v nx) \<and> seg h nx as q)"

lemma seg_append: "seg h p (as @ bs) q \<longleftrightarrow> (\<exists>r. seg h p as r \<and> seg h r bs q)"
  by (induction as arbitrary: p) auto

lemma seg_cong: "(\<And>a. a \<in> set as \<Longrightarrow> node_at h' a = node_at h a) \<Longrightarrow> seg h' p as q = seg h p as q"
  by (induction as arbitrary: p) auto

lemma seg_other: "node_at h' = (node_at h)(b \<mapsto> m) \<Longrightarrow> b \<notin> set as \<Longrightarrow> seg h' p as q = seg h p as q"
  by (rule seg_cong) auto

lemma seg_property: "seg h p as q \<Longrightarrow> a \<in> set as \<Longrightarrow> \<exists>n v nx. node_at h a = Some (NProperty n v nx)"
  by (induction as arbitrary: p) auto

lemma seg_unique: "seg h p as None \<Longrightarrow> seg h p bs None \<Longrightarrow> as = bs"
proof (induction as arbitrary: p bs)
  case Nil
  then show ?case by (cases bs) auto
next
  case (Cons a as)
  then show ?case by (cases bs) auto
qed

lemma seg_distinct: "seg h p as None \<Longrightarrow> distinct as"
proof (induction as arbitrary: p)
  case (Cons a as)
  have "a \<notin> set as"
  proof
    assume "a \<in> set as"
    then obtain xs ys where as: "as = xs @ a # ys" by (auto simp: in_set_conv_decomp)
    have "seg h (Some a) (a # xs @ a # ys) None" using Cons.prems as by simp
    moreover from this have "seg h (Some a) (a # ys) None" using seg_append [of h "Some a" "a # xs" "a # ys"] by auto
    ultimately have "a # xs @ a # ys = a # ys" by (rule seg_unique)
    then have "length (a # xs @ a # ys) = length (a # ys)" by (rule arg_cong)
    then show False by simp
  qed
  then show ?case using Cons by auto
qed simp

section \<open>The loops over a path\<close>

lemma property_last_seg: "seg h (Some a) (as @ [z]) None \<Longrightarrow> property_last h a = Some z"
proof (induction as arbitrary: a)
  case Nil
  then show ?case by (subst property_last.simps) (auto simp: get_property)
next
  case (Cons b as)
  then obtain n v c where b: "a = b" "node_at h b = Some (NProperty n v c)" "seg h c (as @ [z]) None" by auto
  then obtain d where d: "c = Some d" by (cases as) auto
  then show ?case using Cons.IH [of d] b by (subst property_last.simps) (simp add: get_property)
qed

lemma property_count_seg: "seg h (Some a) as None \<Longrightarrow> property_count h a k = Some (k + of_nat (length as) - 1)"
proof (induction as arbitrary: a k)
  case (Cons b as)
  then obtain n v c where b: "a = b" "node_at h b = Some (NProperty n v c)" "seg h c as None" by auto
  show ?case
  proof (cases c)
    case None
    then have "as = []" using b(3) by (cases as) auto
    then show ?thesis using None b by (subst property_count.simps) (simp add: get_property)
  next
    case (Some d)
    then show ?thesis using Cons.IH [of d "k + 1"] b
      by (subst property_count.simps) (simp add: get_property algebra_simps)
  qed
qed simp

text \<open>Names and values along a path; every property has a name.\<close>

definition name_at :: "heap \<Rightarrow> addr \<Rightarrow> string" where
  "name_at h a = (case node_at h a of Some (NProperty (Some s) v nx) \<Rightarrow> s | _ \<Rightarrow> [])"

definition val_at :: "heap \<Rightarrow> addr \<Rightarrow> ptr" where
  "val_at h a = (case node_at h a of Some (NProperty n v nx) \<Rightarrow> v | _ \<Rightarrow> None)"

definition named :: "heap \<Rightarrow> addr list \<Rightarrow> bool" where
  "named h as \<longleftrightarrow> (\<forall>a\<in>set as. \<exists>s v nx. node_at h a = Some (NProperty (Some s) v nx))"

definition entries :: "heap \<Rightarrow> addr list \<Rightarrow> (string \<times> ptr) list" where
  "entries h as = map (\<lambda>a. (name_at h a, val_at h a)) as"

lemma find_property_seg:
  "seg h p as None \<Longrightarrow> named h as \<Longrightarrow> find_property h s p = Some (find (\<lambda>a. name_at h a = s) as)"
proof (induction as arbitrary: p)
  case Nil
  then show ?case by (subst find_property.simps) simp
next
  case (Cons a as)
  then obtain t v nx where a: "p = Some a" "node_at h a = Some (NProperty (Some t) v nx)" "seg h nx as None"
    by (auto simp: named_def)
  have t: "name_at h a = t" using a(2) by (simp add: name_at_def)
  have "named h as" using Cons.prems(2) by (simp add: named_def)
  then show ?case using Cons.IH [OF a(3)] a t by (subst find_property.simps) (auto simp: get_property)
qed

lemma find_with_last_seg:
  "seg h p as None \<Longrightarrow> named h as \<Longrightarrow>
   find_with_last h (Some s) p l =
     Some (find (\<lambda>a. name_at h a = s) as,
           let pre = takeWhile (\<lambda>a. name_at h a \<noteq> s) as in if pre = [] then l else Some (last pre))"
proof (induction as arbitrary: p l)
  case Nil
  then show ?case by (subst find_with_last.simps) simp
next
  case (Cons a as)
  then obtain t v nx where a: "p = Some a" "node_at h a = Some (NProperty (Some t) v nx)" "seg h nx as None"
    by (auto simp: named_def)
  have t: "name_at h a = t" using a(2) by (simp add: name_at_def)
  have "named h as" using Cons.prems(2) by (simp add: named_def)
  then show ?case using Cons.IH [OF a(3), of "Some a"] a t
    by (subst find_with_last.simps) (auto simp: get_property Let_def)
qed

section \<open>Reaching the properties of an object\<close>

lemma ptr_list_mem [simp]: "a \<in> set (ptr_list p) \<longleftrightarrow> p = Some a"
  by (cases p) auto

context counted_field
begin

lemma reaches_seg:
  assumes "node_at h a = Some n" "a \<notin> set as"
  shows "seg h p as q \<Longrightarrow> \<forall>b. p = Some b \<longrightarrow> reaches h ext a n b \<Longrightarrow>
    (\<forall>b\<in>set as. reaches h ext a n b) \<and> (\<forall>b. q = Some b \<longrightarrow> reaches h ext a n b)"
  using assms(2)
proof (induction as arbitrary: p)
  case (Cons c as)
  then obtain m v nx where c: "p = Some c" "node_at h c = Some (NProperty m v nx)" "seg h nx as q" by auto
  have rc: "reaches h ext a n c" using Cons.prems(2) c(1) by blast
  have nx: "\<forall>b. nx = Some b \<longrightarrow> reaches h ext a n b"
    using reaches_other [OF rc assms(1) _ c(2)] Cons.prems(3) by simp
  have "a \<notin> set as" using Cons.prems(3) by simp
  from Cons.IH [OF c(3) nx this] rc show ?case by simp
qed simp

end

lemma held_seg:
  assumes "\<And>b. p = Some b \<Longrightarrow> held h ext b"
  shows "seg h p as q \<Longrightarrow> a \<in> set as \<Longrightarrow> held h ext a"
  using assms
proof (induction as arbitrary: p)
  case (Cons c as)
  then obtain m v nx where c: "p = Some c" "node_at h c = Some (NProperty m v nx)" "seg h nx as q" by auto
  have hc: "held h ext c" using Cons.prems(3) c(1) by blast
  have nx: "held h ext b" if "nx = Some b" for b using held.ref [OF hc c(2)] that by simp
  show ?case
  proof (cases "a = c")
    case False
    then show ?thesis using Cons.prems(2) by (intro Cons.IH [OF c(3) _ nx]) auto
  qed (use hc in simp)
qed simp

text \<open>An object somebody holds, with the path of its properties.\<close>

definition has_properties :: "heap \<Rightarrow> (addr \<Rightarrow> nat) \<Rightarrow> addr \<Rightarrow> addr list \<Rightarrow> bool" where
  "has_properties h ext ob as \<longleftrightarrow> heap_inv h ext \<and> 0 < ext ob \<and>
     (\<exists>n. node_at h ob = Some n \<and> is_object n \<and> seg h (n_properties n) as None) \<and> named h as"

lemma has_propertiesE:
  assumes "has_properties h ext ob as"
  obtains n where "heap_inv h ext" "0 < ext ob" "node_at h ob = Some n" "is_object n" "object_at h ob = Some n"
    "seg h (n_properties n) as None" "named h as" "ob \<notin> set as" "distinct as"
proof -
  obtain n where n: "node_at h ob = Some n" "is_object n" "seg h (n_properties n) as None"
    using assms by (auto simp: has_properties_def)
  moreover have "ob \<notin> set as" using seg_property [OF n(3), of ob] n(1,2) by auto
  ultimately show thesis
    using that [of n] assms seg_distinct [OF n(3)] by (auto simp: has_properties_def object_at_eq_Some)
qed

lemma GetProperty_seg:
  assumes "has_properties h ext ob as"
  shows "rbusObject_GetProperty (Some ob) s h = Some (find (\<lambda>a. name_at h a = s) as)"
  by (rule has_propertiesE [OF assms]) (simp add: rbusObject_GetProperty_def find_property_seg)

lemma map_of_entries_find: "map_of (entries h as) s = map_option (val_at h) (find (\<lambda>a. name_at h a = s) as)"
  by (induction as) (auto simp: entries_def)

lemma GetPropertyValue_map:
  assumes "has_properties h ext ob as"
  shows "rbusObject_GetPropertyValue (Some ob) (Some s) h = Some (case map_of (entries h as) s of None \<Rightarrow> None | Some v \<Rightarrow> v)"
proof (cases "find (\<lambda>a. name_at h a = s) as")
  case (Some a)
  then have "a \<in> set as" by (auto simp: find_Some_iff)
  moreover obtain n where "seg h (n_properties n) as None" using has_propertiesE [OF assms] by blast
  ultimately obtain m v nx where "node_at h a = Some (NProperty m v nx)" using seg_property by blast
  then show ?thesis using Some GetProperty_seg [OF assms, of s]
    by (simp add: rbusObject_GetPropertyValue_def map_of_entries_find get_property val_at_def)
qed (use GetProperty_seg [OF assms, of s] in \<open>simp add: rbusObject_GetPropertyValue_def map_of_entries_find\<close>)

lemma entries_cong: "(\<And>a. a \<in> set as \<Longrightarrow> node_at h' a = node_at h a) \<Longrightarrow> entries h' as = entries h as"
  by (simp add: entries_def name_at_def val_at_def)

lemma named_cong: "(\<And>a. a \<in> set as \<Longrightarrow> node_at h' a = node_at h a) \<Longrightarrow> named h' as = named h as"
  by (simp add: named_def)

text \<open>What the names of an object stand for: the contents of their values.\<close>

definition content_at :: "heap \<Rightarrow> ptr \<Rightarrow> content option" where
  "content_at h p = (case p of None \<Rightarrow> None | Some w \<Rightarrow> value_at h w)"

definition view :: "heap \<Rightarrow> addr list \<Rightarrow> string \<rightharpoonup> content option" where
  "view h as s = map_option (content_at h) (map_of (entries h as) s)"

lemma content_at_simps [simp]: "content_at h None = None" "content_at h (Some w) = value_at h w"
  by (simp_all add: content_at_def)

lemma value_at_node: "node_at h' w = node_at h w \<Longrightarrow> value_at h' w = value_at h w"
  by (simp add: value_at_def)

lemma view_cong:
  assumes "entries h' as = entries h as" "\<And>a w. a \<in> set as \<Longrightarrow> val_at h a = Some w \<Longrightarrow> value_at h' w = value_at h w"
  shows "view h' as = view h as"
proof
  fix t
  show "view h' as t = view h as t"
  proof (cases "find (\<lambda>a. name_at h a = t) as")
    case (Some a)
    then have "a \<in> set as" by (auto simp: find_Some_iff)
    then have "content_at h' (val_at h a) = content_at h (val_at h a)" using assms(2) by (cases "val_at h a") auto
    then show ?thesis using Some assms(1) by (simp add: view_def map_of_entries_find)
  qed (use assms(1) in \<open>simp add: view_def map_of_entries_find\<close>)
qed

lemma property_value_live:
  assumes "heap_inv h ext" "node_at h a = Some (NProperty k (Some w) nx)"
  shows "\<exists>c. node_at h w = Some (NValue c)"
  using heap_invD(2) [OF assms] by (auto simp: has_kind_def elim: kind_of.elims)

section \<open>Overwriting the value of a property\<close>

lemma reaches_pvalue:
  assumes "has_properties h ext ob as" "a \<in> set as" "node_at h a = Some m" "b \<in> set as"
  shows "pvalue.reaches h ext a m b"
proof -
  obtain n where n: "0 < ext ob" "node_at h ob = Some n" "is_object n" "seg h (n_properties n) as None" "ob \<notin> set as" "distinct as"
    using has_propertiesE [OF assms(1)] by metis
  obtain pre post where as: "as = pre @ a # post" using assms(2) by (auto simp: in_set_conv_decomp)
  have d: "a \<notin> set pre" "a \<notin> set post" using n(6) as by auto
  obtain r where r: "seg h (n_properties n) pre (Some a)" using n(4) unfolding as seg_append by auto
  obtain k v nx where k: "m = NProperty k v nx" "seg h nx post None"
    using n(4) assms(3) unfolding as seg_append by auto
  have "ob \<noteq> a" using n(5) assms(2) by blast
  then have "\<forall>c. n_properties n = Some c \<longrightarrow> pvalue.reaches h ext a m c"
    using pvalue.reaches_other [OF pvalue.reaches_ext [of ext ob, OF n(1)] assms(3) _ n(2)] n(3)
    by (auto simp: is_object_iff)
  from pvalue.reaches_seg [OF assms(3) d(1) r this]
  have pre: "\<forall>b\<in>set pre. pvalue.reaches h ext a m b" "pvalue.reaches h ext a m a" by simp_all
  have "\<forall>c. nx = Some c \<longrightarrow> pvalue.reaches h ext a m c"
    using pvalue.reaches_self [OF pre(2) assms(3)] k(1) by simp
  from pvalue.reaches_seg [OF assms(3) d(2) k(2) this]
  have "\<forall>b\<in>set post. pvalue.reaches h ext a m b" by simp
  then show ?thesis using pre assms(4) as by auto
qed

lemma SetValue_found:
  assumes hp: "has_properties h ext ob as" and f: "find (\<lambda>a. name_at h a = s) as = Some a"
    and v: "0 < ext v" "has_kind h KValue (Some v)"
  shows "\<exists>h'. rbusProperty_SetValue (Some a) (Some v) h = Some h' \<and> has_properties h' ext ob as \<and>
    map_of (entries h' as) = (map_of (entries h as))(s \<mapsto> Some v) \<and>
    view h' as = (view h as)(s \<mapsto> value_at h v) \<and> (\<forall>w. 0 < ext w \<and> w \<notin> set as \<longrightarrow> node_at h' w = node_at h w)"
proof -
  obtain n where n: "heap_inv h ext" "0 < ext ob" "node_at h ob = Some n" "is_object n" "seg h (n_properties n) as None"
      "named h as" "ob \<notin> set as"
    using has_propertiesE [OF hp] by metis
  have a: "a \<in> set as" "name_at h a = s" using f by (auto simp: find_Some_iff)
  then obtain old nx where m: "node_at h a = Some (NProperty (Some s) old nx)"
    using n(6) by (auto simp: named_def name_at_def)
  let ?m = "NProperty (Some s) old nx"
  obtain h' where h': "replace_ref a old (Some v) (with_value (Some v)) h = Some h'" "heap_inv h' ext"
      "node_at h' a = Some (NProperty (Some s) (Some v) nx)"
      "\<And>b. pvalue.reaches h ext a ?m b \<Longrightarrow> b \<noteq> a \<Longrightarrow> \<exists>k. node_at h b = Some k \<and> node_at h' b = Some k"
    using pvalue.set_field_ok [OF n(1) m _ reaches_pvalue [OF hp a(1) m a(1)] _ v(2)] pvalue.reaches_ext [of ext v, OF v(1)] by auto
  have other: "node_at h' b = node_at h b" if "b \<in> set as" "b \<noteq> a" for b
    using h'(4) [OF reaches_pvalue [OF hp a(1) m that(1)] that(2)] by auto
  have ob: "node_at h' ob = Some n"
    using h'(4) [OF pvalue.reaches_ext [of ext ob, OF n(2)]] n(3,7) a(1) by auto
  have nm: "name_at h' b = name_at h b" if "b \<in> set as" for b
    using other [OF that] m h'(3) by (cases "b = a") (auto simp: name_at_def)
  have vl: "val_at h' b = (if b = a then Some v else val_at h b)" if "b \<in> set as" for b
    using other [OF that] h'(3) by (auto simp: val_at_def)
  have sg: "seg h' p bs q" if "seg h p bs q" "set bs \<subseteq> set as" for p bs q
    using that
  proof (induction bs arbitrary: p)
    case (Cons b bs)
    then show ?case using other [of b] m h'(3) by (cases "b = a") auto
  qed simp
  have "named h' as" unfolding named_def
  proof
    fix b
    assume "b \<in> set as"
    then show "\<exists>s v nx. node_at h' b = Some (NProperty (Some s) v nx)"
      using n(6) other [of b] h'(3) by (cases "b = a") (auto simp: named_def)
  qed
  then have hp': "has_properties h' ext ob as"
    using h'(2) n(2,4) ob sg [OF n(5)] by (auto simp: has_properties_def)
  have fd: "find (\<lambda>b. name_at h' b = t) as = find (\<lambda>b. name_at h b = t) as" for t
    using nm by (intro find_cong) auto
  have "map_of (entries h' as) t = ((map_of (entries h as))(s \<mapsto> Some v)) t" for t
  proof (cases "find (\<lambda>b. name_at h b = t) as")
    case None
    then show ?thesis using f by (auto simp: map_of_entries_find fd)
  next
    case (Some b)
    then have b: "b \<in> set as" "name_at h b = t" by (auto simp: find_Some_iff)
    show ?thesis using Some f b a(2) vl [OF b(1)] by (cases "t = s") (auto simp: map_of_entries_find fd)
  qed
  then have mp: "map_of (entries h' as) = (map_of (entries h as))(s \<mapsto> Some v)" by auto
  have keep: "node_at h' w = node_at h w" if "0 < ext w" "w \<noteq> a" for w
    using h'(4) [OF pvalue.reaches_ext [of ext w, OF that(1)] that(2)] by auto
  have vs: "value_at h' w = value_at h w" if b: "b \<in> set as" "b \<noteq> a" "val_at h b = Some w" for b w
  proof -
    obtain k nx' where nb: "node_at h b = Some (NProperty k (Some w) nx')"
      using n(6) b by (auto simp: named_def val_at_def)
    have "w \<noteq> a" using property_value_live [OF n(1) nb] m by auto
    moreover have "pvalue.reaches h ext a ?m w"
      using pvalue.reaches_other [OF reaches_pvalue [OF hp a(1) m b(1)] m b(2) nb] by simp
    ultimately have "node_at h' w = node_at h w" using h'(4) by fastforce
    then show ?thesis by (rule value_at_node)
  qed
  have vv: "value_at h' v = value_at h v"
  proof (rule value_at_node, rule keep [OF v(1)])
    show "v \<noteq> a" using v(2) m by (auto simp: has_kind_def)
  qed
  have "view h' as t = ((view h as)(s \<mapsto> value_at h v)) t" for t
  proof (cases "find (\<lambda>b. name_at h b = t) as")
    case None
    then show ?thesis using f mp by (auto simp: view_def map_of_entries_find)
  next
    case (Some b)
    then have b: "b \<in> set as" "name_at h b = t" by (auto simp: find_Some_iff)
    show ?thesis
    proof (cases "t = s")
      case True
      then show ?thesis using mp vv by (simp add: view_def)
    next
      case False
      then have "b \<noteq> a" using b a(2) by auto
      then have "content_at h' (val_at h b) = content_at h (val_at h b)" using vs [OF b(1)] by (cases "val_at h b") auto
      then show ?thesis using False mp Some by (simp add: view_def map_of_entries_find)
    qed
  qed
  then have "view h' as = (view h as)(s \<mapsto> value_at h v)" by auto
  then show ?thesis using h'(1) hp' mp keep a(1) get_property(2) [OF m] by (auto simp: rbusProperty_SetValue_def)
qed

section \<open>Adding a property\<close>

lemma replace_ref_None:
  assumes "replace_ref a None new upd h = Some h'" "node_at h a = Some n"
  shows "node_at h' = (node_at h)(a \<mapsto> upd n)"
proof -
  obtain h1 where h1: "set_node a (upd n) h = Some h1" "retain new h1 = Some h'"
    using assms by (auto simp: replace_ref_def split: bind_splits)
  have "node_at h' = node_at h1" using h1(2) node_at_retain by (cases new) (auto simp: retain_def)
  then show ?thesis using set_node_node_at [OF h1(1)] by simp
qed

lemma Property_Init_nodes:
  assumes "heap_inv h ext" "0 < ext v" "has_kind h KValue (Some v)"
  shows "\<exists>p h'. rbusProperty_Init name (Some v) h = Some (p, h') \<and> heap_inv h' (ext(p := 1)) \<and> ext p = 0 \<and>
    node_at h p = None \<and> node_at h' = (node_at h)(p \<mapsto> NProperty name (Some v) None)"
proof -
  obtain p h' where p: "rbusProperty_Init name (Some v) h = Some (p, h')" "heap_inv h' (ext(p := 1))" "ext p = 0" "node_at h p = None"
    using Property_Init_ok [OF assms(1), of "Some v" name] assms(2,3) by (auto simp: holds_def)
  obtain q h1 where al: "alloc (NProperty name None None) h = (q, h1)" by fastforce
  have q: "node_at h1 = (node_at h)(q \<mapsto> NProperty name None None)" using alloc_ok(2) [OF assms(1) _ _ al] by simp
  then have "q = p" "replace_ref q None (Some v) (with_value (Some v)) h1 = Some h'"
    using p(1) al get_property(2) [of h1 q name None None]
    by (auto simp: rbusProperty_Init_def rbusProperty_SetValue_def split: bind_splits)
  then have "node_at h' = (node_at h)(p \<mapsto> NProperty name (Some v) None)"
    using replace_ref_None [of q "Some v" _ h1 h' "NProperty name None None"] q by simp
  then show ?thesis using p by blast
qed

lemma last_next_None:
  assumes "seg h p (pre @ [z]) None"
  shows "\<exists>k w. node_at h z = Some (NProperty k w None)"
  using assms by (auto simp: seg_append)

lemma reaches_pnext:
  assumes "0 < ext ob" "node_at h ob = Some n" "is_object n" "seg h (n_properties n) pre (Some z)"
    and "node_at h z = Some m" "z \<notin> set pre" "ob \<noteq> z"
  shows "pnext.reaches h ext z m z \<and> (\<forall>b\<in>set pre. pnext.reaches h ext z m b)"
proof -
  have "\<forall>c. n_properties n = Some c \<longrightarrow> pnext.reaches h ext z m c"
    using pnext.reaches_other [OF pnext.reaches_ext [of ext ob, OF assms(1)] assms(5,7,2)] assms(3)
    by (auto simp: is_object_iff)
  from pnext.reaches_seg [OF assms(5,6,4) this] show ?thesis by simp
qed

definition more_refs :: "heap \<Rightarrow> heap \<Rightarrow> bool" where
  "more_refs h h' \<longleftrightarrow> (\<forall>a n. node_at h a = Some n \<longrightarrow> (\<exists>n'. node_at h' a = Some n' \<and> set (refs n) \<subseteq> set (refs n')))"

lemma more_refsI: "node_at h' = (node_at h)(a \<mapsto> n') \<Longrightarrow> node_at h a = Some n \<Longrightarrow> set (refs n) \<subseteq> set (refs n') \<Longrightarrow> more_refs h h'"
  by (auto simp: more_refs_def)

lemma held_more:
  assumes "held h ext a" "more_refs h h'" "\<And>a. ext a \<le> ext' a"
  shows "held h' ext' a"
  using assms(1)
proof induction
  case (ext a)
  then show ?case using assms(3) [of a] by (intro held.ext) simp
next
  case (ref a n b)
  then obtain n' where "node_at h' a = Some n'" "b \<in> set (refs n')" using assms(2) unfolding more_refs_def by blast
  then show ?case using ref.IH by (rule held.ref [rotated])
qed

lemma link_new:
  assumes hp: "has_properties h ext ob as" and p: "node_at h p = Some (NProperty (Some s) v None)" "0 < ext p" "p \<notin> set as"
  shows "\<exists>h'. (if as = [] then rbusObject_SetProperties (Some ob) (Some p) h
               else rbusProperty_SetNext (Some (last as)) (Some p) h) = Some h' \<and>
    has_properties h' ext ob (as @ [p]) \<and> entries h' (as @ [p]) = entries h as @ [(s, v)] \<and>
    value_at h' = value_at h \<and> (\<forall>w. w \<notin> insert ob (set as) \<longrightarrow> node_at h' w = node_at h w) \<and> more_refs h h'"
proof -
  obtain n where n: "heap_inv h ext" "0 < ext ob" "node_at h ob = Some n" "is_object n" "object_at h ob = Some n"
      "seg h (n_properties n) as None" "named h as" "ob \<notin> set as" "distinct as"
    using has_propertiesE [OF hp] by metis
  have obp: "ob \<noteq> p" using n(3,4) p(1) by auto
  have kp: "has_kind h KProperty (Some p)" using p(1) by (simp add: has_kind_def)
  show ?thesis
  proof (cases as rule: rev_cases)
    case Nil
    have none: "n_properties n = None" using n(6) Nil by simp
    obtain h' where h': "replace_ref ob None (Some p) (with_properties (Some p)) h = Some h'" "heap_inv h' ext"
      using oprops.set_field_ok [OF n(1,3,4) oprops.reaches_ext oprops.reaches_ext kp] n(2) p(2) none by auto
    have nodes: "node_at h' = (node_at h)(ob \<mapsto> with_properties (Some p) n)" by (rule replace_ref_None [OF h'(1) n(3)])
    have "is_object (with_properties (Some p) n)" "n_properties (with_properties (Some p) n) = Some p"
      using n(4) by (auto simp: is_object_iff)
    moreover have "more_refs h h'" by (rule more_refsI [OF nodes n(3)]) (use n(4) none in \<open>auto simp: is_object_iff\<close>)
    ultimately show ?thesis
      using Nil h' n(2-5) none nodes obp p(1)
      by (auto simp: rbusObject_SetProperties_def has_properties_def named_def entries_def name_at_def val_at_def
          value_at_def fun_eq_iff is_object_iff)
  next
    case (snoc pre z)
    obtain k w where z: "node_at h z = Some (NProperty k w None)" using last_next_None n(6) snoc by blast
    have d: "z \<notin> set pre" "ob \<noteq> z" "p \<noteq> z" "p \<notin> set pre" "ob \<notin> set pre" using n(8,9) snoc p(3) by auto
    have sp: "seg h (n_properties n) pre (Some z)" using n(6) snoc by (auto simp: seg_append)
    have rz: "pnext.reaches h ext z (NProperty k w None) z"
      using reaches_pnext [of ext ob, OF n(2-4) sp z d(1,2)] by blast
    obtain h' where h': "replace_ref z None (Some p) (with_next (Some p)) h = Some h'" "heap_inv h' ext"
      using pnext.set_field_ok [OF n(1) z _ rz pnext.reaches_ext kp] p(2) by auto
    have nodes: "node_at h' = (node_at h)(z \<mapsto> NProperty k w (Some p))"
      using replace_ref_None [OF h'(1) z] by simp
    have e: "entries h' (as @ [p]) = entries h as @ [(s, v)]"
    proof -
      have "name_at h' b = name_at h b \<and> val_at h' b = val_at h b" for b
        using z by (cases "b = z") (simp_all add: nodes name_at_def val_at_def)
      then show ?thesis using p(1) by (simp add: entries_def name_at_def val_at_def)
    qed
    have "seg h' (n_properties n) pre (Some z)" using sp seg_other [OF nodes d(1)] by simp
    moreover have "seg h' (Some z) [z, p] None" using nodes p(1) d(3) by simp
    ultimately have "seg h' (n_properties n) (as @ [p]) None"
      using seg_append [of h' "n_properties n" pre "[z, p]" None] snoc by auto
    moreover have "named h' (as @ [p])"
      using n(7) p(1) z by (auto simp: named_def nodes snoc)
    ultimately have "has_properties h' ext ob (as @ [p])"
      using h'(2) n(2-4) nodes d(2) by (auto simp: has_properties_def)
    moreover have "value_at h' = value_at h" using z by (auto simp: value_at_def nodes)
    moreover have "more_refs h h'" by (rule more_refsI [OF nodes z]) auto
    ultimately show ?thesis using h'(1) e get_property(3) [OF z] snoc nodes by (auto simp: rbusProperty_SetNext_def)
  qed
qed

lemma release_keeps:
  assumes hp: "has_properties h ext ob as" and p: "0 < ext p" "0 < take_back (Some p) ext ob"
  shows "\<exists>h'. release (Some p) h = Some h' \<and> has_properties h' (take_back (Some p) ext) ob as \<and> entries h' as = entries h as \<and>
    view h' as = view h as \<and> (\<forall>w. held h (take_back (Some p) ext) w \<longrightarrow> node_at h' w = node_at h w)"
proof -
  let ?ext = "take_back (Some p) ext"
  obtain n where n: "heap_inv h ext" "node_at h ob = Some n" "is_object n" "seg h (n_properties n) as None" "named h as"
    using has_propertiesE [OF hp] by metis
  obtain h' where h': "release (Some p) h = Some h'" "heap_inv h' ?ext" "\<And>b. held h ?ext b \<Longrightarrow> survives h h' b"
    using release_ok [OF n(1) p(1)] by blast
  have ho: "held h ?ext ob" using p(2) by (rule held.ext)
  have "held h ?ext b" if "n_properties n = Some b" for b
    using held.ref [OF ho n(2)] n(3) that by (auto simp: is_object_iff)
  then have heldas: "held h ?ext b" if "b \<in> set as" for b using held_seg [OF _ n(4) that] by blast
  then have same: "node_at h' b = node_at h b" if "b \<in> set as" for b
    using h'(3) that by (force simp: survives_def)
  have "node_at h' ob = Some n" using h'(3) [OF ho] n(2) by (auto simp: survives_def)
  then have "has_properties h' ?ext ob as"
    using h'(2) n(3-5) p(2) seg_cong [of as h' h] named_cong [of as h' h] same unfolding has_properties_def by auto
  moreover have e: "entries h' as = entries h as" using entries_cong same by blast
  moreover have "view h' as = view h as"
  proof (rule view_cong [OF e])
    fix a w
    assume a: "a \<in> set as" "val_at h a = Some w"
    then obtain k nx where na: "node_at h a = Some (NProperty k (Some w) nx)" using n(5) by (auto simp: named_def val_at_def)
    have "held h ?ext w" by (rule held.ref [OF heldas [OF a(1)] na]) simp
    then have "node_at h' w = node_at h w" using h'(3) by (force simp: survives_def)
    then show "value_at h' w = value_at h w" by (rule value_at_node)
  qed
  moreover have "node_at h' w = node_at h w" if "held h ?ext w" for w
    using h'(3) that by (force simp: survives_def)
  ultimately show ?thesis using h'(1) by blast
qed

lemma append_link:
  assumes "has_properties h ext ob as" "object_at h ob = Some n"
  shows "(if n_properties n = None then rbusObject_SetProperties (Some ob) q h else rbusProperty_Append (n_properties n) q h) =
    (if as = [] then rbusObject_SetProperties (Some ob) q h else rbusProperty_SetNext (Some (last as)) q h)"
proof -
  have sg: "seg h (n_properties n) as None"
    using assms by (auto simp: has_properties_def object_at_eq_Some)
  show ?thesis
  proof (cases as rule: rev_cases)
    case Nil
    then show ?thesis using sg by simp
  next
    case (snoc pre z)
    then obtain a where a: "n_properties n = Some a" using sg by (cases pre) auto
    then have "property_last h a = Some z" using property_last_seg sg snoc by metis
    then show ?thesis using a snoc by (simp add: rbusProperty_Append_def)
  qed
qed

lemma has_properties_fresh:
  assumes hp: "has_properties h ext ob as" and p: "node_at h p = None" "node_at h' = (node_at h)(p \<mapsto> m)"
    and h': "heap_inv h' ext'" "0 < ext' ob"
  shows "has_properties h' ext' ob as" "entries h' as = entries h as" "p \<notin> set as" "ob \<noteq> p"
proof -
  obtain n where n: "node_at h ob = Some n" "is_object n" "seg h (n_properties n) as None" "named h as"
    using has_propertiesE [OF hp] by metis
  show np: "p \<notin> set as" using seg_property [OF n(3), of p] p(1) by auto
  then have same: "node_at h' a = node_at h a" if "a \<in> set as" for a using p(2) that by auto
  show ob: "ob \<noteq> p" using n(1) p(1) by auto
  have "seg h' (n_properties n) as None" using seg_cong [of as h' h] same n(3) by blast
  moreover have "named h' as" using named_cong [of as h' h] same n(4) by blast
  ultimately show "has_properties h' ext' ob as" using n(1,2) h' p(2) ob by (auto simp: has_properties_def)
  show "entries h' as = entries h as" using entries_cong same by blast
qed

lemma SetPropertyValue_new:
  assumes hp: "has_properties h ext ob as" and v: "0 < ext v" "has_kind h KValue (Some v)"
    and None: "find (\<lambda>a. name_at h a = s) as = None"
  shows "\<exists>h' p. rbusObject_SetPropertyValue (Some ob) (Some s) (Some v) h = Some h' \<and> has_properties h' ext ob (as @ [p]) \<and>
    map_of (entries h' (as @ [p])) = (map_of (entries h as))(s \<mapsto> Some v) \<and> view h' (as @ [p]) = (view h as)(s \<mapsto> value_at h v) \<and>
    node_at h p = None \<and> (\<forall>w. held h ext w \<and> w \<notin> insert ob (set as) \<longrightarrow> node_at h' w = node_at h w)"
proof -
  have i: "heap_inv h ext" "0 < ext ob" using hp by (auto simp: has_properties_def)
  obtain p h1 where p: "rbusProperty_Init (Some s) (Some v) h = Some (p, h1)" "heap_inv h1 (ext(p := 1))" "ext p = 0"
      "node_at h p = None" "node_at h1 = (node_at h)(p \<mapsto> NProperty (Some s) (Some v) None)"
    using Property_Init_nodes [OF i(1) v, of "Some s"] by blast
  let ?ext = "ext(p := 1)"
  have e: "take_back (Some p) ?ext = ext" using p(3) by auto
  have "0 < ?ext ob" using i(2) by simp
  note f = has_properties_fresh [OF hp p(4,5,2) this]
  obtain n where n: "object_at h1 ob = Some n" using has_propertiesE [OF f(1)] by metis
  have np: "node_at h1 p = Some (NProperty (Some s) (Some v) None)" "0 < ?ext p" using p(5) by simp_all
  obtain h2 where h2: "(if n_properties n = None then rbusObject_SetProperties (Some ob) (Some p) h1
        else rbusProperty_Append (n_properties n) (Some p) h1) = Some h2"
      "has_properties h2 ?ext ob (as @ [p])" "entries h2 (as @ [p]) = entries h1 as @ [(s, Some v)]"
      "value_at h2 = value_at h1" "\<forall>w. w \<notin> insert ob (set as) \<longrightarrow> node_at h2 w = node_at h1 w" "more_refs h1 h2"
    using link_new [OF f(1) np f(3)] unfolding append_link [OF f(1) n, of "Some p"] by blast
  have "0 < take_back (Some p) ?ext ob" using e i(2) by simp
  then obtain h3 where h3: "release (Some p) h2 = Some h3" "has_properties h3 ext ob (as @ [p])"
      "entries h3 (as @ [p]) = entries h2 (as @ [p])" "view h3 (as @ [p]) = view h2 (as @ [p])"
      "\<forall>w. held h2 ext w \<longrightarrow> node_at h3 w = node_at h2 w"
    using release_keeps [OF h2(2) np(2)] unfolding e by blast
  have "rbusObject_SetPropertyValue (Some ob) (Some s) (Some v) h = Some h3"
    using GetProperty_seg [OF hp, of s] None p(1) n h2(1) h3(1) by (simp add: rbusObject_SetPropertyValue_def)
  moreover have m: "map_of (entries h2 (as @ [p])) = (map_of (entries h as))(s \<mapsto> Some v)"
  proof -
    have "map_of (entries h as) s = None" using None by (simp add: map_of_entries_find)
    then show ?thesis using h2(3) f(2) by (auto simp: fun_eq_iff map_add_def split: option.splits)
  qed
  moreover have "view h3 (as @ [p]) = (view h as)(s \<mapsto> value_at h v)"
  proof -
    have vv: "value_at h2 = value_at h" using h2(4) p(4,5) by (auto simp: value_at_def fun_eq_iff)
    then have c: "content_at h2 = content_at h" by (auto simp: content_at_def fun_eq_iff split: option.splits)
    show ?thesis
    proof
      fix t
      show "view h3 (as @ [p]) t = ((view h as)(s \<mapsto> value_at h v)) t" unfolding h3(4) by (simp add: view_def m c vv)
    qed
  qed
  moreover have "node_at h3 w = node_at h w" if w: "held h ext w" "w \<notin> insert ob (set as)" for w
  proof -
    have "more_refs h h1" using p(4,5) by (auto simp: more_refs_def)
    then have "held h1 ext w" using w(1) held_more by blast
    then have "held h2 ext w" using h2(6) held_more by blast
    moreover have "\<exists>c. cell_at h w = Some c"
      using w(1) by cases (use heap_invD(6) [OF i(1)] refs_live [OF i(1)] in blast)+
    then have "w \<noteq> p" using p(4) by (auto simp: node_at_def)
    ultimately show ?thesis using h3(5) h2(5) w(2) p(5) by simp
  qed
  ultimately show ?thesis using h3(2,3) p(4) by auto
qed

lemma SetPropertyValue_map:
  assumes hp: "has_properties h ext ob as" and v: "0 < ext v" "has_kind h KValue (Some v)"
  shows "\<exists>h' as'. rbusObject_SetPropertyValue (Some ob) (Some s) (Some v) h = Some h' \<and> has_properties h' ext ob as' \<and>
    map_of (entries h' as') = (map_of (entries h as))(s \<mapsto> Some v) \<and> view h' as' = (view h as)(s \<mapsto> value_at h v) \<and>
    (\<forall>w. 0 < ext w \<and> w \<notin> insert ob (set as) \<longrightarrow> node_at h' w = node_at h w)"
proof (cases "find (\<lambda>a. name_at h a = s) as")
  case (Some a)
  then show ?thesis
    using SetValue_found [OF hp Some v] GetProperty_seg [OF hp, of s] by (auto simp: rbusObject_SetPropertyValue_def)
next
  case None
  then show ?thesis using SetPropertyValue_new [OF hp v None] held.ext by blast
qed

text \<open>
  C16. Setting a property of an object by name: on a consistent heap, for an object and a value the
  caller holds, it returns; the object's properties are then the same map with the name bound to
  the value, every other name is bound as before, getting the property returns the value, and
  every reference count is the number of references again.
\<close>

theorem Object_SetPropertyValue_correct:
  assumes "has_properties h ext ob as" "0 < ext v" "has_kind h KValue (Some v)"
  shows "\<exists>h' as'. rbusObject_SetPropertyValue (Some ob) (Some s) (Some v) h = Some h' \<and>
    has_properties h' ext ob as' \<and> heap_inv h' ext \<and>
    map_of (entries h' as') = (map_of (entries h as))(s \<mapsto> Some v) \<and>
    rbusObject_GetPropertyValue (Some ob) (Some s) h' = Some (Some v) \<and>
    (\<forall>t. t \<noteq> s \<longrightarrow> rbusObject_GetPropertyValue (Some ob) (Some t) h' = rbusObject_GetPropertyValue (Some ob) (Some t) h)"
proof -
  obtain h' as' where h': "rbusObject_SetPropertyValue (Some ob) (Some s) (Some v) h = Some h'" "has_properties h' ext ob as'"
      "map_of (entries h' as') = (map_of (entries h as))(s \<mapsto> Some v)"
    using SetPropertyValue_map [OF assms] by blast
  then show ?thesis
    using GetPropertyValue_map [OF assms(1)] GetPropertyValue_map [OF h'(2)]
    by (intro exI [of _ h'] exI [of _ as']) (auto simp: has_properties_def)
qed

section \<open>Putting a property into an object\<close>

text \<open>The new property takes over what follows the old one.\<close>

lemma take_over:
  assumes inv: "heap_inv h ext" and q: "node_at h q = Some (NProperty k v None)" "0 < ext q"
    and a: "node_at h a = Some (NProperty k' v' nx)" "pnext.reaches h ext q (NProperty k v None) a" "a \<noteq> q"
  shows "\<exists>h1. (if nx = None then Some h else rbusProperty_Append (Some q) nx h) = Some h1 \<and> heap_inv h1 ext \<and>
    node_at h1 = (node_at h)(q \<mapsto> NProperty k v nx)"
proof (cases "nx = None")
  case True
  then show ?thesis using inv q(1) by auto
next
  case False
  have "property_last h q = Some q" using q(1) by (subst property_last.simps) (simp add: get_property)
  have nx: "pnext.reaches h ext q (NProperty k v None) b" if "nx = Some b" for b
    using pnext.reaches_other [OF a(2) q(1) a(3) a(1)] that by simp
  have "has_kind h KProperty nx" using heap_invD(2) [OF inv a(1)] by simp
  from pnext.set_field_ok [OF inv q(1) _ pnext.reaches_ext [of ext q, OF q(2)] nx this]
  obtain h1 where h1: "replace_ref q None nx (with_next nx) h = Some h1" "heap_inv h1 ext" by auto
  then show ?thesis
    using replace_ref_None [OF h1(1) q(1)] \<open>property_last h q = Some q\<close> False get_property(3) [OF q(1)]
    by (auto simp: rbusProperty_Append_def rbusProperty_SetNext_def)
qed

lemma swap_first:
  assumes inv: "heap_inv h ext" and ob: "node_at h ob = Some n" "is_object n" "0 < ext ob"
    and q: "node_at h q = Some (NProperty k v nx)" "0 < ext q" "seg h nx post None"
  shows "\<exists>h'. rbusObject_SetProperties (Some ob) (Some q) h = Some h' \<and> heap_inv h' ext \<and>
    (\<exists>m. node_at h' ob = Some m \<and> is_object m \<and> n_properties m = Some q) \<and> (\<forall>b\<in>set (q # post). node_at h' b = node_at h b)"
proof -
  have sg: "seg h (Some q) (q # post) None" using q by simp
  have nb: "ob \<notin> set (q # post)" using seg_property [OF sg, of ob] ob(1,2) by auto
  have kq: "has_kind h KProperty (Some q)" using q(1) by (simp add: has_kind_def)
  have "\<forall>b. Some q = Some b \<longrightarrow> oprops.reaches h ext ob n b" using oprops.reaches_ext [of ext q, OF q(2)] by simp
  from oprops.reaches_seg [OF ob(1) nb sg this]
  have r: "\<forall>b\<in>set (q # post). oprops.reaches h ext ob n b" by blast
  obtain h' where h': "replace_ref ob (n_properties n) (Some q) (with_properties (Some q)) h = Some h'" "heap_inv h' ext"
      "node_at h' ob = Some (with_properties (Some q) n)"
      "\<forall>b. oprops.reaches h ext ob n b \<longrightarrow> b \<noteq> ob \<longrightarrow> (\<exists>m. node_at h b = Some m \<and> node_at h' b = Some m)"
    using oprops.set_field_ok [OF inv ob(1,2) oprops.reaches_ext [of ext ob, OF ob(3)] oprops.reaches_ext kq] q(2) by auto
  have same: "node_at h' b = node_at h b" if "b \<in> set (q # post)" for b
  proof -
    have "b \<noteq> ob" "oprops.reaches h ext ob n b" using that r nb by blast+
    then show ?thesis using h'(4) by fastforce
  qed
  have "is_object (with_properties (Some q) n)" "n_properties (with_properties (Some q) n) = Some q"
    using ob(2) by (auto simp: is_object_iff)
  then show ?thesis
    using h'(1-3) same ob(1,2) by (auto simp: rbusObject_SetProperties_def object_at_def is_object_iff)
qed

lemma swap_next:
  assumes inv: "heap_inv h ext" and ob: "node_at h ob = Some n" "is_object n" "0 < ext ob" "seg h (n_properties n) pre (Some l)"
    and l: "node_at h l = Some (NProperty k' v' (Some a))" "l \<notin> set pre" "l \<notin> set (q # post)"
    and q: "node_at h q = Some (NProperty k v nx)" "0 < ext q" "seg h nx post None"
  shows "\<exists>h'. rbusProperty_SetNext (Some l) (Some q) h = Some h' \<and> heap_inv h' ext \<and>
    node_at h' l = Some (NProperty k' v' (Some q)) \<and> (\<forall>b\<in>insert ob (set (pre @ q # post)). node_at h' b = node_at h b)"
proof -
  let ?m = "NProperty k' v' (Some a)"
  have sg: "seg h (Some q) (q # post) None" using q by simp
  have ol: "ob \<noteq> l" using ob(1,2) l(1) by auto
  have kq: "has_kind h KProperty (Some q)" using q(1) by (simp add: has_kind_def)
  have "\<forall>b. Some q = Some b \<longrightarrow> pnext.reaches h ext l ?m b" using pnext.reaches_ext [of ext q, OF q(2)] by simp
  from pnext.reaches_seg [OF l(1,3) sg this] have r2: "\<forall>b\<in>set (q # post). pnext.reaches h ext l ?m b" by blast
  have r1: "pnext.reaches h ext l ?m l" "\<forall>b\<in>set pre. pnext.reaches h ext l ?m b"
    using reaches_pnext [of ext ob, OF ob(3,1,2,4) l(1,2) ol] by blast+
  obtain h' where h': "replace_ref l (Some a) (Some q) (with_next (Some q)) h = Some h'" "heap_inv h' ext"
      "node_at h' l = Some (NProperty k' v' (Some q))"
      "\<forall>b. pnext.reaches h ext l ?m b \<longrightarrow> b \<noteq> l \<longrightarrow> (\<exists>m. node_at h b = Some m \<and> node_at h' b = Some m)"
    using pnext.set_field_ok [OF inv l(1) _ r1(1) pnext.reaches_ext kq] q(2) by auto
  have same: "node_at h' b = node_at h b" if "b \<in> insert ob (set (pre @ q # post))" for b
  proof -
    have "b \<noteq> l" using that l(2,3) ol by auto
    moreover have "pnext.reaches h ext l ?m b"
    proof (cases "b = ob")
      case True
      then show ?thesis using pnext.reaches_ext [of ext ob, OF ob(3)] by simp
    next
      case False
      then have "b \<in> set pre \<or> b \<in> set (q # post)" using that by auto
      then show ?thesis using r1(2) r2 by blast
    qed
    ultimately show ?thesis using h'(4) by fastforce
  qed
  then show ?thesis using h'(1-3) get_property(3) [OF l(1)] by (auto simp: rbusProperty_SetNext_def)
qed

definition put_property :: "(addr \<Rightarrow> bool) \<Rightarrow> addr \<Rightarrow> addr list \<Rightarrow> addr list" where
  "put_property P q as = takeWhile (\<lambda>a. \<not> P a) as @ q # tl (dropWhile (\<lambda>a. \<not> P a) as)"

lemma put_property_new: "find P as = None \<Longrightarrow> put_property P q as = as @ [q]"
proof -
  assume "find P as = None"
  then have "takeWhile (\<lambda>a. \<not> P a) as = as" "dropWhile (\<lambda>a. \<not> P a) as = []"
    by (auto simp: find_None_iff takeWhile_eq_all_conv dropWhile_eq_Nil_conv)
  then show ?thesis unfolding put_property_def by (simp only: list.sel)
qed

lemma find_skip: "(\<forall>x\<in>set pre. \<not> P x) \<Longrightarrow> find P (pre @ as) = find P as"
  by (induction pre) auto

lemma put_property_old:
  assumes "find P as = Some a"
  shows "\<exists>pre post. as = pre @ a # post \<and> P a \<and> (\<forall>x\<in>set pre. \<not> P x) \<and> takeWhile (\<lambda>a. \<not> P a) as = pre \<and>
    put_property P q as = pre @ q # post"
proof -
  have "P a" "a \<in> set as" using assms by (auto simp: find_Some_iff)
  then obtain b post where d: "dropWhile (\<lambda>a. \<not> P a) as = b # post"
    by (cases "dropWhile (\<lambda>a. \<not> P a) as") (auto simp: dropWhile_eq_Nil_conv)
  let ?pre = "takeWhile (\<lambda>a. \<not> P a) as"
  have as: "as = ?pre @ b # post" using d takeWhile_dropWhile_id [of "\<lambda>a. \<not> P a" as] by simp
  have pre: "\<forall>x\<in>set ?pre. \<not> P x" by (auto dest: set_takeWhileD)
  have "P b" using d by (metis (mono_tags) dropWhile_eq_Cons_conv)
  then have "find P (?pre @ b # post) = Some b" using find_skip [OF pre] by simp
  then have "b = a" using assms as by simp
  then show ?thesis using as pre \<open>P a\<close> d by (auto simp: put_property_def)
qed

lemma SetProperty_old:
  assumes hp: "has_properties h ext ob (pre @ a # post)" and q: "node_at h q = Some (NProperty (Some s) v None)" "0 < ext q"
      "q \<notin> set (pre @ a # post)" and f: "rbusProperty_GetNext a h = Some nx"
  shows "\<exists>h1 h'. (if nx = None then Some h else rbusProperty_Append (Some q) nx h) = Some h1 \<and>
    (if pre = [] then rbusObject_SetProperties (Some ob) (Some q) h1 else rbusProperty_SetNext (Some (last pre)) (Some q) h1) = Some h' \<and>
    has_properties h' ext ob (pre @ q # post) \<and> entries h' (pre @ q # post) = entries h pre @ (s, v) # entries h post"
proof -
  obtain n where n: "heap_inv h ext" "0 < ext ob" "node_at h ob = Some n" "is_object n"
      "seg h (n_properties n) (pre @ a # post) None" "named h (pre @ a # post)" "ob \<notin> set (pre @ a # post)" "distinct (pre @ a # post)"
    using has_propertiesE [OF hp] by metis
  obtain r k w where r: "seg h (n_properties n) pre (Some a)" "node_at h a = Some (NProperty k w nx)" "seg h nx post None"
    using n(5) f by (auto simp: seg_append get_property)
  have obq: "ob \<noteq> q" using n(3,4) q(1) by auto
  have aq: "a \<noteq> q" "q \<notin> set pre" "q \<notin> set post" using q(3) by auto
  have "\<forall>b. n_properties n = Some b \<longrightarrow> pnext.reaches h ext q (NProperty (Some s) v None) b"
    using pnext.reaches_other [OF pnext.reaches_ext [of ext ob, OF n(2)] q(1) obq n(3)] n(4) by (auto simp: is_object_iff)
  from pnext.reaches_seg [OF q(1) aq(2) r(1) this] have "pnext.reaches h ext q (NProperty (Some s) v None) a" by blast
  from take_over [OF n(1) q(1,2) r(2) this aq(1)]
  obtain h1 where h1: "(if nx = None then Some h else rbusProperty_Append (Some q) nx h) = Some h1" "heap_inv h1 ext"
      "node_at h1 = (node_at h)(q \<mapsto> NProperty (Some s) v nx)" by blast
  have q1: "node_at h1 q = Some (NProperty (Some s) v nx)" "seg h1 nx post None" "node_at h1 ob = Some n"
    "seg h1 (n_properties n) pre (Some a)"
    using h1(3) seg_other [OF h1(3) aq(3)] seg_other [OF h1(3) aq(2)] r n(3) obq by simp_all
  have same1: "node_at h1 b = node_at h b" if "b \<in> set pre \<union> set post" for b using h1(3) that aq by auto
  have "\<exists>h'. (if pre = [] then rbusObject_SetProperties (Some ob) (Some q) h1 else rbusProperty_SetNext (Some (last pre)) (Some q) h1) = Some h' \<and>
    heap_inv h' ext \<and> (\<exists>m. node_at h' ob = Some m \<and> is_object m \<and> seg h' (n_properties m) (pre @ q # post) None) \<and>
    (\<forall>b\<in>set (pre @ q # post). name_at h' b = name_at h1 b \<and> val_at h' b = val_at h1 b \<and> (named h1 [b] \<longrightarrow> named h' [b]))"
  proof (cases pre rule: rev_cases)
    case Nil
    from swap_first [OF h1(2) q1(3) n(4,2) q1(1) q(2) q1(2)] obtain h' m where
      h': "rbusObject_SetProperties (Some ob) (Some q) h1 = Some h'" "heap_inv h' ext" "node_at h' ob = Some m" "is_object m"
        "n_properties m = Some q" "\<forall>b\<in>set (q # post). node_at h' b = node_at h1 b" by blast
    have "seg h' (Some q) (q # post) None" using seg_cong [of "q # post" h' h1] h'(6) q1 by auto
    then show ?thesis using h' Nil by (auto simp: name_at_def val_at_def named_def)
  next
    case (snoc pre' l)
    obtain k' v' where l: "node_at h1 l = Some (NProperty k' v' (Some a))" "seg h1 (n_properties n) pre' (Some l)"
      using q1(4) snoc by (auto simp: seg_append)
    have d: "l \<notin> set pre'" "l \<notin> set (q # post)" using n(8) snoc aq by auto
    from swap_next [OF h1(2) q1(3) n(4,2) l(2,1) d q1(1) q(2) q1(2)] obtain h' where
      h': "rbusProperty_SetNext (Some l) (Some q) h1 = Some h'" "heap_inv h' ext" "node_at h' l = Some (NProperty k' v' (Some q))"
        "\<forall>b\<in>insert ob (set (pre' @ q # post)). node_at h' b = node_at h1 b" by blast
    have s1: "seg h' (n_properties n) pre' (Some l)" using seg_cong [of pre' h' h1] h'(4) l(2) by auto
    have "seg h' nx post None" using seg_cong [of post h' h1] h'(4) q1(2) by auto
    then have s2: "seg h' (Some q) (q # post) None" using h'(4) q1(1) by simp
    have "seg h' (n_properties n) (pre @ q # post) None"
      using s1 s2 h'(3) unfolding snoc append_assoc seg_append [of h' _ pre'] by auto
    moreover have "name_at h' b = name_at h1 b \<and> val_at h' b = val_at h1 b \<and> (named h1 [b] \<longrightarrow> named h' [b])"
      if "b \<in> set (pre @ q # post)" for b
      using that h'(3,4) l(1) snoc by (cases "b = l") (auto simp: name_at_def val_at_def named_def)
    ultimately show ?thesis using h' q1(3) n(4) snoc by auto
  qed
  then obtain h' where h': "(if pre = [] then rbusObject_SetProperties (Some ob) (Some q) h1 else rbusProperty_SetNext (Some (last pre)) (Some q) h1) = Some h'"
      "heap_inv h' ext" "\<exists>m. node_at h' ob = Some m \<and> is_object m \<and> seg h' (n_properties m) (pre @ q # post) None"
      "\<forall>b\<in>set (pre @ q # post). name_at h' b = name_at h1 b \<and> val_at h' b = val_at h1 b \<and> (named h1 [b] \<longrightarrow> named h' [b])" by blast
  have "named h1 [b]" if "b \<in> set (pre @ q # post)" for b
    using that n(6) same1 [of b] q1(1) by (auto simp: named_def)
  then have "named h' (pre @ q # post)" using h'(4) by (auto simp: named_def)
  then have "has_properties h' ext ob (pre @ q # post)" using h'(2,3) n(2) by (auto simp: has_properties_def)
  moreover have "entries h' (pre @ q # post) = entries h1 (pre @ q # post)" using h'(4) by (auto simp: entries_def)
  moreover have "entries h1 pre = entries h pre" "entries h1 post = entries h post"
    by (rule entries_cong, use same1 in blast)+
  ultimately show ?thesis using h1(1) h'(1) q1(1) by (auto simp: entries_def name_at_def val_at_def)
qed

lemma SetProperty_map:
  assumes hp: "has_properties h ext ob as" and q: "node_at h q = Some (NProperty (Some s) v None)" "0 < ext q" "q \<notin> set as"
  shows "\<exists>h'. rbusObject_SetProperty (Some ob) q h = Some h' \<and>
    has_properties h' ext ob (put_property (\<lambda>a. name_at h a = s) q as) \<and>
    map_of (entries h' (put_property (\<lambda>a. name_at h a = s) q as)) = (map_of (entries h as))(s \<mapsto> v)"
proof -
  let ?P = "\<lambda>a. name_at h a = s"
  obtain n where n: "object_at h ob = Some n" "seg h (n_properties n) as None" "named h as"
    using has_propertiesE [OF hp] by metis
  have none: "n_properties n = None \<longleftrightarrow> as = []" using n(2) by (cases as) auto
  have nm: "rbusProperty_GetName q h = Some (Some s)" by (rule get_property(1) [OF q(1)])
  note fl = find_with_last_seg [OF n(2,3), of s None]
  show ?thesis
  proof (cases "find ?P as")
    case None
    have t: "takeWhile (\<lambda>a. \<not> ?P a) as = as" using None by (auto simp: find_None_iff takeWhile_eq_all_conv)
    have "find_with_last h (Some s) (n_properties n) None = Some (None, if as = [] then None else Some (last as))"
      using fl None unfolding t Let_def by simp
    then have "rbusObject_SetProperty (Some ob) q h =
        (if as = [] then rbusObject_SetProperties (Some ob) (Some q) h else rbusProperty_SetNext (Some (last as)) (Some q) h)"
      using n(1) none nm by (simp add: rbusObject_SetProperty_def)
    moreover have "map_of (entries h as @ [(s, v)]) = (map_of (entries h as))(s \<mapsto> v)"
      using None map_of_entries_find [of h as s] by (auto simp: fun_eq_iff map_add_def split: option.splits)
    ultimately show ?thesis
      using link_new [OF hp q] put_property_new [OF None, of q] by auto
  next
    case (Some a)
    from put_property_old [OF Some, of q] obtain pre post where as: "as = pre @ a # post" "?P a" "\<forall>x\<in>set pre. \<not> ?P x"
      "takeWhile (\<lambda>a. \<not> ?P a) as = pre" "put_property ?P q as = pre @ q # post" by blast
    obtain nx where nx: "rbusProperty_GetNext a h = Some nx" using n(2) as(1) by (auto simp: seg_append get_property)
    obtain h1 h' where h': "(if nx = None then Some h else rbusProperty_Append (Some q) nx h) = Some h1"
        "(if pre = [] then rbusObject_SetProperties (Some ob) (Some q) h1 else rbusProperty_SetNext (Some (last pre)) (Some q) h1) = Some h'"
        "has_properties h' ext ob (pre @ q # post)" "entries h' (pre @ q # post) = entries h pre @ (s, v) # entries h post"
      using SetProperty_old [OF hp [unfolded as(1)] q(1,2) q(3) [unfolded as(1)] nx] by blast
    have op: "rbusObject_SetProperty (Some ob) q h = Some h'"
      using n(1) none nm fl Some as(1,4) nx h'(1,2) by (auto simp: rbusObject_SetProperty_def Let_def split: if_splits)
    have "map_of (entries h pre) s = None" using find_skip [OF as(3), of "[]"] by (simp add: map_of_entries_find)
    moreover have "map_of (entries h as) = map_of (entries h pre @ (s, val_at h a) # entries h post)"
      using as(1,2) by (simp add: entries_def)
    ultimately have "map_of (entries h' (pre @ q # post)) = (map_of (entries h as))(s \<mapsto> v)"
      unfolding h'(4) by (auto simp: fun_eq_iff map_add_def split: option.splits)
    then show ?thesis using op h'(3) as(5) by auto
  qed
qed

text \<open>
  C17. Putting a property into an object: for an object and a property the caller holds, the
  property not in the object's list and not followed by others, it returns; the property takes
  the place of the first one of its name, and otherwise comes last; the map of names to values is
  updated at that name only; and every reference count is the number of references again.
\<close>

theorem Object_SetProperty_correct:
  assumes "has_properties h ext ob as" "node_at h q = Some (NProperty (Some s) v None)" "0 < ext q" "q \<notin> set as"
  shows "\<exists>h' as'. rbusObject_SetProperty (Some ob) q h = Some h' \<and> has_properties h' ext ob as' \<and> heap_inv h' ext \<and>
    (case find (\<lambda>a. name_at h a = s) as of
       None \<Rightarrow> as' = as @ [q]
     | Some a \<Rightarrow> (\<exists>pre post. as = pre @ a # post \<and> as' = pre @ q # post)) \<and>
    map_of (entries h' as') = (map_of (entries h as))(s \<mapsto> v)"
proof -
  let ?P = "\<lambda>a. name_at h a = s"
  obtain h' where h': "rbusObject_SetProperty (Some ob) q h = Some h'" "has_properties h' ext ob (put_property ?P q as)"
      "map_of (entries h' (put_property ?P q as)) = (map_of (entries h as))(s \<mapsto> v)"
    using SetProperty_map [OF assms] by blast
  moreover have "heap_inv h' ext" using h'(2) by (simp add: has_properties_def)
  moreover have "case find ?P as of None \<Rightarrow> put_property ?P q as = as @ [q]
     | Some a \<Rightarrow> (\<exists>pre post. as = pre @ a # post \<and> put_property ?P q as = pre @ q # post)"
    using put_property_new [of ?P as q] put_property_old [of ?P as _ q] by (cases "find ?P as") fastforce+
  ultimately show ?thesis by blast
qed

section \<open>Examples\<close>

text \<open>A client that creates an object, a value and a property, in this order.\<close>

definition demo_heap :: heap where
  "demo_heap = snd (the (api_exec (Property_Init_call (Some ''A'') (Some 1))
     (snd (the (api_exec Value_Init_call (snd (the (api_exec (Object_Init_call None) []))))))))"

definition demo_ext :: "addr \<Rightarrow> nat" where
  "demo_ext = (((\<lambda>_. 0)(0 := 1))(1 := 1))(2 := 1)"

lemma demo_nodes: "node_at demo_heap 0 = Some (NObject None RBUS_OBJECT_SINGLE_INSTANCE None None None None)"
    "node_at demo_heap 1 = Some (NValue (Plain DNone))" "node_at demo_heap 2 = Some (NProperty (Some ''A'') (Some 1) None)"
  by (code_simp, code_simp, code_simp)

lemma demo_client: "client demo_heap demo_ext"
proof -
  have 1: "api_exec (Object_Init_call None) [] = Some (Some 0, snd (the (api_exec (Object_Init_call None) [])))" by code_simp
  have c1: "client (snd (the (api_exec (Object_Init_call None) []))) ((\<lambda>_. 0)(0 := 1))"
    using client.call [OF client.start _ 1] by simp
  have 2: "api_exec Value_Init_call (snd (the (api_exec (Object_Init_call None) []))) =
      Some (Some 1, snd (the (api_exec Value_Init_call (snd (the (api_exec (Object_Init_call None) []))))))" by code_simp
  have c2: "client (snd (the (api_exec Value_Init_call (snd (the (api_exec (Object_Init_call None) [])))))) (((\<lambda>_. 0)(0 := 1))(1 := 1))"
    using client.call [OF c1 _ 2] by simp
  have k: "has_kind (snd (the (api_exec Value_Init_call (snd (the (api_exec (Object_Init_call None) [])))))) KValue (Some 1)" by code_simp
  have 3: "api_exec (Property_Init_call (Some ''A'') (Some 1)) (snd (the (api_exec Value_Init_call (snd (the (api_exec (Object_Init_call None) [])))))) =
      Some (Some 2, demo_heap)" unfolding demo_heap_def by code_simp
  show ?thesis using client.call [OF c2 _ 3] k by (simp add: handle_def holds_def demo_ext_def)
qed

lemma demo_properties: "has_properties demo_heap demo_ext 0 []"
  using client_inv [OF demo_client] demo_nodes(1) by (simp add: has_properties_def demo_ext_def named_def)

theorem Object_SetPropertyValue_correct_witness:
  "\<exists>h'. rbusObject_SetPropertyValue (Some 0) (Some ''B'') (Some 1) demo_heap = Some h' \<and> heap_inv h' demo_ext \<and>
     rbusObject_GetPropertyValue (Some 0) (Some ''B'') h' = Some (Some 1)"
proof -
  have e: "0 < demo_ext 1" by (simp add: demo_ext_def)
  have k: "has_kind demo_heap KValue (Some 1)" by code_simp
  from Object_SetPropertyValue_correct [OF demo_properties e k, of "''B''"] show ?thesis by blast
qed

theorem Object_SetProperty_correct_witness:
  "\<exists>h' as'. rbusObject_SetProperty (Some 0) 2 demo_heap = Some h' \<and> has_properties h' demo_ext 0 as' \<and>
     map_of (entries h' as') ''A'' = Some (Some 1)"
proof -
  have "0 < demo_ext 2" by (simp add: demo_ext_def)
  from Object_SetProperty_correct [OF demo_properties demo_nodes(3) this] show ?thesis by fastforce
qed



section \<open>A property that is put into its object again\<close>

lemma property_count_loop: "rbusProperty_GetNext a h = Some (Some a) \<Longrightarrow> property_count h a k = None"
proof (rule ccontr)
  assume n: "rbusProperty_GetNext a h = Some (Some a)" and "property_count h a k \<noteq> None"
  then obtain y where "property_count h a k = Some y" by auto
  then have "rbusProperty_GetNext a h \<noteq> Some (Some a)"
    by (rule property_count.raw_induct [where P = "\<lambda>h a k y. rbusProperty_GetNext a h \<noteq> Some (Some a)", rotated])
      (auto split: bind_splits option.splits)
  then show False using n by simp
qed

lemma find_property_loop:
  "node_at h a = Some (NProperty (Some t) v (Some a)) \<Longrightarrow> s \<noteq> t \<Longrightarrow> find_property h s (Some a) = None"
proof (rule ccontr)
  let ?P = "\<lambda>h s p (y::ptr). \<forall>b t v. p = Some b \<and> s \<noteq> t \<longrightarrow> node_at h b \<noteq> Some (NProperty (Some t) v (Some b))"
  assume n: "node_at h a = Some (NProperty (Some t) v (Some a))" "s \<noteq> t" and "find_property h s (Some a) \<noteq> None"
  then obtain y where "find_property h s (Some a) = Some y" by auto
  then have "?P h s (Some a) y"
    by (rule find_property.raw_induct [where P = ?P, rotated]) (auto simp: get_property split: bind_splits option.splits if_splits)
  then show False using n by blast
qed

text \<open>An object with the properties \<open>A\<close> and \<open>B\<close>, at 2 and 4, of which the client holds both.\<close>

definition two_properties :: heap where
  "two_properties =
     the (do { (p, h) \<leftarrow> property_InitPlain (Some ''A'') (DBoolean True) (snd (rbusObject_Init None []));
               (q, h) \<leftarrow> property_InitPlain (Some ''B'') (DBoolean False) h;
               h \<leftarrow> rbusObject_SetProperty (Some 0) p h;
               rbusObject_SetProperty (Some 0) q h })"

text \<open>
  A property that is the object's already, and is not the last one, is put into the object again:
  the list of properties then has no end. Counting it and searching it for a name that is not there
  do not return.
\<close>

theorem SetProperty_cycle:
  "\<exists>h. rbusObject_GetProperty (Some 0) ''A'' two_properties = Some (Some 2) \<and>
     rbusObject_SetProperty (Some 0) 2 two_properties = Some h \<and>
     rbusProperty_Count (Some 4) h = None \<and> rbusObject_GetProperty (Some 0) ''C'' h = None"
proof -
  define h where "h = the (rbusObject_SetProperty (Some 0) 2 two_properties)"
  have g: "rbusObject_GetProperty (Some 0) ''A'' two_properties = Some (Some 2)" by code_simp
  have s: "rbusObject_SetProperty (Some 0) 2 two_properties = Some h" unfolding h_def by code_simp
  have 4: "node_at h 4 = Some (NProperty (Some ''B'') (Some 3) (Some 4))" unfolding h_def by code_simp
  have 2: "node_at h 2 = Some (NProperty (Some ''A'') (Some 1) (Some 4))" unfolding h_def by code_simp
  have 0: "object_at h 0 = Some (NObject None RBUS_OBJECT_SINGLE_INSTANCE (Some 2) None None None)" unfolding h_def by code_simp
  have "rbusProperty_Count (Some 4) h = None"
    using property_count_loop get_property(3) [OF 4] by (simp add: rbusProperty_Count_def)
  moreover have "rbusObject_GetProperty (Some 0) ''C'' h = None"
    using find_property_loop [OF 4, of "''C''"] get_property [OF 2] 0
    by (subst rbusObject_GetProperty_def) (simp, subst find_property.simps, simp)
  ultimately show ?thesis using g s by blast
qed

text \<open>
  A value that holds a property is given a string: the reference is overwritten, not released. When
  the client has released both, the property is still there.
\<close>

theorem SetString_leak:
  "\<exists>h. (let (p, h) = alloc (NProperty None None None) []; (v, h) = Value_Init h
        in do { h \<leftarrow> Value_SetProperty (Some v) (Some p) h;
                h \<leftarrow> Value_SetString (Some v) (Some [Some 0]) h;
                h \<leftarrow> release (Some p) h;
                release (Some v) h }) = Some h \<and> rcnt h 0 = 1"
proof -
  have "map_option (\<lambda>h. rcnt h 0) (let (p, h) = alloc (NProperty None None None) []; (v, h) = Value_Init h
        in do { h \<leftarrow> Value_SetProperty (Some v) (Some p) h;
                h \<leftarrow> Value_SetString (Some v) (Some [Some 0]) h;
                h \<leftarrow> release (Some p) h;
                release (Some v) h }) = Some 1" by code_simp
  then show ?thesis by auto
qed

end
