(* ===== verification/RB_Session.thy ===== *)
theory RB_Session
  imports RB_ObjectMap
begin

text \<open>
  The session manager daemon, \<^verbatim>\<open>src/src/session_manager/session_manager.c\<close>: its method handler with
  the objects it fills, on the reference-counted heap. The handler implements a lock with one
  holder; it answers every request with the documented fields, and it leaks nothing.
\<close>

section \<open>State and replies\<close>

record smgr =
  g_counter :: int
  g_current_session_id :: int

definition RBUS_SMGR_METHOD_GET_CURRENT_SESSION_ID :: string where
  "RBUS_SMGR_METHOD_GET_CURRENT_SESSION_ID = ''get_curr_s''"
definition RBUS_SMGR_METHOD_REQUEST_SESSION_ID :: string where
  "RBUS_SMGR_METHOD_REQUEST_SESSION_ID = ''req_new_s''"
definition RBUS_SMGR_METHOD_END_SESSION :: string where
  "RBUS_SMGR_METHOD_END_SESSION = ''end_of_s''"
definition CCSP_CURRENT_SESSION_ID_SIGNAL :: string where
  "CCSP_CURRENT_SESSION_ID_SIGNAL = ''currentSessionIDSignal''"

definition RBUSCORE_SUCCESS :: int where "RBUSCORE_SUCCESS = 0"
definition RBUSCORE_ERROR_INVALID_STATE :: int where "RBUSCORE_ERROR_INVALID_STATE = 4"

definition int32 :: "int \<Rightarrow> rbusData" where
  "int32 i = DInt32 (word_of_int i)"

text \<open>An event as it is passed to \<open>rbusEvent_Publish\<close>: its name, its data, and the heap at that time.\<close>

type_synonym event = "string \<times> addr \<times> heap"

section \<open>The handler\<close>

text \<open>Storing two numbers in values and the values in an object, under the names the replies use.\<close>

definition fill :: "ptr \<Rightarrow> addr \<Rightarrow> addr \<Rightarrow> int \<Rightarrow> int \<Rightarrow> heap \<Rightarrow> heap run" where
  "fill ob return_value sessionid_value code sid h =
     do { h \<leftarrow> Value_SetPlain return_value (int32 code) h;
          h \<leftarrow> Value_SetPlain sessionid_value (int32 sid) h;
          h \<leftarrow> rbusObject_SetPropertyValue ob (Some ''return_value'') (Some return_value) h;
          rbusObject_SetPropertyValue ob (Some ''sessionid'') (Some sessionid_value) h }"

definition reply_session :: "ptr \<Rightarrow> int \<Rightarrow> int \<Rightarrow> heap \<Rightarrow> heap run" where
  "reply_session outParams code sid h =
     (let (return_value, h) = Value_Init h;
          (sessionid_value, h) = Value_Init h
      in do { h \<leftarrow> fill outParams return_value sessionid_value code sid h;
              h \<leftarrow> release (Some return_value) h;
              release (Some sessionid_value) h })"

definition reply_code :: "ptr \<Rightarrow> string \<Rightarrow> int \<Rightarrow> heap \<Rightarrow> heap run" where
  "reply_code outParams name code h =
     (let (v, h) = Value_Init h
      in do { h \<leftarrow> Value_SetPlain v (int32 code) h;
              h \<leftarrow> rbusObject_SetPropertyValue outParams (Some name) (Some v) h;
              release (Some v) h })"

text \<open>Publishing the session in force; the result of \<open>rbusEvent_Publish\<close> is only logged.\<close>

definition publish_session :: "int \<Rightarrow> heap \<Rightarrow> (event \<times> heap) run" where
  "publish_session sid h =
     (let (return_value, h) = Value_Init h;
          (sessionid_value, h) = Value_Init h;
          (data, h) = rbusObject_Init None h
      in do { h \<leftarrow> fill (Some data) return_value sessionid_value RBUS_ERROR_SUCCESS sid h;
              let event = (CCSP_CURRENT_SESSION_ID_SIGNAL, data, h);
              h \<leftarrow> release (Some return_value) h;
              h \<leftarrow> release (Some sessionid_value) h;
              h \<leftarrow> release (Some data) h;
              Some (event, h) })"

text \<open>
  The session to end: the first property of the request, which has to be a 32-bit number. Without
  properties there is none; a value of another type fails the assertion of \<open>rbusValue_GetInt32\<close>.
\<close>

definition requested_session :: "ptr \<Rightarrow> heap \<Rightarrow> int option run" where
  "requested_session inParams h =
     do { prop \<leftarrow> rbusObject_GetProperties inParams h;
          case prop of
            None \<Rightarrow> Some None
          | Some p \<Rightarrow> do { v \<leftarrow> rbusProperty_GetValue p h;
                          v \<leftarrow> v;
                          c \<leftarrow> value_at h v;
                          case c of Plain (DInt32 i) \<Rightarrow> Some (Some (sint i)) | _ \<Rightarrow> None } }"

definition end_session :: "smgr \<Rightarrow> int option \<Rightarrow> smgr \<times> int" where
  "end_session st sessionid =
     (case sessionid of
        Some sid \<Rightarrow>
          if sid \<noteq> 0
          then (if sid = g_current_session_id st
                then (st\<lparr>g_current_session_id := 0\<rparr>, RBUS_ERROR_SUCCESS)
                else (st, RBUS_ERROR_SESSION_ALREADY_EXIST))
          else (st, RBUS_ERROR_INVALID_INPUT)
      | None \<Rightarrow> (st, RBUS_ERROR_INVALID_INPUT))"

definition sessionManager_methodHandler ::
  "smgr \<Rightarrow> string \<Rightarrow> ptr \<Rightarrow> ptr \<Rightarrow> heap \<Rightarrow> (int \<times> smgr \<times> event list \<times> heap) run" where
  "sessionManager_methodHandler st methodName inParams outParams h =
     (if strcmp methodName RBUS_SMGR_METHOD_GET_CURRENT_SESSION_ID = 0
      then do { h \<leftarrow> reply_session outParams RBUSCORE_SUCCESS (g_current_session_id st) h;
                Some (RBUS_ERROR_SUCCESS, st, [], h) }
      else if strcmp methodName RBUS_SMGR_METHOD_REQUEST_SESSION_ID = 0
      then do { (st, h) \<leftarrow>
                  (if 0 = g_current_session_id st
                   then do { counter \<leftarrow> cint (g_counter st + 1);
                             let st = st\<lparr>g_current_session_id := 1, g_counter := counter\<rparr>;
                             h \<leftarrow> reply_session outParams RBUSCORE_SUCCESS (g_current_session_id st) h;
                             Some (st, h) }
                   else do { h \<leftarrow> reply_code outParams ''return_value'' RBUSCORE_ERROR_INVALID_STATE h;
                             Some (st, h) });
                (event, h) \<leftarrow> publish_session (g_current_session_id st) h;
                Some (RBUS_ERROR_SUCCESS, st, [event], h) }
      else if strcmp methodName RBUS_SMGR_METHOD_END_SESSION = 0
      then do { sessionid \<leftarrow> requested_session inParams h;
                let (st, result) = end_session st sessionid;
                h \<leftarrow> reply_code outParams ''result'' result h;
                (event, h) \<leftarrow> publish_session (g_current_session_id st) h;
                Some (RBUS_ERROR_SUCCESS, st, [event], h) }
      else Some (RBUS_ERROR_BUS_ERROR, st, [], h))"

section \<open>Filling objects\<close>

definition extends :: "heap \<Rightarrow> heap \<Rightarrow> bool" where
  "extends h h' \<longleftrightarrow> (\<forall>a n. node_at h a = Some n \<longrightarrow> node_at h' a = Some n)"

lemma extends_trans: "extends h h1 \<Longrightarrow> extends h1 h2 \<Longrightarrow> extends h h2"
  by (simp add: extends_def)

lemma extends_fresh: "node_at h a = None \<Longrightarrow> node_at h' = (node_at h)(a \<mapsto> n) \<Longrightarrow> extends h h'"
  by (auto simp: extends_def)

lemma has_properties_extends:
  assumes hp: "has_properties h ext ob as" and x: "extends h h'" and h': "heap_inv h' ext'" "0 < ext' ob"
  shows "has_properties h' ext' ob as" "view h' as = view h as"
proof -
  obtain n where n: "heap_inv h ext" "node_at h ob = Some n" "is_object n" "seg h (n_properties n) as None" "named h as"
    using has_propertiesE [OF hp] by metis
  have same: "node_at h' a = node_at h a" if "a \<in> set as" for a
    using seg_property [OF n(4) that] x by (auto simp: extends_def)
  have "seg h' (n_properties n) as None" using seg_cong [of as h' h] same n(4) by blast
  moreover have "named h' as" using named_cong [of as h' h] same n(5) by blast
  moreover have "node_at h' ob = Some n" using n(2) x by (simp add: extends_def)
  ultimately show "has_properties h' ext' ob as" using n(3) h' by (auto simp: has_properties_def)
  show "view h' as = view h as"
  proof (rule view_cong)
    show "entries h' as = entries h as" using entries_cong same by blast
    fix a w
    assume "a \<in> set as" "val_at h a = Some w"
    then obtain k nx where "node_at h a = Some (NProperty k (Some w) nx)" using n(5) by (auto simp: named_def val_at_def)
    then obtain c where "node_at h w = Some (NValue c)" using property_value_live [OF n(1)] by blast
    then show "value_at h' w = value_at h w" using x by (simp add: extends_def value_at_def)
  qed
qed

lemma Value_Init_step:
  assumes "heap_inv h ext"
  shows "\<exists>a h'. Value_Init h = (a, h') \<and> heap_inv h' (ext(a := 1)) \<and> node_at h' = (node_at h)(a \<mapsto> NValue (Plain DNone)) \<and>
    node_at h a = None \<and> ext a = 0"
proof -
  obtain a h' where a: "Value_Init h = (a, h')" by fastforce
  then show ?thesis using alloc_ok [OF assms, of "NValue (Plain DNone)" a h'] by (simp add: Value_Init_def)
qed

lemma Object_Init_step:
  assumes "heap_inv h ext"
  shows "\<exists>a h'. rbusObject_Init None h = (a, h') \<and> heap_inv h' (ext(a := 1)) \<and>
    node_at h' = (node_at h)(a \<mapsto> NObject None RBUS_OBJECT_SINGLE_INSTANCE None None None None) \<and> node_at h a = None \<and> ext a = 0"
proof -
  obtain a h' where a: "rbusObject_Init None h = (a, h')" by fastforce
  then show ?thesis
    using alloc_ok [OF assms, of "NObject None RBUS_OBJECT_SINGLE_INSTANCE None None None None" a h'] by (simp add: rbusObject_Init_def)
qed

lemma SetPlain_step:
  assumes "heap_inv h ext" "node_at h a = Some (NValue (Plain d0))" "0 < ext a"
  shows "\<exists>h'. Value_SetPlain a (int32 i) h = Some h' \<and> heap_inv h' ext \<and> node_at h' = (node_at h)(a \<mapsto> NValue (Plain (int32 i)))"
proof -
  have p: "plain (int32 i)" "data_inv (int32 i)" by (simp_all add: int32_def)
  have "handle h ext KValue (Some a)" using assms(2,3) by (simp add: handle_def holds_def has_kind_def)
  then obtain h' where h': "Value_SetPlain a (int32 i) h = Some h'" "heap_inv h' ext"
    using Value_calls_ok(1) [OF assms(1) _ p] by blast
  have "node_ok (NValue (Plain d0))" using heap_invD(3) [OF assms(1,2)] .
  then have "replace_ref a None None (\<lambda>_. NValue (Plain (int32 i))) h = Some h'"
    using Value_assign [of h a "Plain d0" "NValue (Plain (int32 i))" None] assms(2) h'(1)
    by (simp add: value_at_eq_Some Value_SetPlain_def retain_def)
  from replace_ref_None [OF this assms(2)] show ?thesis using h' by blast
qed

lemma has_properties_inv: "has_properties h ext ob as \<Longrightarrow> heap_inv h ext \<and> 0 < ext ob"
  by (simp add: has_properties_def)

lemma node_not_path:
  assumes "has_properties h ext ob as" "node_at h v = Some (NValue c)"
  shows "v \<notin> insert ob (set as)" "has_kind h KValue (Some v)" "value_at h v = Some c"
proof -
  obtain n where "node_at h ob = Some n" "is_object n" "seg h (n_properties n) as None" using has_propertiesE [OF assms(1)] by metis
  then show "v \<notin> insert ob (set as)" using seg_property [of h "n_properties n" as None v] assms(2) by auto
  show "has_kind h KValue (Some v)" "value_at h v = Some c" using assms(2) by (simp_all add: has_kind_def value_at_def)
qed

text \<open>Values that no property of the object has may change.\<close>

lemma has_properties_values:
  assumes hp: "has_properties h ext ob as" and h': "heap_inv h' ext"
    and x: "\<And>a. a \<notin> V \<Longrightarrow> node_at h' a = node_at h a" "\<And>v. v \<in> V \<Longrightarrow> \<exists>c. node_at h v = Some (NValue c)"
    and unused: "\<forall>a\<in>set as. \<forall>v\<in>V. val_at h a \<noteq> Some v"
  shows "has_properties h' ext ob as" "view h' as = view h as"
proof -
  obtain n where n: "0 < ext ob" "node_at h ob = Some n" "is_object n" "seg h (n_properties n) as None" "named h as"
    using has_propertiesE [OF hp] by metis
  have same: "node_at h' a = node_at h a" if "a \<in> set as" for a
    using seg_property [OF n(4) that] x(1,2) [of a] by (cases "a \<in> V") auto
  have "seg h' (n_properties n) as None" using seg_cong [of as h' h] same n(4) by blast
  moreover have "named h' as" using named_cong [of as h' h] same n(5) by blast
  moreover have "node_at h' ob = Some n" using n(2,3) x(1,2) [of ob] by (cases "ob \<in> V") auto
  ultimately show "has_properties h' ext ob as" using n(1,3) h' by (auto simp: has_properties_def)
  show "view h' as = view h as"
  proof (rule view_cong)
    show "entries h' as = entries h as" using entries_cong same by blast
    show "value_at h' w = value_at h w" if "a \<in> set as" "val_at h a = Some w" for a w
      using unused that x(1) [of w] by (intro value_at_node) blast
  qed
qed

lemma fill_ok:
  assumes hp: "has_properties h1 ext1 ob as" and unused: "\<forall>a\<in>set as. \<forall>v\<in>{r, s}. val_at h1 a \<noteq> Some v"
    and r: "node_at h1 r = Some (NValue (Plain DNone))" "0 < ext1 r"
    and s: "node_at h1 s = Some (NValue (Plain DNone))" "0 < ext1 s" and rs: "r \<noteq> s"
  shows "\<exists>h' as'. fill (Some ob) r s code sid h1 = Some h' \<and> has_properties h' ext1 ob as' \<and>
    view h' as' = (view h1 as)(''return_value'' \<mapsto> Some (Plain (int32 code)), ''sessionid'' \<mapsto> Some (Plain (int32 sid)))"
proof -
  have h1: "heap_inv h1 ext1" using has_properties_inv [OF hp] by blast
  obtain h2 where h2: "Value_SetPlain r (int32 code) h1 = Some h2" "heap_inv h2 ext1"
      "node_at h2 = (node_at h1)(r \<mapsto> NValue (Plain (int32 code)))"
    using SetPlain_step [OF h1 r] by blast
  have s2: "node_at h2 s = Some (NValue (Plain DNone))" using s(1) rs h2(3) by simp
  obtain h3 where h3: "Value_SetPlain s (int32 sid) h2 = Some h3" "heap_inv h3 ext1"
      "node_at h3 = (node_at h2)(s \<mapsto> NValue (Plain (int32 sid)))"
    using SetPlain_step [OF h2(2) s2 s(2)] by blast
  have ch: "node_at h3 a = node_at h1 a" if "a \<notin> {r, s}" for a using that h2(3) h3(3) by auto
  have vs: "\<exists>c. node_at h1 v = Some (NValue c)" if "v \<in> {r, s}" for v using that r(1) s(1) by auto
  note e = has_properties_values [OF hp h3(2) ch vs unused]
  have n3: "node_at h3 r = Some (NValue (Plain (int32 code)))" "node_at h3 s = Some (NValue (Plain (int32 sid)))"
    using h2(3) h3(3) rs by simp_all
  note p = node_not_path [OF e(1) n3(1)] and q = node_not_path [OF e(1) n3(2)]
  obtain h4 as4 where h4: "rbusObject_SetPropertyValue (Some ob) (Some ''return_value'') (Some r) h3 = Some h4"
      "has_properties h4 ext1 ob as4" "view h4 as4 = (view h3 as)(''return_value'' \<mapsto> value_at h3 r)"
      "\<forall>w. 0 < ext1 w \<and> w \<notin> insert ob (set as) \<longrightarrow> node_at h4 w = node_at h3 w"
    using SetPropertyValue_map [OF e(1) r(2) p(2), of "''return_value''"] by blast
  have n4: "node_at h4 s = Some (NValue (Plain (int32 sid)))" using h4(4) q(1) s(2) n3(2) by simp
  note q4 = node_not_path [OF h4(2) n4]
  obtain h5 as5 where h5: "rbusObject_SetPropertyValue (Some ob) (Some ''sessionid'') (Some s) h4 = Some h5"
      "has_properties h5 ext1 ob as5" "view h5 as5 = (view h4 as4)(''sessionid'' \<mapsto> value_at h4 s)"
    using SetPropertyValue_map [OF h4(2) s(2) q4(2), of "''sessionid''"] by blast
  have "fill (Some ob) r s code sid h1 = Some h5" using h2(1) h3(1) h4(1) h5(1) by (simp add: fill_def)
  then show ?thesis using h5(2,3) h4(3) e(2) p(3) q4(3) by auto
qed

lemma fresh_unused:
  assumes "has_properties h ext ob as" "node_at h r = None"
  shows "\<forall>a\<in>set as. val_at h a \<noteq> Some r"
proof
  fix a
  assume a: "a \<in> set as"
  have n: "heap_inv h ext" "named h as" using assms(1) by (simp_all add: has_properties_def)
  show "val_at h a \<noteq> Some r"
  proof
    assume "val_at h a = Some r"
    then obtain k nx where "node_at h a = Some (NProperty k (Some r) nx)" using n(2) a by (auto simp: named_def val_at_def)
    then show False using property_value_live [OF n(1)] assms(2) by fastforce
  qed
qed

text \<open>The two values a reply starts with.\<close>

lemma two_values:
  assumes "heap_inv h ext"
  shows "\<exists>r s h1 h2. Value_Init h = (r, h1) \<and> Value_Init h1 = (s, h2) \<and> heap_inv h2 (ext(r := 1, s := 1)) \<and> r \<noteq> s \<and>
    ext r = 0 \<and> ext s = 0 \<and> node_at h r = None \<and> node_at h s = None \<and>
    node_at h2 = (node_at h)(r \<mapsto> NValue (Plain DNone), s \<mapsto> NValue (Plain DNone))"
proof -
  obtain r h1 where r: "Value_Init h = (r, h1)" "heap_inv h1 (ext(r := 1))" "node_at h1 = (node_at h)(r \<mapsto> NValue (Plain DNone))"
      "node_at h r = None" "ext r = 0" using Value_Init_step [OF assms] by blast
  obtain s h2 where s: "Value_Init h1 = (s, h2)" "heap_inv h2 (ext(r := 1, s := 1))"
      "node_at h2 = (node_at h1)(s \<mapsto> NValue (Plain DNone))" "node_at h1 s = None" "(ext(r := 1)) s = 0"
    using Value_Init_step [OF r(2)] by blast
  have rs: "r \<noteq> s" using s(4) r(3) by auto
  then have "node_at h s = None" "ext s = 0" using s(4,5) r(3) by (auto split: if_splits)
  then show ?thesis using r s rs by auto
qed

lemma reply_session_ok:
  assumes hp: "has_properties h ext ob as"
  shows "\<exists>h' as'. reply_session (Some ob) code sid h = Some h' \<and> has_properties h' ext ob as' \<and>
    view h' as' = (view h as)(''return_value'' \<mapsto> Some (Plain (int32 code)), ''sessionid'' \<mapsto> Some (Plain (int32 sid)))"
proof -
  have i: "heap_inv h ext" "0 < ext ob" using has_properties_inv [OF hp] by auto
  obtain r s h1 h2 where v: "Value_Init h = (r, h1)" "Value_Init h1 = (s, h2)" "heap_inv h2 (ext(r := 1, s := 1))" "r \<noteq> s"
      "ext r = 0" "ext s = 0" "node_at h r = None" "node_at h s = None"
      "node_at h2 = (node_at h)(r \<mapsto> NValue (Plain DNone), s \<mapsto> NValue (Plain DNone))"
    using two_values [OF i(1)] by blast
  let ?ext = "ext(r := 1, s := 1)"
  have x: "extends h h2" using v(7-9) by (auto simp: extends_def)
  have o: "0 < ?ext ob" using i(2) by simp
  note e = has_properties_extends [OF hp x v(3) o]
  have "val_at h2 a = val_at h a" if a: "a \<in> set as" for a
  proof -
    obtain n where "seg h (n_properties n) as None" using has_propertiesE [OF hp] by metis
    then obtain k w nx where "node_at h a = Some (NProperty k w nx)" using seg_property [OF _ a] by blast
    then show ?thesis using x by (simp add: extends_def val_at_def)
  qed
  then have u: "\<forall>a\<in>set as. \<forall>v\<in>{r, s}. val_at h2 a \<noteq> Some v"
    using fresh_unused [OF hp v(7)] fresh_unused [OF hp v(8)] by auto
  have n: "node_at h2 r = Some (NValue (Plain DNone))" "0 < ?ext r" "node_at h2 s = Some (NValue (Plain DNone))" "0 < ?ext s"
    using v(4,9) by simp_all
  from fill_ok [OF e(1) u n v(4), of code sid]
  obtain h3 as3 where h3: "fill (Some ob) r s code sid h2 = Some h3" "has_properties h3 ?ext ob as3"
      "view h3 as3 = (view h as)(''return_value'' \<mapsto> Some (Plain (int32 code)), ''sessionid'' \<mapsto> Some (Plain (int32 sid)))"
    unfolding e(2) by blast
  have e1: "take_back (Some r) ?ext = ext(s := 1)" using v(4,5) by (auto simp: fun_eq_iff)
  have e2: "take_back (Some s) (ext(s := 1)) = ext" using v(6) by (auto simp: fun_eq_iff)
  have o1: "0 < (ext(s := 1)) ob" "0 < (ext(s := 1)) s" using i(2) by simp_all
  obtain h4 where h4: "release (Some r) h3 = Some h4" "has_properties h4 (ext(s := 1)) ob as3" "view h4 as3 = view h3 as3"
    using release_keeps [OF h3(2) n(2)] o1(1) unfolding e1 by blast
  obtain h5 where h5: "release (Some s) h4 = Some h5" "has_properties h5 ext ob as3" "view h5 as3 = view h4 as3"
    using release_keeps [OF h4(2) o1(2)] i(2) unfolding e2 by blast
  have "reply_session (Some ob) code sid h = Some h5"
    using v(1,2) h3(1) h4(1) h5(1) by (simp add: reply_session_def)
  then show ?thesis using h5 h4(3) h3(3) by auto
qed

lemma reply_code_ok:
  assumes hp: "has_properties h ext ob as"
  shows "\<exists>h' as'. reply_code (Some ob) name code h = Some h' \<and> has_properties h' ext ob as' \<and>
    view h' as' = (view h as)(name \<mapsto> Some (Plain (int32 code)))"
proof -
  have i: "heap_inv h ext" "0 < ext ob" using has_properties_inv [OF hp] by auto
  obtain r h1 where r: "Value_Init h = (r, h1)" "heap_inv h1 (ext(r := 1))" "node_at h1 = (node_at h)(r \<mapsto> NValue (Plain DNone))"
      "node_at h r = None" "ext r = 0" using Value_Init_step [OF i(1)] by blast
  have n1: "node_at h1 r = Some (NValue (Plain DNone))" "0 < (ext(r := 1)) r" using r(3) by simp_all
  obtain h2 where h2: "Value_SetPlain r (int32 code) h1 = Some h2" "heap_inv h2 (ext(r := 1))"
      "node_at h2 = (node_at h1)(r \<mapsto> NValue (Plain (int32 code)))"
    using SetPlain_step [OF r(2) n1] by blast
  have "extends h h2" using r(3,4) h2(3) by (auto simp: extends_def)
  moreover have "0 < (ext(r := 1)) ob" using i(2) by simp
  ultimately have e: "has_properties h2 (ext(r := 1)) ob as" "view h2 as = view h as"
    using has_properties_extends [OF hp _ h2(2)] by blast+
  have n2: "node_at h2 r = Some (NValue (Plain (int32 code)))" using h2(3) by simp
  note p = node_not_path [OF e(1) n2]
  obtain h3 as3 where h3: "rbusObject_SetPropertyValue (Some ob) (Some name) (Some r) h2 = Some h3"
      "has_properties h3 (ext(r := 1)) ob as3" "view h3 as3 = (view h2 as)(name \<mapsto> value_at h2 r)"
    using SetPropertyValue_map [OF e(1) n1(2) p(2), of name] by blast
  have e2: "take_back (Some r) (ext(r := 1)) = ext" using r(5) by (auto simp: fun_eq_iff)
  obtain h4 where h4: "release (Some r) h3 = Some h4" "has_properties h4 ext ob as3" "view h4 as3 = view h3 as3"
    using release_keeps [OF h3(2), of r] i(2) unfolding e2 by auto
  have "reply_code (Some ob) name code h = Some h4"
    using r(1) h2(1) h3(1) h4(1) by (simp add: reply_code_def)
  then show ?thesis using h4 h3(3) e(2) p(3) by auto
qed

section \<open>Publishing\<close>

text \<open>All that the outside can reach is as it was.\<close>

definition keeps :: "heap \<Rightarrow> (addr \<Rightarrow> nat) \<Rightarrow> heap \<Rightarrow> bool" where
  "keeps h ext h' \<longleftrightarrow> (\<forall>w. held h ext w \<longrightarrow> node_at h' w = node_at h w)"

lemma keeps_held: "held h ext w \<Longrightarrow> keeps h ext h' \<Longrightarrow> ext \<le> ext' \<Longrightarrow> held h' ext' w"
proof (induction rule: held.induct)
  case (ext a)
  then show ?case by (intro held.ext) (metis le_funD less_le_trans)
next
  case (ref a n b)
  then have "node_at h' a = Some n" by (simp add: keeps_def)
  then show ?case using ref by (intro held.ref [of h' ext' a n b]) auto
qed

lemma keeps_step:
  assumes "keeps h ext h1" "\<And>w. held h ext w \<Longrightarrow> held h1 ext1 w \<Longrightarrow> node_at h2 w = node_at h1 w" "ext \<le> ext1"
  shows "keeps h ext h2"
  using assms keeps_held [OF _ assms(1,3)] by (simp add: keeps_def)

lemma held_live: "heap_inv h ext \<Longrightarrow> held h ext w \<Longrightarrow> \<exists>n. node_at h w = Some n"
  by (erule held.cases) (use heap_invD(6) refs_live in \<open>fastforce simp: node_at_def\<close>)+

lemma has_properties_keeps:
  assumes hp: "has_properties h ext ob as" and k: "keeps h ext h'" and h': "heap_inv h' ext"
  shows "has_properties h' ext ob as" "view h' as = view h as"
proof -
  obtain n where n: "0 < ext ob" "node_at h ob = Some n" "is_object n" "seg h (n_properties n) as None" "named h as"
    using has_propertiesE [OF hp] by metis
  have ho: "held h ext ob" using n(1) by (rule held.ext)
  have "held h ext b" if "n_properties n = Some b" for b
    using held.ref [OF ho n(2)] n(3) that by (auto simp: is_object_iff)
  then have ha: "held h ext a" if "a \<in> set as" for a using held_seg [OF _ n(4) that] by blast
  have same: "node_at h' a = node_at h a" if "a \<in> set as" for a using ha [OF that] k by (simp add: keeps_def)
  have "seg h' (n_properties n) as None" using seg_cong [of as h' h] same n(4) by blast
  moreover have "named h' as" using named_cong [of as h' h] same n(5) by blast
  moreover have "node_at h' ob = Some n" using n(2) ho k by (simp add: keeps_def)
  ultimately show "has_properties h' ext ob as" using n(1,3) h' by (auto simp: has_properties_def)
  show "view h' as = view h as"
  proof (rule view_cong)
    show "entries h' as = entries h as" using entries_cong same by blast
    fix a w
    assume a: "a \<in> set as" "val_at h a = Some w"
    then obtain k' nx where na: "node_at h a = Some (NProperty k' (Some w) nx)" using n(5) by (auto simp: named_def val_at_def)
    have "held h ext w" by (rule held.ref [OF ha [OF a(1)] na]) simp
    then show "value_at h' w = value_at h w" using k by (intro value_at_node) (simp add: keeps_def)
  qed
qed

lemma keeps_release:
  assumes "keeps h ext h1" "heap_inv h1 ext1" "0 < ext1 p" "ext \<le> take_back (Some p) ext1"
  shows "\<exists>h2. release (Some p) h1 = Some h2 \<and> heap_inv h2 (take_back (Some p) ext1) \<and> keeps h ext h2"
proof -
  obtain h2 where h2: "release (Some p) h1 = Some h2" "heap_inv h2 (take_back (Some p) ext1)"
      "\<forall>b. held h1 (take_back (Some p) ext1) b \<longrightarrow> survives h1 h2 b"
    using release_ok [OF assms(2,3)] by blast
  have "keeps h ext h2"
  proof (rule keeps_step [OF assms(1) _ assms(4)])
    show "node_at h2 w = node_at h1 w" if "held h1 (take_back (Some p) ext1) w" for w
      using h2(3) that by (auto simp: survives_def simp del: take_back_simps)
  qed
  then show ?thesis using h2 by blast
qed

text \<open>Filling an object that has no properties yet.\<close>

lemma fill_new:
  assumes hp: "has_properties h1 ext1 ob []"
    and r: "node_at h1 r = Some (NValue (Plain DNone))" "0 < ext1 r"
    and s: "node_at h1 s = Some (NValue (Plain DNone))" "0 < ext1 s" and rs: "r \<noteq> s"
    and k: "keeps h ext h1" "ext \<le> ext1" and fresh: "node_at h r = None" "node_at h s = None" "node_at h ob = None"
    and inv: "heap_inv h ext"
  shows "\<exists>h' as'. fill (Some ob) r s code sid h1 = Some h' \<and> has_properties h' ext1 ob as' \<and> keeps h ext h' \<and>
    view h' as' = [''return_value'' \<mapsto> Some (Plain (int32 code)), ''sessionid'' \<mapsto> Some (Plain (int32 sid))]"
proof -
  have h1: "heap_inv h1 ext1" using has_properties_inv [OF hp] by blast
  have nh: "w \<noteq> r \<and> w \<noteq> s \<and> w \<noteq> ob" if "held h ext w" for w using held_live [OF inv that] fresh by auto
  obtain h2 where h2: "Value_SetPlain r (int32 code) h1 = Some h2" "heap_inv h2 ext1"
      "node_at h2 = (node_at h1)(r \<mapsto> NValue (Plain (int32 code)))"
    using SetPlain_step [OF h1 r] by blast
  have s2: "node_at h2 s = Some (NValue (Plain DNone))" using s(1) rs h2(3) by simp
  obtain h3 where h3: "Value_SetPlain s (int32 sid) h2 = Some h3" "heap_inv h3 ext1"
      "node_at h3 = (node_at h2)(s \<mapsto> NValue (Plain (int32 sid)))"
    using SetPlain_step [OF h2(2) s2 s(2)] by blast
  have k3: "keeps h ext h3"
    by (rule keeps_step [OF k(1) _ k(2)]) (use nh h2(3) h3(3) in auto)
  have ch: "node_at h3 a = node_at h1 a" if "a \<notin> {r, s}" for a using that h2(3) h3(3) by auto
  have vs: "\<exists>c. node_at h1 v = Some (NValue c)" if "v \<in> {r, s}" for v using that r(1) s(1) by auto
  have e: "has_properties h3 ext1 ob []" by (rule has_properties_values(1) [where V = "{r, s}", OF hp h3(2) ch vs]) simp_all
  have n3: "node_at h3 r = Some (NValue (Plain (int32 code)))" "node_at h3 s = Some (NValue (Plain (int32 sid)))"
    using h2(3) h3(3) rs by simp_all
  note p = node_not_path [OF e n3(1)] and q = node_not_path [OF e n3(2)]
  obtain h4 a where h4: "rbusObject_SetPropertyValue (Some ob) (Some ''return_value'') (Some r) h3 = Some h4"
      "has_properties h4 ext1 ob [a]" "view h4 [a] = (view h3 [])(''return_value'' \<mapsto> value_at h3 r)"
      "map_of (entries h4 [a]) = [''return_value'' \<mapsto> Some r]" "node_at h3 a = None"
      "\<forall>w. held h3 ext1 w \<and> w \<noteq> ob \<longrightarrow> node_at h4 w = node_at h3 w"
    using SetPropertyValue_new [OF e r(2) p(2), of "''return_value''"] by (auto simp: entries_def)
  have k4: "keeps h ext h4" by (rule keeps_step [OF k3 _ k(2)]) (use nh h4(6) in blast)
  have n4: "node_at h4 s = Some (NValue (Plain (int32 sid)))" using h4(6) held.ext [of ext1 s h3] q(1) s(2) n3(2) by simp
  note q4 = node_not_path [OF h4(2) n4]
  have nm: "name_at h4 a = ''return_value''" using h4(4) by (auto simp: entries_def fun_eq_iff split: if_splits)
  then have "find (\<lambda>a. name_at h4 a = ''sessionid'') [a] = None" by simp
  from SetPropertyValue_new [OF h4(2) s(2) q4(2) this] obtain h5 b where
    h5: "rbusObject_SetPropertyValue (Some ob) (Some ''sessionid'') (Some s) h4 = Some h5" "has_properties h5 ext1 ob ([a] @ [b])"
      "view h5 ([a] @ [b]) = (view h4 [a])(''sessionid'' \<mapsto> value_at h4 s)"
      "\<forall>w. held h4 ext1 w \<and> w \<notin> insert ob (set [a]) \<longrightarrow> node_at h5 w = node_at h4 w" by blast
  have na: "w \<noteq> a" if "held h ext w" for w
    using that k3 held_live [OF inv that] h4(5) by (auto simp: keeps_def)
  have "keeps h ext h5" by (rule keeps_step [OF k4 _ k(2)]) (use nh na h5(4) in auto)
  moreover have "fill (Some ob) r s code sid h1 = Some h5" using h2(1) h3(1) h4(1) h5(1) by (simp add: fill_def)
  moreover have "view h3 [] = Map.empty" by (auto simp: view_def entries_def)
  ultimately show ?thesis using h5(2,3) h4(3) p(3) q4(3) by auto
qed

lemma publish_ok:
  assumes inv: "heap_inv h ext"
  shows "\<exists>d hd as extd h'. publish_session sid h = Some ((CCSP_CURRENT_SESSION_ID_SIGNAL, d, hd), h') \<and> heap_inv h' ext \<and>
    keeps h ext h' \<and> has_properties hd extd d as \<and>
    view hd as = [''return_value'' \<mapsto> Some (Plain (int32 RBUS_ERROR_SUCCESS)), ''sessionid'' \<mapsto> Some (Plain (int32 sid))]"
proof -
  obtain r s h1 h2 where v: "Value_Init h = (r, h1)" "Value_Init h1 = (s, h2)" "heap_inv h2 (ext(r := 1, s := 1))" "r \<noteq> s"
      "ext r = 0" "ext s = 0" "node_at h r = None" "node_at h s = None"
      "node_at h2 = (node_at h)(r \<mapsto> NValue (Plain DNone), s \<mapsto> NValue (Plain DNone))"
    using two_values [OF inv] by blast
  obtain d h3 where d: "rbusObject_Init None h2 = (d, h3)" "heap_inv h3 (ext(r := 1, s := 1, d := 1))"
      "node_at h3 = (node_at h2)(d \<mapsto> NObject None RBUS_OBJECT_SINGLE_INSTANCE None None None None)" "node_at h2 d = None"
      "(ext(r := 1, s := 1)) d = 0"
    using Object_Init_step [OF v(3)] by blast
  let ?e = "ext(r := 1, s := 1, d := 1)"
  have nd: "d \<noteq> r" "d \<noteq> s" "node_at h d = None" "ext d = 0" using d(4,5) v(9) by (auto split: if_splits)
  have hp: "has_properties h3 ?e d []" using d(2,3) by (simp add: has_properties_def named_def)
  have n: "node_at h3 r = Some (NValue (Plain DNone))" "0 < ?e r" "node_at h3 s = Some (NValue (Plain DNone))" "0 < ?e s" "0 < ?e d"
    using v(4,9) d(3) nd by simp_all
  have k: "keeps h ext h3" using held_live [OF inv] v(7-9) d(3) nd(3) by (fastforce simp: keeps_def)
  have le: "ext \<le> ?e" "ext \<le> ext(s := 1, d := 1)" "ext \<le> ext(d := 1)" using v(5,6) nd(4) by (auto simp: le_fun_def)
  obtain h4 as where h4: "fill (Some d) r s RBUS_ERROR_SUCCESS sid h3 = Some h4" "has_properties h4 ?e d as" "keeps h ext h4"
      "view h4 as = [''return_value'' \<mapsto> Some (Plain (int32 RBUS_ERROR_SUCCESS)), ''sessionid'' \<mapsto> Some (Plain (int32 sid))]"
    using fill_new [OF hp n(1-4) v(4) k le(1) v(7,8) nd(3) inv] by blast
  have t1: "take_back (Some r) ?e = ext(s := 1, d := 1)" using v(4,5) nd by (auto simp: fun_eq_iff)
  have t2: "take_back (Some s) (ext(s := 1, d := 1)) = ext(d := 1)" using v(6) nd by (auto simp: fun_eq_iff)
  have t3: "take_back (Some d) (ext(d := 1)) = ext" using nd by (auto simp: fun_eq_iff)
  have i4: "heap_inv h4 ?e" using h4(2) by (simp add: has_properties_def)
  obtain h5 where h5: "release (Some r) h4 = Some h5" "heap_inv h5 (ext(s := 1, d := 1))" "keeps h ext h5"
    using keeps_release [OF h4(3) i4 n(2)] le(2) unfolding t1 by blast
  obtain h6 where h6: "release (Some s) h5 = Some h6" "heap_inv h6 (ext(d := 1))" "keeps h ext h6"
    using keeps_release [OF h5(3,2), of s] le(3) nd unfolding t2 by auto
  obtain h7 where h7: "release (Some d) h6 = Some h7" "heap_inv h7 ext" "keeps h ext h7"
    using keeps_release [OF h6(3,2), of d] unfolding t3 by auto
  have "publish_session sid h = Some ((CCSP_CURRENT_SESSION_ID_SIGNAL, d, h4), h7)"
    using v(1,2) d(1) h4(1) h5(1) h6(1) h7(1) by (simp add: publish_session_def)
  then show ?thesis using h7(2,3) h4(2,4) by blast
qed

section \<open>The session lock\<close>

text \<open>What the manager promises: the session in force after a request, and the fields of the reply.\<close>

datatype request = GetCurrent | RequestSession | EndSession "int option"

fun session_spec :: "request \<Rightarrow> int \<Rightarrow> int \<times> (string \<rightharpoonup> int)" where
  "session_spec GetCurrent cur = (cur, [''return_value'' \<mapsto> RBUSCORE_SUCCESS, ''sessionid'' \<mapsto> cur])"
| "session_spec RequestSession cur =
     (if cur = 0 then (1, [''return_value'' \<mapsto> RBUSCORE_SUCCESS, ''sessionid'' \<mapsto> 1])
      else (cur, [''return_value'' \<mapsto> RBUSCORE_ERROR_INVALID_STATE]))"
| "session_spec (EndSession None) cur = (cur, [''result'' \<mapsto> RBUS_ERROR_INVALID_INPUT])"
| "session_spec (EndSession (Some sid)) cur =
     (if sid = 0 then (cur, [''result'' \<mapsto> RBUS_ERROR_INVALID_INPUT])
      else if sid = cur then (0, [''result'' \<mapsto> RBUS_ERROR_SUCCESS])
      else (cur, [''result'' \<mapsto> RBUS_ERROR_SESSION_ALREADY_EXIST]))"

definition request_of :: "string \<Rightarrow> ptr \<Rightarrow> heap \<Rightarrow> request option" where
  "request_of methodName inParams h =
     (if methodName = RBUS_SMGR_METHOD_GET_CURRENT_SESSION_ID then Some GetCurrent
      else if methodName = RBUS_SMGR_METHOD_REQUEST_SESSION_ID then Some RequestSession
      else if methodName = RBUS_SMGR_METHOD_END_SESSION then map_option EndSession (requested_session inParams h)
      else None)"

definition stored_ints :: "(string \<rightharpoonup> int) \<Rightarrow> string \<rightharpoonup> content option" where
  "stored_ints f n = map_option (\<lambda>i. Some (Plain (int32 i))) (f n)"

definition announces :: "event \<Rightarrow> int \<Rightarrow> bool" where
  "announces ev sid \<longleftrightarrow> (case ev of (name, d, h) \<Rightarrow> name = CCSP_CURRENT_SESSION_ID_SIGNAL \<and>
     (\<exists>ext as. has_properties h ext d as \<and>
        view h as = stored_ints [''return_value'' \<mapsto> RBUS_ERROR_SUCCESS, ''sessionid'' \<mapsto> sid]))"

lemma method_names:
  "RBUS_SMGR_METHOD_REQUEST_SESSION_ID \<noteq> RBUS_SMGR_METHOD_GET_CURRENT_SESSION_ID"
  "RBUS_SMGR_METHOD_END_SESSION \<noteq> RBUS_SMGR_METHOD_GET_CURRENT_SESSION_ID"
  "RBUS_SMGR_METHOD_END_SESSION \<noteq> RBUS_SMGR_METHOD_REQUEST_SESSION_ID"
  by (simp_all add: RBUS_SMGR_METHOD_REQUEST_SESSION_ID_def RBUS_SMGR_METHOD_GET_CURRENT_SESSION_ID_def RBUS_SMGR_METHOD_END_SESSION_def)

lemma end_session_spec:
  assumes "end_session st sid = (st', result)"
  shows "session_spec (EndSession sid) (g_current_session_id st) = (g_current_session_id st', [''result'' \<mapsto> result])"
proof (cases sid)
  case (Some i)
  then show ?thesis using assms by (cases "i = 0"; cases "i = g_current_session_id st") (auto simp: end_session_def)
qed (use assms in \<open>auto simp: end_session_def\<close>)

lemma stored_ints_two: "stored_ints [a \<mapsto> i, b \<mapsto> j] = [a \<mapsto> Some (Plain (int32 i)), b \<mapsto> Some (Plain (int32 j))]"
  by (auto simp: stored_ints_def fun_eq_iff)

lemma publish_reply:
  assumes hp: "has_properties h ext ob as"
  shows "\<exists>ev h'. publish_session sid h = Some (ev, h') \<and> announces ev sid \<and> has_properties h' ext ob as \<and> view h' as = view h as"
proof -
  have "heap_inv h ext" using has_properties_inv [OF hp] by blast
  from publish_ok [OF this, of sid] obtain d hd as2 extd h' where
    p: "publish_session sid h = Some ((CCSP_CURRENT_SESSION_ID_SIGNAL, d, hd), h')" "heap_inv h' ext" "keeps h ext h'"
      "has_properties hd extd d as2"
      "view hd as2 = [''return_value'' \<mapsto> Some (Plain (int32 RBUS_ERROR_SUCCESS)), ''sessionid'' \<mapsto> Some (Plain (int32 sid))]" by blast
  have "announces (CCSP_CURRENT_SESSION_ID_SIGNAL, d, hd) sid"
    unfolding announces_def stored_ints_two using p(4,5) by auto
  then show ?thesis using p(1) has_properties_keeps [OF hp p(3,2)] by blast
qed

lemma reply_session_stored:
  assumes "has_properties h ext ob as"
  shows "\<exists>h' as'. reply_session (Some ob) code sid h = Some h' \<and> has_properties h' ext ob as' \<and>
    view h' as' = view h as ++ stored_ints [''return_value'' \<mapsto> code, ''sessionid'' \<mapsto> sid]"
proof -
  have "m(''return_value'' \<mapsto> Some (Plain (int32 code)), ''sessionid'' \<mapsto> Some (Plain (int32 sid))) =
      m ++ stored_ints [''return_value'' \<mapsto> code, ''sessionid'' \<mapsto> sid]" for m
    by (auto simp: stored_ints_def fun_eq_iff map_add_def)
  then show ?thesis using reply_session_ok [OF assms, of code sid] by simp
qed

lemma reply_code_stored:
  assumes "has_properties h ext ob as"
  shows "\<exists>h' as'. reply_code (Some ob) name code h = Some h' \<and> has_properties h' ext ob as' \<and>
    view h' as' = view h as ++ stored_ints [name \<mapsto> code]"
proof -
  have "m(name \<mapsto> Some (Plain (int32 code))) = m ++ stored_ints [name \<mapsto> code]" for m
    by (auto simp: stored_ints_def fun_eq_iff map_add_def)
  then show ?thesis using reply_code_ok [OF assms, of name code] by simp
qed

lemma handler_ok:
  assumes "has_properties h ext ob as" "request_of methodName inParams h = Some req" "g_counter st < 2 ^ 31 - 1" "0 \<le> g_counter st"
  shows "\<exists>st' evs h' as'. sessionManager_methodHandler st methodName inParams (Some ob) h = Some (RBUS_ERROR_SUCCESS, st', evs, h') \<and>
    g_current_session_id st' = fst (session_spec req (g_current_session_id st)) \<and>
    has_properties h' ext ob as' \<and>
    view h' as' = view h as ++ stored_ints (snd (session_spec req (g_current_session_id st))) \<and>
    (if req = GetCurrent then evs = [] else \<exists>ev. evs = [ev] \<and> announces ev (g_current_session_id st'))"
proof (cases req)
  case GetCurrent
  then have m: "methodName = RBUS_SMGR_METHOD_GET_CURRENT_SESSION_ID"
    using assms(2) by (auto simp: request_of_def split: if_splits)
  show ?thesis using reply_session_stored [OF assms(1), of RBUSCORE_SUCCESS "g_current_session_id st"] GetCurrent m
    by (auto simp: sessionManager_methodHandler_def)
next
  case RequestSession
  then have m: "methodName = RBUS_SMGR_METHOD_REQUEST_SESSION_ID"
    using assms(2) by (auto simp: request_of_def split: if_splits)
  have c: "cint (g_counter st + 1) = Some (g_counter st + 1)" using assms(3,4) by (intro cint_Some int_rangeI) simp_all
  show ?thesis
  proof (cases "g_current_session_id st = 0")
    case True
    obtain h1 as1 where h1: "reply_session (Some ob) RBUSCORE_SUCCESS 1 h = Some h1" "has_properties h1 ext ob as1"
        "view h1 as1 = view h as ++ stored_ints [''return_value'' \<mapsto> RBUSCORE_SUCCESS, ''sessionid'' \<mapsto> 1]"
      using reply_session_stored [OF assms(1)] by blast
    then show ?thesis using publish_reply [OF h1(2), of 1] RequestSession m True c method_names
      by (auto simp: sessionManager_methodHandler_def)
  next
    case False
    obtain h1 as1 where h1: "reply_code (Some ob) ''return_value'' RBUSCORE_ERROR_INVALID_STATE h = Some h1" "has_properties h1 ext ob as1"
        "view h1 as1 = view h as ++ stored_ints [''return_value'' \<mapsto> RBUSCORE_ERROR_INVALID_STATE]"
      using reply_code_stored [OF assms(1)] by blast
    then show ?thesis using publish_reply [OF h1(2), of "g_current_session_id st"] RequestSession m False method_names
      by (auto simp: sessionManager_methodHandler_def)
  qed
next
  case (EndSession sid)
  then have m: "methodName = RBUS_SMGR_METHOD_END_SESSION" "requested_session inParams h = Some sid"
    using assms(2) by (auto simp: request_of_def split: if_splits)
  obtain st' result where r: "end_session st sid = (st', result)" by fastforce
  note sp = end_session_spec [OF r]
  obtain h1 as1 where h1: "reply_code (Some ob) ''result'' result h = Some h1" "has_properties h1 ext ob as1"
      "view h1 as1 = view h as ++ stored_ints [''result'' \<mapsto> result]"
    using reply_code_stored [OF assms(1)] by blast
  obtain ev h2 where h2: "publish_session (g_current_session_id st') h1 = Some (ev, h2)" "announces ev (g_current_session_id st')"
      "has_properties h2 ext ob as1" "view h2 as1 = view h1 as1"
    using publish_reply [OF h1(2)] by blast
  have "sessionManager_methodHandler st methodName inParams (Some ob) h = Some (RBUS_ERROR_SUCCESS, st', [ev], h2)"
    using m method_names r h1(1) h2(1) by (simp add: sessionManager_methodHandler_def)
  then show ?thesis using sp h2 h1(3) EndSession by (intro exI [of _ st'] exI [of _ "[ev]"] exI [of _ h2] exI [of _ as1]) simp
qed

text \<open>
  C18. The method handler implements the session lock: for each of its three methods, with reply
  parameters the caller holds, it succeeds; the session in force and the fields added to the reply
  are those of the specification; requesting and ending a session publish one event that announces
  the session in force afterwards; and every reference count is the number of references again.
\<close>

theorem Session_refines_lock:
  assumes "has_properties h ext ob as" "request_of methodName inParams h = Some req" "g_counter st < 2 ^ 31 - 1" "0 \<le> g_counter st"
  shows "\<exists>st' evs h' as'. sessionManager_methodHandler st methodName inParams (Some ob) h = Some (RBUS_ERROR_SUCCESS, st', evs, h') \<and>
    g_current_session_id st' = fst (session_spec req (g_current_session_id st)) \<and>
    has_properties h' ext ob as' \<and>
    view h' as' = view h as ++ stored_ints (snd (session_spec req (g_current_session_id st))) \<and>
    (if req = GetCurrent then evs = [] else \<exists>ev. evs = [ev] \<and> announces ev (g_current_session_id st'))"
  using assms by (rule handler_ok)

theorem Session_refines_lock_witness:
  "\<exists>st' evs h'. sessionManager_methodHandler \<lparr>g_counter = 0, g_current_session_id = 0\<rparr> RBUS_SMGR_METHOD_REQUEST_SESSION_ID None (Some 0) demo_heap =
     Some (RBUS_ERROR_SUCCESS, st', evs, h') \<and> g_current_session_id st' = 1 \<and> heap_inv h' demo_ext"
proof -
  have "request_of RBUS_SMGR_METHOD_REQUEST_SESSION_ID None demo_heap = Some RequestSession"
    by (simp add: request_of_def method_names)
  from Session_refines_lock [OF demo_properties this, of "\<lparr>g_counter = 0, g_current_session_id = 0\<rparr>"]
  obtain st' evs h' as' where
    "sessionManager_methodHandler \<lparr>g_counter = 0, g_current_session_id = 0\<rparr> RBUS_SMGR_METHOD_REQUEST_SESSION_ID None (Some 0) demo_heap =
       Some (RBUS_ERROR_SUCCESS, st', evs, h')" "g_current_session_id st' = 1" "has_properties h' demo_ext 0 as'"
    by auto
  then show ?thesis using has_properties_inv by blast
qed

section \<open>Every history\<close>

text \<open>
  The state of the manager after any sequence of calls, with the number of sessions it granted and
  the number that were ended.
\<close>

inductive session_history :: "smgr \<Rightarrow> nat \<Rightarrow> nat \<Rightarrow> bool" where
  start: "session_history \<lparr>g_counter = 0, g_current_session_id = 0\<rparr> 0 0"
| call: "session_history st granted ended \<Longrightarrow>
    sessionManager_methodHandler st methodName inParams outParams h = Some (rc, st', evs, h') \<Longrightarrow>
    session_history st'
      (granted + (if methodName = RBUS_SMGR_METHOD_REQUEST_SESSION_ID \<and> g_current_session_id st = 0 then 1 else 0))
      (ended + (if methodName = RBUS_SMGR_METHOD_END_SESSION \<and> g_current_session_id st \<noteq> g_current_session_id st' then 1 else 0))"

inductive_cases session_historyE: "session_history st granted ended"

lemma handler_state:
  assumes "sessionManager_methodHandler st methodName inParams outParams h = Some (rc, st', evs, h')"
  shows "st' = (if methodName = RBUS_SMGR_METHOD_REQUEST_SESSION_ID \<and> g_current_session_id st = 0
      then st\<lparr>g_current_session_id := 1, g_counter := g_counter st + 1\<rparr>
      else if methodName = RBUS_SMGR_METHOD_END_SESSION \<and> requested_session inParams h = Some (Some (g_current_session_id st)) \<and>
        g_current_session_id st \<noteq> 0
      then st\<lparr>g_current_session_id := 0\<rparr> else st)"
  using assms method_names
  by (auto simp: sessionManager_methodHandler_def end_session_def cint_eq_Some_iff split: if_splits bind_splits option.splits)

lemma session_history_inv:
  assumes "session_history st granted ended"
  shows "g_current_session_id st \<in> {0, 1} \<and> g_counter st = int granted \<and> int granted = int ended + g_current_session_id st"
  using assms
proof (induction rule: session_history.induct)
  case start
  then show ?case by simp
next
  case (call st granted ended methodName inParams outParams h rc st' evs h')
  show ?case using handler_state [OF call.hyps(2)] call.IH method_names by (auto split: if_splits)
qed

text \<open>
  C19. After any history of calls there is no session in force or the one with identifier 1; the
  counter is the number of sessions granted; and the sessions granted are those ended and the one
  in force: between two grants the first session was ended.
\<close>

theorem Session_exclusive:
  assumes "session_history st granted ended"
  shows "g_current_session_id st \<in> {0, 1} \<and> g_counter st = int granted \<and> int granted = int ended + g_current_session_id st"
  using assms by (rule session_history_inv)

theorem Session_exclusive_witness:
  "\<exists>st. session_history st 1 0 \<and> g_current_session_id st \<in> {0, 1} \<and> g_counter st = 1"
proof -
  let ?st = "\<lparr>g_counter = 0, g_current_session_id = 0\<rparr>"
  have r: "request_of RBUS_SMGR_METHOD_REQUEST_SESSION_ID None demo_heap = Some RequestSession"
    by (simp add: request_of_def method_names)
  obtain rc st' evs h' where c: "sessionManager_methodHandler ?st RBUS_SMGR_METHOD_REQUEST_SESSION_ID None (Some 0) demo_heap = Some (rc, st', evs, h')"
    using handler_ok [OF demo_properties r, of ?st] by auto
  have h: "session_history st' 1 0" using session_history.call [OF session_history.start c] method_names by simp
  show ?thesis using Session_exclusive [OF h] h by auto
qed

text \<open>
  C20. The lock can always be had again: whatever happened, a client that ends the session in force
  by its identifier, and then requests one, is granted it.
\<close>

theorem Session_available:
  assumes "session_history st granted ended" "granted < 2 ^ 31 - 1" "g_current_session_id st = 1"
    and "has_properties h ext ob as" "requested_session inParams h = Some (Some 1)"
  shows "\<exists>st1 evs1 h1.
    sessionManager_methodHandler st RBUS_SMGR_METHOD_END_SESSION inParams (Some ob) h = Some (RBUS_ERROR_SUCCESS, st1, evs1, h1) \<and>
    (\<forall>h2 ext2 ob2 as2 inParams2. has_properties h2 ext2 ob2 as2 \<longrightarrow>
      (\<exists>st2 evs2 h3 as3.
        sessionManager_methodHandler st1 RBUS_SMGR_METHOD_REQUEST_SESSION_ID inParams2 (Some ob2) h2 = Some (RBUS_ERROR_SUCCESS, st2, evs2, h3) \<and>
        g_current_session_id st2 = 1 \<and> has_properties h3 ext2 ob2 as3 \<and>
        view h3 as3 ''return_value'' = Some (Some (Plain (int32 RBUSCORE_SUCCESS)))))"
proof -
  have c: "g_counter st < 2 ^ 31 - 1" "0 \<le> g_counter st" using session_history_inv [OF assms(1)] assms(2) by auto
  have "request_of RBUS_SMGR_METHOD_END_SESSION inParams h = Some (EndSession (Some 1))"
    using assms(5) method_names by (simp add: request_of_def)
  from handler_ok [OF assms(4) this c] obtain st1 evs1 h1 where
    h1: "sessionManager_methodHandler st RBUS_SMGR_METHOD_END_SESSION inParams (Some ob) h = Some (RBUS_ERROR_SUCCESS, st1, evs1, h1)"
      "g_current_session_id st1 = 0" using assms(3) by auto
  have c1: "g_counter st1 < 2 ^ 31 - 1" "0 \<le> g_counter st1"
    using handler_state [OF h1(1)] c method_names by (auto split: if_splits)
  have "\<exists>st2 evs2 h3 as3.
      sessionManager_methodHandler st1 RBUS_SMGR_METHOD_REQUEST_SESSION_ID inp (Some ob2) h2 = Some (RBUS_ERROR_SUCCESS, st2, evs2, h3) \<and>
      g_current_session_id st2 = 1 \<and> has_properties h3 ext2 ob2 as3 \<and>
      view h3 as3 ''return_value'' = Some (Some (Plain (int32 RBUSCORE_SUCCESS)))"
    if hp: "has_properties h2 ext2 ob2 as2" for h2 ext2 ob2 as2 inp
  proof -
    have "request_of RBUS_SMGR_METHOD_REQUEST_SESSION_ID inp h2 = Some RequestSession" by (simp add: request_of_def method_names)
    from handler_ok [OF hp this c1] obtain st2 evs2 h3 as3 where
      r: "sessionManager_methodHandler st1 RBUS_SMGR_METHOD_REQUEST_SESSION_ID inp (Some ob2) h2 = Some (RBUS_ERROR_SUCCESS, st2, evs2, h3)"
        "g_current_session_id st2 = 1" "has_properties h3 ext2 ob2 as3"
        "view h3 as3 = view h2 as2 ++ stored_ints [''return_value'' \<mapsto> RBUSCORE_SUCCESS, ''sessionid'' \<mapsto> 1]"
      using h1(2) by auto
    have "view h3 as3 ''return_value'' = Some (Some (Plain (int32 RBUSCORE_SUCCESS)))" by (simp add: r(4) stored_ints_two)
    then show ?thesis using r(1-3) by blast
  qed
  then show ?thesis using h1(1) by blast
qed

theorem Session_available_witness:
  "\<exists>st h st1 evs1 h1. session_history st 1 0 \<and>
     sessionManager_methodHandler st RBUS_SMGR_METHOD_END_SESSION (Some 0) (Some 0) h = Some (RBUS_ERROR_SUCCESS, st1, evs1, h1)"
proof -
  let ?st = "\<lparr>g_counter = 0, g_current_session_id = 0\<rparr>"
  have r: "request_of RBUS_SMGR_METHOD_REQUEST_SESSION_ID None demo_heap = Some RequestSession"
    by (simp add: request_of_def method_names)
  obtain rc st evs h' where c: "sessionManager_methodHandler ?st RBUS_SMGR_METHOD_REQUEST_SESSION_ID None (Some 0) demo_heap = Some (rc, st, evs, h')"
    using handler_ok [OF demo_properties r, of ?st] by auto
  have hist: "session_history st 1 0" using session_history.call [OF session_history.start c] method_names by simp
  have one: "g_current_session_id st = 1" using handler_state [OF c] by simp
  obtain h as where h: "reply_code (Some 0) ''sessionid'' 1 demo_heap = Some h" "has_properties h demo_ext 0 as"
    using reply_code_ok [OF demo_properties] by blast
  have "map_option (requested_session (Some 0)) (reply_code (Some 0) ''sessionid'' 1 demo_heap) = Some (Some (Some 1))" by code_simp
  then have q: "requested_session (Some 0) h = Some (Some 1)" using h(1) by simp
  have "(1 :: nat) < 2 ^ 31 - 1" by simp
  from Session_available [OF hist this one h(2) q] show ?thesis using hist by blast
qed

text \<open>
  A request to end a session whose first parameter is not a 32-bit number, here an object whose only
  property has a value of no type, does not return: the assertion in the getter stops the manager.
\<close>

theorem EndSession_aborts:
  "\<exists>h. rbusObject_SetProperty (Some 0) 2 demo_heap = Some h \<and>
     sessionManager_methodHandler st RBUS_SMGR_METHOD_END_SESSION (Some 0) outParams h = None"
proof -
  define h where "h = the (rbusObject_SetProperty (Some 0) 2 demo_heap)"
  have "rbusObject_SetProperty (Some 0) 2 demo_heap = Some h" unfolding h_def by code_simp
  moreover have "requested_session (Some 0) h = None" unfolding h_def by code_simp
  ultimately show ?thesis using method_names by (simp add: sessionManager_methodHandler_def)
qed

end
