(* ===== verification/RB_Element.thy ===== *)
theory RB_Element
  imports RB_Prelude
begin

text \<open>
  The element tree of a provider, \<^verbatim>\<open>src/src/rbus/rbus_element.c\<close>: registering data elements,
  looking up registration and instance elements, and the rows of tables.

  A node is a tree of its information and its children in sibling order; its address stands for
  the pointers other components keep to it. The parent pointers are the way down from the root
  (\<open>chain_to\<close>), a pointer to a node that is not in the tree dangles. The mutex of the file is not
  modelled: each operation holds it from start to end.
\<close>

section \<open>Nodes\<close>

datatype rbusElementType =
  RBUS_ELEMENT_TYPE_OBJECT
| RBUS_ELEMENT_TYPE_PROPERTY
| RBUS_ELEMENT_TYPE_TABLE
| RBUS_ELEMENT_TYPE_EVENT
| RBUS_ELEMENT_TYPE_METHOD

text \<open>Handlers are function pointers: \<open>None\<close> is NULL.\<close>

record rbusElementCallbackTable =
  getHandler :: "addr option"
  setHandler :: "addr option"
  tableAddRowHandler :: "addr option"
  tableRemoveRowHandler :: "addr option"
  eventSubHandler :: "addr option"
  methodHandler :: "addr option"
  tableSyncHandler :: "addr option"

record rbusCallbackTable =
  cb_getHandler :: "addr option"
  cb_setHandler :: "addr option"
  cb_tableAddRowHandler :: "addr option"
  cb_tableRemoveRowHandler :: "addr option"
  cb_eventSubHandler :: "addr option"
  cb_methodHandler :: "addr option"

record rbusDataElement =
  el_name :: string
  el_type :: rbusElementType
  el_cbTable :: rbusCallbackTable

record element_info =
  ename :: string
  efullName :: "string option"
  etype :: rbusElementType
  cbTable :: rbusElementCallbackTable
  subscriptions :: "addr list option"
  ealias :: "string option"
  changeComp :: "string option"
  changeTime :: int

datatype elementNode = Element (eaddr: addr) (einfo: element_info) (echildren: "elementNode list")

abbreviation nname :: "elementNode \<Rightarrow> string" where "nname n \<equiv> ename (einfo n)"
abbreviation ntype :: "elementNode \<Rightarrow> rbusElementType" where "ntype n \<equiv> etype (einfo n)"

text \<open>The tree of a handle, the global list \<open>pruneNode\<close> and the next free address.\<close>

record element_tree =
  eroot :: "elementNode option"
  pruneNode :: "addr list"
  enext :: addr

definition RBUS_MAX_NAME_LENGTH :: nat where "RBUS_MAX_NAME_LENGTH = 256"

definition no_callbacks :: rbusElementCallbackTable where
  "no_callbacks = \<lparr>getHandler = None, setHandler = None, tableAddRowHandler = None,
     tableRemoveRowHandler = None, eventSubHandler = None, methodHandler = None, tableSyncHandler = None\<rparr>"

definition getEmptyElementNode :: "addr \<Rightarrow> elementNode" where
  "getEmptyElementNode a = Element a \<lparr>ename = [], efullName = None, etype = RBUS_ELEMENT_TYPE_OBJECT,
     cbTable = no_callbacks, subscriptions = None, ealias = None, changeComp = None, changeTime = 0\<rparr> []"

definition upd_info :: "(element_info \<Rightarrow> element_info) \<Rightarrow> elementNode \<Rightarrow> elementNode" where
  "upd_info f n = Element (eaddr n) (f (einfo n)) (echildren n)"

definition with_children :: "elementNode list \<Rightarrow> elementNode \<Rightarrow> elementNode" where
  "with_children ks n = Element (eaddr n) (einfo n) ks"

text \<open>\<open>snprintf(buff, RBUS_MAX_NAME_LENGTH, "%s.%s", ...)\<close>; a NULL for the first string is undefined.\<close>

definition join_name :: "string option \<Rightarrow> string \<Rightarrow> string run" where
  "join_name full tok =
     (case full of None \<Rightarrow> None | Some s \<Rightarrow> Some (take (RBUS_MAX_NAME_LENGTH - 1) (s @ ''.'' @ tok)))"

text \<open>The tokens of \<open>strtok_r\<close> at dots: the maximal dot-free pieces that are not empty.\<close>

fun strtok_dots :: "string \<Rightarrow> string \<Rightarrow> string list" where
  "strtok_dots tok [] = (if tok = [] then [] else [rev tok])"
| "strtok_dots tok (c # cs) =
     (if c = CHR ''.'' then (if tok = [] then strtok_dots [] cs else rev tok # strtok_dots [] cs)
      else strtok_dots (c # tok) cs)"

definition name_tokens :: "string \<Rightarrow> string list" where
  "name_tokens s = strtok_dots [] s"

section \<open>Pointers\<close>

text \<open>The chain from the root to a node, both included (\<open>createElementChain\<close>).\<close>

fun chain_to :: "addr \<Rightarrow> elementNode \<Rightarrow> elementNode list"
  and chain_among :: "addr \<Rightarrow> elementNode list \<Rightarrow> elementNode list" where
  "chain_to a (Element b i ks) =
     (if a = b then [Element b i ks]
      else case chain_among a ks of [] \<Rightarrow> [] | c # cs \<Rightarrow> Element b i ks # c # cs)"
| "chain_among a [] = []"
| "chain_among a (k # ks) = (case chain_to a k of [] \<Rightarrow> chain_among a ks | c # cs \<Rightarrow> c # cs)"

definition node_of :: "addr \<Rightarrow> elementNode \<Rightarrow> elementNode option" where
  "node_of a t = (case chain_to a t of [] \<Rightarrow> None | c # cs \<Rightarrow> Some (last (c # cs)))"

fun upd_node :: "addr \<Rightarrow> (elementNode \<Rightarrow> elementNode) \<Rightarrow> elementNode \<Rightarrow> elementNode" where
  "upd_node a f (Element b i ks) = (if a = b then f (Element b i ks) else Element b i (map (upd_node a f) ks))"

fun unlink_node :: "addr \<Rightarrow> elementNode \<Rightarrow> elementNode" where
  "unlink_node a (Element b i ks) = Element b i (map (unlink_node a) (filter (\<lambda>k. eaddr k \<noteq> a) ks))"

section \<open>Registration\<close>

text \<open>The name of a table may end in \<open>.{i}.\<close> or \<open>.{i}\<close>, which is cut off.\<close>

definition strip_row :: "string \<Rightarrow> string" where
  "strip_row name =
     (let len = length name
      in if len > 4
         then (if drop (len - 5) name = ''.{i}.'' then take (len - 5) name
               else if drop (len - 4) name = ''.{i}'' then take (len - 4) name else name)
         else name)"

definition new_fullName :: "bool \<Rightarrow> elementNode \<Rightarrow> string \<Rightarrow> string run" where
  "new_fullName isroot current token =
     (if echildren current = []
      then (if isroot then Some token else join_name (efullName (einfo current)) token)
      else (case efullName (einfo current) of
              Some s \<Rightarrow> join_name (Some s) token
            | None \<Rightarrow> Some (take (RBUS_MAX_NAME_LENGTH - 1) token)))"

definition new_child :: "addr \<Rightarrow> string \<Rightarrow> string \<Rightarrow> elementNode" where
  "new_child a full token = upd_info (\<lambda>i. i\<lparr>ename := token, efullName := Some full\<rparr>) (getEmptyElementNode a)"

text \<open>What registration writes into the last node of the walk.\<close>

definition set_element :: "rbusDataElement \<Rightarrow> addr \<Rightarrow> elementNode \<Rightarrow> (elementNode \<times> addr) run" where
  "set_element elem nx current =
     (let i = einfo current; cb = el_cbTable elem;
          i = i\<lparr>etype := el_type elem,
                cbTable := (cbTable i)\<lparr>getHandler := cb_getHandler cb, setHandler := cb_setHandler cb,
                  tableAddRowHandler := cb_tableAddRowHandler cb,
                  tableRemoveRowHandler := cb_tableRemoveRowHandler cb,
                  eventSubHandler := cb_eventSubHandler cb\<rparr>\<rparr>
      in if el_type elem = RBUS_ELEMENT_TYPE_TABLE
         then do { full \<leftarrow> join_name (efullName i) ''{i}'';
                   Some (Element (eaddr current)
                           (i\<lparr>cbTable := (cbTable i)\<lparr>tableSyncHandler := cb_methodHandler cb\<rparr>\<rparr>)
                           [new_child nx full ''{i}''], nx + 1) }
         else Some (Element (eaddr current)
                      (i\<lparr>cbTable := (cbTable i)\<lparr>methodHandler := cb_methodHandler cb\<rparr>\<rparr>)
                      (echildren current), nx))"

text \<open>The walk along the tokens, which creates what is missing.\<close>

fun insert_walk :: "rbusDataElement \<Rightarrow> bool \<Rightarrow> string list \<Rightarrow> elementNode \<Rightarrow> addr \<Rightarrow> (elementNode \<times> addr \<times> addr) run" where
  "insert_walk elem isroot [] current nx =
     do { (n, nx) \<leftarrow> set_element elem nx current; Some (n, nx, eaddr current) }"
| "insert_walk elem isroot (token # tokens) current nx =
     (case List.extract (\<lambda>c. nname c = token) (echildren current) of
        Some (pre, c, post) \<Rightarrow>
          do { (c, nx, a) \<leftarrow> insert_walk elem False tokens c nx;
               Some (with_children (pre @ c # post) current, nx, a) }
      | None \<Rightarrow>
          do { full \<leftarrow> new_fullName isroot current token;
               (c, nx, a) \<leftarrow> insert_walk elem False tokens (new_child nx full token) (nx + 1);
               Some (with_children (echildren current @ [c]) current, nx, a) })"

text \<open>A copy of a node and of all below it, to be the last child of the node with the given full name.\<close>

fun duplicateNode :: "string option \<Rightarrow> elementNode \<Rightarrow> string \<Rightarrow> addr \<Rightarrow> (elementNode \<times> addr) run"
  and duplicateChildren :: "string option \<Rightarrow> elementNode list \<Rightarrow> addr \<Rightarrow> (elementNode list \<times> addr) run" where
  "duplicateNode parentName (Element a i ks) name nx =
     do { full \<leftarrow> join_name parentName name;
          (cs, nx') \<leftarrow> duplicateChildren (Some full) ks (nx + 1);
          Some (Element nx \<lparr>ename = name, efullName = Some full, etype = etype i, cbTable = cbTable i,
                  subscriptions = None, ealias = None, changeComp = None, changeTime = 0\<rparr> cs, nx') }"
| "duplicateChildren parentName [] nx = Some ([], nx)"
| "duplicateChildren parentName (k # ks) nx =
     do { (c, nx) \<leftarrow> duplicateNode parentName k (nname k) nx;
          (cs, nx) \<leftarrow> duplicateChildren parentName ks nx;
          Some (c # cs, nx) }"

text \<open>
  What was added below a row template is added to the rows: in tables on the way to every row and
  to the template, elsewhere along the names; the first missing node is copied with all below it.
\<close>

fun replicateInternal :: "elementNode list \<Rightarrow> elementNode \<Rightarrow> addr \<Rightarrow> (elementNode \<times> addr) run"
  and replicateRows :: "elementNode list \<Rightarrow> elementNode list \<Rightarrow> addr \<Rightarrow> (elementNode list \<times> addr) run" where
  "replicateInternal [] current nx = Some (current, nx)"
| "replicateInternal (s # ss) current nx =
     (if ntype current = RBUS_ELEMENT_TYPE_TABLE
      then do { (ks, nx) \<leftarrow> replicateRows ss (echildren current) nx;
                Some (with_children ks current, nx) }
      else case List.extract (\<lambda>c. nname c = nname s) (echildren current) of
             Some (pre, c, post) \<Rightarrow>
               do { (c, nx) \<leftarrow> replicateInternal ss c nx;
                    Some (with_children (pre @ c # post) current, nx) }
           | None \<Rightarrow>
               do { (c, nx) \<leftarrow> duplicateNode (efullName (einfo current)) s (nname s) nx;
                    Some (with_children (echildren current @ [c]) current, nx) })"
| "replicateRows ss [] nx = Some ([], nx)"
| "replicateRows ss (k # ks) nx =
     do { (k, nx) \<leftarrow> replicateInternal ss k nx;
          (ks, nx) \<leftarrow> replicateRows ss ks nx;
          Some (k # ks, nx) }"

text \<open>The rows of the first table above the new node are brought up to date.\<close>

fun replicate_instances :: "elementNode list \<Rightarrow> elementNode list \<Rightarrow> addr \<Rightarrow> (elementNode list \<times> addr) run" where
  "replicate_instances ss [] nx = Some ([], nx)"
| "replicate_instances ss (k # ks) nx =
     do { (k, nx) \<leftarrow> (if ntype k = RBUS_ELEMENT_TYPE_OBJECT \<and> nname k \<noteq> ''{i}''
                     then replicateInternal ss k nx else Some (k, nx));
          (ks, nx) \<leftarrow> replicate_instances ss ks nx;
          Some (k # ks, nx) }"

definition replicateAcrossTableRowInstances :: "addr \<Rightarrow> elementNode \<Rightarrow> addr \<Rightarrow> (elementNode \<times> addr) run" where
  "replicateAcrossTableRowInstances newNode root nx =
     (let chain = chain_to newNode root
      in case List.extract (\<lambda>(p, n). ntype p = RBUS_ELEMENT_TYPE_TABLE) (zip chain (tl chain)) of
           None \<Rightarrow> Some (root, nx)
         | Some (pre, (table, row), rest) \<Rightarrow>
             do { (ks, nx) \<leftarrow> replicate_instances (map snd rest) (echildren table) nx;
                  Some (upd_node (eaddr table) (with_children ks) root, nx) })"

definition insertElement :: "element_tree \<Rightarrow> rbusDataElement option \<Rightarrow> (addr option \<times> element_tree) run" where
  "insertElement t elem =
     (case (eroot t, elem) of
        (Some root, Some e) \<Rightarrow>
          do { let name = (if el_type e = RBUS_ELEMENT_TYPE_TABLE then strip_row (el_name e) else el_name e);
               (root, nx, a) \<leftarrow> insert_walk e True (name_tokens name) root (enext t);
               (root, nx) \<leftarrow> replicateAcrossTableRowInstances a root nx;
               Some (Some a, t\<lparr>eroot := Some root, enext := nx\<rparr>) }
      | _ \<Rightarrow> Some (None, t))"

section \<open>Lookup\<close>

text \<open>Below a table that has children, the next token is taken for \<open>{i}\<close>.\<close>

definition row_token :: "elementNode \<Rightarrow> string list \<Rightarrow> string list" where
  "row_token n tokens =
     (case tokens of
        [] \<Rightarrow> []
      | tok # toks \<Rightarrow> if echildren n \<noteq> [] \<and> ntype n = RBUS_ELEMENT_TYPE_TABLE then ''{i}'' # toks else tok # toks)"

lemma length_row_token [simp]: "length (row_token n tokens) = length tokens"
  by (simp add: row_token_def split: list.split)

function retrieve_walk :: "string list \<Rightarrow> elementNode \<Rightarrow> elementNode option" where
  "retrieve_walk [] current = Some current"
| "retrieve_walk (token # tokens) current =
     (case find (\<lambda>c. nname c = token) (echildren current) of
        None \<Rightarrow> None
      | Some c \<Rightarrow> retrieve_walk (row_token c tokens) c)"
  by pat_completeness auto

termination retrieve_walk
  by (relation "measure (length \<circ> fst)") simp_all

definition retrieveElement :: "element_tree \<Rightarrow> string \<Rightarrow> addr option" where
  "retrieveElement t elmentName =
     (case (eroot t, name_tokens elmentName) of
        (Some root, tok # toks) \<Rightarrow> map_option eaddr (retrieve_walk (tok # toks) root)
      | _ \<Rightarrow> None)"

text \<open>
  The lookup of instance elements: the first child is compared by name, the others by name or, as
  rows of a table, by their alias in brackets.
\<close>

definition alias_token :: "elementNode \<Rightarrow> string \<Rightarrow> bool" where
  "alias_token n token =
     (case ealias (einfo n) of
        None \<Rightarrow> False
      | Some al \<Rightarrow>
          let tlen = length token
          in tlen > 2 \<and> hd token = CHR ''['' \<and> token ! (tlen - 1) = CHR '']'' \<and>
             length al = tlen - 2 \<and> al = take (tlen - 2) (drop 1 token))"

definition find_instance :: "string \<Rightarrow> elementNode \<Rightarrow> (elementNode list \<times> elementNode \<times> elementNode list) option" where
  "find_instance token current =
     (case echildren current of
        [] \<Rightarrow> None
      | k # ks \<Rightarrow>
          if nname k = token then Some ([], k, ks)
          else (case List.extract (\<lambda>n. nname n = token \<or>
                      ntype current = RBUS_ELEMENT_TYPE_TABLE \<and> alias_token n token) ks of
                  None \<Rightarrow> None
                | Some (pre, n, post) \<Rightarrow> Some (k # pre, n, post)))"

text \<open>
  Below a table the next token is taken for \<open>{i}\<close> once a wildcard has been met or if the table has
  a get handler.
\<close>

definition instance_token :: "bool \<Rightarrow> elementNode \<Rightarrow> string list \<Rightarrow> bool \<times> string list" where
  "instance_token isWildcard n tokens =
     (case tokens of
        [] \<Rightarrow> (isWildcard, [])
      | tok # toks \<Rightarrow>
          if echildren n \<noteq> [] \<and> ntype n = RBUS_ELEMENT_TYPE_TABLE
          then let w = (isWildcard \<or> tok = ''*'')
               in (w, if w \<or> getHandler (cbTable (einfo n)) \<noteq> None then ''{i}'' # toks else tok # toks)
          else (isWildcard, tok # toks))"

lemma length_instance_token [simp]: "length (snd (instance_token w n tokens)) = length tokens"
  by (simp add: instance_token_def Let_def split: list.split)

text \<open>
  The sync handler of a table, \<open>sync\<close>, is code of the provider: given the full name of the table
  it adds and removes rows, here it returns the table with the rows it leaves.
\<close>

function instance_walk ::
  "(string option \<Rightarrow> elementNode \<Rightarrow> elementNode) \<Rightarrow> bool \<Rightarrow> bool \<Rightarrow> string list \<Rightarrow> elementNode \<Rightarrow> elementNode \<times> elementNode option" where
  "instance_walk sync syncTables w [] current = (current, Some current)"
| "instance_walk sync syncTables w (token # tokens) current =
     (case find_instance token current of
        None \<Rightarrow> (current, None)
      | Some (pre, c, post) \<Rightarrow>
          let c = (if tokens \<noteq> [] \<and> ntype c = RBUS_ELEMENT_TYPE_TABLE \<and> syncTables \<and>
                      tableSyncHandler (cbTable (einfo c)) \<noteq> None
                   then sync (efullName (einfo c)) c else c);
              (c, res) = instance_walk sync syncTables (fst (instance_token w c tokens))
                           (snd (instance_token w c tokens)) c
          in (with_children (pre @ c # post) current, res))"
  by pat_completeness auto

termination instance_walk
  by (relation "measure (\<lambda>(sync, s, w, ts, n). length ts)") simp_all

definition retrieveInstanceElementEx ::
  "(string option \<Rightarrow> elementNode \<Rightarrow> elementNode) \<Rightarrow> bool \<Rightarrow> element_tree \<Rightarrow> string \<Rightarrow> addr option \<times> element_tree" where
  "retrieveInstanceElementEx sync syncTables t elmentName =
     (case (eroot t, name_tokens elmentName) of
        (Some root, tok # toks) \<Rightarrow>
          let (root, res) = instance_walk sync syncTables False (tok # toks) root
          in (map_option eaddr res, t\<lparr>eroot := Some root\<rparr>)
      | _ \<Rightarrow> (None, t))"

definition retrieveInstanceElement :: "element_tree \<Rightarrow> string \<Rightarrow> addr option" where
  "retrieveInstanceElement t elmentName = fst (retrieveInstanceElementEx (\<lambda>_ n. n) False t elmentName)"

section \<open>Rows\<close>

text \<open>\<open>%u\<close>.\<close>

fun decimal :: "nat \<Rightarrow> string" where
  "decimal n = (if n < 10 then [char_of (48 + n)] else decimal (n div 10) @ [char_of (48 + n mod 10)])"

definition instantiateTableRow ::
  "element_tree \<Rightarrow> addr option \<Rightarrow> u32 \<Rightarrow> string option \<Rightarrow> (addr option \<times> element_tree) run" where
  "instantiateTableRow t tableNode instNum al =
     (case tableNode of
        None \<Rightarrow> Some (None, t)
      | Some a \<Rightarrow>
          do { root \<leftarrow> eroot t;
               table \<leftarrow> node_of a root;
               template \<leftarrow> find (\<lambda>c. nname c = ''{i}'') (echildren table);
               (row, nx) \<leftarrow> duplicateNode (efullName (einfo table)) template (take 31 (decimal (unat instNum))) (enext t);
               let row = (if al = None then row else upd_info (\<lambda>i. i\<lparr>ealias := al\<rparr>) row);
               Some (Some (eaddr row),
                     t\<lparr>eroot := Some (upd_node a (with_children (echildren table @ [row])) root), enext := nx\<rparr>) })"

text \<open>Freeing a node; an object that lost its last child this way is noted for pruning.\<close>

definition freeElementNode :: "addr \<Rightarrow> element_tree \<Rightarrow> element_tree run" where
  "freeElementNode a t =
     do { root \<leftarrow> eroot t;
          case rev (chain_to a root) of
            [] \<Rightarrow> None
          | [node] \<Rightarrow> Some (t\<lparr>eroot := None\<rparr>)
          | [node, parent] \<Rightarrow> Some (t\<lparr>eroot := Some (unlink_node a root)\<rparr>)
          | node # parent # grand # _ \<Rightarrow>
              Some (t\<lparr>eroot := Some (unlink_node a root),
                      pruneNode := (if echildren parent = [node] \<and> ntype grand \<noteq> RBUS_ELEMENT_TYPE_TABLE
                                    then eaddr parent # pruneNode t else pruneNode t)\<rparr>) }"

definition deleteTableRow :: "element_tree \<Rightarrow> addr option \<Rightarrow> element_tree run" where
  "deleteTableRow t rowNode = (case rowNode of None \<Rightarrow> Some t | Some a \<Rightarrow> freeElementNode a t)"

end
