(* ===== verification/RB_ElementTree.thy ===== *)
theory RB_ElementTree
  imports RB_Element
begin

text \<open>
  The element tree keeps its shape: addresses stay distinct, and every row of every table is a copy
  of the row template of that table in names, types, handlers and order, but for the rows that
  tables inside it have of their own.
\<close>

declare decimal.simps [simp del]

lemma node_simps [simp]:
  "eaddr (with_children ks n) = eaddr n" "einfo (with_children ks n) = einfo n"
  "echildren (with_children ks n) = ks" "eaddr (upd_info f n) = eaddr n"
  "einfo (upd_info f n) = f (einfo n)" "echildren (upd_info f n) = echildren n"
  "eaddr (new_child a full tok) = a" "nname (new_child a full tok) = tok"
  "ntype (new_child a full tok) = RBUS_ELEMENT_TYPE_OBJECT" "echildren (new_child a full tok) = []"
  "efullName (einfo (new_child a full tok)) = Some full"
  by (simp_all add: with_children_def upd_info_def new_child_def getEmptyElementNode_def)

section \<open>Addresses\<close>

fun addrs :: "elementNode \<Rightarrow> addr list" where
  "addrs (Element a i ks) = a # concat (map addrs ks)"

abbreviation addrs_all :: "elementNode list \<Rightarrow> addr list" where
  "addrs_all ks \<equiv> concat (map addrs ks)"

lemma addrs_eq: "addrs n = eaddr n # addrs_all (echildren n)"
  by (cases n) simp

lemma eaddr_in_addrs [simp, intro]: "eaddr n \<in> set (addrs n)"
  by (cases n) simp

text \<open>From \<open>as\<close> an operation that takes addresses from \<open>nx\<close> up to \<open>nx'\<close> leads to \<open>bs\<close>.\<close>

definition renewed :: "addr list \<Rightarrow> addr \<Rightarrow> addr list \<Rightarrow> addr \<Rightarrow> bool" where
  "renewed as nx bs nx' \<longleftrightarrow> nx \<le> nx' \<and> set bs \<subseteq> set as \<union> {nx..<nx'} \<and>
     (distinct as \<longrightarrow> (\<forall>a\<in>set as. a < nx) \<longrightarrow> distinct bs)"

lemma renewed_refl [simp, intro]: "renewed as nx as nx"
  by (simp add: renewed_def)

lemma renewed_trans: "renewed as nx bs nx1 \<Longrightarrow> renewed bs nx1 cs nx2 \<Longrightarrow> renewed as nx cs nx2"
  unfolding renewed_def by fastforce

lemma renewed_inside: "renewed as nx bs nx' \<Longrightarrow> renewed (ps @ as @ qs) nx (ps @ bs @ qs) nx'"
  unfolding renewed_def distinct_append set_append ball_Un by (auto simp: disjoint_iff subset_iff) (meson leD)+

lemma renewed_append:
  assumes "renewed as nx bs nx1" "renewed cs nx1 ds nx2"
  shows "renewed (as @ cs) nx (bs @ ds) nx2"
  using renewed_trans [of "as @ cs" nx "bs @ cs" nx1 "bs @ ds" nx2]
    renewed_inside [OF assms(1), of "[]" cs] renewed_inside [OF assms(2), of bs "[]"] by simp

lemma renewed_below: "renewed as nx bs nx' \<Longrightarrow> \<forall>a\<in>set as. a < nx \<Longrightarrow> \<forall>b\<in>set bs. b < nx'"
  unfolding renewed_def by fastforce

lemma renewed_distinct: "renewed as nx bs nx' \<Longrightarrow> distinct as \<Longrightarrow> \<forall>a\<in>set as. a < nx \<Longrightarrow> distinct bs"
  unfolding renewed_def by blast

lemma renewed_new: "renewed [] (nx + 1) bs nx' \<Longrightarrow> renewed [] nx (nx # bs) nx'"
  unfolding renewed_def by fastforce

section \<open>Names\<close>

text \<open>Every node but the root has a full name.\<close>

fun named :: "elementNode \<Rightarrow> bool" where
  "named (Element a i ks) \<longleftrightarrow> efullName i \<noteq> None \<and> (\<forall>k\<in>set ks. named k)"

lemma named_iff: "named n \<longleftrightarrow> efullName (einfo n) \<noteq> None \<and> (\<forall>k\<in>set (echildren n). named k)"
  by (cases n) simp

lemma named_new_child [simp]: "named (new_child a full tok)"
  by (subst named_iff) simp

lemma named_with_children [simp]:
  "named (with_children ks n) \<longleftrightarrow> efullName (einfo n) \<noteq> None \<and> (\<forall>k\<in>set ks. named k)"
  by (subst named_iff) simp

lemma join_name_Some [simp]: "join_name (Some s) tok \<noteq> None" "join_name None tok = None"
  by (simp_all add: join_name_def)

section \<open>Copies\<close>

fun mirror :: "elementNode \<Rightarrow> elementNode \<Rightarrow> bool" where
  "mirror (Element a i ks) n \<longleftrightarrow>
     etype i = ntype n \<and> cbTable i = cbTable (einfo n) \<and>
     (if etype i = RBUS_ELEMENT_TYPE_TABLE
      then (case ks of
              [m] \<Rightarrow> nname m = ''{i}'' \<and> echildren n \<noteq> [] \<and> nname (hd (echildren n)) = ''{i}'' \<and>
                     (\<forall>l\<in>set (echildren n). mirror m l)
            | _ \<Rightarrow> False)
      else list_all2 (\<lambda>x y. nname x = nname y \<and> mirror x y) ks (echildren n))"

lemma mirror_iff:
  "mirror m n \<longleftrightarrow> ntype m = ntype n \<and> cbTable (einfo m) = cbTable (einfo n) \<and>
     (if ntype m = RBUS_ELEMENT_TYPE_TABLE
      then \<exists>c. echildren m = [c] \<and> nname c = ''{i}'' \<and> echildren n \<noteq> [] \<and> nname (hd (echildren n)) = ''{i}'' \<and>
               (\<forall>l\<in>set (echildren n). mirror c l)
      else list_all2 (\<lambda>x y. nname x = nname y \<and> mirror x y) (echildren m) (echildren n))"
  by (cases m) (auto split: list.split)

lemma mirror_cong:
  "ntype n = ntype n' \<Longrightarrow> cbTable (einfo n) = cbTable (einfo n') \<Longrightarrow> echildren n = echildren n' \<Longrightarrow>
   mirror m n = mirror m n'"
  by (subst (1 2) mirror_iff) simp

lemma mirror_childrenI:
  assumes "mirror m n" "ntype n' = ntype n" "cbTable (einfo n') = cbTable (einfo n)"
    "list_all2 (\<lambda>k d. nname d = nname k \<and> (\<forall>m. mirror m k \<longrightarrow> mirror m d)) (echildren n) (echildren n')"
  shows "mirror m n'"
proof (cases "ntype m = RBUS_ELEMENT_TYPE_TABLE")
  case True
  then obtain c where c: "echildren m = [c]" "nname c = ''{i}''" "echildren n \<noteq> []"
    "nname (hd (echildren n)) = ''{i}''" "\<forall>l\<in>set (echildren n). mirror c l"
    using assms(1) by (subst (asm) mirror_iff) auto
  then obtain k ks d ds where "echildren n = k # ks" "echildren n' = d # ds"
    using assms(4) by (cases "echildren n"; cases "echildren n'") auto
  moreover have "\<forall>d\<in>set (echildren n'). mirror c d"
    using assms(4) c(5) by (auto simp: list_all2_conv_all_nth all_set_conv_all_nth)
  ultimately show ?thesis using True c assms by (subst mirror_iff) (auto simp: mirror_iff [of m n])
next
  case False
  have "list_all2 (\<lambda>x y. nname x = nname y \<and> mirror x y) (echildren m) (echildren n)"
    using assms(1) False by (subst (asm) mirror_iff) simp
  then have "list_all2 (\<lambda>x y. nname x = nname y \<and> mirror x y) (echildren m) (echildren n')"
    using assms(4) by (rule list_all2_trans [rotated]) auto
  then show ?thesis using False assms(1-3) by (subst mirror_iff) (auto simp: mirror_iff [of m n])
qed

lemma duplicate_ok:
  "pn \<noteq> None \<Longrightarrow> \<exists>d nx'. duplicateNode pn n name nx = Some (d, nx') \<and> eaddr d = nx \<and> nname d = name \<and>
     named d \<and> renewed [] nx (addrs d) nx' \<and> (\<forall>m. mirror m n \<longrightarrow> mirror m d)"
  "pn \<noteq> None \<Longrightarrow> \<exists>ds nx'. duplicateChildren pn ks nx = Some (ds, nx') \<and> (\<forall>d\<in>set ds. named d) \<and>
     renewed [] nx (addrs_all ds) nx' \<and>
     list_all2 (\<lambda>k d. nname d = nname k \<and> (\<forall>m. mirror m k \<longrightarrow> mirror m d)) ks ds"
proof (induction pn n name nx and pn ks nx rule: duplicateNode_duplicateChildren.induct)
  case (1 pn a i ks name nx)
  then obtain full where full: "join_name pn name = Some full" by (cases pn) (auto simp: join_name_def)
  obtain ds nx' where ds: "duplicateChildren (Some full) ks (nx + 1) = Some (ds, nx')" "\<forall>d\<in>set ds. named d"
    "renewed [] (nx + 1) (addrs_all ds) nx'"
    "list_all2 (\<lambda>k d. nname d = nname k \<and> (\<forall>m. mirror m k \<longrightarrow> mirror m d)) ks ds"
    using 1(1) [OF full] by auto
  then show ?case using full
    by (auto intro!: renewed_new elim!: mirror_childrenI)
next
  case (2 pn nx)
  then show ?case by simp
next
  case (3 pn k ks nx)
  obtain d nx1 where d: "duplicateNode pn k (nname k) nx = Some (d, nx1)" "nname d = nname k" "named d"
    "renewed [] nx (addrs d) nx1" "\<forall>m. mirror m k \<longrightarrow> mirror m d" using 3 by blast
  obtain ds nx2 where ds: "duplicateChildren pn ks nx1 = Some (ds, nx2)" "\<forall>d\<in>set ds. named d"
    "renewed [] nx1 (addrs_all ds) nx2"
    "list_all2 (\<lambda>k d. nname d = nname k \<and> (\<forall>m. mirror m k \<longrightarrow> mirror m d)) ks ds" using 3 d(1) by blast
  have "renewed [] nx (addrs d @ addrs_all ds) nx2"
    using renewed_append [OF d(4) ds(3)] by simp
  then show ?case using d ds by simp
qed

section \<open>The walk of a registration\<close>

fun walk_nodes :: "string list \<Rightarrow> elementNode \<Rightarrow> elementNode list" where
  "walk_nodes [] n = []"
| "walk_nodes (tok # toks) n =
     (case find (\<lambda>c. nname c = tok) (echildren n) of None \<Rightarrow> [] | Some c \<Rightarrow> c # walk_nodes toks c)"

text \<open>
  The name of a registration that is new: it enters tables through their row template and leads to a
  node that does not exist.
\<close>

fun new_path :: "string list \<Rightarrow> elementNode \<Rightarrow> bool" where
  "new_path [] n = False"
| "new_path (tok # toks) n \<longleftrightarrow>
     (case find (\<lambda>c. nname c = tok) (echildren n) of
        None \<Rightarrow> ntype n \<noteq> RBUS_ELEMENT_TYPE_TABLE
      | Some c \<Rightarrow> (ntype n = RBUS_ELEMENT_TYPE_TABLE \<longrightarrow> tok = ''{i}'') \<and> new_path toks c)"

lemma singleton_middle: "pre @ c # post = [d] \<longleftrightarrow> pre = [] \<and> post = [] \<and> c = d"
  by (auto simp: append_eq_Cons_conv)

lemma find_extract: "find P xs = map_option (\<lambda>(pre, x, post). x) (List.extract P xs)"
  by (induction xs) (auto simp: extract_Cons_code extract_Nil_code split: option.splits)

lemma find_middle [simp]:
  "\<forall>x\<in>set pre. \<not> P x \<Longrightarrow> find P (pre @ x # post) = (if P x then Some x else find P post)"
  by (induction pre) auto

lemma extract_SomeD:
  "List.extract P xs = Some (pre, x, post) \<Longrightarrow> xs = pre @ x # post \<and> P x \<and> (\<forall>y\<in>set pre. \<not> P y)"
  by (auto simp: extract_Some_iff)

lemma extract_NoneD: "List.extract P xs = None \<Longrightarrow> x \<in> set xs \<Longrightarrow> \<not> P x"
  by (simp add: extract_None_iff)

lemma find_append: "find P (xs @ ys) = (case find P xs of None \<Rightarrow> find P ys | Some x \<Rightarrow> Some x)"
  by (induction xs) auto

lemma find_append_None: "\<forall>x\<in>set xs. \<not> P x \<Longrightarrow> find P (xs @ ys) = find P ys"
  by (induction xs) auto

lemma addrs_new_child [simp]: "addrs (new_child a full tok) = [a]"
  by (simp add: addrs_eq)

lemma addrs_with_children [simp]: "addrs (with_children ks n) = eaddr n # addrs_all ks"
  by (simp add: addrs_eq)

lemma set_element_ok:
  assumes "efullName (einfo cur) \<noteq> None" "\<forall>k\<in>set (echildren cur). named k"
  shows "\<exists>n nx'. set_element e nx cur = Some (n, nx') \<and> eaddr n = eaddr cur \<and> nname n = nname cur \<and>
    efullName (einfo n) = efullName (einfo cur) \<and> ntype n = el_type e \<and> (\<forall>k\<in>set (echildren n). named k) \<and>
    renewed (addrs cur) nx (addrs n) nx'"
proof (cases "el_type e = RBUS_ELEMENT_TYPE_TABLE")
  case True
  obtain full where full: "join_name (efullName (einfo cur)) ''{i}'' = Some full"
    using assms(1) by (auto simp: join_name_def)
  then show ?thesis using True by (auto simp: set_element_def Let_def addrs_eq [of cur] renewed_def)
qed (use assms in \<open>auto simp: set_element_def Let_def addrs_eq [of cur]\<close>)

lemma new_fullName_ok: "isroot \<or> efullName (einfo cur) \<noteq> None \<Longrightarrow> \<exists>full. new_fullName isroot cur tok = Some full"
  by (auto simp: new_fullName_def join_name_def split: option.split)

lemma insert_walk_ok:
  assumes "isroot \<or> efullName (einfo cur) \<noteq> None" "toks \<noteq> [] \<or> efullName (einfo cur) \<noteq> None"
    "\<forall>k\<in>set (echildren cur). named k"
  shows "\<exists>n nx' a. insert_walk e isroot toks cur nx = Some (n, nx', a) \<and> eaddr n = eaddr cur \<and>
    nname n = nname cur \<and> (toks \<noteq> [] \<longrightarrow> einfo n = einfo cur) \<and>
    efullName (einfo n) = efullName (einfo cur) \<and> (\<forall>k\<in>set (echildren n). named k) \<and>
    renewed (addrs cur) nx (addrs n) nx' \<and>
    length (walk_nodes toks n) = length toks \<and> eaddr (last (n # walk_nodes toks n)) = a \<and>
    ntype (last (n # walk_nodes toks n)) = el_type e"
  using assms
proof (induction toks arbitrary: cur nx isroot)
  case Nil
  then show ?case using set_element_ok [of cur e nx] by auto
next
  case (Cons tok toks)
  show ?case
  proof (cases "List.extract (\<lambda>c. nname c = tok) (echildren cur)")
    case None
    obtain full where full: "new_fullName isroot cur tok = Some full" using new_fullName_ok Cons.prems by blast
    obtain c nx' a where c: "insert_walk e False toks (new_child nx full tok) (nx + 1) = Some (c, nx', a)"
      "nname c = tok" "efullName (einfo c) \<noteq> None" "\<forall>k\<in>set (echildren c). named k"
      "renewed [nx] (nx + 1) (addrs c) nx'" "length (walk_nodes toks c) = length toks"
      "eaddr (last (c # walk_nodes toks c)) = a" "ntype (last (c # walk_nodes toks c)) = el_type e"
      using Cons.IH [of False "new_child nx full tok" "nx + 1"] by auto
    have *: "\<forall>x\<in>set (echildren cur). \<not> nname x = tok" using extract_NoneD [OF None] by blast
    have "renewed [] nx [nx] (nx + 1)" by (simp add: renewed_def)
    then have "renewed [] nx (addrs c) nx'" using renewed_trans c(5) by blast
    then have "renewed (addrs cur) nx (addrs (with_children (echildren cur @ [c]) cur)) nx'"
      using renewed_inside [of "[]" nx "addrs c" nx' "addrs cur" "[]"] addrs_eq [of cur] by simp
    moreover have "named c" using c(3,4) named_iff by blast
    moreover have "find (\<lambda>c. nname c = tok) (echildren cur @ [c]) = Some c"
      using find_append_None [OF *] c(2) by simp
    moreover have "insert_walk e isroot (tok # toks) cur nx = Some (with_children (echildren cur @ [c]) cur, nx', a)"
      using None full c(1) by simp
    ultimately show ?thesis using c(6-8) Cons.prems(3)
      by (simp del: insert_walk.simps)
  next
    case (Some x)
    obtain pre c0 post where x: "x = (pre, c0, post)" by (cases x)
    have e: "echildren cur = pre @ c0 # post" "nname c0 = tok" "\<forall>y\<in>set pre. nname y \<noteq> tok"
      using extract_SomeD [OF Some [unfolded x]] by auto
    have "named c0" using Cons.prems(3) e(1) by simp
    then obtain c nx' a where c: "insert_walk e False toks c0 nx = Some (c, nx', a)"
      "nname c = tok" "efullName (einfo c) \<noteq> None" "\<forall>k\<in>set (echildren c). named k"
      "renewed (addrs c0) nx (addrs c) nx'" "length (walk_nodes toks c) = length toks"
      "eaddr (last (c # walk_nodes toks c)) = a" "ntype (last (c # walk_nodes toks c)) = el_type e"
      using Cons.IH [of False c0 nx] named_iff [of c0] e(2) by auto
    have "renewed (addrs cur) nx (addrs (with_children (pre @ c # post) cur)) nx'"
      using renewed_inside [OF c(5), of "eaddr cur # addrs_all pre" "addrs_all post"]
      by (simp add: addrs_eq [of cur] e(1))
    moreover have "named c" using c(3,4) named_iff by blast
    moreover have "find (\<lambda>c. nname c = tok) (pre @ c # post) = Some c" using e(3) c(2) by simp
    moreover have "insert_walk e isroot (tok # toks) cur nx = Some (with_children (pre @ c # post) cur, nx', a)"
      using Some x c(1) by simp
    ultimately show ?thesis using c(6-8) Cons.prems(3) e(1) by (simp del: insert_walk.simps)
  qed
qed

section \<open>Templates and rows\<close>

abbreviation twins :: "elementNode \<Rightarrow> elementNode \<Rightarrow> bool" where
  "twins x y \<equiv> nname x = nname y \<and> mirror x y"

lemma twins_other_names:
  "list_all2 twins xs ys \<Longrightarrow> \<forall>x\<in>set xs. nname x \<noteq> t \<Longrightarrow> \<forall>y\<in>set ys. nname y \<noteq> t"
  by (induction xs ys rule: list_all2_induct) auto

lemma mirror_typeD: "mirror m n \<Longrightarrow> ntype m = ntype n"
  by (subst (asm) mirror_iff) simp

lemma mirror_tableE:
  assumes "mirror m n" "ntype m = RBUS_ELEMENT_TYPE_TABLE"
  obtains c l ls where "echildren m = [c]" "nname c = ''{i}''" "echildren n = l # ls" "nname l = ''{i}''"
    "\<forall>x\<in>set (l # ls). mirror c x"
proof -
  obtain c where "echildren m = [c] \<and> nname c = ''{i}'' \<and> echildren n \<noteq> [] \<and> nname (hd (echildren n)) = ''{i}'' \<and>
      (\<forall>l\<in>set (echildren n). mirror c l)"
    using assms by (subst (asm) mirror_iff) auto
  then show thesis using that by (cases "echildren n") auto
qed

lemma mirror_objectD: "mirror m n \<Longrightarrow> ntype m \<noteq> RBUS_ELEMENT_TYPE_TABLE \<Longrightarrow> list_all2 twins (echildren m) (echildren n)"
  by (subst (asm) mirror_iff) simp

lemma mirror_objectI:
  "mirror m n \<Longrightarrow> ntype m \<noteq> RBUS_ELEMENT_TYPE_TABLE \<Longrightarrow> einfo m' = einfo m \<Longrightarrow> einfo n' = einfo n \<Longrightarrow>
   list_all2 twins (echildren m') (echildren n') \<Longrightarrow> mirror m' n'"
  using mirror_iff [of m n] by (subst mirror_iff) simp

lemma mirror_tableI:
  "mirror m n \<Longrightarrow> ntype m = RBUS_ELEMENT_TYPE_TABLE \<Longrightarrow> einfo m' = einfo m \<Longrightarrow> einfo n' = einfo n \<Longrightarrow>
   echildren m' = [c] \<Longrightarrow> nname c = ''{i}'' \<Longrightarrow> echildren n' = l # ls \<Longrightarrow> nname l = ''{i}'' \<Longrightarrow>
   \<forall>x\<in>set (l # ls). mirror c x \<Longrightarrow> mirror m' n'"
  using mirror_iff [of m n] by (subst mirror_iff) simp

lemma mirror_new_child [simp]: "mirror (new_child a full tok) (new_child b full' tok')"
  by (subst mirror_iff) (simp add: new_child_def upd_info_def getEmptyElementNode_def)

lemma new_mirror:
  "insert_walk e b toks cur nx = Some (n, nx', a) \<Longrightarrow> echildren cur = [] \<Longrightarrow>
   ntype cur = RBUS_ELEMENT_TYPE_OBJECT \<Longrightarrow> mirror n n"
proof (induction toks arbitrary: cur nx n nx' a b)
  case Nil
  then show ?case
    by (subst mirror_iff) (auto simp: set_element_def Let_def Option.bind_eq_Some_conv split: if_splits)
next
  case (Cons tok toks)
  then obtain full c where "insert_walk e False toks (new_child nx full tok) (nx + 1) = Some (c, nx', a)"
    "n = with_children [c] cur"
    by (auto simp: extract_Nil_code Option.bind_eq_Some_conv)
  then show ?case using Cons.IH [of False "new_child nx full tok" "nx + 1" c nx' a] Cons.prems(3)
    by (subst mirror_iff) simp
qed

text \<open>One step of the walk in a template.\<close>

lemma insert_step:
  assumes "insert_walk e b (tok # toks) m nx = Some (m', nx', a)"
  obtains (old) pre c post c' where "echildren m = pre @ c # post" "nname c = tok" "\<forall>y\<in>set pre. nname y \<noteq> tok"
      "insert_walk e False toks c nx = Some (c', nx', a)" "m' = with_children (pre @ c' # post) m"
      "find (\<lambda>c. nname c = tok) (echildren m) = Some c"
  | (new) full c' where "\<forall>y\<in>set (echildren m). nname y \<noteq> tok" "mirror c' c'"
      "insert_walk e False toks (new_child nx full tok) (nx + 1) = Some (c', nx', a)"
      "m' = with_children (echildren m @ [c']) m" "find (\<lambda>c. nname c = tok) (echildren m) = None"
proof (cases "List.extract (\<lambda>c. nname c = tok) (echildren m)")
  case None
  moreover obtain full c' where "insert_walk e False toks (new_child nx full tok) (nx + 1) = Some (c', nx', a)"
    "m' = with_children (echildren m @ [c']) m"
    using assms None by (auto simp: Option.bind_eq_Some_conv)
  ultimately show thesis using new [of c' full] new_mirror [of e False toks "new_child nx full tok" "nx + 1"]
    by (simp add: find_extract extract_None_iff)
next
  case (Some x)
  obtain pre c post where x: "x = (pre, c, post)" by (cases x)
  have "echildren m = pre @ c # post" "nname c = tok" "\<forall>y\<in>set pre. nname y \<noteq> tok"
    using extract_SomeD [OF Some [unfolded x]] by auto
  moreover obtain c' where "insert_walk e False toks c nx = Some (c', nx', a)" "m' = with_children (pre @ c' # post) m"
    using assms Some x by (auto simp: Option.bind_eq_Some_conv)
  ultimately show thesis using old [of pre c post c'] by simp
qed

lemma insert_name:
  assumes "insert_walk e b toks m nx = Some (m', nx', a)"
  shows "nname m' = nname m"
proof (cases toks)
  case Nil
  then show ?thesis using assms
    by (auto simp: set_element_def Let_def Option.bind_eq_Some_conv split: if_splits)
next
  case (Cons tok toks')
  from assms [unfolded Cons] show ?thesis by (cases rule: insert_step) simp_all
qed

lemma insert_mirror_self:
  "insert_walk e b toks m nx = Some (m', nx', a) \<Longrightarrow> mirror m m \<Longrightarrow> new_path toks m \<Longrightarrow> mirror m' m'"
proof (induction toks arbitrary: m nx m' nx' a b)
  case (Cons tok toks)
  from Cons.prems(1) show ?case
  proof (cases rule: insert_step)
    case (old pre c post c')
    have "nname c' = tok" using insert_name old(2,4) by simp
    show ?thesis
    proof (cases "ntype m = RBUS_ELEMENT_TYPE_TABLE")
      case True
      obtain d where "echildren m = [d]" "nname d = ''{i}''" "mirror d d"
        using Cons.prems(2) True by (rule mirror_tableE) auto
      then have d: "pre = []" "post = []" "c = d" using old(1) by (auto simp: singleton_middle)
      then show ?thesis using Cons.IH [OF old(4)] Cons.prems True old \<open>mirror d d\<close> \<open>nname d = _\<close> \<open>nname c' = _\<close>
        by (intro mirror_tableI [OF Cons.prems(2) True, of m' m' c' c' "[]"]) auto
    next
      case False
      have l: "list_all2 twins (pre @ c # post) (pre @ c # post)"
        using mirror_objectD [OF Cons.prems(2) False] old(1) by simp
      then have "mirror c' c'" using Cons.IH [OF old(4)] Cons.prems(3) old by (auto simp: list_all2_append)
      then show ?thesis using l old by (intro mirror_objectI [OF Cons.prems(2) False]) (auto simp: list_all2_append)
    qed
  next
    case (new full c')
    then have "ntype m \<noteq> RBUS_ELEMENT_TYPE_TABLE" using Cons.prems(3) by simp
    then show ?thesis using mirror_objectD [OF Cons.prems(2)] new
      by (intro mirror_objectI [OF Cons.prems(2)]) (auto simp: list_all2_append)
  qed
qed simp

lemma replicateRows_ok:
  assumes "\<And>l y. l \<in> set ls \<Longrightarrow> \<exists>l' y'. replicateInternal ss l y = Some (l', y') \<and> Q l l' \<and> renewed (addrs l) y (addrs l') y'"
  shows "\<exists>ls' y'. replicateRows ss ls y = Some (ls', y') \<and> list_all2 Q ls ls' \<and> renewed (addrs_all ls) y (addrs_all ls') y'"
  using assms
proof (induction ls arbitrary: y)
  case (Cons l ls)
  obtain l' y1 where l: "replicateInternal ss l y = Some (l', y1)" "Q l l'" "renewed (addrs l) y (addrs l') y1"
    using Cons.prems [of l y] by auto
  obtain ls' y2 where ls: "replicateRows ss ls y1 = Some (ls', y2)" "list_all2 Q ls ls'"
    "renewed (addrs_all ls) y1 (addrs_all ls') y2"
    using Cons.IH [of y1] Cons.prems by auto
  have "renewed (addrs_all (l # ls)) y (addrs_all (l' # ls')) y2"
    using renewed_append [OF l(3) ls(3)] by simp
  then show ?case using l ls by simp
qed simp

text \<open>What is registered below a template reaches every node that mirrors the template.\<close>

lemma replicate_mirror:
  "insert_walk e b toks m nx = Some (m', nx', a) \<Longrightarrow> new_path toks m \<Longrightarrow> mirror m k \<Longrightarrow> named k \<Longrightarrow>
   \<exists>k' y'. replicateInternal (walk_nodes toks m') k y = Some (k', y') \<and>
     (einfo k' = einfo k \<and> mirror m' k' \<and> named k') \<and> renewed (addrs k) y (addrs k') y'"
proof (induction toks arbitrary: m nx m' nx' a b k y)
  case (Cons tok toks)
  from Cons.prems(1) show ?case
  proof (cases rule: insert_step)
    case (old pre c post c')
    have c': "nname c' = tok" using insert_name old(2,4) by simp
    have w: "walk_nodes (tok # toks) m' = c' # walk_nodes toks c'" using old c' by simp
    have p: "new_path toks c" using Cons.prems(2) old by simp
    show ?thesis
    proof (cases "ntype m = RBUS_ELEMENT_TYPE_TABLE")
      case True
      obtain d l ls where d: "echildren m = [d]" "nname d = ''{i}''" "echildren k = l # ls" "nname l = ''{i}''"
        "\<forall>x\<in>set (l # ls). mirror d x"
        using Cons.prems(3) True by (rule mirror_tableE)
      have e: "pre = []" "post = []" "c = d" using old(1) d(1) singleton_middle [of pre c post d] by simp_all
      have n: "\<forall>x\<in>set (l # ls). named x" "efullName (einfo k) \<noteq> None" using Cons.prems(4) d(3) named_iff [of k] by auto
      obtain ls' y' where ls': "replicateRows (walk_nodes toks c') (l # ls) y = Some (ls', y')"
        "list_all2 (\<lambda>l l'. einfo l' = einfo l \<and> mirror c' l' \<and> named l') (l # ls) ls'"
        "renewed (addrs_all (l # ls)) y (addrs_all ls') y'"
        using replicateRows_ok [of "l # ls" "walk_nodes toks c'" "\<lambda>l l'. einfo l' = einfo l \<and> mirror c' l' \<and> named l'" y]
          Cons.IH [OF old(4) p] d(5) n(1) e(3) by blast
      obtain l1 ls1 where l1: "ls' = l1 # ls1" "einfo l1 = einfo l" using ls'(2) by (cases ls') auto
      have "\<forall>x\<in>set ls'. mirror c' x \<and> named x" using ls'(2) by (auto simp: list_all2_conv_all_nth in_set_conv_nth)
      then have "mirror m' (with_children ls' k)" "named (with_children ls' k)"
        using mirror_tableI [OF Cons.prems(3) True, of m' "with_children ls' k" c' l1 ls1] old(5) e d(2,4) c' l1 old(2) n(2)
        by auto
      moreover have "renewed (addrs k) y (addrs (with_children ls' k)) y'"
        using renewed_inside [OF ls'(3), of "[eaddr k]" "[]"] by (simp add: addrs_eq [of k] d(3))
      moreover have "replicateInternal (walk_nodes (tok # toks) m') k y = Some (with_children ls' k, y')"
        using w ls'(1) True mirror_typeD [OF Cons.prems(3)] d(3) by simp
      ultimately show ?thesis by simp
    next
      case False
      obtain pre' k0 post' where k0: "echildren k = pre' @ k0 # post'" "list_all2 twins pre pre'" "twins c k0"
        "list_all2 twins post post'"
        using mirror_objectD [OF Cons.prems(3) False] unfolding old(1) by (auto simp: list_all2_append1 list_all2_Cons1)
      have pre': "\<forall>y\<in>set pre'. nname y \<noteq> tok"
        using twins_other_names [OF k0(2) old(3)] .
      have n: "named k0" "efullName (einfo k) \<noteq> None" "\<forall>x\<in>set pre' \<union> set post'. named x"
        using Cons.prems(4) k0(1) named_iff [of k] by auto
      obtain k1 y' where k1: "replicateInternal (walk_nodes toks c') k0 y = Some (k1, y')" "einfo k1 = einfo k0"
        "mirror c' k1" "named k1" "renewed (addrs k0) y (addrs k1) y'"
        using Cons.IH [OF old(4) p] k0(3) n(1) by blast
      have "mirror m' (with_children (pre' @ k1 # post') k)"
        using k0 k1 old c' by (intro mirror_objectI [OF Cons.prems(3) False]) (auto simp: list_all2_appendI)
      moreover have "named (with_children (pre' @ k1 # post') k)" using n k1(4) by auto
      moreover have "renewed (addrs k) y (addrs (with_children (pre' @ k1 # post') k)) y'"
        using renewed_inside [OF k1(5), of "eaddr k # addrs_all pre'" "addrs_all post'"] by (simp add: addrs_eq [of k] k0(1))
      moreover have "List.extract (\<lambda>c. nname c = nname c') (echildren k) = Some (pre', k0, post')"
        using k0 pre' old(2) c' by (simp add: extract_Some_iff)
      ultimately show ?thesis using w k1 False mirror_typeD [OF Cons.prems(3)] by simp
    qed
  next
    case (new full c')
    have f: "ntype m \<noteq> RBUS_ELEMENT_TYPE_TABLE" using Cons.prems(2) new by simp
    have c': "nname c' = tok" using insert_name new(3) by simp
    have w: "walk_nodes (tok # toks) m' = c' # walk_nodes toks c'"
      using new c' find_append_None [OF new(1), of "[c']"] by simp
    have l: "list_all2 twins (echildren m) (echildren k)" using mirror_objectD [OF Cons.prems(3) f] .
    have k: "\<forall>y\<in>set (echildren k). nname y \<noteq> tok" using twins_other_names [OF l new(1)] .
    have n: "efullName (einfo k) \<noteq> None" "\<forall>x\<in>set (echildren k). named x" using Cons.prems(4) named_iff [of k] by auto
    obtain d y' where d: "duplicateNode (efullName (einfo k)) c' (nname c') y = Some (d, y')" "nname d = nname c'"
      "named d" "renewed [] y (addrs d) y'" "mirror c' d"
      using duplicate_ok(1) [OF n(1), of c' "nname c'" y] new(2) by blast
    have "mirror m' (with_children (echildren k @ [d]) k)"
      using l d new by (intro mirror_objectI [OF Cons.prems(3) f]) (auto simp: list_all2_appendI)
    moreover have "named (with_children (echildren k @ [d]) k)" using n d(3) by auto
    moreover have "renewed (addrs k) y (addrs (with_children (echildren k @ [d]) k)) y'"
      using renewed_inside [OF d(4), of "addrs k" "[]"] by (simp add: addrs_eq [of k])
    moreover have "List.extract (\<lambda>c. nname c = nname c') (echildren k) = None"
      using k c' by (simp add: extract_None_iff)
    ultimately show ?thesis using w d(1) f mirror_typeD [OF Cons.prems(3)] by simp
  qed
qed simp

section \<open>Chains of ancestors\<close>

lemma chain_to_outside:
  "a \<notin> set (addrs n) \<Longrightarrow> chain_to a n = []" "a \<notin> set (addrs_all ks) \<Longrightarrow> chain_among a ks = []"
  by (induction a n and a ks rule: chain_to_chain_among.induct) auto

lemma chain_to_inside:
  "a \<in> set (addrs n) \<Longrightarrow> chain_to a n \<noteq> []" "a \<in> set (addrs_all ks) \<Longrightarrow> chain_among a ks \<noteq> []"
  by (induction a n and a ks rule: chain_to_chain_among.induct) (auto split: list.splits)

lemma chain_among_middle:
  "a \<notin> set (addrs_all pre) \<Longrightarrow> a \<in> set (addrs c) \<Longrightarrow> chain_among a (pre @ c # post) = chain_to a c"
  by (induction pre) (use chain_to_inside(1) [of a c] in \<open>auto simp: chain_to_outside split: list.split\<close>)

lemma chain_to_child:
  assumes "distinct (addrs n)" "echildren n = pre @ c # post" "a \<in> set (addrs c)"
  shows "chain_to a n = n # chain_to a c"
proof (cases n)
  case (Element b i ks)
  then have "a \<noteq> b" "a \<notin> set (addrs_all pre)" using assms by auto
  then show ?thesis using Element assms chain_among_middle [of a pre c post] chain_to_inside(1) [OF assms(3)]
    by (cases "chain_to a c") auto
qed

lemma chain_to_self [simp]: "chain_to (eaddr n) n = [n]"
  by (cases n) simp

lemma walk_last_addr: "eaddr (last (n # walk_nodes toks n)) \<in> set (addrs n)"
proof (induction toks arbitrary: n)
  case (Cons tok toks)
  show ?case
  proof (cases "find (\<lambda>c. nname c = tok) (echildren n)")
    case (Some c)
    then have "set (addrs c) \<subseteq> set (addrs n)" by (auto simp: find_Some_iff addrs_eq [of n])
    then show ?thesis using Some Cons.IH [of c] by auto
  qed simp
qed simp

lemma chain_walk:
  "distinct (addrs n) \<Longrightarrow> length (walk_nodes toks n) = length toks \<Longrightarrow>
   chain_to (eaddr (last (n # walk_nodes toks n))) n = n # walk_nodes toks n"
proof (induction toks arbitrary: n)
  case (Cons tok toks)
  then obtain c where c: "find (\<lambda>c. nname c = tok) (echildren n) = Some c" by (auto split: option.splits)
  then obtain x where "List.extract (\<lambda>c. nname c = tok) (echildren n) = Some x" "c = fst (snd x)"
    by (auto simp: find_extract split: prod.splits)
  then obtain pre post where e: "echildren n = pre @ c # post"
    using extract_SomeD by (metis prod.collapse)
  have "distinct (addrs c)" using Cons.prems(1) e by (simp add: addrs_eq [of n])
  then show ?case using Cons.IH [of c] Cons.prems c chain_to_child [OF Cons.prems(1) e walk_last_addr] by simp
qed simp

lemma node_of_self [simp]: "node_of (eaddr n) n = Some n"
  by (simp add: node_of_def)

lemma node_of_child:
  assumes "distinct (addrs n)" "echildren n = pre @ c # post" "a \<in> set (addrs c)"
  shows "node_of a n = node_of a c"
  using chain_to_child [OF assms] chain_to_inside(1) [OF assms(3)] by (simp add: node_of_def split: list.split)

lemma node_of_SomeD: "node_of a n = Some x \<Longrightarrow> a \<in> set (addrs n)"
  by (rule ccontr) (simp add: node_of_def chain_to_outside)

lemma chain_named:
  "x \<in> set (chain_to a n) \<Longrightarrow> \<forall>k\<in>set (echildren n). named k \<Longrightarrow> \<forall>k\<in>set (echildren x). named k"
  "x \<in> set (chain_among a ks) \<Longrightarrow> \<forall>k\<in>set ks. named k \<Longrightarrow> \<forall>k\<in>set (echildren x). named k"
proof (induction a n and a ks rule: chain_to_chain_among.induct)
  case (1 a b i ks)
  then show ?case by (cases "a = b"; cases "chain_among a ks") auto
next
  case (3 a k ks)
  have "\<forall>k\<in>set (echildren k). named k" using 3(4) by (cases k) auto
  then show ?case using 3 by (cases "chain_to a k") auto
qed simp

lemma node_of_named:
  "node_of a n = Some x \<Longrightarrow> \<forall>k\<in>set (echildren n). named k \<Longrightarrow> \<forall>k\<in>set (echildren x). named k"
  using chain_named(1) [of x a n] by (auto simp: node_of_def split: list.splits if_splits)

lemma upd_node_outside: "a \<notin> set (addrs n) \<Longrightarrow> upd_node a f n = n"
  by (induction n) (auto intro!: map_idI)

lemma upd_node_self [simp]: "upd_node (eaddr n) f n = f n"
  by (cases n) simp

lemma upd_node_child:
  assumes "distinct (addrs n)" "echildren n = pre @ c # post" "a \<in> set (addrs c)"
  shows "upd_node a f n = with_children (pre @ upd_node a f c # post) n"
proof (cases n)
  case (Element b i ks)
  then have "a \<noteq> b" "a \<notin> set (addrs_all pre)" "a \<notin> set (addrs_all post)" using assms by auto
  then have "\<forall>x\<in>set pre. upd_node a f x = x" "\<forall>x\<in>set post. upd_node a f x = x"
    using upd_node_outside by auto
  then show ?thesis using Element assms(2) \<open>a \<noteq> b\<close> by (simp add: with_children_def map_idI)
qed

section \<open>Conforming trees\<close>

definition template_rows :: "elementNode \<Rightarrow> elementNode list \<Rightarrow> bool" where
  "template_rows m rs \<longleftrightarrow> nname m = ''{i}'' \<and> ntype m = RBUS_ELEMENT_TYPE_OBJECT \<and> mirror m m \<and>
     (\<forall>r\<in>set rs. nname r \<noteq> ''{i}'' \<and> mirror m r)"

fun conform :: "elementNode \<Rightarrow> bool" where
  "conform (Element a i ks) \<longleftrightarrow>
     (if etype i = RBUS_ELEMENT_TYPE_TABLE then (case ks of [] \<Rightarrow> False | m # rs \<Rightarrow> template_rows m rs)
      else \<forall>k\<in>set ks. conform k)"

lemma conform_iff:
  "conform n \<longleftrightarrow>
     (if ntype n = RBUS_ELEMENT_TYPE_TABLE then \<exists>m rs. echildren n = m # rs \<and> template_rows m rs
      else \<forall>k\<in>set (echildren n). conform k)"
  by (cases n) (auto split: list.split)

lemma conform_with_children:
  "conform (with_children ks n) \<longleftrightarrow>
     (if ntype n = RBUS_ELEMENT_TYPE_TABLE then (case ks of [] \<Rightarrow> False | m # rs \<Rightarrow> template_rows m rs)
      else \<forall>k\<in>set ks. conform k)"
  by (cases n) (simp add: with_children_def)

abbreviation in_table :: "elementNode \<times> elementNode \<Rightarrow> bool" where
  "in_table \<equiv> \<lambda>(p, n). ntype p = RBUS_ELEMENT_TYPE_TABLE"

lemma map_snd_chain [simp]: "map snd (zip (x # xs) xs) = xs"
  by (induction xs arbitrary: x) simp_all

lemma new_conform:
  "insert_walk e b toks cur nx = Some (n, nx', a) \<Longrightarrow> echildren cur = [] \<Longrightarrow>
   ntype cur = RBUS_ELEMENT_TYPE_OBJECT \<Longrightarrow>
   conform n \<and> List.extract in_table (zip (n # walk_nodes toks n) (walk_nodes toks n)) = None"
proof (induction toks arbitrary: cur nx n nx' a b)
  case Nil
  then have "conform n"
    by (subst conform_iff) (auto simp: set_element_def Let_def Option.bind_eq_Some_conv template_rows_def split: if_splits)
  then show ?case by (simp add: extract_Nil_code)
next
  case (Cons tok toks)
  then obtain full c where c: "insert_walk e False toks (new_child nx full tok) (nx + 1) = Some (c, nx', a)"
    "n = with_children [c] cur"
    by (auto simp: extract_Nil_code Option.bind_eq_Some_conv)
  moreover have "nname c = tok" using insert_name [OF c(1)] by simp
  ultimately show ?case using Cons.IH [of False "new_child nx full tok" "nx + 1" c nx' a] Cons.prems(3)
    by (subst conform_iff) (simp add: extract_Cons_code)
qed

lemma insert_info: "insert_walk e b (tok # toks) m nx = Some (m', nx', a) \<Longrightarrow> einfo m' = einfo m \<and> eaddr m' = eaddr m"
  by (erule insert_step) simp_all

text \<open>
  Where a registration passes a table for the first time: the table \<open>T\<close> with the new template
  \<open>m'\<close>, whose rows are still those of the old template \<open>m\<close>.
\<close>

definition first_table :: "rbusDataElement \<Rightarrow> elementNode \<Rightarrow> string list \<Rightarrow> addr \<Rightarrow> addr \<Rightarrow> addr \<Rightarrow>
    elementNode \<Rightarrow> elementNode \<Rightarrow> elementNode list \<Rightarrow> bool" where
  "first_table e n' toks nx nx' a T m' ss \<longleftrightarrow>
     (\<exists>m rs b toks'. ss = walk_nodes toks' m' \<and> echildren T = m' # rs \<and>
        insert_walk e b toks' m nx = Some (m', nx', a) \<and> new_path toks' m \<and> template_rows m rs \<and>
        node_of (eaddr T) n' = Some T \<and>
        (\<forall>rs'. template_rows m' rs' \<longrightarrow> conform (upd_node (eaddr T) (with_children (m' # rs')) n')))"

lemma first_table_found:
  assumes "insert_walk e b toks n nx = Some (n', nx', a)" "conform n" "new_path toks n" "distinct (addrs n')"
    "length (walk_nodes toks n') = length toks"
  shows "(List.extract in_table (zip (n' # walk_nodes toks n') (walk_nodes toks n')) = None \<and> conform n') \<or>
    (\<exists>pre T m' rest. List.extract in_table (zip (n' # walk_nodes toks n') (walk_nodes toks n')) = Some (pre, (T, m'), rest) \<and>
       first_table e n' toks nx nx' a T m' (map snd rest))"
  using assms
proof (induction toks arbitrary: n n' b)
  case (Cons tok toks)
  note info = insert_info [OF Cons.prems(1)]
  from Cons.prems(1) show ?case
  proof (cases rule: insert_step)
    case (old pre c post c')
    have c': "nname c' = tok" using insert_name old(2,4) by simp
    have w: "walk_nodes (tok # toks) n' = c' # walk_nodes toks c'" using old c' by simp
    have p: "new_path toks c" using Cons.prems(3) old by simp
    show ?thesis
    proof (cases "ntype n = RBUS_ELEMENT_TYPE_TABLE")
      case True
      then obtain m rs where m: "echildren n = m # rs" "template_rows m rs" using Cons.prems(2) conform_iff [of n] by auto
      have "tok = ''{i}''" using Cons.prems(3) old True by simp
      then have e: "pre = []" "c = m" "post = rs" using m old(1,3) unfolding template_rows_def
        by (cases pre; auto)+
      have "\<forall>rs'. template_rows c' rs' \<longrightarrow> conform (upd_node (eaddr n') (with_children (c' # rs')) n')"
        unfolding upd_node_self using True info by (subst conform_iff) simp
      moreover have "echildren n' = c' # rs" using old(5) e by simp
      ultimately have "first_table e n' (tok # toks) nx nx' a n' c' (walk_nodes toks c')"
        unfolding first_table_def using old(4) e m p node_of_self by blast
      then show ?thesis using w info True Cons.prems(5) by (simp add: extract_Cons_code)
    next
      case False
      have "conform c" and oth: "\<forall>k\<in>set pre \<union> set post. conform k" using Cons.prems(2) False old(1) conform_iff [of n] by auto
      have d: "distinct (addrs c')" using Cons.prems(4) old(5) by simp
      have ch: "echildren n' = pre @ c' # post" using old(5) by simp
      have conf: "conform (with_children (pre @ x # post) n')" if "conform x" for x
        using that oth False info by (subst conform_iff) auto
      from Cons.IH [OF old(4) \<open>conform c\<close> p d] w Cons.prems(5) consider
        "List.extract in_table (zip (c' # walk_nodes toks c') (walk_nodes toks c')) = None" "conform c'"
      | pre0 T m' rest where "List.extract in_table (zip (c' # walk_nodes toks c') (walk_nodes toks c')) = Some (pre0, (T, m'), rest)"
          "first_table e c' toks nx nx' a T m' (map snd rest)"
        by auto
      then show ?thesis
      proof cases
        case 1
        have "n' = with_children (pre @ c' # post) n'" using ch by (simp add: with_children_def) (metis elementNode.collapse)
        then have "conform n'" using conf [OF 1(2)] by simp
        then show ?thesis using 1(1) w info False by (simp add: extract_Cons_code)
      next
        case (2 pre0 T m' rest)
        from 2(2) obtain m rs b1 toks1 where f: "map snd rest = walk_nodes toks1 m'" "echildren T = m' # rs"
          "insert_walk e b1 toks1 m nx = Some (m', nx', a)" "new_path toks1 m" "template_rows m rs"
          "node_of (eaddr T) c' = Some T"
          "\<forall>rs'. template_rows m' rs' \<longrightarrow> conform (upd_node (eaddr T) (with_children (m' # rs')) c')"
          unfolding first_table_def by blast
        have "\<forall>rs'. template_rows m' rs' \<longrightarrow> conform (upd_node (eaddr T) (with_children (m' # rs')) n')"
          using f(7) conf upd_node_child [OF Cons.prems(4) ch node_of_SomeD [OF f(6)]] by simp
        moreover have "node_of (eaddr T) n' = Some T"
          using f(6) node_of_child [OF Cons.prems(4) ch node_of_SomeD [OF f(6)]] by simp
        ultimately have "first_table e n' (tok # toks) nx nx' a T m' (map snd rest)"
          using f unfolding first_table_def by blast
        then show ?thesis using 2(1) w info False by (simp add: extract_Cons_code)
      qed
    qed
  next
    case (new full c')
    have f: "ntype n \<noteq> RBUS_ELEMENT_TYPE_TABLE" using Cons.prems(3) new by simp
    have c': "nname c' = tok" using insert_name new(3) by simp
    have w: "walk_nodes (tok # toks) n' = c' # walk_nodes toks c'"
      using new c' find_append_None [OF new(1), of "[c']"] by simp
    have "conform c'" "List.extract in_table (zip (c' # walk_nodes toks c') (walk_nodes toks c')) = None"
      using new_conform [OF new(3)] by simp_all
    moreover have "conform n'" using \<open>conform c'\<close> Cons.prems(2) f new(4) conform_iff [of n] by (subst conform_iff) auto
    ultimately show ?thesis using w info f by (simp add: extract_Cons_code)
  qed
qed simp

text \<open>The rows follow their template.\<close>

lemma replicate_instances_ok:
  assumes "insert_walk e b toks m nx = Some (m', nx', a)" "new_path toks m"
    "\<forall>r\<in>set rs. nname r \<noteq> ''{i}'' \<and> mirror m r \<and> named r" "ntype m = RBUS_ELEMENT_TYPE_OBJECT"
  shows "\<exists>rs' y'. replicate_instances (walk_nodes toks m') rs y = Some (rs', y') \<and>
    (\<forall>r\<in>set rs'. nname r \<noteq> ''{i}'' \<and> mirror m' r \<and> named r) \<and> renewed (addrs_all rs) y (addrs_all rs') y'"
  using assms(3)
proof (induction rs arbitrary: y)
  case (Cons r rs)
  obtain r' y1 where r: "replicateInternal (walk_nodes toks m') r y = Some (r', y1)" "einfo r' = einfo r"
    "mirror m' r'" "named r'" "renewed (addrs r) y (addrs r') y1"
    using replicate_mirror [OF assms(1,2), of r y] Cons.prems by auto
  obtain rs' y2 where rs: "replicate_instances (walk_nodes toks m') rs y1 = Some (rs', y2)"
    "\<forall>r\<in>set rs'. nname r \<noteq> ''{i}'' \<and> mirror m' r \<and> named r" "renewed (addrs_all rs) y1 (addrs_all rs') y2"
    using Cons.IH [of y1] Cons.prems by auto
  have "renewed (addrs_all (r # rs)) y (addrs_all (r' # rs')) y2" using renewed_append [OF r(5) rs(3)] by simp
  moreover have "ntype r = RBUS_ELEMENT_TYPE_OBJECT" using Cons.prems mirror_typeD [of m r] assms(4) by simp
  ultimately show ?case using r rs Cons.prems by simp
qed simp

lemma upd_node_context:
  "distinct (addrs t) \<Longrightarrow> node_of a t = Some n \<Longrightarrow>
   \<exists>ps qs. addrs t = ps @ addrs n @ qs \<and> (\<forall>f. addrs (upd_node a f t) = ps @ addrs (f n) @ qs)"
proof (induction t)
  case (Element b i ks)
  show ?case
  proof (cases "a = b")
    case True
    then have "n = Element b i ks" using Element.prems by (simp add: node_of_def)
    then show ?thesis using True by (intro exI [of _ "[]"]) simp
  next
    case False
    then have "chain_among a ks \<noteq> []" using Element.prems(2) by (auto simp: node_of_def split: list.splits)
    then have "a \<in> set (addrs_all ks)" using chain_to_outside(2) by blast
    then obtain c where "c \<in> set ks" and ac: "a \<in> set (addrs c)" by auto
    then obtain pre post where ks: "ks = pre @ c # post" by (meson split_list)
    have "chain_to a (Element b i ks) = Element b i ks # chain_to a c"
      using chain_to_child [OF Element.prems(1), of pre c post a] ks ac by simp
    then have "node_of a c = Some n"
      using Element.prems(2) chain_to_inside(1) [OF ac] by (auto simp: node_of_def split: list.splits if_splits)
    moreover have "distinct (addrs c)" using Element.prems(1) ks by simp
    ultimately obtain ps qs where pq: "addrs c = ps @ addrs n @ qs" "\<forall>f. addrs (upd_node a f c) = ps @ addrs (f n) @ qs"
      using Element.IH [OF \<open>c \<in> set ks\<close>] by blast
    have "upd_node a f (Element b i ks) = with_children (pre @ upd_node a f c # post) (Element b i ks)" for f
      using upd_node_child [OF Element.prems(1), of pre c post a f] ks ac by simp
    then show ?thesis using pq ks
      by (intro exI [of _ "b # addrs_all pre @ ps"] exI [of _ "qs @ addrs_all post"]) simp
  qed
qed

lemma upd_node_info [simp]:
  "einfo (upd_node a (with_children ks) t) = einfo t" "eaddr (upd_node a (with_children ks) t) = eaddr t"
  by (cases t; simp add: with_children_def)+

text \<open>A node below the root of a tree is below one of its children.\<close>

lemma child_with:
  assumes "a \<in> set (addrs n)" "a \<noteq> eaddr n"
  obtains pre c post where "echildren n = pre @ c # post" "a \<in> set (addrs c)" "c \<in> set (echildren n)"
proof -
  have "a \<in> set (addrs_all (echildren n))" using assms addrs_eq [of n] by simp
  then obtain c where "c \<in> set (echildren n)" "a \<in> set (addrs c)" by auto
  then show thesis using that by (meson split_list)
qed

lemma distinct_child: "distinct (addrs n) \<Longrightarrow> c \<in> set (echildren n) \<Longrightarrow> distinct (addrs c)"
  by (cases n) (auto simp: distinct_concat_iff)

section \<open>Lookups after a registration\<close>

text \<open>The same element, possibly with other children.\<close>

abbreviation same_element :: "elementNode \<Rightarrow> elementNode \<Rightarrow> bool" where
  "same_element x y \<equiv> eaddr x = eaddr y \<and> einfo x = einfo y"

lemma row_token_cases: "row_token n toks = toks \<or>
    (\<exists>t ts. toks = t # ts \<and> row_token n toks = ''{i}'' # ts \<and> ntype n = RBUS_ELEMENT_TYPE_TABLE \<and> echildren n \<noteq> [])"
  by (auto simp: row_token_def split: list.split)

lemma row_token_table:
  "ntype n = RBUS_ELEMENT_TYPE_TABLE \<Longrightarrow> echildren n \<noteq> [] \<Longrightarrow> row_token n toks = [] \<or> hd (row_token n toks) = ''{i}''"
  by (simp add: row_token_def split: list.split)

lemma walk_childless: "retrieve_walk toks n = Some x \<Longrightarrow> echildren n = [] \<Longrightarrow> toks = []"
  by (cases toks) auto

lemma row_token_keeps:
  assumes "retrieve_walk (row_token c toks) c = Some x" "ntype c' = ntype c" "echildren c \<noteq> [] \<longrightarrow> echildren c' \<noteq> []"
  shows "row_token c' toks = row_token c toks"
  using assms by (cases toks; cases "echildren c = []") (auto simp: row_token_def)

lemma insert_keeps_lookups:
  "insert_walk e b toks n nx = Some (n', nx', a) \<Longrightarrow> new_path toks n \<Longrightarrow> retrieve_walk ts n = Some x \<Longrightarrow>
   \<exists>x'. retrieve_walk ts n' = Some x' \<and> same_element x' x"
proof (induction ts arbitrary: n n' toks nx nx' b rule: length_induct)
  case (1 ts)
  obtain tok toks' where toks: "toks = tok # toks'" using "1.prems"(2) by (cases toks) auto
  note info = insert_info [OF "1.prems"(1) [unfolded toks]]
  show ?case
  proof (cases ts)
    case Nil
    then show ?thesis using "1.prems"(3) info by auto
  next
    case (Cons t ts')
    obtain c where c: "find (\<lambda>c. nname c = t) (echildren n) = Some c" "retrieve_walk (row_token c ts') c = Some x"
      using "1.prems"(3) Cons by (auto split: option.splits)
    from "1.prems"(1) [unfolded toks] show ?thesis
    proof (cases rule: insert_step)
      case (old pre d post d')
      have d': "nname d' = tok" using insert_name old(2,4) by simp
      show ?thesis
      proof (cases "t = tok")
        case True
        then have cd: "c = d" using c(1) old(6) by simp
        obtain tk tks where tk: "toks' = tk # tks" using "1.prems"(2) old toks by (cases toks') auto
        have p: "new_path toks' d" using "1.prems"(2) toks old by simp
        note i = insert_info [OF old(4) [unfolded tk]]
        have "echildren d' \<noteq> []" by (rule insert_step [OF old(4) [unfolded tk]]) simp_all
        then have rt: "row_token d' ts' = row_token d ts'" using row_token_keeps [of d ts' x d'] c(2) cd i by simp
        have "length (row_token d ts') < length ts" using Cons by simp
        then have "\<exists>x'. retrieve_walk (row_token d ts') d' = Some x' \<and> same_element x' x"
          using "1.IH" old(4) p c(2) cd by blast
        then show ?thesis using rt True d' old Cons by simp
      next
        case False
        then have "find (\<lambda>c. nname c = t) (echildren n') = Some c"
          using c(1) old(1,2,5) d' by (auto simp: find_append split: option.splits)
        then show ?thesis using c(2) Cons by simp
      qed
    next
      case (new full c')
      then have "find (\<lambda>c. nname c = t) (echildren n') = Some c" using c(1) by (simp add: find_append)
      then show ?thesis using c(2) Cons by simp
    qed
  qed
qed

text \<open>A node that shows what was registered.\<close>

definition registered_as :: "rbusDataElement \<Rightarrow> elementNode \<Rightarrow> bool" where
  "registered_as e n \<longleftrightarrow> ntype n = el_type e \<and>
     (let cb = cbTable (einfo n); r = el_cbTable e
      in getHandler cb = cb_getHandler r \<and> setHandler cb = cb_setHandler r \<and>
         tableAddRowHandler cb = cb_tableAddRowHandler r \<and> tableRemoveRowHandler cb = cb_tableRemoveRowHandler r \<and>
         eventSubHandler cb = cb_eventSubHandler r \<and>
         (if el_type e = RBUS_ELEMENT_TYPE_TABLE then tableSyncHandler cb = cb_methodHandler r
          else methodHandler cb = cb_methodHandler r))"

lemma registered_as_info: "einfo n = einfo n' \<Longrightarrow> registered_as e n = registered_as e n'"
  by (simp add: registered_as_def)

lemma new_row_token:
  assumes "insert_walk e b toks cur nx = Some (c, nx', a)" "ntype cur = RBUS_ELEMENT_TYPE_OBJECT"
  shows "row_token c toks = toks"
proof (cases toks)
  case (Cons t ts)
  have "einfo c = einfo cur" using insert_info [OF assms(1) [unfolded Cons]] by blast
  then show ?thesis using assms(2) Cons by (simp add: row_token_def)
qed (simp add: row_token_def)

lemma found_new:
  "insert_walk e b toks cur nx = Some (n, nx', a) \<Longrightarrow> echildren cur = [] \<Longrightarrow> ntype cur = RBUS_ELEMENT_TYPE_OBJECT \<Longrightarrow>
   \<exists>x. retrieve_walk toks n = Some x \<and> eaddr x = a \<and> registered_as e x"
proof (induction toks arbitrary: cur nx n b)
  case Nil
  then show ?case by (auto simp: set_element_def registered_as_def Let_def Option.bind_eq_Some_conv split: if_splits)
next
  case (Cons tok toks)
  then obtain full c where c: "insert_walk e False toks (new_child nx full tok) (nx + 1) = Some (c, nx', a)"
    "n = with_children [c] cur"
    by (auto simp: extract_Nil_code Option.bind_eq_Some_conv)
  moreover have "nname c = tok" using insert_name [OF c(1)] by simp
  moreover have "row_token c toks = toks" using new_row_token [OF c(1)] by simp
  ultimately show ?case using Cons.IH [OF c(1)] by simp
qed

lemma insert_found:
  "insert_walk e b toks n nx = Some (n', nx', a) \<Longrightarrow> new_path toks n \<Longrightarrow>
   \<exists>x. retrieve_walk toks n' = Some x \<and> eaddr x = a \<and> registered_as e x"
proof (induction toks arbitrary: n nx n' b)
  case (Cons tok toks)
  from Cons.prems(1) show ?case
  proof (cases rule: insert_step)
    case (old pre c post c')
    have c': "nname c' = tok" using insert_name old(2,4) by simp
    have p: "new_path toks c" using Cons.prems(2) old by simp
    then obtain tk tks where tk: "toks = tk # tks" by (cases toks) auto
    have "ntype c' = ntype c" using insert_info [OF old(4) [unfolded tk]] by simp
    then have "row_token c' toks = toks" using p tk by (auto simp: row_token_def split: option.splits)
    then show ?thesis using Cons.IH [OF old(4) p] old c' by simp
  next
    case (new full c')
    have c': "nname c' = tok" using insert_name new(3) by simp
    have "row_token c' toks = toks" using new_row_token [OF new(3)] by simp
    then show ?thesis using found_new [OF new(3)] new c' find_append_None [OF new(1), of "[c']"] by simp
  qed
qed simp

lemma upd_rows_lookups:
  assumes T: "node_of a n = Some T" "echildren T = m # rs" "nname m = ''{i}''" and d: "distinct (addrs n)"
    and ts: "ntype n = RBUS_ELEMENT_TYPE_TABLE \<longrightarrow> ts = [] \<or> hd ts = ''{i}''" and T': "ntype T = RBUS_ELEMENT_TYPE_TABLE"
    and x: "retrieve_walk ts n = Some x"
  shows "\<exists>x'. retrieve_walk ts (upd_node a (with_children (m # rs')) n) = Some x' \<and> same_element x' x"
  using T(1) d ts x
proof (induction ts arbitrary: n rule: length_induct)
  case (1 ts)
  let ?f = "with_children (m # rs')"
  show ?case
  proof (cases ts)
    case Nil
    then show ?thesis using "1.prems"(4) by auto
  next
    case (Cons t ts')
    show ?thesis
    proof (cases "a = eaddr n")
      case True
      then have "n = T" using "1.prems"(1) by simp
      then show ?thesis using "1.prems"(3,4) T(2,3) T' True Cons by auto
    next
      case False
      obtain pre c post where c: "echildren n = pre @ c # post" "a \<in> set (addrs c)" "c \<in> set (echildren n)"
        using node_of_SomeD [OF "1.prems"(1)] False by (rule child_with)
      have u: "upd_node a ?f n = with_children (pre @ upd_node a ?f c # post) n" using upd_node_child [OF "1.prems"(2) c(1,2)] .
      have nc: "node_of a c = Some T" "distinct (addrs c)"
        using "1.prems"(1) node_of_child [OF "1.prems"(2) c(1,2)] distinct_child [OF "1.prems"(2) c(3)] by auto
      obtain d where d: "find (\<lambda>c. nname c = t) (pre @ c # post) = Some d" "retrieve_walk (row_token d ts') d = Some x"
        using "1.prems"(4) Cons c(1) by (auto split: option.splits)
      show ?thesis
      proof (cases "(\<forall>y\<in>set pre. nname y \<noteq> t) \<and> nname c = t")
        case True
        then have dc: "d = c" using d(1) by simp
        have ne: "echildren c \<noteq> []" "echildren (upd_node a ?f c) \<noteq> []"
          using nc(1) T(2) node_of_self [of c] c(2) by (cases c; auto)+
        have "row_token (upd_node a ?f c) ts' = row_token c ts'" using ne by (simp add: row_token_def split: list.split)
        moreover have "length (row_token c ts') < length ts" using Cons by simp
        ultimately have "\<exists>x'. retrieve_walk (row_token (upd_node a ?f c) ts') (upd_node a ?f c) = Some x' \<and> same_element x' x"
          using "1.IH" nc d(2) dc row_token_table [of c ts'] ne(1) by simp
        then show ?thesis using u True Cons by simp
      next
        case False
        have "find (\<lambda>c. nname c = t) (pre @ upd_node a ?f c # post) = Some d"
        proof (cases "find (\<lambda>c. nname c = t) pre")
          case None
          then have "nname c \<noteq> t" using False by (auto simp: find_None_iff)
          then show ?thesis using d(1) None by (simp add: find_append)
        qed (use d(1) in \<open>simp add: find_append\<close>)
        then show ?thesis using u d(2) Cons by simp
      qed
    qed
  qed
qed

section \<open>Registration keeps the tree\<close>

definition tree_inv :: "element_tree \<Rightarrow> bool" where
  "tree_inv t \<longleftrightarrow>
     (case eroot t of
        None \<Rightarrow> False
      | Some root \<Rightarrow> ntype root = RBUS_ELEMENT_TYPE_OBJECT \<and> (\<forall>k\<in>set (echildren root). named k) \<and>
          conform root \<and> distinct (addrs root) \<and> (\<forall>a\<in>set (addrs root). a < enext t))"

definition element_tokens :: "rbusDataElement \<Rightarrow> string list" where
  "element_tokens e = name_tokens (if el_type e = RBUS_ELEMENT_TYPE_TABLE then strip_row (el_name e) else el_name e)"

lemma named_upd: "named t \<Longrightarrow> \<forall>k\<in>set ks. named k \<Longrightarrow> named (upd_node a (with_children ks) t)"
  by (induction t) (auto simp: with_children_def)

lemma upd_children:
  assumes "\<forall>k\<in>set (echildren t). named k" "\<forall>k\<in>set ks. named k"
  shows "\<forall>k\<in>set (echildren (upd_node a (with_children ks) t)). named k"
    "einfo (upd_node a (with_children ks) t) = einfo t" "eaddr (upd_node a (with_children ks) t) = eaddr t"
  using assms named_upd by (cases t; auto simp: with_children_def)+

lemma replicate_across_ok:
  assumes walk: "insert_walk e b toks n nx = Some (n', nx', a)" and n: "conform n" "new_path toks n"
    and n': "distinct (addrs n')" "\<forall>k\<in>set (echildren n'). named k"
    and w: "length (walk_nodes toks n') = length toks" "eaddr (last (n' # walk_nodes toks n')) = a"
  shows "\<exists>n'' nx''. replicateAcrossTableRowInstances a n' nx' = Some (n'', nx'') \<and> einfo n'' = einfo n' \<and>
    conform n'' \<and> (\<forall>k\<in>set (echildren n''). named k) \<and> renewed (addrs n') nx' (addrs n'') nx'' \<and>
    (ntype n' \<noteq> RBUS_ELEMENT_TYPE_TABLE \<longrightarrow>
       (\<forall>ts x. retrieve_walk ts n' = Some x \<longrightarrow> (\<exists>x'. retrieve_walk ts n'' = Some x' \<and> same_element x' x)))"
proof -
  have chain: "chain_to a n' = n' # walk_nodes toks n'" using chain_walk [OF n'(1) w(1)] w(2) by simp
  from first_table_found [OF walk n n'(1) w(1)] consider
    "List.extract in_table (zip (n' # walk_nodes toks n') (walk_nodes toks n')) = None" "conform n'"
  | pre T m' rest where "List.extract in_table (zip (n' # walk_nodes toks n') (walk_nodes toks n')) = Some (pre, (T, m'), rest)"
      "first_table e n' toks nx nx' a T m' (map snd rest)"
    by (elim disjE conjE exE) (assumption | metis)+
  then show ?thesis
  proof cases
    case 1
    then show ?thesis using chain n'(2) by (simp add: replicateAcrossTableRowInstances_def)
  next
    case (2 pre T m' rest)
    from 2(2) obtain m rs b1 toks1 where f: "map snd rest = walk_nodes toks1 m'" "echildren T = m' # rs"
      "insert_walk e b1 toks1 m nx = Some (m', nx', a)" "new_path toks1 m" "template_rows m rs"
      "node_of (eaddr T) n' = Some T"
      "\<And>rs'. template_rows m' rs' \<Longrightarrow> conform (upd_node (eaddr T) (with_children (m' # rs')) n')"
      unfolding first_table_def by blast
    have nm: "\<forall>k\<in>set (m' # rs). named k" using node_of_named [OF f(6) n'(2)] f(2) by simp
    have m: "nname m' = ''{i}''" "ntype m = RBUS_ELEMENT_TYPE_OBJECT" "mirror m' m'" "ntype m' = RBUS_ELEMENT_TYPE_OBJECT"
      using insert_name [OF f(3)] insert_mirror_self [OF f(3)] f(3-5) insert_info [of e b1 _ _ m nx]
      by (auto simp: template_rows_def neq_Nil_conv elim!: new_path.elims)
    obtain rs' y' where rs': "replicate_instances (walk_nodes toks1 m') rs nx' = Some (rs', y')"
      "\<forall>r\<in>set rs'. nname r \<noteq> ''{i}'' \<and> mirror m' r \<and> named r" "renewed (addrs_all rs) nx' (addrs_all rs') y'"
      using replicate_instances_ok [OF f(3,4), of rs nx'] f(5) nm m(2) by (auto simp: template_rows_def)
    let ?n = "upd_node (eaddr T) (with_children (m' # rs')) n'"
    have "replicateAcrossTableRowInstances a n' nx' = Some (?n, y')"
      using chain 2(1) f(1,2) rs'(1) m(1) by (simp add: replicateAcrossTableRowInstances_def)
    moreover have "conform ?n" using f(7) m rs'(2) by (simp add: template_rows_def)
    moreover have "renewed (addrs n') nx' (addrs ?n) y'"
    proof -
      obtain ps qs where pq: "addrs n' = ps @ addrs T @ qs" "addrs ?n = ps @ addrs (with_children (m' # rs') T) @ qs"
        using upd_node_context [OF n'(1) f(6)] by blast
      show ?thesis unfolding pq using renewed_inside [OF renewed_inside [OF rs'(3), of "eaddr T # addrs m'" "[]"], of ps qs]
        by (simp add: addrs_eq [of T] f(2))
    qed
    moreover have "\<exists>x'. retrieve_walk ts ?n = Some x' \<and> same_element x' x"
      if "retrieve_walk ts n' = Some x" "ntype n' \<noteq> RBUS_ELEMENT_TYPE_TABLE" for ts x
      using upd_rows_lookups [OF f(6,2) m(1) n'(1) _ _ that(1)] that(2) extract_SomeD [OF 2(1)] by simp
    ultimately show ?thesis using upd_children [OF n'(2), of "m' # rs'"] nm rs'(2) by auto
  qed
qed

lemma insert_inv:
  assumes inv: "tree_inv t" and root: "eroot t = Some root" and new: "new_path (element_tokens e) root"
  shows "\<exists>a t' root'. insertElement t (Some e) = Some (Some a, t') \<and> tree_inv t' \<and> eroot t' = Some root' \<and>
    (\<exists>x. retrieve_walk (element_tokens e) root' = Some x \<and> eaddr x = a \<and> registered_as e x) \<and>
    (\<forall>ts x. retrieve_walk ts root = Some x \<longrightarrow> (\<exists>x'. retrieve_walk ts root' = Some x' \<and> same_element x' x))"
proof -
  have r: "ntype root = RBUS_ELEMENT_TYPE_OBJECT" "\<forall>k\<in>set (echildren root). named k" "conform root"
    "distinct (addrs root)" "\<forall>a\<in>set (addrs root). a < enext t"
    using inv root by (simp_all add: tree_inv_def)
  have "element_tokens e \<noteq> []" using new by auto
  then obtain n nx a where n: "insert_walk e True (element_tokens e) root (enext t) = Some (n, nx, a)"
    "einfo n = einfo root" "\<forall>k\<in>set (echildren n). named k" "renewed (addrs root) (enext t) (addrs n) nx"
    "length (walk_nodes (element_tokens e) n) = length (element_tokens e)"
    "eaddr (last (n # walk_nodes (element_tokens e) n)) = a"
    using insert_walk_ok [of True root "element_tokens e" e "enext t"] r(2) by auto
  have d: "distinct (addrs n)" "\<forall>a\<in>set (addrs n). a < nx"
    using renewed_distinct [OF n(4) r(4,5)] renewed_below [OF n(4) r(5)] .
  obtain n' nx' where n': "replicateAcrossTableRowInstances a n nx = Some (n', nx')" "einfo n' = einfo n"
    "conform n'" "\<forall>k\<in>set (echildren n'). named k" "renewed (addrs n) nx (addrs n') nx'"
    "\<And>ts x. retrieve_walk ts n = Some x \<Longrightarrow> \<exists>x'. retrieve_walk ts n' = Some x' \<and> same_element x' x"
    using replicate_across_ok [OF n(1) r(3) new d(1) n(3,5,6)] r(1) n(2) by auto
  let ?t = "t\<lparr>eroot := Some n', enext := nx'\<rparr>"
  have "insertElement t (Some e) = Some (Some a, ?t)"
    using root n(1) n'(1) by (simp add: insertElement_def Let_def element_tokens_def)
  moreover have "tree_inv ?t"
    using n' n(2) r(1) renewed_distinct [OF n'(5) d] renewed_below [OF n'(5) d(2)] by (simp add: tree_inv_def)
  moreover obtain x where "retrieve_walk (element_tokens e) n = Some x" "eaddr x = a" "registered_as e x"
    using insert_found [OF n(1) new] by blast
  then have "\<exists>x. retrieve_walk (element_tokens e) n' = Some x \<and> eaddr x = a \<and> registered_as e x"
    using n'(6) registered_as_info by metis
  moreover have "\<exists>x'. retrieve_walk ts n' = Some x' \<and> same_element x' x" if "retrieve_walk ts root = Some x" for ts x
    using insert_keeps_lookups [OF n(1) new that] n'(6) by metis
  ultimately show ?thesis by (intro exI [of _ a] exI [of _ ?t] exI [of _ n']) simp
qed

section \<open>Adding rows\<close>

lemma mirror_template:
  assumes "mirror m T" "ntype T = RBUS_ELEMENT_TYPE_TABLE"
  shows "find (\<lambda>c. nname c = ''{i}'') (echildren T) = Some (hd (echildren T))"
proof -
  have "ntype m = RBUS_ELEMENT_TYPE_TABLE" using mirror_typeD assms by simp
  with assms(1) show ?thesis by (rule mirror_tableE) simp
qed

lemma chain_hd: "a \<in> set (addrs k) \<Longrightarrow> \<exists>cs. chain_to a k = k # cs"
  using chain_to_inside(1) [of a k] by (cases k) (auto split: list.splits if_splits)

lemma mirror_add_row:
  assumes "mirror m c" "distinct (addrs c)" "node_of a c = Some T" "ntype T = RBUS_ELEMENT_TYPE_TABLE"
    "\<And>x. mirror x (hd (echildren T)) \<Longrightarrow> mirror x row"
  shows "mirror m (upd_node a (with_children (echildren T @ [row])) c)"
  using assms(1-3)
proof (induction c arbitrary: m)
  case (Element b i ks)
  let ?c = "Element b i ks" and ?f = "with_children (echildren T @ [row])"
  show ?case
  proof (cases "a = b")
    case True
    then have T: "T = ?c" using Element.prems(3) by (simp add: node_of_def)
    then have m: "ntype m = RBUS_ELEMENT_TYPE_TABLE" using mirror_typeD [OF Element.prems(1)] assms(4) by simp
    obtain d l ls where d: "echildren m = [d]" "nname d = ''{i}''" "ks = l # ls" "nname l = ''{i}''"
      "\<forall>x\<in>set (l # ls). mirror d x" using Element.prems(1) m by (rule mirror_tableE) simp
    then have "mirror d row" using assms(5) T by simp
    then show ?thesis using d T True by (intro mirror_tableI [OF Element.prems(1) m, of m _ d l "ls @ [row]"]) auto
  next
    case False
    obtain pre k post where k: "echildren ?c = pre @ k # post" "a \<in> set (addrs k)" "k \<in> set ks"
      using child_with [of a ?c] node_of_SomeD [OF Element.prems(3)] False by auto
    have u: "upd_node a ?f ?c = with_children (pre @ upd_node a ?f k # post) ?c"
      using upd_node_child [OF Element.prems(2) k(1,2)] .
    have IH: "mirror d k \<Longrightarrow> mirror d (upd_node a ?f k)" for d
      using Element.IH [OF k(3)] distinct_child [OF Element.prems(2)] k(3) Element.prems(3)
        node_of_child [OF Element.prems(2) k(1,2)] by simp
    show ?thesis
    proof (cases "ntype m = RBUS_ELEMENT_TYPE_TABLE")
      case True
      obtain d l ls where d: "echildren m = [d]" "nname d = ''{i}''" "pre @ k # post = l # ls" "nname l = ''{i}''"
        "\<forall>x\<in>set (l # ls). mirror d x" using Element.prems(1) True k(1) by (auto elim: mirror_tableE)
      obtain l' ls' where l': "pre @ upd_node a ?f k # post = l' # ls'" by (cases pre) auto
      have "nname l' = ''{i}''" using d(3,4) l' by (cases pre) auto
      moreover have "\<forall>x\<in>set (pre @ upd_node a ?f k # post). mirror d x" using d(3,5) IH [of d] by (metis Un_iff list.set_intros set_ConsD set_append)
      ultimately show ?thesis using u d l'
        by (intro mirror_tableI [OF Element.prems(1) True, of m _ d l' ls']) auto
    next
      case False
      then obtain pre' k' post' where k': "echildren m = pre' @ k' # post'" "list_all2 twins pre' pre" "twins k' k" "list_all2 twins post' post"
        using mirror_objectD [OF Element.prems(1)] k(1) by (auto simp: list_all2_append2 list_all2_Cons2)
      then show ?thesis using u IH [of k'] by (intro mirror_objectI [OF Element.prems(1) False]) (auto simp: list_all2_appendI)
    qed
  qed
qed

lemma conform_add_row:
  assumes "conform n" "distinct (addrs n)" "node_of a n = Some T" "ntype T = RBUS_ELEMENT_TYPE_TABLE"
    "\<forall>x\<in>set (tl (chain_to a n)). nname x \<noteq> ''{i}''"
    "\<And>x. mirror x (hd (echildren T)) \<Longrightarrow> mirror x row" "nname row \<noteq> ''{i}''"
  shows "conform (upd_node a (with_children (echildren T @ [row])) n)"
  using assms(1-3,5)
proof (induction n)
  case (Element b i ks)
  let ?n = "Element b i ks" and ?f = "with_children (echildren T @ [row])"
  show ?case
  proof (cases "a = b")
    case True
    then have T: "T = ?n" using Element.prems(3) by (simp add: node_of_def)
    then obtain m rs where "ks = m # rs" "template_rows m rs" using Element.prems(1) assms(4) by (auto split: list.splits)
    then show ?thesis using T True assms(4,6,7) by (simp add: with_children_def template_rows_def)
  next
    case False
    obtain pre k post where k: "echildren ?n = pre @ k # post" "a \<in> set (addrs k)" "k \<in> set ks"
      using child_with [of a ?n] node_of_SomeD [OF Element.prems(3)] False by auto
    note ch = chain_to_child [OF Element.prems(2) k(1,2)]
    have u: "upd_node a ?f ?n = with_children (pre @ upd_node a ?f k # post) ?n"
      using upd_node_child [OF Element.prems(2) k(1,2)] .
    have nk: "node_of a k = Some T" "distinct (addrs k)"
      using Element.prems(3) node_of_child [OF Element.prems(2) k(1,2)] distinct_child [OF Element.prems(2)] k(3) by auto
    obtain cs where "chain_to a k = k # cs" using chain_hd [OF k(2)] by blast
    then have names: "nname k \<noteq> ''{i}''" "\<forall>x\<in>set (tl (chain_to a k)). nname x \<noteq> ''{i}''"
      using Element.prems(4) unfolding ch by simp_all
    show ?thesis
    proof (cases "etype i = RBUS_ELEMENT_TYPE_TABLE")
      case True
      then obtain m rs where m: "ks = m # rs" "template_rows m rs" using Element.prems(1) by (auto split: list.splits)
      then obtain pre' where pre: "pre = m # pre'" "rs = pre' @ k # post"
        using k(1) names(1) by (cases pre) (auto simp: template_rows_def)
      have "mirror m (upd_node a ?f k)" using mirror_add_row [OF _ nk(2,1) assms(4,6)] m pre by (simp add: template_rows_def)
      then have "template_rows m (pre' @ upd_node a ?f k # post)" using m pre by (simp add: template_rows_def)
      then show ?thesis unfolding u conform_with_children using True pre by simp
    next
      case False
      then show ?thesis unfolding u conform_with_children using Element.IH [OF k(3) _ nk(2,1) names(2)] Element.prems(1) k by auto
    qed
  qed
qed

lemma mirror_alias [simp]: "mirror m (upd_info (ealias_update f) n) = mirror m n"
  by (rule mirror_cong) simp_all

lemma named_alias [simp]: "named (upd_info (ealias_update f) n) = named n"
  by (cases n) (simp add: upd_info_def)

lemma addrs_upd_info [simp]: "addrs (upd_info f n) = addrs n"
  by (cases n) (simp add: upd_info_def)

lemma char_digit [simp]: "n < 10 \<Longrightarrow> char_of (48 + n :: nat) \<noteq> CHR ''{''"
proof
  assume "n < 10" "char_of (48 + n) = CHR ''{''"
  then have "of_char (char_of (48 + n)) = (of_char (CHR ''{'') :: nat)" by simp
  then show False using \<open>n < 10\<close> by simp
qed

lemma decimal_nonempty [simp]: "decimal n \<noteq> []"
  by (subst decimal.simps) simp

lemma decimal_hd: "hd (decimal n) \<noteq> CHR ''{''"
  by (induction n rule: decimal.induct) (subst decimal.simps, simp)

lemma row_name: "take 31 (decimal n) \<noteq> ''{i}''"
  using decimal_hd [of n] by (cases "decimal n") auto

text \<open>Every table starts with its row template.\<close>

definition has_template :: "elementNode \<Rightarrow> bool" where
  "has_template n \<longleftrightarrow> (\<exists>l ls. echildren n = l # ls \<and> nname l = ''{i}'')"

lemma chain_among_in: "x \<in> set (chain_among a ks) \<Longrightarrow> \<exists>k\<in>set ks. x \<in> set (chain_to a k)"
  by (induction ks) (auto split: list.splits)

lemma chain_to_cases: "x \<in> set (chain_to a n) \<Longrightarrow> x = n \<or> (\<exists>k\<in>set (echildren n). x \<in> set (chain_to a k))"
  using chain_among_in [of x a "echildren n"]
  by (cases n; cases "chain_among a (echildren n)") (auto split: if_splits)

lemma mirror_child:
  assumes "mirror m c" "k \<in> set (echildren c)"
  obtains m' where "mirror m' k"
proof (cases "ntype m = RBUS_ELEMENT_TYPE_TABLE")
  case True
  obtain d l ls where "echildren c = l # ls" "\<forall>x\<in>set (l # ls). mirror d x"
    using assms(1) True by (rule mirror_tableE)
  then show thesis using that assms(2) by auto
next
  case False
  obtain i where "i < length (echildren c)" "k = echildren c ! i" using assms(2) by (auto simp: in_set_conv_nth)
  then show thesis using mirror_objectD [OF assms(1) False] that by (auto simp: list_all2_conv_all_nth)
qed

lemma mirror_tables:
  "mirror m c \<Longrightarrow> P \<in> set (chain_to a c) \<Longrightarrow> ntype P = RBUS_ELEMENT_TYPE_TABLE \<Longrightarrow> has_template P"
proof (induction c arbitrary: m)
  case (Element b i ks)
  from chain_to_cases [OF Element.prems(2)] show ?case
  proof
    assume P: "P = Element b i ks"
    then have "ntype m = RBUS_ELEMENT_TYPE_TABLE" using mirror_typeD [OF Element.prems(1)] Element.prems(3) by simp
    with Element.prems(1) show ?thesis unfolding P by (rule mirror_tableE) (simp add: has_template_def)
  next
    assume "\<exists>k\<in>set (echildren (Element b i ks)). P \<in> set (chain_to a k)"
    then obtain k where k: "k \<in> set ks" "P \<in> set (chain_to a k)" by auto
    obtain m' where "mirror m' k" using mirror_child [OF Element.prems(1), of k] k(1) by auto
    then show ?thesis using Element.IH [OF k(1) _ k(2) Element.prems(3)] by blast
  qed
qed

lemma conform_tables:
  "conform n \<Longrightarrow> P \<in> set (chain_to a n) \<Longrightarrow> ntype P = RBUS_ELEMENT_TYPE_TABLE \<Longrightarrow> has_template P"
proof (induction n)
  case (Element b i ks)
  show ?case
  proof (cases "etype i = RBUS_ELEMENT_TYPE_TABLE")
    case True
    then obtain m rs where m: "ks = m # rs" "template_rows m rs" using Element.prems(1) by (auto split: list.splits)
    then show ?thesis using chain_to_cases [OF Element.prems(2)] mirror_tables [of m _ P a] Element.prems(3)
      by (auto simp: template_rows_def has_template_def)
  next
    case False
    then show ?thesis using chain_to_cases [OF Element.prems(2)] Element.IH Element.prems by auto
  qed
qed

lemma node_of_chain: "node_of a n = Some x \<Longrightarrow> x \<in> set (chain_to a n)"
  by (auto simp: node_of_def split: list.splits if_splits)

lemma chain_named_or_root:
  "x \<in> set (chain_to a n) \<Longrightarrow> \<forall>k\<in>set (echildren n). named k \<Longrightarrow> x = n \<or> named x"
proof (induction n)
  case (Element b i ks)
  from chain_to_cases [OF Element.prems(1)] show ?case
  proof
    assume "\<exists>k\<in>set (echildren (Element b i ks)). x \<in> set (chain_to a k)"
    then obtain k where k: "k \<in> set ks" "x \<in> set (chain_to a k)" by auto
    then have "named k" using Element.prems(2) by simp
    moreover then have "\<forall>k\<in>set (echildren k). named k" by (cases k) simp
    ultimately show ?thesis using Element.IH [OF k] by blast
  qed simp
qed

lemma instantiate_inv:
  assumes inv: "tree_inv t" and root: "eroot t = Some root" and T: "node_of a root = Some T" "ntype T = RBUS_ELEMENT_TYPE_TABLE"
    and names: "\<forall>x\<in>set (tl (chain_to a root)). nname x \<noteq> ''{i}''"
  shows "\<exists>row t'. instantiateTableRow t (Some a) instNum al = Some (Some (eaddr row), t') \<and> tree_inv t' \<and>
    eroot t' = Some (upd_node a (with_children (echildren T @ [row])) root) \<and> enext t \<le> eaddr row \<and>
    nname row = take 31 (decimal (unat instNum)) \<and> ealias (einfo row) = al \<and>
    (\<forall>m. mirror m (hd (echildren T)) \<longrightarrow> mirror m row)"
proof -
  let ?name = "take 31 (decimal (unat instNum))"
  have r: "ntype root = RBUS_ELEMENT_TYPE_OBJECT" "\<forall>k\<in>set (echildren root). named k" "conform root"
    "distinct (addrs root)" "\<forall>a\<in>set (addrs root). a < enext t"
    using inv root by (simp_all add: tree_inv_def)
  obtain l ls where l: "echildren T = l # ls" "nname l = ''{i}''"
    using conform_tables [OF r(3) node_of_chain [OF T(1)] T(2)] by (auto simp: has_template_def)
  have nT: "named T" using chain_named_or_root [OF node_of_chain [OF T(1)] r(2)] r(1) T(2) by auto
  then have nT: "efullName (einfo T) \<noteq> None" "\<forall>k\<in>set (echildren T). named k" by (cases T; simp)+
  obtain d nx where d: "duplicateNode (efullName (einfo T)) l ?name (enext t) = Some (d, nx)" "eaddr d = enext t"
    "nname d = ?name" "named d" "renewed [] (enext t) (addrs d) nx" "\<forall>m. mirror m l \<longrightarrow> mirror m d"
    using duplicate_ok(1) [OF nT(1), of l ?name "enext t"] by blast
  have al: "ealias (einfo d) = None" using d(1) by (cases l) (auto simp: Option.bind_eq_Some_conv)
  define row where "row = (if al = None then d else upd_info (\<lambda>i. i\<lparr>ealias := al\<rparr>) d)"
  have row: "eaddr row = enext t" "nname row = ?name" "named row" "addrs row = addrs d" "ealias (einfo row) = al"
    "mirror m l \<Longrightarrow> mirror m row" for m
    using d al by (simp_all add: row_def)
  let ?root = "upd_node a (with_children (echildren T @ [row])) root"
  let ?t = "t\<lparr>eroot := Some ?root, enext := nx\<rparr>"
  have "instantiateTableRow t (Some a) instNum al = Some (Some (eaddr row), ?t)"
    using root T(1) l d(1) by (simp add: instantiateTableRow_def Let_def row_def)
  moreover have "tree_inv ?t"
  proof -
    have "conform ?root" using conform_add_row [OF r(3,4) T names, of row] l row row_name by simp
    moreover have "\<forall>k\<in>set (echildren ?root). named k" using upd_children(1) [OF r(2), of "echildren T @ [row]" a] nT(2) row(3) by simp
    moreover have "renewed (addrs root) (enext t) (addrs ?root) nx"
    proof -
      obtain ps qs where pq: "addrs root = ps @ addrs T @ qs" "addrs ?root = ps @ addrs (with_children (echildren T @ [row]) T) @ qs"
        using upd_node_context [OF r(4) T(1)] by blast
      show ?thesis unfolding pq using renewed_inside [OF d(5), of "ps @ addrs T" qs] row(4) by (simp add: addrs_eq [of T])
    qed
    ultimately show ?thesis using r renewed_distinct [OF _ r(4,5)] renewed_below [OF _ r(5)] by (auto simp: tree_inv_def)
  qed
  ultimately show ?thesis using row l by (intro exI [of _ row] exI [of _ ?t]) simp
qed

section \<open>Deleting rows\<close>

lemma unlink_info [simp]: "einfo (unlink_node a n) = einfo n" "eaddr (unlink_node a n) = eaddr n"
  by (cases n; simp)+

lemma unlink_outside: "a \<notin> set (addrs n) \<Longrightarrow> unlink_node a n = n"
proof (induction n)
  case (Element b i ks)
  have "filter (\<lambda>k. eaddr k \<noteq> a) ks = ks" using Element.prems by (intro filter_True) auto
  then show ?case using Element by (simp add: map_idI)
qed

lemma unlink_child:
  assumes "distinct (addrs n)" "echildren n = pre @ c # post" "a \<in> set (addrs c)"
  shows "unlink_node a n = with_children (pre @ (if eaddr c = a then [] else [unlink_node a c]) @ post) n"
proof (cases n)
  case (Element b i ks)
  then have o: "a \<notin> set (addrs_all pre)" "a \<notin> set (addrs_all post)" using assms by auto
  then have "filter (\<lambda>k. eaddr k \<noteq> a) pre = pre" "filter (\<lambda>k. eaddr k \<noteq> a) post = post"
    "map (unlink_node a) pre = pre" "map (unlink_node a) post = post"
    by (auto intro!: filter_True map_idI unlink_outside)
  then show ?thesis using Element assms(2) by (simp add: with_children_def)
qed

lemma named_unlink: "named n \<Longrightarrow> named (unlink_node a n)"
  by (induction n) auto

lemma addrs_unlink: "set (addrs (unlink_node a n)) \<subseteq> set (addrs n)" "distinct (addrs n) \<Longrightarrow> distinct (addrs (unlink_node a n))"
proof (induction n)
  case (Element b i ks)
  {
    case 1
    show ?case using Element by fastforce
  next
    case 2
    have *: "set (addrs (unlink_node a k)) \<subseteq> set (addrs k)" "distinct (addrs k) \<Longrightarrow> distinct (addrs (unlink_node a k))"
      if "k \<in> set ks" for k using Element that by auto
    have "set (addrs_all (map (unlink_node a) (filter (\<lambda>k. eaddr k \<noteq> a) xs))) \<subseteq> set (addrs_all xs) \<and>
      (distinct (addrs_all xs) \<longrightarrow> distinct (addrs_all (map (unlink_node a) (filter (\<lambda>k. eaddr k \<noteq> a) xs))))"
      if "set xs \<subseteq> set ks" for xs
      using that
    proof (induction xs)
      case (Cons x xs)
      then show ?case using * [of x] by auto blast+
    qed simp
    from this [of ks] show ?case using 2 by auto
  }
qed

lemma chain_singleton: "chain_to a k = [x] \<Longrightarrow> x = k \<and> eaddr k = a"
  by (cases k) (auto split: if_splits list.splits)

text \<open>A row \<open>x\<close> of a table \<open>P\<close>, not its template.\<close>

definition row_chain :: "elementNode list \<Rightarrow> bool" where
  "row_chain ch \<longleftrightarrow> (\<exists>qs P x. ch = qs @ [P, x] \<and> ntype P = RBUS_ELEMENT_TYPE_TABLE \<and> nname x \<noteq> ''{i}'')"

lemma row_chain_inside: "row_chain (chain_to a c) \<Longrightarrow> a \<in> set (addrs c) \<and> a \<noteq> eaddr c"
  using chain_to_outside(1) [of a c] chain_to_self [of c] by (cases "a \<in> set (addrs c)") (auto simp: row_chain_def)

lemma row_chain_Cons:
  assumes "row_chain (n # chain_to a k)"
  shows "(eaddr k = a \<and> ntype n = RBUS_ELEMENT_TYPE_TABLE \<and> nname k \<noteq> ''{i}'') \<or> (eaddr k \<noteq> a \<and> row_chain (chain_to a k))"
proof -
  obtain qs P x where q: "n # chain_to a k = qs @ [P, x]" "ntype P = RBUS_ELEMENT_TYPE_TABLE" "nname x \<noteq> ''{i}''"
    using assms unfolding row_chain_def by blast
  show ?thesis
  proof (cases qs)
    case Nil
    then show ?thesis using q chain_singleton [of a k x] by auto
  next
    case (Cons y ys)
    then have "chain_to a k = ys @ [P, x]" using q(1) by simp
    moreover then have "eaddr k \<noteq> a" by (cases k) auto
    ultimately show ?thesis using q(2,3) unfolding row_chain_def by blast
  qed
qed

lemma mirror_del_row:
  "mirror m c \<Longrightarrow> distinct (addrs c) \<Longrightarrow> row_chain (chain_to a c) \<Longrightarrow> mirror m (unlink_node a c)"
proof (induction c arbitrary: m)
  case (Element b i ks)
  let ?c = "Element b i ks"
  obtain pre k post where k: "echildren ?c = pre @ k # post" "a \<in> set (addrs k)" "k \<in> set ks"
    by (rule child_with [of a ?c]) (use row_chain_inside [OF Element.prems(3)] in auto)
  note rc = row_chain_Cons [OF Element.prems(3) [unfolded chain_to_child [OF Element.prems(2) k(1,2)]]]
  have u: "unlink_node a ?c = with_children (pre @ (if eaddr k = a then [] else [unlink_node a k]) @ post) ?c"
    using unlink_child [OF Element.prems(2) k(1,2)] .
  have IH: "mirror d k \<Longrightarrow> eaddr k \<noteq> a \<Longrightarrow> mirror d (unlink_node a k)" for d
    using Element.IH [OF k(3)] distinct_child [OF Element.prems(2)] k(3) rc by simp
  show ?case
  proof (cases "ntype m = RBUS_ELEMENT_TYPE_TABLE")
    case True
    obtain d l ls where d: "echildren m = [d]" "nname d = ''{i}''" "echildren ?c = l # ls" "nname l = ''{i}''"
      "\<forall>x\<in>set (l # ls). mirror d x" using Element.prems(1) True by (rule mirror_tableE)
    let ?ks = "pre @ (if eaddr k = a then [] else [unlink_node a k]) @ post"
    have "\<forall>x\<in>set (pre @ k # post). mirror d x" using d(5) unfolding d(3) [unfolded k(1), symmetric] .
    then have "\<forall>x\<in>set ?ks. mirror d x" using IH [of d] by auto
    moreover obtain l' ls' where "?ks = l' # ls'" "nname l' = ''{i}''"
      using d(3,4) k(1) rc by (cases pre) (auto split: if_splits)
    ultimately show ?thesis unfolding u using d
      by (intro mirror_tableI [OF Element.prems(1) True, of m _ d l' ls']) auto
  next
    case False
    then have "eaddr k \<noteq> a" using rc mirror_typeD [OF Element.prems(1)] by auto
    moreover obtain pre' k' post' where "echildren m = pre' @ k' # post'" "list_all2 twins pre' pre" "twins k' k" "list_all2 twins post' post"
      using mirror_objectD [OF Element.prems(1) False] k(1) by (auto simp: list_all2_append2 list_all2_Cons2)
    ultimately show ?thesis unfolding u using IH [of k'] by (intro mirror_objectI [OF Element.prems(1) False]) (auto simp: list_all2_appendI)
  qed
qed

lemma template_without_rows:
  "mirror m m \<Longrightarrow> distinct (addrs m) \<Longrightarrow> \<not> row_chain (chain_to a m)"
proof (induction m)
  case (Element b i ks)
  let ?m = "Element b i ks"
  show ?case
  proof
    assume r: "row_chain (chain_to a ?m)"
    obtain pre k post where k: "echildren ?m = pre @ k # post" "a \<in> set (addrs k)" "k \<in> set ks"
      by (rule child_with [of a ?m]) (use row_chain_inside [OF r] in auto)
    note rc = row_chain_Cons [OF r [unfolded chain_to_child [OF Element.prems(2) k(1,2)]]]
    have d: "distinct (addrs k)" using distinct_child [OF Element.prems(2)] k(3) by simp
    have "mirror k k \<and> (ntype ?m = RBUS_ELEMENT_TYPE_TABLE \<longrightarrow> nname k = ''{i}'')"
    proof (cases "ntype ?m = RBUS_ELEMENT_TYPE_TABLE")
      case True
      obtain d l ls where "echildren ?m = [d]" "nname d = ''{i}''" "echildren ?m = l # ls" "\<forall>x\<in>set (l # ls). mirror d x"
        using Element.prems(1) True by (rule mirror_tableE)
      then show ?thesis using k(3) by auto
    next
      case False
      then show ?thesis using mirror_objectD [OF Element.prems(1)] k(3)
        by (auto simp: list_all2_conv_all_nth in_set_conv_nth)
    qed
    then show False using rc Element.IH [OF k(3) _ d] by auto
  qed
qed

lemma conform_del_row:
  "conform n \<Longrightarrow> distinct (addrs n) \<Longrightarrow> row_chain (chain_to a n) \<Longrightarrow> conform (unlink_node a n)"
proof (induction n)
  case (Element b i ks)
  let ?n = "Element b i ks"
  obtain pre k post where k: "echildren ?n = pre @ k # post" "a \<in> set (addrs k)" "k \<in> set ks"
    by (rule child_with [of a ?n]) (use row_chain_inside [OF Element.prems(3)] in auto)
  note rc = row_chain_Cons [OF Element.prems(3) [unfolded chain_to_child [OF Element.prems(2) k(1,2)]]]
  have u: "unlink_node a ?n = with_children (pre @ (if eaddr k = a then [] else [unlink_node a k]) @ post) ?n"
    using unlink_child [OF Element.prems(2) k(1,2)] .
  have d: "distinct (addrs k)" using distinct_child [OF Element.prems(2)] k(3) by simp
  show ?case
  proof (cases "etype i = RBUS_ELEMENT_TYPE_TABLE")
    case True
    then obtain m rs where m: "ks = m # rs" "template_rows m rs" using Element.prems(1) by (auto split: list.splits)
    then have "k \<noteq> m" using rc template_without_rows [of m a] d by (auto simp: template_rows_def)
    then obtain pre' where pre: "pre = m # pre'" "rs = pre' @ k # post" using m(1) k(1) by (cases pre) auto
    have "mirror m (unlink_node a k)" if "eaddr k \<noteq> a"
      using mirror_del_row [OF _ d] that rc m(2) pre by (auto simp: template_rows_def)
    then show ?thesis unfolding u conform_with_children using True m(2) pre by (auto simp: template_rows_def)
  next
    case False
    then have "eaddr k \<noteq> a" "row_chain (chain_to a k)" using rc by auto
    then show ?thesis unfolding u conform_with_children using False Element.IH [OF k(3) _ d] Element.prems(1) k by auto
  qed
qed

lemma delete_inv:
  assumes inv: "tree_inv t" and root: "eroot t = Some root" and row: "row_chain (chain_to a root)"
  shows "\<exists>t'. deleteTableRow t (Some a) = Some t' \<and> tree_inv t' \<and> eroot t' = Some (unlink_node a root) \<and>
    pruneNode t' = pruneNode t \<and> enext t' = enext t"
proof -
  have r: "ntype root = RBUS_ELEMENT_TYPE_OBJECT" "\<forall>k\<in>set (echildren root). named k" "conform root"
    "distinct (addrs root)" "\<forall>a\<in>set (addrs root). a < enext t"
    using inv root by (simp_all add: tree_inv_def)
  obtain qs P x where q: "chain_to a root = qs @ [P, x]" "ntype P = RBUS_ELEMENT_TYPE_TABLE" "nname x \<noteq> ''{i}''"
    using row unfolding row_chain_def by blast
  have "has_template P" using conform_tables [OF r(3) _ q(2), of a] q(1) by simp
  then have "echildren P \<noteq> [x]" using q(3) by (auto simp: has_template_def)
  then have "deleteTableRow t (Some a) = Some (t\<lparr>eroot := Some (unlink_node a root)\<rparr>)"
    using root q(1) by (cases qs rule: rev_cases) (simp_all add: deleteTableRow_def freeElementNode_def)
  moreover have "\<forall>k\<in>set (echildren (unlink_node a root)). named k" using r(2) named_unlink by (cases root) auto
  moreover have "\<forall>b\<in>set (addrs (unlink_node a root)). b < enext t" using r(5) addrs_unlink(1) by blast
  ultimately show ?thesis using r(1) conform_del_row [OF r(3,4) row] addrs_unlink(2) [OF r(4)]
    by (simp add: tree_inv_def)
qed

section \<open>Every tree of a provider conforms\<close>

text \<open>
  What a provider does to its tree: it registers new elements, adds rows to tables that are not
  part of a template, and deletes rows.
\<close>

inductive tree_step :: "element_tree \<Rightarrow> element_tree \<Rightarrow> bool" where
  registered: "eroot t = Some root \<Longrightarrow> new_path (element_tokens e) root \<Longrightarrow>
    insertElement t (Some e) = Some (res, t') \<Longrightarrow> tree_step t t'"
| row_added: "eroot t = Some root \<Longrightarrow> node_of a root = Some T \<Longrightarrow> ntype T = RBUS_ELEMENT_TYPE_TABLE \<Longrightarrow>
    \<forall>x\<in>set (tl (chain_to a root)). nname x \<noteq> ''{i}'' \<Longrightarrow>
    instantiateTableRow t (Some a) instNum al = Some (res, t') \<Longrightarrow> tree_step t t'"
| row_deleted: "eroot t = Some root \<Longrightarrow> row_chain (chain_to a root) \<Longrightarrow>
    deleteTableRow t (Some a) = Some t' \<Longrightarrow> tree_step t t'"

inductive tree_reachable :: "element_tree \<Rightarrow> bool" where
  created: "tree_reachable \<lparr>eroot = Some (upd_info (\<lambda>i. i\<lparr>ename := component\<rparr>) (getEmptyElementNode a)),
    pruneNode = [], enext = a + 1\<rparr>"
| stepped: "tree_reachable t \<Longrightarrow> tree_step t t' \<Longrightarrow> tree_reachable t'"

lemma tree_step_inv: "tree_step t t' \<Longrightarrow> tree_inv t \<Longrightarrow> tree_inv t'"
proof (induction rule: tree_step.induct)
  case (registered t root e res t')
  then show ?case using insert_inv [of t root e] by auto
next
  case (row_added t root a T instNum al res t')
  then show ?case using instantiate_inv [of t root a T instNum al] by auto
next
  case (row_deleted t root a t')
  then show ?case using delete_inv [of t root a] by auto
qed

lemma reachable_inv: "tree_reachable t \<Longrightarrow> tree_inv t"
proof (induction rule: tree_reachable.induct)
  case (created component a)
  show ?case by (simp add: tree_inv_def upd_info_def getEmptyElementNode_def)
qed (use tree_step_inv in blast)

end
