(* ===== verification/RB_Registry.thy ===== *)
theory RB_Registry
  imports RB_ElementTree
begin

text \<open>
  The properties of the element tree: registered elements are found under their names, and the rows
  of tables offer the elements of their row template.
\<close>

section \<open>Registration and lookup\<close>

lemma retrieveElement_walk:
  "eroot t = Some root \<Longrightarrow> retrieveElement t name = Some b \<longleftrightarrow>
     name_tokens name \<noteq> [] \<and> (\<exists>n. retrieve_walk (name_tokens name) root = Some n \<and> eaddr n = b)"
  by (cases "name_tokens name") (simp_all add: retrieveElement_def del: retrieve_walk.simps)

text \<open>
  C9. Registering an element under a new name succeeds in every tree of a provider. From then on the
  name leads to a node with the type and the handlers of the registration, and every other name that
  led to an element leads to the same element as before.
\<close>

theorem Register_lookup:
  assumes "tree_reachable t" "eroot t = Some root" "new_path (element_tokens e) root"
  shows "\<exists>a t' root' n. insertElement t (Some e) = Some (Some a, t') \<and> eroot t' = Some root' \<and>
    (\<forall>name. name_tokens name = element_tokens e \<longrightarrow> retrieveElement t' name = Some a) \<and>
    retrieve_walk (element_tokens e) root' = Some n \<and> eaddr n = a \<and> registered_as e n \<and>
    (\<forall>name b. retrieveElement t name = Some b \<longrightarrow> retrieveElement t' name = Some b)"
proof -
  obtain a t' root' n where i: "insertElement t (Some e) = Some (Some a, t')" "eroot t' = Some root'"
    "retrieve_walk (element_tokens e) root' = Some n" "eaddr n = a" "registered_as e n"
    "\<And>ts x. retrieve_walk ts root = Some x \<Longrightarrow> \<exists>x'. retrieve_walk ts root' = Some x' \<and> same_element x' x"
    using insert_inv [OF reachable_inv [OF assms(1)] assms(2,3)] by blast
  have "element_tokens e \<noteq> []" using assms(3) by auto
  then have "\<forall>name. name_tokens name = element_tokens e \<longrightarrow> retrieveElement t' name = Some a"
    using i(3,4) retrieveElement_walk [OF i(2)] by simp
  moreover have "\<forall>name b. retrieveElement t name = Some b \<longrightarrow> retrieveElement t' name = Some b"
    unfolding retrieveElement_walk [OF i(2)] retrieveElement_walk [OF assms(2)] using i(6) by metis
  ultimately show ?thesis using i(1-5) by blast
qed

section \<open>Rows\<close>

lemma twins_find:
  "list_all2 twins xs ys \<Longrightarrow> find (\<lambda>c. nname c = t) xs = Some x \<Longrightarrow>
   \<exists>y. find (\<lambda>c. nname c = t) ys = Some y \<and> mirror x y"
  by (induction xs ys rule: list_all2_induct) (auto split: if_splits)

lemma mirror_walk:
  "mirror m r \<Longrightarrow> length (walk_nodes us m) = length us \<Longrightarrow>
   length (walk_nodes us r) = length us \<and> mirror (last (m # walk_nodes us m)) (last (r # walk_nodes us r))"
proof (induction us arbitrary: m r)
  case (Cons tok us)
  then obtain c where c: "find (\<lambda>c. nname c = tok) (echildren m) = Some c" "length (walk_nodes us c) = length us"
    by (auto split: option.splits)
  have "\<exists>d. find (\<lambda>c. nname c = tok) (echildren r) = Some d \<and> mirror c d"
  proof (cases "ntype m = RBUS_ELEMENT_TYPE_TABLE")
    case True
    obtain d l ls where "echildren m = [d]" "nname d = ''{i}''" "echildren r = l # ls" "nname l = ''{i}''"
      "\<forall>x\<in>set (l # ls). mirror d x" using Cons.prems(1) True by (rule mirror_tableE)
    then show ?thesis using c(1) by (auto split: if_splits)
  next
    case False
    then show ?thesis using twins_find [OF mirror_objectD [OF Cons.prems(1)] c(1)] by blast
  qed
  then obtain d where "find (\<lambda>c. nname c = tok) (echildren r) = Some d" "mirror c d" by blast
  then show ?case using Cons.IH [OF _ c(2), of d] c(1) by simp
qed simp

text \<open>The elements found below \<open>m\<close> are found below \<open>r\<close> under the same names, with the same types and handlers.\<close>

definition offers :: "elementNode \<Rightarrow> elementNode \<Rightarrow> bool" where
  "offers m r \<longleftrightarrow> (\<forall>us. length (walk_nodes us m) = length us \<longrightarrow>
     length (walk_nodes us r) = length us \<and>
     ntype (last (r # walk_nodes us r)) = ntype (last (m # walk_nodes us m)) \<and>
     cbTable (einfo (last (r # walk_nodes us r))) = cbTable (einfo (last (m # walk_nodes us m))))"

lemma mirror_infoD: "mirror m r \<Longrightarrow> ntype r = ntype m \<and> cbTable (einfo r) = cbTable (einfo m)"
  by (subst (asm) mirror_iff) simp

lemma mirror_offers: "mirror m r \<Longrightarrow> offers m r"
  unfolding offers_def using mirror_walk [of m r] mirror_infoD by blast

lemma conform_walk:
  "conform n \<Longrightarrow> length (walk_nodes ps n) = length ps \<Longrightarrow>
   \<forall>x\<in>set (butlast (n # walk_nodes ps n)). ntype x \<noteq> RBUS_ELEMENT_TYPE_TABLE \<Longrightarrow> conform (last (n # walk_nodes ps n))"
proof (induction ps arbitrary: n)
  case (Cons p ps)
  then obtain c where c: "find (\<lambda>c. nname c = p) (echildren n) = Some c" "length (walk_nodes ps c) = length ps"
    by (auto split: option.splits)
  have "ntype n \<noteq> RBUS_ELEMENT_TYPE_TABLE" using Cons.prems(3) c(1) by simp
  then have "conform c" using Cons.prems(1) c(1) conform_iff [of n] by (auto simp: find_Some_iff)
  then show ?case using Cons.IH [OF _ c(2)] Cons.prems(3) c(1) by simp
qed simp


section \<open>Examples\<close>

definition no_handlers :: rbusCallbackTable where
  "no_handlers = \<lparr>cb_getHandler = None, cb_setHandler = None, cb_tableAddRowHandler = None,
     cb_tableRemoveRowHandler = None, cb_eventSubHandler = None, cb_methodHandler = None\<rparr>"

definition demo_element :: "string \<Rightarrow> rbusElementType \<Rightarrow> rbusDataElement" where
  "demo_element name ty = \<lparr>el_name = name, el_type = ty,
     el_cbTable = no_handlers\<lparr>cb_getHandler := (if ty = RBUS_ELEMENT_TYPE_PROPERTY then Some 7 else None)\<rparr>\<rparr>"

definition demo0 :: element_tree where
  "demo0 = \<lparr>eroot = Some (upd_info (\<lambda>i. i\<lparr>ename := ''prov''\<rparr>) (getEmptyElementNode 0)), pruneNode = [], enext = 1\<rparr>"

definition after :: "('a \<times> element_tree) run \<Rightarrow> element_tree" where
  "after r = (case r of None \<Rightarrow> demo0 | Some (x, t) \<Rightarrow> t)"

text \<open>A table, a row, and a property that is registered after the row was added.\<close>

definition demo1 :: element_tree where
  "demo1 = after (insertElement demo0 (Some (demo_element ''A.T.{i}.'' RBUS_ELEMENT_TYPE_TABLE)))"
definition demo2 :: element_tree where
  "demo2 = after (instantiateTableRow demo1 (retrieveElement demo1 ''A.T.'') 1 (Some ''one''))"
definition demo3 :: element_tree where
  "demo3 = after (insertElement demo2 (Some (demo_element ''A.T.{i}.P'' RBUS_ELEMENT_TYPE_PROPERTY)))"

lemma demo_computed:
  "eroot demo0 = Some (the (eroot demo0))" "eroot demo1 = Some (the (eroot demo1))" "eroot demo2 = Some (the (eroot demo2))"
  "new_path (element_tokens (demo_element ''A.T.{i}.'' RBUS_ELEMENT_TYPE_TABLE)) (the (eroot demo0))"
  "new_path (element_tokens (demo_element ''A.T.{i}.P'' RBUS_ELEMENT_TYPE_PROPERTY)) (the (eroot demo2))"
  "insertElement demo0 (Some (demo_element ''A.T.{i}.'' RBUS_ELEMENT_TYPE_TABLE)) = Some (Some 2, demo1)"
  "instantiateTableRow demo1 (Some 2) 1 (Some ''one'') = Some (Some 4, demo2)"
  "insertElement demo2 (Some (demo_element ''A.T.{i}.P'' RBUS_ELEMENT_TYPE_PROPERTY)) = Some (Some 5, demo3)"
  "map_option ntype (node_of 2 (the (eroot demo1))) = Some RBUS_ELEMENT_TYPE_TABLE"
  "\<forall>x\<in>set (tl (chain_to 2 (the (eroot demo1)))). nname x \<noteq> ''{i}''"
  by code_simp+

lemma demo_trees: "tree_reachable demo0" "tree_reachable demo1" "tree_reachable demo2" "tree_reachable demo3"
proof -
  show 0: "tree_reachable demo0" using created [of "''prov''" 0] by (simp add: demo0_def)
  show 1: "tree_reachable demo1" using stepped [OF 0 registered] demo_computed(1,4,6) by blast
  obtain T where "node_of 2 (the (eroot demo1)) = Some T" "ntype T = RBUS_ELEMENT_TYPE_TABLE"
    using demo_computed(9) by auto
  then show 2: "tree_reachable demo2" using stepped [OF 1 row_added] demo_computed(2,7,10) by blast
  show "tree_reachable demo3" using stepped [OF 2 registered] demo_computed(3,5,8) by blast
qed

theorem Register_lookup_witness:
  "\<exists>a t'. insertElement demo2 (Some (demo_element ''A.T.{i}.P'' RBUS_ELEMENT_TYPE_PROPERTY)) = Some (Some a, t') \<and>
     retrieveElement t' ''A.T.{i}.P'' = Some a \<and> retrieveElement t' ''A.T.'' = Some 2"
proof -
  have "name_tokens ''A.T.{i}.P'' = element_tokens (demo_element ''A.T.{i}.P'' RBUS_ELEMENT_TYPE_PROPERTY)"
    "retrieveElement demo2 ''A.T.'' = Some 2" by code_simp+
  then show ?thesis using Register_lookup [OF demo_trees(3) demo_computed(3,5)] by blast
qed


section \<open>Registrations that are not new\<close>

text \<open>
  Registering a table after elements below its rows makes a new row template the only child of the
  table: the elements registered before are lost.
\<close>

theorem Table_drops_elements:
  "\<exists>t t'. insertElement demo0 (Some (demo_element ''T.{i}.P'' RBUS_ELEMENT_TYPE_PROPERTY)) = Some (Some 3, t) \<and>
     retrieveElement t ''T.{i}.P'' = Some 3 \<and>
     insertElement t (Some (demo_element ''T.{i}.'' RBUS_ELEMENT_TYPE_TABLE)) = Some (Some 1, t') \<and>
     retrieveElement t' ''T.{i}.P'' = None"
proof -
  let ?t = "after (insertElement demo0 (Some (demo_element ''T.{i}.P'' RBUS_ELEMENT_TYPE_PROPERTY)))"
  let ?t' = "after (insertElement ?t (Some (demo_element ''T.{i}.'' RBUS_ELEMENT_TYPE_TABLE)))"
  show ?thesis by (rule exI [of _ ?t], rule exI [of _ ?t']) code_simp
qed

text \<open>
  Registering an element under a name that exists already changes the template and not the rows: the
  node 6 is the copy of the node 5 in the row.
\<close>

theorem Type_not_replicated:
  "\<exists>t. insertElement demo3 (Some (demo_element ''A.T.{i}.P'' RBUS_ELEMENT_TYPE_EVENT)) = Some (Some 5, t) \<and>
     map_option ntype (node_of 5 (the (eroot t))) = Some RBUS_ELEMENT_TYPE_EVENT \<and>
     map_option nname (node_of 6 (the (eroot t))) = Some ''P'' \<and>
     map_option ntype (node_of 6 (the (eroot t))) = Some RBUS_ELEMENT_TYPE_PROPERTY"
proof -
  let ?t = "after (insertElement demo3 (Some (demo_element ''A.T.{i}.P'' RBUS_ELEMENT_TYPE_EVENT)))"
  show ?thesis by (rule exI [of _ ?t]) code_simp
qed

end
