(* ===== verification/RB_TokenChain.thy ===== *)
theory RB_TokenChain
  imports RB_Registry
begin

text \<open>
  Token chains, \<^verbatim>\<open>src/src/rbus/rbus_tokenchain.c\<close>: the name of an event is cut into tokens, one for each
  node on the way to its registration element, and matched against instance elements.

  The tokens point into one copy of the name, \<open>tbuf\<close>, in which the separators are overwritten with
  NUL; a text is the offset of its first character.
\<close>

section \<open>The code\<close>

datatype TokenType = TokenNonRow | TokenAlias | TokenInstNum | TokenWildcard

record Token =
  ttext :: nat
  tnode :: addr
  ttype :: TokenType

text \<open>The chain lists its tokens from the first to the last.\<close>

record TokenChain =
  tbuf :: string
  ttokens :: "Token list"

definition NUL :: char where "NUL = CHR 0x00"

definition cstring :: "string \<Rightarrow> nat \<Rightarrow> string" where
  "cstring buf off = takeWhile (\<lambda>c. c \<noteq> NUL) (drop off buf)"

text \<open>\<open>atoi\<close>: blanks, a sign and decimal digits; a value that is no \<open>int\<close> is undefined.\<close>

definition is_blank :: "char \<Rightarrow> bool" where
  "is_blank c \<longleftrightarrow> c = CHR '' '' \<or> 9 \<le> (of_char c :: nat) \<and> (of_char c :: nat) \<le> 13"

fun digits_value :: "int \<Rightarrow> string \<Rightarrow> int" where
  "digits_value v [] = v"
| "digits_value v (c # cs) = (if isdigit c then digits_value (v * 10 + (of_char c - 48)) cs else v)"

definition atoi :: "string \<Rightarrow> int run" where
  "atoi s =
     (case dropWhile is_blank s of
        [] \<Rightarrow> Some 0
      | c # cs \<Rightarrow>
          if c = CHR ''-'' then cint (- digits_value 0 cs)
          else if c = CHR ''+'' then cint (digits_value 0 cs)
          else cint (digits_value 0 (c # cs)))"

text \<open>Back to the last dot before the pointer, or to the start of the name.\<close>

fun scan_back :: "string \<Rightarrow> nat \<Rightarrow> nat" where
  "scan_back buf 0 = 0"
| "scan_back buf (Suc ptr) = (if buf ! Suc ptr = CHR ''.'' then Suc ptr else scan_back buf ptr)"

text \<open>
  Forward to the closing bracket of an alias, at most to the end of the name. The first read may be
  past the end of the copy.
\<close>

fun scan_bracket :: "string \<Rightarrow> nat \<Rightarrow> string \<Rightarrow> nat \<Rightarrow> nat run" where
  "scan_bracket buf nameLen [] p = None"
| "scan_bracket buf nameLen (c # cs) p =
     (if c \<noteq> CHR '']'' \<and> p < nameLen then scan_bracket buf nameLen cs (p + 1) else Some p)"

text \<open>
  The type of a token; rows are named by alias, wildcard or instance number. \<open>Some None\<close> is the error
  exit.
\<close>

definition classify :: "nat \<Rightarrow> bool \<Rightarrow> string \<Rightarrow> nat \<Rightarrow> (string \<times> nat \<times> TokenType) option run" where
  "classify nameLen is_row buf text =
     (if \<not> is_row then Some (Some (buf, text, TokenNonRow))
      else if buf ! text = CHR ''[''
      then do { p \<leftarrow> scan_bracket buf nameLen (drop (text + 2) buf) (text + 2);
                if buf ! p = CHR '']'' then Some (Some (buf[p := NUL], text + 1, TokenAlias)) else Some None }
      else if cstring buf text = ''*'' then Some (Some (buf, text, TokenWildcard))
      else do { v \<leftarrow> atoi (cstring buf text);
                if v > 0 then Some (Some (buf, text, TokenInstNum)) else Some None })"

text \<open>The loop, along the nodes from the registration element up to the root.\<close>

fun create_loop :: "nat \<Rightarrow> elementNode list \<Rightarrow> string \<Rightarrow> nat \<Rightarrow> Token list \<Rightarrow> TokenChain option run" where
  "create_loop nameLen (node # parent # nodes) buf ptr toks =
     (if ptr = 0 then Some None
      else
        let (buf, ptr) = (if buf ! ptr = CHR ''.'' then (buf[ptr := NUL], ptr - 1) else (buf, ptr));
            ptr = scan_back buf ptr;
            text = (if buf ! ptr = CHR ''.'' then ptr + 1 else ptr)
        in do { r \<leftarrow> classify nameLen (ntype parent = RBUS_ELEMENT_TYPE_TABLE) buf text;
                case r of
                  None \<Rightarrow> Some None
                | Some (buf, text, ty) \<Rightarrow>
                    create_loop nameLen (parent # nodes) buf ptr
                      (\<lparr>ttext = text, tnode = eaddr node, ttype = ty\<rparr> # toks) })"
| "create_loop nameLen [root] buf ptr toks = (if ptr \<noteq> 0 then Some None else Some (Some \<lparr>tbuf = buf, ttokens = toks\<rparr>))"
| "create_loop nameLen [] buf ptr toks = None"

definition TokenChain_create :: "elementNode \<Rightarrow> string option \<Rightarrow> addr option \<Rightarrow> TokenChain option run" where
  "TokenChain_create root sourceName regNode =
     (case (regNode, sourceName) of
        (Some a, Some name) \<Rightarrow>
          if length name = 0 then Some None
          else create_loop (length name) (rev (chain_to a root)) (name @ [NUL]) (length name - 1) []
      | _ \<Rightarrow> Some None)"

text \<open>
  The walk from the last token and the instance up. \<open>rc\<close> is the variable of that name, indeterminate
  at first; a row without alias leaves it as it is.
\<close>

definition token_node :: "elementNode \<Rightarrow> Token \<Rightarrow> (elementNode \<times> elementNode option) run" where
  "token_node root tok =
     (case rev (chain_to (tnode tok) root) of
        [] \<Rightarrow> None
      | [n] \<Rightarrow> Some (n, None)
      | n # p # _ \<Rightarrow> Some (n, Some p))"

fun match_loop :: "elementNode \<Rightarrow> string \<Rightarrow> Token list \<Rightarrow> elementNode list \<Rightarrow> int option \<Rightarrow> bool run" where
  "match_loop root buf (tok # toks) (inst # parent # insts) rc =
     do { (node, nodeParent) \<leftarrow> token_node root tok;
          if ntype node \<noteq> ntype inst then Some False
          else if (case nodeParent of None \<Rightarrow> False | Some p \<Rightarrow> ntype p = RBUS_ELEMENT_TYPE_TABLE)
          then
            (if ntype parent \<noteq> RBUS_ELEMENT_TYPE_TABLE then Some False
             else case ttype tok of
                    TokenInstNum \<Rightarrow>
                      let rc = strcmp (nname inst) (cstring buf (ttext tok))
                      in if rc \<noteq> 0 then Some False else match_loop root buf toks (parent # insts) (Some rc)
                  | TokenAlias \<Rightarrow>
                      do { rc \<leftarrow> (case ealias (einfo inst) of
                                  Some al \<Rightarrow> Some (strcmp al (cstring buf (ttext tok)))
                                | None \<Rightarrow> rc);
                           if rc \<noteq> 0 then Some False else match_loop root buf toks (parent # insts) (Some rc) }
                  | TokenWildcard \<Rightarrow> match_loop root buf toks (parent # insts) rc
                  | TokenNonRow \<Rightarrow> None)
          else
            let rc = strcmp (nname inst) (cstring buf (ttext tok))
            in if rc \<noteq> 0 then Some False else match_loop root buf toks (parent # insts) (Some rc) }"
| "match_loop root buf toks [inst] rc = Some (toks = [])"
| "match_loop root buf [] (inst # parent # insts) rc = Some False"
| "match_loop root buf toks [] rc = None"

definition TokenChain_match :: "elementNode \<Rightarrow> TokenChain option \<Rightarrow> addr option \<Rightarrow> bool run" where
  "TokenChain_match root chain instNode =
     (case (chain, instNode) of
        (Some ch, Some a) \<Rightarrow> match_loop root (tbuf ch) (rev (ttokens ch)) (rev (chain_to a root)) None
      | _ \<Rightarrow> Some False)"

section \<open>Names and their tokens\<close>

fun joined :: "string list \<Rightarrow> string" where
  "joined [] = []"
| "joined [p] = p"
| "joined (p # ps) = p @ CHR ''.'' # joined ps"

text \<open>What a segment of a name stands for: rows go by alias, wildcard or instance number.\<close>

definition seg_kind :: "bool \<Rightarrow> string \<Rightarrow> TokenType \<times> string" where
  "seg_kind is_row p =
     (if \<not> is_row then (TokenNonRow, p)
      else if hd p = CHR ''['' then (TokenAlias, butlast (tl p))
      else if p = ''*'' then (TokenWildcard, p)
      else (TokenInstNum, p))"

definition valid_seg :: "bool \<Rightarrow> string \<Rightarrow> bool" where
  "valid_seg is_row p \<longleftrightarrow> p \<noteq> [] \<and> CHR ''.'' \<notin> set p \<and> NUL \<notin> set p \<and>
     (is_row \<longrightarrow>
       (if hd p = CHR ''['' then 3 \<le> length p \<and> last p = CHR '']'' \<and> CHR '']'' \<notin> set (butlast (tl p))
        else p = ''*'' \<or> (case atoi p of None \<Rightarrow> False | Some v \<Rightarrow> v > 0)))"

lemma joined_snoc: "qs \<noteq> [] \<Longrightarrow> joined (qs @ [p]) = joined qs @ CHR ''.'' # p"
  by (induction qs rule: joined.induct) auto

lemma joined_nonempty: "ps \<noteq> [] \<Longrightarrow> \<forall>p\<in>set ps. p \<noteq> [] \<Longrightarrow> joined ps \<noteq> []"
  by (induction ps rule: joined.induct) auto

lemma scan_back_start: "CHR ''.'' \<notin> set p \<Longrightarrow> n < length p \<Longrightarrow> scan_back (p @ rest) n = 0"
  by (induction n) (auto simp: nth_append dest: nth_mem)

lemma scan_back_dot:
  "CHR ''.'' \<notin> set p \<Longrightarrow> n \<le> length p \<Longrightarrow> scan_back (q @ CHR ''.'' # p @ rest) (length q + n) = length q"
proof (induction n)
  case 0
  then show ?case by (cases "length q") (auto simp: nth_append)
next
  case (Suc n)
  then have "p ! n \<in> set p" by simp
  then have "p ! n \<noteq> CHR ''.''" using Suc.prems(1) by metis
  then show ?case using Suc by (simp add: nth_append)
qed

lemma scan_bracket_ok:
  "CHR '']'' \<notin> set al \<Longrightarrow> p + length al < L \<Longrightarrow> scan_bracket buf L (al @ CHR '']'' # r) p = Some (p + length al)"
  by (induction al arbitrary: p) auto

lemma cstring_at: "NUL \<notin> set p \<Longrightarrow> cstring (A @ p @ NUL # rest) (length A) = p"
  by (simp add: cstring_def takeWhile_append)

text \<open>A token of a well-formed segment: the bytes of the segment may change, what follows does not.\<close>

lemma classify_ok:
  assumes "valid_seg is_row p" "length A + length p \<le> L"
  shows "\<exists>mid text ty. classify L is_row (A @ p @ NUL # rest) (length A) = Some (Some (A @ mid @ NUL # rest, length A + text, ty)) \<and>
    length mid = length p \<and> text \<le> length p \<and>
    (ty, takeWhile (\<lambda>c. c \<noteq> NUL) (drop text (mid @ NUL # rest))) = seg_kind is_row p"
proof (cases "is_row \<and> hd p = CHR ''[''")
  case False
  have "hd p = (A @ p @ NUL # rest) ! length A" using assms(1) by (cases p) (simp_all add: valid_seg_def nth_append)
  moreover have "takeWhile (\<lambda>c. c \<noteq> NUL) (p @ NUL # rest) = p" using assms(1) by (simp add: valid_seg_def takeWhile_append)
  ultimately show ?thesis using False assms(1) cstring_at [of p A rest]
    by (intro exI [of _ p] exI [of _ 0]) (auto simp: classify_def seg_kind_def valid_seg_def split: option.splits)
next
  case True
  have v: "NUL \<notin> set p" "3 \<le> length p" "last p = CHR '']''" "CHR '']'' \<notin> set (butlast (tl p))"
    using assms(1) True by (auto simp: valid_seg_def)
  obtain a al where p: "p = CHR ''['' # a # al @ [CHR '']'']" 
  proof -
    obtain x p1 where 1: "p = x # p1" using v(2) by (cases p) auto
    obtain p2 where 2: "p1 = p2 @ [CHR '']'']" using v(2,3) 1 by (cases p1 rule: rev_cases) auto
    obtain a al where "p2 = a # al" using v(2) 1 2 by (cases p2) auto
    then show thesis using that 1 2 True by simp
  qed
  have al: "CHR '']'' \<notin> set al" "NUL \<notin> set (a # al)" using v(1,4) p by auto
  have "scan_bracket (A @ p @ NUL # rest) L (drop (length A + 2) (A @ p @ NUL # rest)) (length A + 2) = Some (length A + 2 + length al)"
    using scan_bracket_ok [OF al(1), of "length A + 2" L "A @ p @ NUL # rest" "NUL # rest"] assms(2) p by simp
  moreover have "(A @ p @ NUL # rest) ! (length A + 2 + length al) = CHR '']''" using p by (simp add: nth_append)
  moreover have "(A @ p @ NUL # rest)[length A + 2 + length al := NUL] = A @ (CHR ''['' # a # al @ [NUL]) @ NUL # rest"
    using p by (simp add: list_update_append)
  moreover have "takeWhile (\<lambda>c. c \<noteq> NUL) (a # al @ NUL # NUL # rest) = a # al"
    using al(2) by (auto simp: takeWhile_append)
  ultimately show ?thesis using True p
    by (intro exI [of _ "CHR ''['' # a # al @ [NUL]"] exI [of _ 1] exI [of _ TokenAlias]) (simp add: classify_def seg_kind_def nth_append)
qed

section \<open>Building a chain\<close>

text \<open>The nodes of a path with their parents, from the root down.\<close>

definition with_parents :: "elementNode \<Rightarrow> elementNode list \<Rightarrow> (elementNode \<times> elementNode) list" where
  "with_parents root ns = zip ns (root # ns)"

lemma length_with_parents [simp]: "length (with_parents root ns) = length ns"
  by (simp add: with_parents_def)

lemma with_parents_snoc: "with_parents root (ns @ [n]) = with_parents root ns @ [(n, last (root # ns))]"
proof -
  have "zip (ns @ [n]) ((root # ns) @ [n]) = zip ns (root # ns) @ zip [n] [last (root # ns)]"
  proof (cases ns rule: rev_cases)
    case (snoc ms m)
    have "zip (ns @ [n]) ((root # ms) @ [m, n]) = zip ns (root # ms) @ zip [n] [m, n]" using snoc by (intro zip_append) simp
    moreover have "zip ns ((root # ms) @ [m]) = zip ns (root # ms)" using zip_append2 [of ns "root # ms" "[m]"] snoc by simp
    ultimately show ?thesis using snoc by simp
  qed simp
  then show ?thesis by (simp add: with_parents_def)
qed

definition fits :: "string \<Rightarrow> Token \<Rightarrow> string \<times> elementNode \<times> elementNode \<Rightarrow> bool" where
  "fits buf tok = (\<lambda>(p, n, par). tnode tok = eaddr n \<and>
     (ttype tok, cstring buf (ttext tok)) = seg_kind (ntype par = RBUS_ELEMENT_TYPE_TABLE) p)"

definition valid_name :: "elementNode \<Rightarrow> elementNode list \<Rightarrow> string list \<Rightarrow> bool" where
  "valid_name root ns ps \<longleftrightarrow> length ps = length ns \<and>
     (\<forall>(p, n, par)\<in>set (zip ps (with_parents root ns)). valid_seg (ntype par = RBUS_ELEMENT_TYPE_TABLE) p)"

lemma valid_name_snoc:
  "valid_name root (ns @ [n]) (qs @ [p]) \<longleftrightarrow>
     valid_name root ns qs \<and> valid_seg (ntype (last (root # ns)) = RBUS_ELEMENT_TYPE_TABLE) p"
  by (cases "length qs = length ns") (auto simp: valid_name_def with_parents_snoc)

lemma valid_name_nonempty: "valid_name root ns ps \<Longrightarrow> p \<in> set ps \<Longrightarrow> p \<noteq> [] \<and> CHR ''.'' \<notin> set p"
proof -
  assume v: "valid_name root ns ps" "p \<in> set ps"
  then obtain i where i: "i < length ps" "p = ps ! i" by (auto simp: in_set_conv_nth)
  obtain n par where "with_parents root ns ! i = (n, par)" by (cases "with_parents root ns ! i")
  then have "(p, n, par) \<in> set (zip ps (with_parents root ns))"
    using v i by (auto simp: in_set_zip valid_name_def)
  then show ?thesis using v(1) by (auto simp: valid_name_def valid_seg_def)
qed

text \<open>
  One round of the loop takes the last segment off: before it the pointer is on the dot after that
  segment, or on its last character when the name ends there.
\<close>

definition at_end :: "string list \<Rightarrow> string \<Rightarrow> nat \<Rightarrow> string \<Rightarrow> bool" where
  "at_end ps buf ptr rest \<longleftrightarrow> ptr \<noteq> 0 \<and>
     (buf = joined ps @ CHR ''.'' # rest \<and> ptr = length (joined ps) \<or>
      buf = joined ps @ NUL # rest \<and> ptr = length (joined ps) - 1)"

lemma cut_dot:
  assumes "at_end ps buf ptr rest" "joined ps \<noteq> []" "last (joined ps) \<noteq> CHR ''.''"
  shows "(if buf ! ptr = CHR ''.'' then (buf[ptr := NUL], ptr - 1) else (buf, ptr)) =
    (joined ps @ NUL # rest, length (joined ps) - 1)"
  using assms by (auto simp: at_end_def nth_append last_conv_nth list_update_append)

lemma create_loop_ok:
  "valid_name root ns ps \<Longrightarrow> ps \<noteq> [] \<Longrightarrow> at_end ps buf ptr rest \<Longrightarrow> length (joined ps) \<le> L \<Longrightarrow>
   \<exists>buf' ts. create_loop L (rev (root # ns)) buf ptr toks = Some (Some \<lparr>tbuf = buf', ttokens = ts @ toks\<rparr>) \<and>
     length buf' = length buf \<and> drop (length (joined ps)) buf' = NUL # rest \<and>
     list_all2 (fits buf') ts (zip ps (with_parents root ns))"
proof (induction ps arbitrary: ns buf ptr rest toks rule: rev_induct)
  case (snoc p qs)
  have "length ns = length qs + 1" using snoc.prems(1) by (simp add: valid_name_def)
  then obtain ns' n where ns: "ns = ns' @ [n]" by (cases ns rule: rev_cases) auto
  let ?par = "last (root # ns')" and ?J = "joined (qs @ [p])"
  obtain par nodes where nodes: "rev (root # ns) = n # par # nodes" "par = ?par" "par # nodes = rev (root # ns')"
    using ns by (cases ns' rule: rev_cases) auto
  have v: "valid_name root ns' qs" "valid_seg (ntype par = RBUS_ELEMENT_TYPE_TABLE) p"
    using snoc.prems(1) ns nodes(2) valid_name_snoc by auto
  have p: "p \<noteq> []" "CHR ''.'' \<notin> set p" "NUL \<notin> set p" using v(2) by (auto simp: valid_seg_def)
  define A where "A = (if qs = [] then [] else joined qs @ [CHR ''.''])"
  have J: "?J = A @ p" by (simp add: A_def joined_snoc)
  have cut: "(if buf ! ptr = CHR ''.'' then (buf[ptr := NUL], ptr - 1) else (buf, ptr)) = (A @ p @ NUL # rest, length (A @ p) - 1)"
  proof -
    have "last p \<noteq> CHR ''.''" using p(2) last_in_set [OF p(1)] by metis
    then show ?thesis using cut_dot [OF snoc.prems(3)] p(1) J by simp
  qed
  have L: "length A + length p \<le> L" using snoc.prems(4) J by simp
  obtain mid off ty where c: "classify L (ntype par = RBUS_ELEMENT_TYPE_TABLE) (A @ p @ NUL # rest) (length A) =
      Some (Some (A @ mid @ NUL # rest, length A + off, ty))" "length mid = length p" "off \<le> length p"
    "(ty, takeWhile (\<lambda>c. c \<noteq> NUL) (drop off (mid @ NUL # rest))) = seg_kind (ntype par = RBUS_ELEMENT_TYPE_TABLE) p"
    using classify_ok [OF v(2) L] by blast
  let ?tok = "\<lparr>ttext = length A + off, tnode = eaddr n, ttype = ty\<rparr>"
  have fit: "fits buf' ?tok (p, n, par)" if "drop (length A) buf' = mid @ NUL # rest" for buf'
  proof -
    have "drop (length A + off) buf' = drop off (mid @ NUL # rest)"
      using arg_cong [OF that, of "drop off"] by (simp only: drop_drop add.commute)
    then show ?thesis using c(4) by (simp add: fits_def cstring_def)
  qed
  have len: "length buf = length ?J + 1 + length rest" "ptr \<noteq> 0" using snoc.prems(3) by (auto simp: at_end_def)
  show ?case
  proof (cases "qs = []")
    case True
    then have "ns' = []" "nodes = []" using v(1) nodes(3) by (auto simp: valid_name_def)
    have "scan_back (p @ NUL # rest) (length p - 1) = 0" using scan_back_start [OF p(2)] p(1) by simp
    moreover have "(p @ NUL # rest) ! 0 \<noteq> CHR ''.''" using p by (cases p) auto
    ultimately have "create_loop L (rev (root # ns)) buf ptr toks = Some (Some \<lparr>tbuf = mid @ NUL # rest, ttokens = [?tok] @ toks\<rparr>)"
      using nodes(1) \<open>nodes = []\<close> len(2) cut c(1) True by (simp add: A_def)
    then show ?thesis using fit [of "mid @ NUL # rest"] c(2) len(1) J True ns \<open>ns' = []\<close> nodes(2)
      by (intro exI [of _ "mid @ NUL # rest"] exI [of _ "[?tok]"]) (simp add: A_def with_parents_def)
  next
    case False
    have jq: "joined qs \<noteq> []" using joined_nonempty [OF False] valid_name_nonempty [OF v(1)] by blast
    have A: "A = joined qs @ [CHR ''.'']" using False by (simp add: A_def)
    have sb: "scan_back (A @ p @ NUL # rest) (length (A @ p) - 1) = length (joined qs)"
      using scan_back_dot [OF p(2), of "length p" "joined qs" "NUL # rest"] A by simp
    have dot: "(A @ p @ NUL # rest) ! length (joined qs) = CHR ''.''" using A by (simp add: nth_append)
    have "at_end qs (A @ mid @ NUL # rest) (length (joined qs)) (mid @ NUL # rest)" using A jq by (simp add: at_end_def)
    then obtain buf' ts where IH: "create_loop L (rev (root # ns')) (A @ mid @ NUL # rest) (length (joined qs)) (?tok # toks) =
        Some (Some \<lparr>tbuf = buf', ttokens = ts @ ?tok # toks\<rparr>)" "length buf' = length (A @ mid @ NUL # rest)"
      "drop (length (joined qs)) buf' = NUL # mid @ NUL # rest" "list_all2 (fits buf') ts (zip qs (with_parents root ns'))"
      using snoc.IH [OF v(1) False, of "A @ mid @ NUL # rest" "length (joined qs)" "mid @ NUL # rest" "?tok # toks"]
        snoc.prems(4) J A by auto
    have "create_loop L (rev (root # ns)) buf ptr toks = Some (Some \<lparr>tbuf = buf', ttokens = (ts @ [?tok]) @ toks\<rparr>)"
      unfolding nodes(1) using len(2) cut c(1) sb dot A IH(1) [folded nodes(3)] by simp
    moreover have d: "drop (length A) buf' = mid @ NUL # rest"
      using arg_cong [OF IH(3), of "drop 1"] A by simp
    moreover have "drop (length ?J) buf' = NUL # rest"
      using arg_cong [OF d, of "drop (length p)"] J c(2) by (simp add: add.commute)
    moreover have "list_all2 (fits buf') (ts @ [?tok]) (zip (qs @ [p]) (with_parents root ns))"
      using IH(4) fit [OF d] v(1) ns nodes(2) by (simp add: with_parents_snoc valid_name_def list_all2_appendI)
    ultimately show ?thesis using IH(2) len(1) J c(2)
      by (intro exI [of _ buf'] exI [of _ "ts @ [?tok]"]) simp
  qed
qed simp

section \<open>Matching\<close>

text \<open>
  What a segment of a name means for an instance element \<open>m\<close> below \<open>mpar\<close>, where \<open>n\<close> below \<open>par\<close>
  is the registration element of the segment. A row that has no alias is taken for every alias.
\<close>

definition seg_matches :: "string \<times> elementNode \<times> elementNode \<Rightarrow> elementNode \<times> elementNode \<Rightarrow> bool" where
  "seg_matches s i = (case (s, i) of ((p, n, par), (m, mpar)) \<Rightarrow> ntype n = ntype m \<and>
     (if ntype par = RBUS_ELEMENT_TYPE_TABLE
      then ntype mpar = RBUS_ELEMENT_TYPE_TABLE \<and>
           (if hd p = CHR ''['' then ealias (einfo m) = None \<or> ealias (einfo m) = Some (butlast (tl p))
            else p = ''*'' \<or> nname m = p)
      else nname m = p))"

definition rows_have_alias :: "elementNode \<Rightarrow> elementNode list \<Rightarrow> bool" where
  "rows_have_alias root ms \<longleftrightarrow>
     (\<forall>(m, par)\<in>set (with_parents root ms). ntype par = RBUS_ELEMENT_TYPE_TABLE \<longrightarrow> ealias (einfo m) \<noteq> None)"

definition knows :: "elementNode \<Rightarrow> elementNode list \<Rightarrow> bool" where
  "knows root ns \<longleftrightarrow> (\<forall>(n, par)\<in>set (with_parents root ns). \<exists>ch. rev (chain_to (eaddr n) root) = n # par # ch)"

lemma knows_snoc: "knows root (ns @ [n]) \<longleftrightarrow>
    knows root ns \<and> (\<exists>ch. rev (chain_to (eaddr n) root) = n # last (root # ns) # ch)"
  by (auto simp: knows_def with_parents_snoc)

lemma chain_prefix:
  "distinct (addrs t) \<Longrightarrow> chain_to a t = xs @ n # ys \<Longrightarrow> chain_to (eaddr n) t = xs @ [n]"
proof (induction t arbitrary: xs)
  case (Element b i ks)
  show ?case
  proof (cases xs)
    case Nil
    then have "n = Element b i ks" using Element.prems(2) by (auto split: if_splits list.splits)
    then show ?thesis using Nil by simp
  next
    case (Cons x xs')
    have "chain_to a (Element b i ks) \<noteq> []" unfolding Element.prems(2) by simp
    then have "a \<in> set (addrs (Element b i ks))" using chain_to_outside(1) by blast
    moreover have "a \<noteq> b" using Element.prems(2) Cons by auto
    ultimately obtain pre k post where k: "echildren (Element b i ks) = pre @ k # post" "a \<in> set (addrs k)" "k \<in> set ks"
      by (rule_tac child_with [of a "Element b i ks"]) auto
    have ch: "chain_to a (Element b i ks) = Element b i ks # chain_to a k" using chain_to_child [OF Element.prems(1) k(1,2)] .
    then have x: "x = Element b i ks" "chain_to a k = xs' @ n # ys" using Element.prems(2) Cons by auto
    then have IH: "chain_to (eaddr n) k = xs' @ [n]"
      using Element.IH [OF k(3)] distinct_child [OF Element.prems(1)] k(3) by simp
    then have "eaddr n \<in> set (addrs k)" using chain_to_outside(1) [of "eaddr n" k] by auto
    then show ?thesis using chain_to_child [OF Element.prems(1) k(1)] IH x Cons by simp
  qed
qed

lemma chain_knows: "distinct (addrs root) \<Longrightarrow> chain_to a root = root # ns \<Longrightarrow> knows root ns"
proof (induction ns arbitrary: a rule: rev_induct)
  case (snoc n ns)
  have "chain_to (eaddr n) root = root # ns @ [n]" using chain_prefix [OF snoc.prems(1), of a "root # ns" n "[]"] snoc.prems(2) by simp
  moreover have "knows root ns"
  proof (cases ns rule: rev_cases)
    case (snoc ms m)
    then have "chain_to (eaddr m) root = root # ns"
      using chain_prefix [OF snoc.prems(1), of a "root # ms" m "[n]"] snoc.prems(2) by simp
    then show ?thesis using snoc.IH snoc.prems(1) by blast
  qed (simp add: knows_def with_parents_def)
  ultimately show ?case unfolding knows_snoc by (cases ns rule: rev_cases) auto
qed (simp add: knows_def with_parents_def)

lemma list_all2_snoc: "list_all2 P (xs @ [x]) (ys @ [y]) \<longleftrightarrow> list_all2 P xs ys \<and> P x y"
  using list_all2_rev [of P "xs @ [x]" "ys @ [y]"] list_all2_rev [of P xs ys] by auto

lemma strcmp_refl [simp]: "strcmp s s = 0"
  by simp

lemma match_loop_ok:
  "list_all2 (fits buf) ts (zip ps (with_parents root ns)) \<Longrightarrow> length ps = length ns \<Longrightarrow> knows root ns \<Longrightarrow>
   rc = Some 0 \<or> rows_have_alias root ms \<or> ns \<noteq> [] \<and> ntype (snd (last (with_parents root ns))) \<noteq> RBUS_ELEMENT_TYPE_TABLE \<Longrightarrow>
   match_loop root buf (rev ts) (rev (root # ms)) rc =
     Some (list_all2 seg_matches (zip ps (with_parents root ns)) (with_parents root ms))"
proof (induction ns arbitrary: ts ps ms rc rule: rev_induct)
  case Nil
  show ?case
  proof (cases ms rule: rev_cases)
    case (snoc ms' m)
    have "\<exists>p nodes. rev (root # ms') = p # nodes" by (cases ms' rule: rev_cases) auto
    then show ?thesis using Nil snoc by (auto simp: with_parents_snoc)
  qed (use Nil in \<open>simp add: with_parents_def\<close>)
next
  case (snoc n ns)
  obtain qs p where ps: "ps = qs @ [p]" "length qs = length ns" using snoc.prems(2) by (cases ps rule: rev_cases) auto
  let ?par = "last (root # ns)"
  have z: "zip ps (with_parents root (ns @ [n])) = zip qs (with_parents root ns) @ [(p, n, ?par)]"
    using ps by (simp add: with_parents_snoc)
  obtain ts' tok where ts: "ts = ts' @ [tok]" "list_all2 (fits buf) ts' (zip qs (with_parents root ns))" "fits buf tok (p, n, ?par)"
    using snoc.prems(1) unfolding z by (auto simp: list_all2_append2 list_all2_Cons2)
  obtain ch where k: "rev (chain_to (eaddr n) root) = n # ?par # ch" "knows root ns" using snoc.prems(3) knows_snoc by blast
  have tn: "token_node root tok = Some (n, Some ?par)" using k(1) ts(3) by (simp add: token_node_def fits_def)
  have kind: "(ttype tok, cstring buf (ttext tok)) = seg_kind (ntype ?par = RBUS_ELEMENT_TYPE_TABLE) p"
    using ts(3) by (simp add: fits_def)
  show ?case
  proof (cases ms rule: rev_cases)
    case Nil
    then show ?thesis unfolding z ts(1) by (simp add: with_parents_def)
  next
    case (snoc ms' m)
    obtain mp nodes where nodes: "rev (root # ms) = m # mp # nodes" "mp = last (root # ms')" "mp # nodes = rev (root # ms')"
      using snoc by (cases ms' rule: rev_cases) auto
    have al: "ealias (einfo m) \<noteq> None" if "rc \<noteq> Some 0" "ntype ?par = RBUS_ELEMENT_TYPE_TABLE" "ntype mp = RBUS_ELEMENT_TYPE_TABLE"
      using snoc.prems(4) that snoc nodes(2) by (auto simp: rows_have_alias_def with_parents_snoc)
    have later: "rc' = Some 0 \<or> rows_have_alias root ms' \<or> ns \<noteq> [] \<and> ntype (snd (last (with_parents root ns))) \<noteq> RBUS_ELEMENT_TYPE_TABLE"
      if "rc' = Some 0 \<or> rc' = rc \<and> ntype ?par = RBUS_ELEMENT_TYPE_TABLE" for rc'
      using snoc.prems(4) that snoc by (auto simp: rows_have_alias_def with_parents_snoc)
    have IH: "match_loop root buf (rev ts') (mp # nodes) rc' =
        Some (list_all2 seg_matches (zip qs (with_parents root ns)) (with_parents root ms'))"
      if "rc' = Some 0 \<or> rc' = rc \<and> ntype ?par = RBUS_ELEMENT_TYPE_TABLE" for rc'
      unfolding nodes(3) using snoc.IH [OF ts(2) ps(2) k(2) later [OF that]] .
    have l2: "list_all2 seg_matches (zip ps (with_parents root (ns @ [n]))) (with_parents root ms) \<longleftrightarrow>
        list_all2 seg_matches (zip qs (with_parents root ns)) (with_parents root ms') \<and> seg_matches (p, n, ?par) (m, mp)"
      unfolding z using snoc nodes(2) by (simp add: with_parents_snoc list_all2_snoc)
    obtain R where R: "R = list_all2 seg_matches (zip qs (with_parents root ns)) (with_parents root ms')" by blast
    obtain par where par: "par = ?par" by blast
    note step = tn [folded par] kind [folded par] al [folded par] IH [of rc, folded par R] IH [of "Some 0", folded par R]
    show ?thesis unfolding l2 unfolding ts(1) nodes(1) unfolding R [symmetric] par [symmetric] using step
      by (cases "rc = Some 0")
        (auto simp: seg_kind_def seg_matches_def [of "(p, n, par)" "(m, mp)"] Let_def split: if_splits option.splits)
  qed
qed

text \<open>
  C10. For a well-formed event name, with or without a closing dot, whose segments go with the nodes on
  the way to the registration element, a token chain is built, and it matches an instance element
  exactly when that has as many nodes on its way from the root and each segment fits its node: plain
  segments by name, the segments of rows by instance number, alias or wildcard, and the types agree.
\<close>

theorem TokenChain_correct:
  assumes "distinct (addrs root)" "chain_to reg root = root # ns" "chain_to inst root = root # ms"
    and "valid_name root ns ps" "2 \<le> length (joined ps)" "name = joined ps \<or> name = joined ps @ ''.''"
    and "rows_have_alias root ms \<or> ntype (snd (last (with_parents root ns))) \<noteq> RBUS_ELEMENT_TYPE_TABLE"
  shows "\<exists>ch. TokenChain_create root (Some name) (Some reg) = Some (Some ch) \<and>
    TokenChain_match root (Some ch) (Some inst) =
      Some (list_all2 seg_matches (zip ps (with_parents root ns)) (with_parents root ms))"
proof -
  have ps: "ps \<noteq> []" "length ps = length ns" using assms(4,5) by (auto simp: valid_name_def)
  have ne: "joined ps \<noteq> []" using assms(5) by auto
  obtain rest where rest: "at_end ps (name @ [NUL]) (length name - 1) rest" "length (joined ps) \<le> length name" "name \<noteq> []"
  proof (cases "name = joined ps")
    case True
    then show thesis using that [of "[]"] assms(5) ne by (auto simp: at_end_def)
  next
    case False
    then show thesis using that [of "[NUL]"] assms(5,6) by (auto simp: at_end_def)
  qed
  obtain buf ts where c: "create_loop (length name) (rev (root # ns)) (name @ [NUL]) (length name - 1) [] =
      Some (Some \<lparr>tbuf = buf, ttokens = ts\<rparr>)" "list_all2 (fits buf) ts (zip ps (with_parents root ns))"
    using create_loop_ok [OF assms(4) ps(1) rest(1,2), of "[]"] by auto
  have "TokenChain_create root (Some name) (Some reg) = Some (Some \<lparr>tbuf = buf, ttokens = ts\<rparr>)"
    using c(1) assms(2) rest(3) by (simp add: TokenChain_create_def)
  moreover have "match_loop root buf (rev ts) (rev (root # ms)) None =
      Some (list_all2 seg_matches (zip ps (with_parents root ns)) (with_parents root ms))"
  proof (rule match_loop_ok [OF c(2) ps(2) chain_knows [OF assms(1,2)]])
    have "ns \<noteq> []" using ps by auto
    then show "None = Some (0 :: int) \<or> rows_have_alias root ms \<or>
        ns \<noteq> [] \<and> ntype (snd (last (with_parents root ns))) \<noteq> RBUS_ELEMENT_TYPE_TABLE" using assms(7) by blast
  qed
  ultimately show ?thesis using assms(3) by (simp add: TokenChain_match_def)
qed

text \<open>A row that was added with an alias, addressed by it.\<close>

theorem TokenChain_correct_witness:
  "\<exists>ch. TokenChain_create (the (eroot demo3)) (Some ''A.T.[one].P'') (Some 5) = Some (Some ch) \<and>
     TokenChain_match (the (eroot demo3)) (Some ch) (Some 6) = Some True"
proof -
  let ?root = "the (eroot demo3)" and ?ps = "[''A'', ''T'', ''[one]'', ''P'']"
  let ?ns = "tl (chain_to 5 ?root)" and ?ms = "tl (chain_to 6 ?root)"
  have c: "distinct (addrs ?root)" "chain_to 5 ?root = ?root # ?ns" "chain_to 6 ?root = ?root # ?ms"
    "valid_name ?root ?ns ?ps" "2 \<le> length (joined ?ps)" "''A.T.[one].P'' = joined ?ps"
    "ntype (snd (last (with_parents ?root ?ns))) \<noteq> RBUS_ELEMENT_TYPE_TABLE"
    "list_all2 seg_matches (zip ?ps (with_parents ?root ?ns)) (with_parents ?root ?ms)"
    by code_simp+
  show ?thesis
    using TokenChain_correct [OF c(1-5) disjI1 [OF c(6)] disjI2 [OF c(7)]] c(8) by simp
qed

text \<open>
  A row without an alias matches a name with any alias: \<open>rc\<close> still is the 0 of the segment behind it.
\<close>

definition demo4 :: element_tree where
  "demo4 = after (instantiateTableRow demo3 (retrieveElement demo3 ''A.T.'') 2 None)"

theorem Unnamed_row_matches_alias:
  "\<exists>ch. TokenChain_create (the (eroot demo4)) (Some ''A.T.[other].P'') (Some 5) = Some (Some ch) \<and>
     map nname (tl (chain_to 8 (the (eroot demo4)))) = [''A'', ''T'', ''2'', ''P''] \<and>
     map (ealias \<circ> einfo) (chain_to 8 (the (eroot demo4))) = replicate 5 None \<and>
     TokenChain_match (the (eroot demo4)) (Some ch) (Some 8) = Some True \<and>
     TokenChain_match (the (eroot demo4)) (Some ch) (Some 6) = Some False"
proof -
  let ?ch = "case TokenChain_create (the (eroot demo4)) (Some ''A.T.[other].P'') (Some 5) of
    Some (Some ch) \<Rightarrow> ch | _ \<Rightarrow> \<lparr>tbuf = [], ttokens = []\<rparr>"
  show ?thesis by (rule exI [of _ ?ch]) code_simp
qed

text \<open>
  If that row is the last segment, \<open>rc\<close> was never set. No chain is built for a name of one character,
  and a name that ends in an opening bracket is read past its end.
\<close>

theorem Row_alias_indeterminate:
  "\<exists>ch. TokenChain_create (the (eroot demo4)) (Some ''A.T.[other]'') (Some 3) = Some (Some ch) \<and>
     TokenChain_match (the (eroot demo4)) (Some ch) (Some 7) = None"
proof -
  let ?ch = "case TokenChain_create (the (eroot demo4)) (Some ''A.T.[other]'') (Some 3) of
    Some (Some ch) \<Rightarrow> ch | _ \<Rightarrow> \<lparr>tbuf = [], ttokens = []\<rparr>"
  show ?thesis by (rule exI [of _ ?ch]) code_simp
qed

theorem Short_name_refused: "TokenChain_create (the (eroot demo4)) (Some ''A'') (Some 1) = Some None"
  by code_simp

theorem Bracket_read_past_end: "TokenChain_create (the (eroot demo4)) (Some ''A.T.['') (Some 3) = None"
  by code_simp

end
