(* ===== verification/RB_Subscriptions.thy ===== *)
theory RB_Subscriptions
  imports RB_TokenChain RB_Filter
begin

text \<open>
  The subscriptions of a provider, \<^verbatim>\<open>src/src/rbus/rbus_subscriptions.c\<close>, and their links with the
  element tree (the functions on \<open>node->subscriptions\<close> in \<^verbatim>\<open>rbus_element.c\<close>).

  The lists of the code are rtLists, which the theory of rtList relates to HOL lists. A subscription
  has an address; a node keeps the addresses of its subscriptions and a subscription those of its
  instance elements. Writing the cache file after each change is input and output and left out here.
\<close>

section \<open>Data\<close>

record rbusSubscription =
  sub_listener :: string
  sub_eventName :: string
  sub_componentId :: int
  sub_filter :: rbusFilter_t
  sub_interval :: int
  sub_duration :: int
  sub_autoPublish :: bool
  sub_tokens :: "TokenChain option"
  sub_element :: "addr option"
  sub_instances :: "addr list"
  sub_rawData :: bool
  sub_subscriptionId :: u32

text \<open>
  The subscriptions with the tree they refer to, the next free address and the counter of identifiers.
  \<open>offList\<close> has the subscriptions that were taken off the list and not freed yet.
\<close>

record registry =
  rtree :: element_tree
  subList :: "(addr \<times> rbusSubscription) list"
  offList :: "(addr \<times> rbusSubscription) list"
  nextSub :: addr
  nextSubscriptionId :: u32

definition upd_sub :: "addr \<Rightarrow> (rbusSubscription \<Rightarrow> rbusSubscription) \<Rightarrow> (addr \<times> rbusSubscription) list \<Rightarrow> (addr \<times> rbusSubscription) list" where
  "upd_sub s f subs = map (\<lambda>(q, x). (q, if q = s then f x else x)) subs"

section \<open>Subscriptions of a node\<close>

definition addElementSubscription :: "elementNode \<Rightarrow> addr option \<Rightarrow> addr \<Rightarrow> bool \<Rightarrow> elementNode" where
  "addElementSubscription root node sub checkIfExists =
     (case node of
        None \<Rightarrow> root
      | Some a \<Rightarrow>
          upd_node a (upd_info (\<lambda>i.
            case subscriptions i of
              None \<Rightarrow> i\<lparr>subscriptions := Some [sub]\<rparr>
            | Some l \<Rightarrow> if checkIfExists \<and> sub \<in> set l then i else i\<lparr>subscriptions := Some (l @ [sub])\<rparr>)) root)"

definition removeElementSubscription :: "elementNode \<Rightarrow> addr option \<Rightarrow> addr \<Rightarrow> elementNode" where
  "removeElementSubscription root node sub =
     (case node of
        None \<Rightarrow> root
      | Some a \<Rightarrow>
          upd_node a (upd_info (\<lambda>i.
            case subscriptions i of
              None \<Rightarrow> i
            | Some l \<Rightarrow>
                if sub \<in> set l
                then let l = remove1 sub l in i\<lparr>subscriptions := (if l = [] then None else Some l)\<rparr>
                else i)) root)"

fun auto_published :: "(addr \<times> rbusSubscription) list \<Rightarrow> addr option \<Rightarrow> addr list \<Rightarrow> bool run" where
  "auto_published subs excluding [] = Some False"
| "auto_published subs excluding (s # ss) =
     do { sub \<leftarrow> map_of subs s;
          if sub_autoPublish sub \<and> excluding \<noteq> Some s \<and> sub_interval sub = 0 then Some True
          else auto_published subs excluding ss }"

definition elementHasAutoPubSubscriptions :: "registry \<Rightarrow> addr option \<Rightarrow> addr option \<Rightarrow> bool run" where
  "elementHasAutoPubSubscriptions r node excluding =
     (case node of
        None \<Rightarrow> Some False
      | Some a \<Rightarrow>
          do { root \<leftarrow> eroot (rtree r);
               n \<leftarrow> node_of a root;
               case subscriptions (einfo n) of
                 None \<Rightarrow> Some False
               | Some l \<Rightarrow> auto_published (subList r @ offList r) excluding l })"

section \<open>The registry\<close>

definition subscriptionKeyCompare :: "(rbusDateTime \<Rightarrow> int) \<Rightarrow> rbusSubscription \<Rightarrow> string \<Rightarrow> int \<Rightarrow> string \<Rightarrow>
    rbusFilter_t \<Rightarrow> int \<Rightarrow> int \<Rightarrow> bool \<Rightarrow> int run" where
  "subscriptionKeyCompare mk sub listener componentId eventName filt interval duration rawData =
     (let rc = strcmp (sub_listener sub) listener
      in if rc \<noteq> 0 then Some rc
         else if sub_componentId sub = componentId
         then (let rc = strcmp (sub_eventName sub) eventName
               in if rc \<noteq> 0 then Some rc
                  else do { rc \<leftarrow> rbusFilter_Compare mk (sub_filter sub) filt;
                            if rc \<noteq> 0 then Some rc
                            else Some (if sub_interval sub = interval \<and> sub_duration sub = duration \<and>
                                          sub_rawData sub = rawData then 0 else 1) })
         else Some (if sub_componentId sub < componentId then - 1 else 1))"

fun search_sub :: "(rbusSubscription \<Rightarrow> int run) \<Rightarrow> (addr \<times> rbusSubscription) list \<Rightarrow> addr option run" where
  "search_sub cmp [] = Some None"
| "search_sub cmp ((s, sub) # subs) =
     do { rc \<leftarrow> cmp sub; if rc = 0 then Some (Some s) else search_sub cmp subs }"

definition rbusSubscriptions_getSubscription :: "(rbusDateTime \<Rightarrow> int) \<Rightarrow> registry \<Rightarrow> string \<Rightarrow> string \<Rightarrow> int \<Rightarrow>
    rbusFilter_t \<Rightarrow> int \<Rightarrow> int \<Rightarrow> bool \<Rightarrow> addr option run" where
  "rbusSubscriptions_getSubscription mk r listener eventName componentId filt interval duration rawData =
     search_sub (\<lambda>sub. subscriptionKeyCompare mk sub listener componentId eventName filt interval duration rawData) (subList r)"

text \<open>
  A new subscription is linked with the instance elements it matches, all over the tree but for what
  is below row templates. The walk goes over the nodes as they were when it started: it changes only
  their lists of subscriptions.
\<close>

fun onSubscriptionCreated :: "addr \<Rightarrow> TokenChain option \<Rightarrow> elementNode \<Rightarrow> elementNode \<times> addr list \<Rightarrow> (elementNode \<times> addr list) run"
  and on_children_created :: "addr \<Rightarrow> TokenChain option \<Rightarrow> bool \<Rightarrow> elementNode list \<Rightarrow> elementNode \<times> addr list \<Rightarrow> (elementNode \<times> addr list) run" where
  "onSubscriptionCreated s tokens (Element a i ks) st =
     on_children_created s tokens (etype i = RBUS_ELEMENT_TYPE_TABLE) ks st"
| "on_children_created s tokens in_tab [] st = Some st"
| "on_children_created s tokens in_tab (child # ks) (root, insts) =
     do { (root, insts) \<leftarrow>
            (if ntype child \<noteq> RBUS_ELEMENT_TYPE_OBJECT
             then do { b \<leftarrow> TokenChain_match root tokens (Some (eaddr child));
                       Some (if b then (addElementSubscription root (Some (eaddr child)) s False, insts @ [eaddr child])
                             else (root, insts)) }
             else Some (root, insts));
          (root, insts) \<leftarrow>
            (if echildren child \<noteq> [] \<and> \<not> (in_tab \<and> nname child = ''{i}'')
             then onSubscriptionCreated s tokens child (root, insts) else Some (root, insts));
          on_children_created s tokens in_tab ks (root, insts) }"

definition rbusSubscriptions_addSubscription :: "registry \<Rightarrow> string \<Rightarrow> string \<Rightarrow> int \<Rightarrow> rbusFilter_t \<Rightarrow> int \<Rightarrow> int \<Rightarrow>
    bool \<Rightarrow> addr option \<Rightarrow> bool \<Rightarrow> (addr option \<times> registry) run" where
  "rbusSubscriptions_addSubscription r listener eventName componentId filt interval duration autoPublish registryElem rawData =
     do { root \<leftarrow> eroot (rtree r);
          tokens \<leftarrow> TokenChain_create root (Some eventName) registryElem;
          case tokens of
            None \<Rightarrow> Some (None, r)
          | Some ch \<Rightarrow>
              do { let s = nextSub r;
                   let sub = \<lparr>sub_listener = listener, sub_eventName = eventName, sub_componentId = componentId,
                     sub_filter = filt, sub_interval = interval, sub_duration = duration, sub_autoPublish = autoPublish,
                     sub_tokens = Some ch, sub_element = registryElem, sub_instances = [], sub_rawData = rawData,
                     sub_subscriptionId = nextSubscriptionId r\<rparr>;
                   (root, insts) \<leftarrow> onSubscriptionCreated s (Some ch) root (root, []);
                   Some (Some s, r\<lparr>rtree := (rtree r)\<lparr>eroot := Some root\<rparr>,
                     subList := subList r @ [(s, sub\<lparr>sub_instances := insts\<rparr>)],
                     nextSub := s + 1, nextSubscriptionId := nextSubscriptionId r + 1\<rparr>) } }"

text \<open>Freeing a subscription takes it off its instance elements, which must exist.\<close>

fun unlink_instances :: "addr \<Rightarrow> addr list \<Rightarrow> elementNode \<Rightarrow> elementNode run" where
  "unlink_instances s [] root = Some root"
| "unlink_instances s (a # as) root =
     do { n \<leftarrow> node_of a root; unlink_instances s as (removeElementSubscription root (Some a) s) }"

definition subscriptionFree :: "addr \<Rightarrow> rbusSubscription \<Rightarrow> elementNode \<Rightarrow> elementNode run" where
  "subscriptionFree s sub root = unlink_instances s (sub_instances sub) root"

definition rbusSubscriptions_removeSubscription :: "registry \<Rightarrow> addr \<Rightarrow> registry run" where
  "rbusSubscriptions_removeSubscription r s =
     (case map_of (subList r) s of
        None \<Rightarrow> Some r
      | Some sub \<Rightarrow>
          do { root \<leftarrow> eroot (rtree r);
               root \<leftarrow> subscriptionFree s sub root;
               Some (r\<lparr>rtree := (rtree r)\<lparr>eroot := Some root\<rparr>, subList := filter (\<lambda>(q, x). q \<noteq> s) (subList r)\<rparr>) })"

section \<open>Rows\<close>

text \<open>The elements of a new row are linked with the subscriptions that match them.\<close>

fun link_subs :: "addr \<Rightarrow> (addr \<times> rbusSubscription) list \<Rightarrow> elementNode \<Rightarrow> (elementNode \<times> (addr \<times> rbusSubscription) list) run" where
  "link_subs a [] root = Some (root, [])"
| "link_subs a ((s, sub) # subs) root =
     do { b \<leftarrow> (case sub_tokens sub of None \<Rightarrow> Some False | Some ch \<Rightarrow> TokenChain_match root (Some ch) (Some a));
          let (root, sub) = (if b then (addElementSubscription root (Some a) s False, sub\<lparr>sub_instances := sub_instances sub @ [a]\<rparr>)
                             else (root, sub));
          (root, subs) \<leftarrow> link_subs a subs root;
          Some (root, (s, sub) # subs) }"

fun onElementCreated :: "elementNode \<Rightarrow> elementNode \<times> (addr \<times> rbusSubscription) list \<Rightarrow>
      (elementNode \<times> (addr \<times> rbusSubscription) list) run"
  and on_elements_created :: "elementNode list \<Rightarrow> elementNode \<times> (addr \<times> rbusSubscription) list \<Rightarrow>
      (elementNode \<times> (addr \<times> rbusSubscription) list) run" where
  "onElementCreated (Element a i ks) st = on_elements_created ks st"
| "on_elements_created [] st = Some st"
| "on_elements_created (child # ks) (root, subs) =
     do { st \<leftarrow> (if ntype child = RBUS_ELEMENT_TYPE_OBJECT then onElementCreated child (root, subs)
                else link_subs (eaddr child) subs root);
          on_elements_created ks st }"

definition rbusSubscriptions_onTableRowAdded :: "registry \<Rightarrow> addr \<Rightarrow> registry run" where
  "rbusSubscriptions_onTableRowAdded r row =
     do { root \<leftarrow> eroot (rtree r);
          n \<leftarrow> node_of row root;
          (root, subs) \<leftarrow> onElementCreated n (root, subList r);
          Some (r\<lparr>rtree := (rtree r)\<lparr>eroot := Some root\<rparr>, subList := subs\<rparr>) }"

text \<open>
  Before a row is deleted, each of its elements is taken out of the instances of the subscriptions;
  a subscription that had it, and by \<open>val\<close> every one after it in the list, is removed.
\<close>

fun unlink_subs :: "(rbusDateTime \<Rightarrow> int) \<Rightarrow> addr \<Rightarrow> addr list \<Rightarrow> bool \<Rightarrow> registry \<Rightarrow> registry run" where
  "unlink_subs mk a [] val r = Some r"
| "unlink_subs mk a (s # ss) val r =
     do { sub \<leftarrow> map_of (subList r) s;
          root \<leftarrow> eroot (rtree r);
          let (r, val) =
            (if a \<in> set (sub_instances sub)
             then (r\<lparr>rtree := (rtree r)\<lparr>eroot := Some (removeElementSubscription root (Some a) s)\<rparr>,
                     subList := upd_sub s (\<lambda>x. x\<lparr>sub_instances := remove1 a (sub_instances x)\<rparr>) (subList r)\<rparr>, True)
             else (r, val));
          r \<leftarrow> (if val
                then do { found \<leftarrow> rbusSubscriptions_getSubscription mk r (sub_listener sub) (sub_eventName sub)
                            (sub_componentId sub) (sub_filter sub) (sub_interval sub) (sub_duration sub) (sub_rawData sub);
                          case found of None \<Rightarrow> Some r | Some q \<Rightarrow> rbusSubscriptions_removeSubscription r q }
                else Some r);
          unlink_subs mk a ss val r }"

fun onElementDeleted :: "(rbusDateTime \<Rightarrow> int) \<Rightarrow> elementNode \<Rightarrow> registry \<Rightarrow> registry run"
  and on_elements_deleted :: "(rbusDateTime \<Rightarrow> int) \<Rightarrow> bool \<Rightarrow> elementNode list \<Rightarrow> registry \<Rightarrow> registry run" where
  "onElementDeleted mk (Element a i ks) r = on_elements_deleted mk (etype i = RBUS_ELEMENT_TYPE_TABLE) ks r"
| "on_elements_deleted mk in_tab [] r = Some r"
| "on_elements_deleted mk in_tab (child # ks) r =
     do { r \<leftarrow> (if ntype child \<noteq> RBUS_ELEMENT_TYPE_OBJECT
               then unlink_subs mk (eaddr child) (map fst (subList r)) False r else Some r);
          r \<leftarrow> (if echildren child \<noteq> [] \<and> \<not> (in_tab \<and> nname child = ''{i}'')
               then onElementDeleted mk child r else Some r);
          on_elements_deleted mk in_tab ks r }"

definition rbusSubscriptions_onTableRowRemoved :: "(rbusDateTime \<Rightarrow> int) \<Rightarrow> registry \<Rightarrow> addr \<Rightarrow> registry run" where
  "rbusSubscriptions_onTableRowRemoved mk r row =
     do { root \<leftarrow> eroot (rtree r); n \<leftarrow> node_of row root; onElementDeleted mk n r }"

end
