(* ===== verification/RB_ElementWalk.thy ===== *)
theory RB_ElementWalk
  imports RB_Subscriptions
begin

text \<open>
  What the subscriptions need to know of the element tree: changing lists of subscriptions leaves
  everything else of it alone, registering elements and adding rows only makes it grow, and what the
  walks over it visit.
\<close>

section \<open>Trees without their subscriptions\<close>

text \<open>Adding and removing subscriptions, and noting who changed a value, leaves everything else of the tree alone.\<close>

abbreviation bare :: "element_info \<Rightarrow> element_info" where "bare i \<equiv> i\<lparr>subscriptions := None, changeComp := None, changeTime := 0\<rparr>"

fun er :: "elementNode \<Rightarrow> elementNode" where
  "er (Element a i ks) = Element a (bare i) (map er ks)"

lemma er_simps [simp]:
  "eaddr (er n) = eaddr n" "einfo (er n) = bare (einfo n)" "echildren (er n) = map er (echildren n)"
  by (cases n; simp)+

lemma addrs_er [simp]: "addrs (er n) = addrs n"
  by (induction n) (simp add: comp_def cong: map_cong)

lemma chain_er: "chain_to a (er n) = map er (chain_to a n)" "chain_among a (map er ks) = map er (chain_among a ks)"
  by (induction a n and a ks rule: chain_to_chain_among.induct) (auto split: list.splits)

lemma named_er [simp]: "named (er n) = named n"
  by (induction n) simp

lemma mirror_er: "mirror (er m) (er n) = mirror m n"
proof (induction m arbitrary: n)
  case (Element a i ks)
  have IH: "mirror (er x) (er y) = mirror x y" if "x \<in> set ks" for x y using Element that by blast
  have 1: "list_all2 twins (map er ks) (map er ls) \<longleftrightarrow> list_all2 twins ks ls" for ls
    using IH by (auto simp: list_all2_conv_all_nth)
  have 3: "(\<exists>c. map er ks = [c] \<and> nname c = ''{i}'' \<and> map er ls \<noteq> [] \<and> nname (hd (map er ls)) = ''{i}'' \<and> (\<forall>l\<in>set (map er ls). mirror c l)) \<longleftrightarrow>
      (\<exists>c. ks = [c] \<and> nname c = ''{i}'' \<and> ls \<noteq> [] \<and> nname (hd ls) = ''{i}'' \<and> (\<forall>l\<in>set ls. mirror c l))" for ls
    using IH by (cases ks; cases ls) auto
  show ?case using 1 [of "echildren n"] 3 [of "echildren n"] by (subst (1 2) mirror_iff) simp
qed

lemma conform_er [simp]: "conform (er n) = conform n"
  by (induction n) (auto simp: template_rows_def mirror_er split: list.split)

lemma tree_inv_er:
  assumes "tree_inv t" "eroot t = Some root" "er root' = er root"
  shows "tree_inv (t\<lparr>eroot := Some root'\<rparr>)"
proof -
  have n: "(\<forall>k\<in>set (echildren n). named k) = (\<forall>k\<in>set (echildren (er n)). named k)" "ntype n = ntype (er n)" for n by simp_all
  have "conform root' = conform root" "addrs root' = addrs root" using assms(3) conform_er addrs_er by metis+
  moreover have "ntype root' = ntype root" "(\<forall>k\<in>set (echildren root'). named k) = (\<forall>k\<in>set (echildren root). named k)"
    using assms(3) n(1) [of root] n(1) [of root'] n(2) [of root] n(2) [of root'] by simp_all
  ultimately show ?thesis using assms(1,2) by (simp add: tree_inv_def)
qed

section \<open>Matching depends on the nodes' information only\<close>

abbreviation keys :: "elementNode list \<Rightarrow> element_info list" where "keys ns \<equiv> map (\<lambda>n. bare (einfo n)) ns"

definition node_types :: "element_info list \<Rightarrow> (rbusElementType \<times> rbusElementType option) option" where
  "node_types ks = (case ks of [] \<Rightarrow> None | [k] \<Rightarrow> Some (etype k, None) | k # l # _ \<Rightarrow> Some (etype k, Some (etype l)))"

lemma token_node_types:
  "map_option (\<lambda>(n, p). (ntype n, map_option ntype p)) (token_node root tok) = node_types (rev (keys (chain_to (tnode tok) root)))"
  unfolding token_node_def node_types_def rev_map by (simp split: list.split)

lemma bare_eqD: "bare i = bare j \<Longrightarrow> ename i = ename j \<and> etype i = etype j \<and> ealias i = ealias j"
  by (cases i; cases j) simp

lemma match_loop_keys:
  "(\<forall>tok\<in>set toks. keys (chain_to (tnode tok) root) = keys (chain_to (tnode tok) root')) \<Longrightarrow> keys insts = keys insts' \<Longrightarrow>
   match_loop root buf toks insts rc = match_loop root' buf toks insts' rc"
proof (induction toks arbitrary: insts insts' rc)
  case Nil
  then show ?case by (cases insts rule: list.exhaust [case_names N C]; cases "tl insts")
      (auto simp: map_eq_Cons_conv Cons_eq_map_conv)
next
  case (Cons tok toks)
  consider "insts = []" "insts' = []" | x x' where "insts = [x]" "insts' = [x']"
    | inst parent ns inst' parent' ns' where "insts = inst # parent # ns" "insts' = inst' # parent' # ns'"
    using arg_cong [OF Cons.prems(2), of length] by (cases insts; cases insts'; cases "tl insts"; cases "tl insts'") auto
  then show ?case
  proof cases
    case (3 inst parent ns inst' parent' ns')
    have b: "bare (einfo inst) = bare (einfo inst')" "bare (einfo parent) = bare (einfo parent')" "keys (parent # ns) = keys (parent' # ns')"
      using Cons.prems(2) 3 by simp_all
    have e: "nname inst' = nname inst" "ntype inst' = ntype inst" "ealias (einfo inst') = ealias (einfo inst)" "ntype parent' = ntype parent"
      using bare_eqD [OF b(1)] bare_eqD [OF b(2)] by simp_all
    have "keys (chain_to (tnode tok) root) = keys (chain_to (tnode tok) root')" using Cons.prems(1) by simp
    then have t: "map_option (\<lambda>(n, p). (ntype n, map_option ntype p)) (token_node root tok) =
        map_option (\<lambda>(n, p). (ntype n, map_option ntype p)) (token_node root' tok)"
      by (simp only: token_node_types)
    have IH: "match_loop root buf toks (parent # ns) rc' = match_loop root' buf toks (parent' # ns') rc'" for rc'
      using Cons.IH [OF _ b(3)] Cons.prems(1) by simp
    show ?thesis
    proof (cases "token_node root tok")
      case None
      then show ?thesis using t 3 by simp
    next
      case (Some np)
      obtain n p where np: "np = (n, p)" by (cases np)
      obtain n' p' where n: "token_node root' tok = Some (n', p')" "ntype n' = ntype n" "map_option ntype p' = map_option ntype p"
        using t Some np by (cases "token_node root' tok") auto
      have "(case p of None \<Rightarrow> False | Some p \<Rightarrow> ntype p = RBUS_ELEMENT_TYPE_TABLE) = (case p' of None \<Rightarrow> False | Some p \<Rightarrow> ntype p = RBUS_ELEMENT_TYPE_TABLE)"
        using n(3) by (cases p; cases p') auto
      moreover have "match_loop root buf toks (parent # ns) = match_loop root' buf toks (parent' # ns')" using IH by blast
      ultimately show ?thesis unfolding 3 match_loop.simps using Some np n(1,2) e by (cases "ttype tok") (simp_all cong: if_cong)
    qed
  qed simp_all
qed

lemma match_keys:
  assumes "\<forall>tok\<in>set (ttokens ch). keys (chain_to (tnode tok) root) = keys (chain_to (tnode tok) root')"
    "keys (chain_to a root) = keys (chain_to a root')"
  shows "TokenChain_match root (Some ch) (Some a) = TokenChain_match root' (Some ch) (Some a)"
  using match_loop_keys [of "rev (ttokens ch)" root root' "rev (chain_to a root)" "rev (chain_to a root')"] assms
  by (simp add: TokenChain_match_def rev_map [symmetric])

lemma keys_er: "keys (chain_to a (er n)) = keys (chain_to a n)"
  by (simp add: chain_er)

lemma match_er:
  assumes "er root = er root'"
  shows "TokenChain_match root tokens a = TokenChain_match root' tokens a"
proof (cases tokens; cases a)
  fix ch b assume "tokens = Some ch" "a = Some b"
  then show ?thesis using match_keys [of ch root root' b] keys_er assms by metis
qed (simp_all add: TokenChain_match_def)

section \<open>The lists of subscriptions of the nodes\<close>

fun info_of :: "addr \<Rightarrow> elementNode \<Rightarrow> element_info option"
  and info_among :: "addr \<Rightarrow> elementNode list \<Rightarrow> element_info option" where
  "info_of b (Element a i ks) = (if b = a then Some i else info_among b ks)"
| "info_among b [] = None"
| "info_among b (k # ks) = (case info_of b k of None \<Rightarrow> info_among b ks | Some i \<Rightarrow> Some i)"

lemma info_of_node:
  "info_of b n = map_option einfo (node_of b n)"
  "info_among b ks = (case chain_among b ks of [] \<Rightarrow> None | c # cs \<Rightarrow> Some (einfo (last (c # cs))))"
  by (induction b n and b ks rule: info_of_info_among.induct) (auto simp: node_of_def split: list.splits)

lemma info_of_upd:
  "info_of b (upd_node a (upd_info f) n) = (if b = a then map_option f (info_of b n) else info_of b n)"
  "info_among b (map (upd_node a (upd_info f)) ks) = (if b = a then map_option f (info_among b ks) else info_among b ks)"
  by (induction b n and b ks rule: info_of_info_among.induct) (auto simp: upd_info_def split: option.splits)

definition subs_of :: "addr \<Rightarrow> elementNode \<Rightarrow> addr list" where
  "subs_of a root = (case info_of a root of None \<Rightarrow> [] | Some i \<Rightarrow> (case subscriptions i of None \<Rightarrow> [] | Some l \<Rightarrow> l))"

lemma er_upd: "(\<And>i. bare (f i) = bare i) \<Longrightarrow> er (upd_node a (upd_info f) n) = er n"
  by (induction n) (simp add: upd_info_def)

lemma er_add [simp]: "er (addElementSubscription root (Some a) s c) = er root"
  unfolding addElementSubscription_def option.case by (rule er_upd) (simp split: option.split)

lemma er_remove [simp]: "er (removeElementSubscription root (Some a) s) = er root"
  unfolding removeElementSubscription_def option.case by (rule er_upd) (simp add: Let_def split: option.split)

lemma er_addrs: "er root = er root' \<Longrightarrow> addrs root = addrs root'"
  using addrs_er by metis

lemma info_of_inside: "a \<in> set (addrs n) \<longleftrightarrow> info_of a n \<noteq> None"
  using chain_to_inside(1) [of a n] chain_to_outside(1) [of a n]
  by (cases "a \<in> set (addrs n)") (auto simp: info_of_node node_of_def split: list.splits)

lemma subs_of_add:
  "a \<in> set (addrs root) \<Longrightarrow> subs_of b (addElementSubscription root (Some a) s False) = subs_of b root @ (if b = a then [s] else [])"
  unfolding info_of_inside by (auto simp: subs_of_def addElementSubscription_def info_of_upd split: option.split)

lemma subs_of_remove: "subs_of b (removeElementSubscription root (Some a) s) = (if b = a then remove1 s (subs_of b root) else subs_of b root)"
  by (auto simp: subs_of_def removeElementSubscription_def info_of_upd Let_def remove1_idem split: option.split)

definition link_all :: "addr \<Rightarrow> addr list \<Rightarrow> elementNode \<Rightarrow> elementNode" where
  "link_all s as root = fold (\<lambda>a r. addElementSubscription r (Some a) s False) as root"

lemma link_all_simps [simp]: "link_all s [] root = root"
  "link_all s (a # as) root = link_all s as (addElementSubscription root (Some a) s False)"
  "link_all s (as @ bs) root = link_all s bs (link_all s as root)"
  by (simp_all add: link_all_def)

lemma er_link_all [simp]: "er (link_all s as root) = er root"
  by (induction as arbitrary: root) simp_all

lemma subs_of_link_all:
  "set as \<subseteq> set (addrs root) \<Longrightarrow> distinct as \<Longrightarrow> subs_of b (link_all s as root) = subs_of b root @ (if b \<in> set as then [s] else [])"
proof (induction as arbitrary: root)
  case (Cons a as)
  have "addrs (addElementSubscription root (Some a) s False) = addrs root" by (rule er_addrs) simp
  then show ?case using Cons.IH [of "addElementSubscription root (Some a) s False"] Cons.prems subs_of_add [of a root b s] by auto
qed simp

section \<open>Growing trees\<close>

lemma list_all2_right: "list_all2 P xs ys \<Longrightarrow> y \<in> set ys \<Longrightarrow> \<exists>x\<in>set xs. P x y"
  by (induction rule: list_all2_induct) auto

fun infos :: "elementNode \<Rightarrow> (addr \<times> element_info) list" where
  "infos (Element a i ks) = (a, i) # concat (map infos ks)"

lemma fst_infos [simp]: "map fst (infos n) = addrs n"
  by (induction n) (simp add: map_concat comp_def cong: map_cong)

lemma info_of_infos: "info_of b n = map_of (infos n) b" "info_among b ks = map_of (concat (map infos ks)) b"
  by (induction b n and b ks rule: info_of_info_among.induct) (auto simp: map_add_def split: option.split)

lemma info_of_iff: "distinct (addrs n) \<Longrightarrow> info_of a n = Some i \<longleftrightarrow> (a, i) \<in> set (infos n)"
  unfolding info_of_infos by (rule map_of_eq_Some_iff) simp

fun unsubscribed :: "elementNode \<Rightarrow> bool" where
  "unsubscribed (Element a i ks) \<longleftrightarrow> subscriptions i = None \<and> (\<forall>k\<in>set ks. unsubscribed k)"

lemma unsubscribed_iff: "unsubscribed n \<longleftrightarrow> subscriptions (einfo n) = None \<and> (\<forall>k\<in>set (echildren n). unsubscribed k)"
  by (cases n) simp

lemma unsubscribed_infos: "unsubscribed n \<Longrightarrow> (a, i) \<in> set (infos n) \<Longrightarrow> subscriptions i = None"
  by (induction n) auto

text \<open>The children of tables are objects.\<close>

fun obj_rows :: "elementNode \<Rightarrow> bool" where
  "obj_rows (Element a i ks) \<longleftrightarrow> (\<forall>k\<in>set ks. (etype i = RBUS_ELEMENT_TYPE_TABLE \<longrightarrow> ntype k = RBUS_ELEMENT_TYPE_OBJECT) \<and> obj_rows k)"

lemma obj_rows_iff: "obj_rows n \<longleftrightarrow>
    (\<forall>k\<in>set (echildren n). (ntype n = RBUS_ELEMENT_TYPE_TABLE \<longrightarrow> ntype k = RBUS_ELEMENT_TYPE_OBJECT) \<and> obj_rows k)"
  by (cases n) simp

lemma obj_rows_chain: "obj_rows n \<Longrightarrow> x \<in> set (chain_to a n) \<Longrightarrow> obj_rows x"
proof (induction n)
  case (Element b i ks)
  then show ?case using chain_to_cases [OF Element.prems(2)] by auto
qed

definition fresh :: "rbusElementType \<Rightarrow> elementNode \<Rightarrow> bool" where
  "fresh ty k \<longleftrightarrow> unsubscribed k \<and> obj_rows k \<and> (ty = RBUS_ELEMENT_TYPE_TABLE \<longrightarrow> ntype k = RBUS_ELEMENT_TYPE_OBJECT)"

text \<open>A tree grows when nodes without subscriptions are appended to the children of some of its nodes.\<close>

fun grows :: "elementNode \<Rightarrow> elementNode \<Rightarrow> bool" where
  "grows (Element a i ks) n \<longleftrightarrow> eaddr n = a \<and> einfo n = i \<and>
     (\<exists>ks' new. echildren n = ks' @ new \<and> list_all2 grows ks ks' \<and> (\<forall>k\<in>set new. fresh (etype i) k))"

lemma grows_iff: "grows n n' \<longleftrightarrow> eaddr n' = eaddr n \<and> einfo n' = einfo n \<and>
    (\<exists>ks new. echildren n' = ks @ new \<and> list_all2 grows (echildren n) ks \<and> (\<forall>k\<in>set new. fresh (ntype n) k))"
  by (cases n) simp

lemma growsI:
  assumes "eaddr n' = eaddr n" "einfo n' = einfo n" "echildren n' = ks @ new" "list_all2 grows (echildren n) ks"
    "\<forall>k\<in>set new. fresh (ntype n) k"
  shows "grows n n'"
  unfolding grows_iff [of n n'] using assms by blast

lemma tree_grows_refl [simp, intro]: "grows n n"
proof (induction n)
  case (Element a i ks)
  then have "list_all2 grows ks ks" by (simp add: list_all2_same)
  then show ?case by (intro growsI [of _ _ ks "[]"]) simp_all
qed

lemma grows_with:
  "list_all2 grows (echildren n) ks \<Longrightarrow> \<forall>k\<in>set new. fresh (ntype n) k \<Longrightarrow> grows n (with_children (ks @ new) n)"
  by (rule growsI [of _ _ ks new]) simp_all

lemma grows_child: "echildren n = pre @ c # post \<Longrightarrow> grows c c' \<Longrightarrow> grows n (with_children (pre @ c' # post) n)"
  using grows_with [of n "pre @ c' # post" "[]"] by (simp add: list_all2_appendI list_all2_same)

lemma grows_new: "fresh (ntype n) c \<Longrightarrow> grows n (with_children (echildren n @ [c]) n)"
  by (rule grows_with) (simp_all add: list_all2_same)

lemma unsubscribed_grows: "grows n n' \<Longrightarrow> unsubscribed n \<Longrightarrow> unsubscribed n'"
proof (induction n arbitrary: n')
  case (Element a i ks)
  then obtain ks' new where n': "einfo n' = i" "echildren n' = ks' @ new" "list_all2 grows ks ks'" "\<forall>k\<in>set new. fresh (etype i) k"
    by auto
  have "\<forall>k\<in>set ks'. unsubscribed k" using list_all2_right [OF n'(3)] Element.IH Element.prems(2) by fastforce
  then show ?case using n' Element.prems(2) by (simp add: unsubscribed_iff [of n'] ball_Un fresh_def)
qed

lemma obj_rows_grows: "grows n n' \<Longrightarrow> obj_rows n \<Longrightarrow> obj_rows n'"
proof (induction n arbitrary: n')
  case (Element a i ks)
  then obtain ks' new where n': "einfo n' = i" "echildren n' = ks' @ new" "list_all2 grows ks ks'" "\<forall>k\<in>set new. fresh (etype i) k"
    by auto
  have "(etype i = RBUS_ELEMENT_TYPE_TABLE \<longrightarrow> ntype k' = RBUS_ELEMENT_TYPE_OBJECT) \<and> obj_rows k'" if k': "k' \<in> set ks'" for k'
  proof -
    obtain k where k: "k \<in> set ks" "grows k k'" using list_all2_right [OF n'(3) k'] by blast
    then show ?thesis using Element.IH [OF k] Element.prems(2) grows_iff [of k k'] by simp
  qed
  then show ?case using n' by (simp add: obj_rows_iff [of n'] ball_Un fresh_def)
qed

lemma fresh_grows: "grows n n' \<Longrightarrow> fresh ty n \<Longrightarrow> fresh ty n'"
  using unsubscribed_grows obj_rows_grows grows_iff [of n n'] by (auto simp: fresh_def)

lemma tree_grows_trans: "grows n n' \<Longrightarrow> grows n' n'' \<Longrightarrow> grows n n''"
proof (induction n arbitrary: n' n'')
  case (Element a i ks)
  obtain ks' new where n': "eaddr n' = a" "einfo n' = i" "echildren n' = ks' @ new" "list_all2 grows ks ks'"
    "\<forall>k\<in>set new. fresh (etype i) k" using Element.prems(1) by auto
  obtain ls new2 where n'': "eaddr n'' = a" "einfo n'' = i" "echildren n'' = ls @ new2" "list_all2 grows (ks' @ new) ls"
    "\<forall>k\<in>set new2. fresh (etype i) k" using Element.prems(2) n' unfolding grows_iff [of n' n''] by auto
  obtain ls1 ls2 where ls: "ls = ls1 @ ls2" "list_all2 grows ks' ls1" "list_all2 grows new ls2"
    using n''(4) by (auto simp: list_all2_append1)
  have "list_all2 grows ks ls1" using n'(4) ls(2) Element.IH by (auto simp: list_all2_conv_all_nth)
  moreover have "\<forall>k\<in>set ls2. fresh (etype i) k" using list_all2_right [OF ls(3)] n'(5) fresh_grows by blast
  ultimately show ?case using n'' ls(1) by (intro growsI [of _ _ ls1 "ls2 @ new2"]) auto
qed

lemma unsubscribed_duplicate:
  "duplicateNode pn n name nx = Some (d, nx') \<Longrightarrow> unsubscribed d"
  "duplicateChildren pn ks nx = Some (ds, nx') \<Longrightarrow> \<forall>d\<in>set ds. unsubscribed d"
  by (induction pn n name nx and pn ks nx arbitrary: d nx' and ds nx' rule: duplicateNode_duplicateChildren.induct)
    (fastforce simp: Option.bind_eq_Some_conv)+

lemma obj_rows_duplicate:
  "duplicateNode pn n name nx = Some (d, nx') \<Longrightarrow> ntype d = ntype n \<and> (obj_rows n \<longrightarrow> obj_rows d)"
  "duplicateChildren pn ks nx = Some (ds, nx') \<Longrightarrow> list_all2 (\<lambda>k d. ntype d = ntype k \<and> (obj_rows k \<longrightarrow> obj_rows d)) ks ds"
proof (induction pn n name nx and pn ks nx arbitrary: d nx' and ds nx' rule: duplicateNode_duplicateChildren.induct)
  case (1 pn a i ks name nx)
  obtain full cs where cs: "join_name pn name = Some full" "duplicateChildren (Some full) ks (nx + 1) = Some (cs, nx')"
    "einfo d = einfo d\<lparr>etype := etype i\<rparr>" "echildren d = cs"
    using "1.prems" by (auto simp: Option.bind_eq_Some_conv)
  have "\<exists>k\<in>set ks. ntype c = ntype k \<and> (obj_rows k \<longrightarrow> obj_rows c)" if "c \<in> set cs" for c
    using list_all2_right [OF "1.IH" [OF cs(1,2)] that] .
  moreover have "ntype d = etype i" using arg_cong [OF cs(3), of etype] by simp
  ultimately show ?case unfolding obj_rows_iff [of d] cs(4) by fastforce
qed (fastforce simp: Option.bind_eq_Some_conv)+

lemma fresh_duplicate:
  "duplicateNode pn n name nx = Some (d, nx') \<Longrightarrow> obj_rows n \<Longrightarrow> ty = RBUS_ELEMENT_TYPE_TABLE \<longrightarrow> ntype n = RBUS_ELEMENT_TYPE_OBJECT \<Longrightarrow> fresh ty d"
  using unsubscribed_duplicate(1) obj_rows_duplicate(1) by (fastforce simp: fresh_def)

lemma unsubscribed_new_child [simp]: "unsubscribed (new_child a full tok)"
  by (simp add: new_child_def upd_info_def getEmptyElementNode_def)

lemma unsubscribed_with: "unsubscribed n \<Longrightarrow> \<forall>k\<in>set ks. unsubscribed k \<Longrightarrow> unsubscribed (with_children ks n)"
  by (cases n) (simp add: with_children_def)

lemma unsubscribed_insert: "insert_walk e b toks n nx = Some (n', nx', a) \<Longrightarrow> unsubscribed n \<Longrightarrow> unsubscribed n'"
proof (induction toks arbitrary: b n nx n' nx' a)
  case Nil
  then show ?case by (cases n) (auto simp: set_element_def Let_def Option.bind_eq_Some_conv split: if_splits)
next
  case (Cons tok toks)
  from Cons.prems(1) show ?case
  proof (cases rule: insert_step)
    case (old pre c post c')
    then have "unsubscribed c'" using Cons.IH [OF old(4)] Cons.prems(2) by (simp add: unsubscribed_iff [of n])
    then show ?thesis using old Cons.prems(2) by (auto simp: unsubscribed_iff [of n] intro!: unsubscribed_with)
  next
    case (new full c')
    then have "unsubscribed c'" using Cons.IH [OF new(3)] by simp
    then show ?thesis using new Cons.prems(2) by (auto simp: unsubscribed_iff [of n] intro!: unsubscribed_with)
  qed
qed

lemma obj_rows_insert:
  "insert_walk e b toks n nx = Some (n', nx', a) \<Longrightarrow> echildren n = [] \<Longrightarrow> ntype n = RBUS_ELEMENT_TYPE_OBJECT \<Longrightarrow> obj_rows n'"
proof (induction toks arbitrary: b n nx n' nx' a)
  case Nil
  then show ?case by (cases n)
      (auto simp: set_element_def Let_def Option.bind_eq_Some_conv new_child_def upd_info_def getEmptyElementNode_def split: if_splits)
next
  case (Cons tok toks)
  from Cons.prems(1) show ?case
  proof (cases rule: insert_step)
    case (old pre c post c')
    then show ?thesis using Cons.prems(2) by simp
  next
    case (new full c')
    then have "obj_rows c'" using Cons.IH [OF new(3)] by (simp add: new_child_def upd_info_def getEmptyElementNode_def)
    then show ?thesis using new Cons.prems(2,3) by (simp add: obj_rows_iff [of "with_children _ n"])
  qed
qed

lemma grows_insert: "insert_walk e b toks n nx = Some (n', nx', a) \<Longrightarrow> new_path toks n \<Longrightarrow> grows n n'"
proof (induction toks arbitrary: b n nx n' nx' a)
  case (Cons tok toks)
  from Cons.prems(1) show ?case
  proof (cases rule: insert_step)
    case (old pre c post c')
    then have "grows c c'" using Cons.IH [OF old(4)] Cons.prems(2) by simp
    then show ?thesis using old grows_child by simp
  next
    case (new full c')
    then have "unsubscribed c'" using unsubscribed_insert [OF new(3)] by simp
    moreover have "obj_rows c'" using obj_rows_insert [OF new(3)] by (simp add: new_child_def upd_info_def getEmptyElementNode_def)
    moreover have "ntype n \<noteq> RBUS_ELEMENT_TYPE_TABLE" using Cons.prems(2) new(5) by simp
    ultimately show ?thesis using new grows_new by (simp add: fresh_def)
  qed
qed simp

lemma grows_replicate:
  "replicateInternal ss n nx = Some (n', nx') \<Longrightarrow> \<forall>s\<in>set ss. obj_rows s \<Longrightarrow> grows n n'"
  "replicateRows ss ks nx = Some (ks', nx') \<Longrightarrow> \<forall>s\<in>set ss. obj_rows s \<Longrightarrow> list_all2 grows ks ks'"
proof (induction ss n nx and ss ks nx arbitrary: n' nx' and ks' nx' rule: replicateInternal_replicateRows.induct)
  case (2 s ss current nx)
  show ?case
  proof (cases "ntype current = RBUS_ELEMENT_TYPE_TABLE")
    case True
    then show ?thesis using 2 grows_with [of current _ "[]"] by (auto simp: Option.bind_eq_Some_conv)
  next
    case False
    show ?thesis
    proof (cases "List.extract (\<lambda>c. nname c = nname s) (echildren current)")
      case None
      obtain d where "duplicateNode (efullName (einfo current)) s (nname s) nx = Some (d, nx')" "n' = with_children (echildren current @ [d]) current"
        using None False "2.prems"(1) by (auto simp: Option.bind_eq_Some_conv)
      then show ?thesis using fresh_duplicate [of _ s _ nx d nx' "ntype current"] "2.prems"(2) False grows_new by simp
    next
      case (Some x)
      obtain pre c post where x: "x = (pre, c, post)" by (cases x)
      then show ?thesis using False Some "2.prems" "2.IH"(2) [OF False Some x [symmetric]] grows_child extract_SomeD [of _ _ pre c post]
        by (fastforce simp: Option.bind_eq_Some_conv)
    qed
  qed
qed (fastforce simp: Option.bind_eq_Some_conv)+

lemma grows_instances: "replicate_instances ss ks nx = Some (ks', nx') \<Longrightarrow> \<forall>s\<in>set ss. obj_rows s \<Longrightarrow> list_all2 grows ks ks'"
  by (induction ss ks nx arbitrary: ks' nx' rule: replicate_instances.induct)
    (auto simp: Option.bind_eq_Some_conv dest: grows_replicate(1) split: if_splits)

lemma grows_upd:
  "distinct (addrs n) \<Longrightarrow> node_of a n = Some T \<Longrightarrow> grows T (f T) \<Longrightarrow> grows n (upd_node a f n)"
proof (induction n)
  case (Element b i ks)
  let ?n = "Element b i ks"
  show ?case
  proof (cases "a = b")
    case True
    then have T: "T = ?n" using Element.prems(2) by (simp add: node_of_def)
    show ?thesis using Element.prems(3) True unfolding T by simp
  next
    case False
    obtain pre k post where k: "echildren ?n = pre @ k # post" "a \<in> set (addrs k)" "k \<in> set ks"
      using child_with [of a ?n] node_of_SomeD [OF Element.prems(2)] False by auto
    have "grows k (upd_node a f k)"
      using Element.IH [OF k(3)] distinct_child [OF Element.prems(1)] k(3) node_of_child [OF Element.prems(1) k(1,2)] Element.prems by simp
    then show ?thesis using upd_node_child [OF Element.prems(1) k(1,2)] grows_child [OF k(1)] by simp
  qed
qed

lemma node_of_last: "chain_to a n = xs @ [x] \<Longrightarrow> node_of a n = Some x"
  by (cases xs) (simp_all add: node_of_def)

lemma grows_across:
  assumes "replicateAcrossTableRowInstances a n nx = Some (n', nx')" "distinct (addrs n)" "obj_rows n"
  shows "grows n n'"
proof -
  let ?ch = "chain_to a n"
  show ?thesis
  proof (cases "List.extract in_table (zip ?ch (tl ?ch))")
    case None
    then show ?thesis using assms(1) by (simp add: replicateAcrossTableRowInstances_def)
  next
    case (Some x)
    obtain pre T row rest where x: "x = (pre, (T, row), rest)" by (metis prod.collapse)
    obtain ks where ks: "replicate_instances (map snd rest) (echildren T) nx = Some (ks, nx')"
      "n' = upd_node (eaddr T) (with_children ks) n"
      using assms(1) Some x by (auto simp: replicateAcrossTableRowInstances_def Option.bind_eq_Some_conv)
    have "(T, row) \<in> set (zip ?ch (tl ?ch))" using extract_SomeD [OF Some [unfolded x]] by (metis in_set_conv_decomp)
    then obtain xs ys where "?ch = xs @ T # ys" using set_zip_leftD by (metis split_list)
    then have "node_of (eaddr T) n = Some T" using chain_prefix [OF assms(2)] node_of_last by blast
    moreover have "\<forall>s\<in>set (map snd rest). obj_rows s"
    proof clarsimp
      fix p s assume "(p, s) \<in> set rest"
      then have "(p, s) \<in> set (zip ?ch (tl ?ch))" using extract_SomeD [OF Some [unfolded x]] by auto
      then have "s \<in> set ?ch" by (metis list.set_sel(2) set_zip_rightD tl_Nil)
      then show "obj_rows s" using obj_rows_chain [OF assms(3)] by blast
    qed
    ultimately show ?thesis unfolding ks(2) using grows_upd [OF assms(2)] grows_with [OF grows_instances [OF ks(1)], of "[]"] by simp
  qed
qed

text \<open>Registering an element whose name is new and adding a row make the tree grow.\<close>

lemma grows_insertElement:
  assumes "tree_inv t" "eroot t = Some root" "new_path (element_tokens e) root" "insertElement t (Some e) = Some (res, t')" "eroot t' = Some root'"
    and rows: "obj_rows root"
  shows "grows root root'"
proof -
  have r: "\<forall>k\<in>set (echildren root). named k" "distinct (addrs root)" "\<forall>a\<in>set (addrs root). a < enext t"
    using assms(1,2) by (simp_all add: tree_inv_def)
  have "element_tokens e \<noteq> []" using assms(3) by auto
  then obtain n nx a where n: "insert_walk e True (element_tokens e) root (enext t) = Some (n, nx, a)" "renewed (addrs root) (enext t) (addrs n) nx"
    using insert_walk_ok [of True root "element_tokens e" e "enext t"] r(1) by auto
  have "distinct (addrs n)" using renewed_distinct [OF n(2) r(2,3)] .
  moreover obtain nx' where "replicateAcrossTableRowInstances a n nx = Some (root', nx')"
    using assms(2,4,5) n(1) by (auto simp: insertElement_def Let_def element_tokens_def Option.bind_eq_Some_conv)
  ultimately show ?thesis using grows_insert [OF n(1) assms(3)] obj_rows_grows rows grows_across tree_grows_trans by blast
qed

lemma grows_row:
  assumes "instantiateTableRow t (Some a) num al = Some (res, t')" "eroot t = Some root" "distinct (addrs root)" "eroot t' = Some root'" "obj_rows root"
  shows "grows root root'"
proof -
  obtain T m d nx where d: "node_of a root = Some T" "duplicateNode (efullName (einfo T)) m (take 31 (decimal (unat num))) (enext t) = Some (d, nx)"
    "root' = upd_node a (with_children (echildren T @ [if al = None then d else upd_info (\<lambda>i. i\<lparr>ealias := al\<rparr>) d])) root"
    "m \<in> set (echildren T)"
    using assms(1,2,4) by (auto simp: instantiateTableRow_def Let_def Option.bind_eq_Some_conv find_Some_iff)
  have "obj_rows T" using obj_rows_chain [OF assms(5) node_of_chain [OF d(1)]] .
  then have "fresh (ntype T) d" using fresh_duplicate [OF d(2)] d(4) obj_rows_iff [of T] by simp
  then have "fresh (ntype T) (if al = None then d else upd_info (\<lambda>i. i\<lparr>ealias := al\<rparr>) d)" by (cases d) (simp add: upd_info_def fresh_def)
  then show ?thesis unfolding d(3) using grows_upd [OF assms(3) d(1)] grows_new by blast
qed

lemma growsE:
  assumes "grows (Element a i ks) n"
  obtains ks' new where "n = Element a i (ks' @ new)" "\<forall>k\<in>set ks. \<exists>k'\<in>set ks'. grows k k'"
    "\<forall>k'\<in>set ks'. \<exists>k\<in>set ks. grows k k'" "\<forall>k\<in>set new. fresh (etype i) k"
proof -
  obtain ks' new where n: "n = Element a i (ks' @ new)" "list_all2 grows ks ks'" "\<forall>k\<in>set new. fresh (etype i) k"
    using assms by (cases n) auto
  have "list_all2 (\<lambda>x y. grows y x) ks' ks" using n(2) by (simp add: list_all2_conv_all_nth)
  then show thesis using that n list_all2_right [of grows ks ks'] list_all2_right [of "\<lambda>x y. grows y x" ks' ks] by blast
qed

lemma grows_infos: "grows n n' \<Longrightarrow> p \<in> set (infos n) \<Longrightarrow> p \<in> set (infos n')"
proof (induction n arbitrary: n')
  case (Element a i ks)
  then show ?case by (elim growsE) fastforce
qed

lemma grows_infos_new: "grows n n' \<Longrightarrow> (a, i) \<in> set (infos n') \<Longrightarrow> (a, i) \<in> set (infos n) \<or> subscriptions i = None"
proof (induction n arbitrary: n')
  case (Element b j ks)
  obtain ks' new where n': "n' = Element b j (ks' @ new)" "\<forall>k'\<in>set ks'. \<exists>k\<in>set ks. grows k k'" "\<forall>k\<in>set new. fresh (etype j) k"
    using Element.prems(1) by (rule growsE)
  from Element.prems(2) consider "(a, i) = (b, j)" | k where "k \<in> set ks'" "(a, i) \<in> set (infos k)" | k where "k \<in> set new" "(a, i) \<in> set (infos k)"
    using n'(1) by auto
  then show ?case
  proof cases
    case (2 k)
    then obtain k0 where k0: "k0 \<in> set ks" "grows k0 k" using n'(2) by blast
    show ?thesis using Element.IH [OF k0 2(2)] k0(1) by auto
  next
    case (3 k)
    then show ?thesis using n'(3) unsubscribed_infos [of k a i] by (simp add: fresh_def)
  qed simp
qed

lemma subs_of_grows:
  assumes "grows n n'" "distinct (addrs n)" "distinct (addrs n')"
  shows "subs_of a n' = subs_of a n"
proof (cases "info_of a n")
  case None
  then have "subscriptions i = None" if "info_of a n' = Some i" for i
    using that grows_infos_new [OF assms(1), of a i] info_of_iff [OF assms(2), of a i] info_of_iff [OF assms(3), of a i] by simp
  then show ?thesis using None by (simp add: subs_of_def split: option.split)
next
  case (Some i)
  then have "info_of a n' = Some i"
    using grows_infos [OF assms(1), of "(a, i)"] info_of_iff [OF assms(2), of a i] info_of_iff [OF assms(3), of a i] by simp
  then show ?thesis using Some by (simp add: subs_of_def)
qed

section \<open>What a walk over the tree visits\<close>

fun visited :: "elementNode \<Rightarrow> elementNode list"
  and visited_children :: "bool \<Rightarrow> elementNode list \<Rightarrow> elementNode list" where
  "visited (Element a i ks) = visited_children (etype i = RBUS_ELEMENT_TYPE_TABLE) ks"
| "visited_children t [] = []"
| "visited_children t (k # ks) =
     k # (if echildren k \<noteq> [] \<and> \<not> (t \<and> nname k = ''{i}'') then visited k else []) @ visited_children t ks"

definition typed :: "elementNode \<Rightarrow> bool" where
  "typed k \<longleftrightarrow> ntype k \<noteq> RBUS_ELEMENT_TYPE_OBJECT"

definition hits :: "elementNode \<Rightarrow> TokenChain option \<Rightarrow> elementNode list \<Rightarrow> addr list" where
  "hits root tokens ns = map eaddr (filter (\<lambda>k. typed k \<and> TokenChain_match root tokens (Some (eaddr k)) = Some True) ns)"

definition decided :: "elementNode \<Rightarrow> TokenChain option \<Rightarrow> elementNode list \<Rightarrow> bool" where
  "decided root tokens ns \<longleftrightarrow> (\<forall>k\<in>set ns. typed k \<longrightarrow> TokenChain_match root tokens (Some (eaddr k)) \<noteq> None)"

lemma hits_simps [simp]: "hits root tokens [] = []"
  "hits root tokens (k # ns) = (if typed k \<and> TokenChain_match root tokens (Some (eaddr k)) = Some True then [eaddr k] else []) @ hits root tokens ns"
  "hits root tokens (ms @ ns) = hits root tokens ms @ hits root tokens ns"
  by (simp_all add: hits_def)

lemma decided_simps [simp]: "decided root tokens []"
  "decided root tokens (k # ns) \<longleftrightarrow> (typed k \<longrightarrow> TokenChain_match root tokens (Some (eaddr k)) \<noteq> None) \<and> decided root tokens ns"
  "decided root tokens (ms @ ns) \<longleftrightarrow> decided root tokens ms \<and> decided root tokens ns"
  by (auto simp: decided_def)


lemma created_iff:
  "er root0 = er root \<Longrightarrow> onSubscriptionCreated s tokens n (root0, insts) =
     (if decided root tokens (visited n)
      then Some (link_all s (hits root tokens (visited n)) root0, insts @ hits root tokens (visited n)) else None)"
  "er root0 = er root \<Longrightarrow> on_children_created s tokens t ks (root0, insts) =
     (if decided root tokens (visited_children t ks)
      then Some (link_all s (hits root tokens (visited_children t ks)) root0, insts @ hits root tokens (visited_children t ks)) else None)"
proof (induction n and t ks arbitrary: root0 insts and root0 insts rule: visited_visited_children.induct)
  case (3 t k ks)
  have m: "TokenChain_match root0 tokens (Some (eaddr k)) = TokenChain_match root tokens (Some (eaddr k))"
    using match_er "3.prems" by blast
  show ?case
  proof (cases "TokenChain_match root tokens (Some (eaddr k))")
    case None
    then show ?thesis using "3.IH" "3.prems" m by (auto simp: typed_def split: if_splits)
  next
    case (Some b)
    then show ?thesis using "3.IH" "3.prems" m by (cases b) (auto simp: typed_def split: if_splits)
  qed
qed simp_all

text \<open>Where a subscription can be linked: the nodes that have a type and are not below a row template.\<close>

definition shown :: "addr \<Rightarrow> elementNode \<Rightarrow> bool" where
  "shown a root \<longleftrightarrow> (\<exists>k\<in>set (visited root). eaddr k = a \<and> typed k)"

lemma visited_nodes: "k \<in> set (visited n) \<Longrightarrow> (eaddr k, einfo k) \<in> set (concat (map infos (echildren n)))"
  "k \<in> set (visited_children t ks) \<Longrightarrow> (eaddr k, einfo k) \<in> set (concat (map infos ks))"
proof (induction n and t ks rule: visited_visited_children.induct)
  case (3 t k0 ks)
  then show ?case by (cases k0) (auto split: if_splits)
qed simp_all

lemma visited_children_iff:
  "k \<in> set (visited_children t ks) \<longleftrightarrow> (\<exists>c\<in>set ks. k = c \<or> k \<in> set (visited c) \<and> \<not> (t \<and> nname c = ''{i}''))"
proof (induction ks)
  case (Cons c ks)
  then show ?case by (cases c) auto
qed simp

lemma visited_iff:
  "k \<in> set (visited n) \<longleftrightarrow>
     (\<exists>c\<in>set (echildren n). k = c \<or> k \<in> set (visited c) \<and> \<not> (ntype n = RBUS_ELEMENT_TYPE_TABLE \<and> nname c = ''{i}''))"
  by (cases n) (simp add: visited_children_iff)

lemma visited_grows:
  "grows n n' \<Longrightarrow> k \<in> set (visited n) \<Longrightarrow> \<exists>k'\<in>set (visited n'). eaddr k' = eaddr k \<and> einfo k' = einfo k"
proof (induction n arbitrary: n')
  case (Element a i ks)
  obtain ks' new where n': "n' = Element a i (ks' @ new)" "\<forall>k\<in>set ks. \<exists>k'\<in>set ks'. grows k k'"
    using Element.prems(1) by (rule growsE)
  obtain c where c': "c \<in> set ks" "k = c \<or> k \<in> set (visited c) \<and> \<not> (etype i = RBUS_ELEMENT_TYPE_TABLE \<and> nname c = ''{i}'')"
    using Element.prems(2) by (auto simp: visited_children_iff)
  obtain c1 where c1: "c1 \<in> set ks'" "grows c c1" using n'(2) c'(1) by blast
  then have "eaddr c1 = eaddr c" "einfo c1 = einfo c" unfolding grows_iff [of c c1] by simp_all
  moreover then have "k' \<in> set (visited n')" if "k' \<in> set (visited c1)" "k \<noteq> c" for k'
    using that c'(2) c1(1) n'(1) by (auto simp: visited_children_iff)
  moreover have "c1 \<in> set (visited n')" using c1(1) n'(1) by (auto simp: visited_children_iff)
  ultimately show ?case using Element.IH [OF c'(1) c1(2)] c'(2) by metis
qed

lemma shown_grows: "grows n n' \<Longrightarrow> shown a n \<Longrightarrow> shown a n'"
  using visited_grows unfolding shown_def typed_def by metis

lemma visited_er: "visited (er n) = map er (visited n)" "visited_children t (map er ks) = map er (visited_children t ks)"
  by (induction n and t ks rule: visited_visited_children.induct) simp_all

lemma shown_er: "er root = er root' \<Longrightarrow> shown a root = shown a root'"
proof -
  have "shown a (er n) = shown a n" for n by (simp add: shown_def visited_er typed_def)
  then show "er root = er root' \<Longrightarrow> ?thesis" by metis
qed

lemma visited_addrs:
  "set (map eaddr (visited n)) \<subseteq> set (addrs_all (echildren n))" "set (map eaddr (visited_children t ks)) \<subseteq> set (addrs_all ks)"
proof (induction n and t ks rule: visited_visited_children.induct)
  case (3 t k ks)
  then show ?case using addrs_eq [of k] by (auto split: if_splits)
qed simp_all

lemma shown_inside: "shown a n \<Longrightarrow> a \<in> set (addrs n)"
  using visited_addrs(1) [of n] addrs_eq [of n] by (auto simp: shown_def)

lemma visited_distinct:
  "distinct (addrs_all (echildren n)) \<Longrightarrow> distinct (map eaddr (visited n))"
  "distinct (addrs_all ks) \<Longrightarrow> distinct (map eaddr (visited_children t ks))"
proof (induction n and t ks rule: visited_visited_children.induct)
  case (3 t k ks)
  have d: "distinct (addrs_all (echildren k))" "eaddr k \<notin> set (addrs_all (echildren k))" "eaddr k \<notin> set (addrs_all ks)"
    "set (addrs_all (echildren k)) \<inter> set (addrs_all ks) = {}" "distinct (addrs_all ks)"
    using "3.prems" addrs_eq [of k] by auto
  then show ?case using "3.IH" visited_addrs(1) [of k] visited_addrs(2) [of t ks] by (auto simp del: set_concat set_map)
qed simp_all

lemma hits_shown: "a \<in> set (hits root tokens (visited root)) \<Longrightarrow> shown a root"
  by (auto simp: hits_def shown_def)

lemma hits_distinct: "distinct (addrs root) \<Longrightarrow> distinct (hits root tokens (visited root))"
  using visited_distinct(1) [of root] addrs_eq [of root] by (simp add: hits_def distinct_map_filter)


end
