(* ===== verification/RB_SubscriptionLinks.thy ===== *)
theory RB_SubscriptionLinks
  imports RB_ElementWalk
begin

text \<open>
  The links between subscriptions and instance elements are exact in both directions, whatever the
  order in which elements are registered, subscribed to and unsubscribed from and rows are added and
  deleted. At the end, what deleting a row does to other subscriptions.
\<close>

section \<open>Exact links\<close>

text \<open>
  A subscription lists an element just when the element lists the subscription, without repetition,
  and only where it can be linked.
\<close>

definition linked :: "elementNode \<Rightarrow> (addr \<times> rbusSubscription) list \<Rightarrow> bool" where
  "linked root subs \<longleftrightarrow> distinct (map fst subs) \<and>
     (\<forall>(s, x)\<in>set subs. distinct (sub_instances x) \<and> (\<forall>a\<in>set (sub_instances x). shown a root)) \<and>
     (\<forall>a. distinct (subs_of a root) \<and> set (subs_of a root) = {s. \<exists>x. (s, x) \<in> set subs \<and> a \<in> set (sub_instances x)})"

lemma linkedD:
  assumes "linked root subs" "(s, x) \<in> set subs"
  shows "distinct (sub_instances x)" "a \<in> set (sub_instances x) \<Longrightarrow> shown a root" "a \<in> set (sub_instances x) \<Longrightarrow> a \<in> set (addrs root)"
    "a \<in> set (sub_instances x) \<Longrightarrow> s \<in> set (subs_of a root)"
  using assms shown_inside [of a root] by (auto simp: linked_def)

lemma linked_subscribe:
  assumes "linked root subs" "s \<notin> fst ` set subs" "distinct hs" "\<forall>a\<in>set hs. shown a root" "sub_instances x = hs"
  shows "linked (link_all s hs root) (subs @ [(s, x)])"
proof -
  have subs: "subs_of a (link_all s hs root) = subs_of a root @ (if a \<in> set hs then [s] else [])" for a
    using subs_of_link_all [OF _ assms(3)] assms(4) shown_inside by blast
  have "s \<notin> set (subs_of a root)" for a using assms(1,2) by (force simp: linked_def)
  moreover have "shown a (link_all s hs root) = shown a root" for a by (rule shown_er) simp
  ultimately show ?thesis using assms by (auto simp: linked_def subs)
qed

lemma unlink_instances_ok:
  "set as \<subseteq> set (addrs root) \<Longrightarrow> distinct as \<Longrightarrow>
   \<exists>root'. unlink_instances s as root = Some root' \<and> er root' = er root \<and>
     (\<forall>b. subs_of b root' = (if b \<in> set as then remove1 s (subs_of b root) else subs_of b root))"
proof (induction as arbitrary: root)
  case (Cons a as)
  have "node_of a root \<noteq> None" using Cons.prems(1) chain_to_inside(1) [of a root] by (auto simp: node_of_def split: list.split)
  moreover have "addrs (removeElementSubscription root (Some a) s) = addrs root" by (rule er_addrs) simp
  ultimately show ?case using Cons.IH [of "removeElementSubscription root (Some a) s"] Cons.prems by (auto simp: subs_of_remove)
qed simp

lemma linked_unsubscribe:
  assumes "linked root subs" "map_of subs s = Some x"
  shows "\<exists>root'. subscriptionFree s x root = Some root' \<and> er root' = er root \<and> linked root' (filter (\<lambda>(q, y). q \<noteq> s) subs)"
proof -
  have x: "(s, x) \<in> set subs" "distinct (map fst subs)" using assms map_of_SomeD by (auto simp: linked_def)
  have i: "distinct (sub_instances x)" "set (sub_instances x) \<subseteq> set (addrs root)"
    using assms(1) x(1) shown_inside by (fastforce simp: linked_def)+
  obtain root' where r: "unlink_instances s (sub_instances x) root = Some root'" "er root' = er root"
    "\<And>b. subs_of b root' = (if b \<in> set (sub_instances x) then remove1 s (subs_of b root) else subs_of b root)"
    using unlink_instances_ok [OF i(2,1)] by blast
  have u: "y = x" if "(s, y) \<in> set subs" for y using eq_key_imp_eq_value [OF x(2) that x(1)] .
  have sets: "distinct (subs_of a root)" "set (subs_of a root) = {s. \<exists>x. (s, x) \<in> set subs \<and> a \<in> set (sub_instances x)}" for a
    using assms(1) by (simp_all add: linked_def)
  have "set (subs_of a root') = {q. \<exists>y. (q, y) \<in> set (filter (\<lambda>(q, y). q \<noteq> s) subs) \<and> a \<in> set (sub_instances y)}" for a
    using sets u by (auto simp: r(3))
  moreover have "distinct (subs_of a root')" for a using sets by (simp add: r(3))
  moreover have "shown a root' = shown a root" for a using shown_er r(2) by blast
  moreover have "distinct (map fst (filter (\<lambda>(q, y). q \<noteq> s) subs))" using x(2) by (simp add: distinct_map_filter)
  ultimately have "linked root' (filter (\<lambda>(q, y). q \<noteq> s) subs)" using assms(1) by (auto simp: linked_def)
  then show ?thesis using r by (auto simp: subscriptionFree_def)
qed

lemma linked_grows:
  assumes "linked root subs" "grows root root'" "distinct (addrs root)" "distinct (addrs root')"
  shows "linked root' subs"
  using assms(1) subs_of_grows [OF assms(2-4)] shown_grows [OF assms(2)] by (auto simp: linked_def)

section \<open>The elements of a new row\<close>

text \<open>What \<open>rbusSubscriptions_onElementCreated\<close> visits: it does not enter tables.\<close>

fun fresh_nodes :: "elementNode \<Rightarrow> elementNode list" where
  "fresh_nodes (Element a i ks) = concat (map (\<lambda>k. if typed k then [k] else fresh_nodes k) ks)"

fun link_each :: "addr list \<Rightarrow> elementNode \<times> (addr \<times> rbusSubscription) list \<Rightarrow> (elementNode \<times> (addr \<times> rbusSubscription) list) run" where
  "link_each [] st = Some st"
| "link_each (a # as) st = do { st \<leftarrow> link_subs a (snd st) (fst st); link_each as st }"

lemma link_each_append: "link_each (as @ bs) st = do { st \<leftarrow> link_each as st; link_each bs st }"
  by (induction as arbitrary: st) (auto split: bind_splits)

lemma onElementCreated_iff:
  "onElementCreated n st = link_each (map eaddr (fresh_nodes n)) st"
  "on_elements_created ks st = link_each (map eaddr (concat (map (\<lambda>k. if typed k then [k] else fresh_nodes k) ks))) st"
proof (induction n st and ks st rule: onElementCreated_on_elements_created.induct)
  case (3 child ks root subs)
  then show ?case by (cases "typed child")
      (auto simp: typed_def link_each_append split: bind_splits)
qed simp_all

text \<open>Whether a subscription matches an element, and whether that is determined.\<close>

definition matching :: "elementNode \<Rightarrow> addr \<Rightarrow> rbusSubscription \<Rightarrow> bool" where
  "matching root a x = (case sub_tokens x of None \<Rightarrow> False | Some ch \<Rightarrow> TokenChain_match root (Some ch) (Some a) = Some True)"

definition decides :: "elementNode \<Rightarrow> addr \<Rightarrow> rbusSubscription \<Rightarrow> bool" where
  "decides root a x = (case sub_tokens x of None \<Rightarrow> True | Some ch \<Rightarrow> TokenChain_match root (Some ch) (Some a) \<noteq> None)"

definition attach :: "addr \<Rightarrow> addr list \<Rightarrow> elementNode \<Rightarrow> elementNode" where
  "attach a ss root = fold (\<lambda>s r. addElementSubscription r (Some a) s False) ss root"

lemma er_attach [simp]: "er (attach a ss root) = er root"
  unfolding attach_def by (induction ss arbitrary: root) simp_all

lemma subs_of_attach: "a \<in> set (addrs root) \<Longrightarrow> subs_of b (attach a ss root) = subs_of b root @ (if b = a then ss else [])"
proof (induction ss arbitrary: root)
  case (Cons s ss)
  have "addrs (addElementSubscription root (Some a) s False) = addrs root" by (rule er_addrs) simp
  then show ?case using Cons.IH [of "addElementSubscription root (Some a) s False"] Cons.prems subs_of_add [of a root b s]
    by (simp add: attach_def)
qed (simp add: attach_def)

definition with_instances :: "(rbusSubscription \<Rightarrow> addr list) \<Rightarrow> (addr \<times> rbusSubscription) list \<Rightarrow> (addr \<times> rbusSubscription) list" where
  "with_instances f subs = map (\<lambda>(s, x). (s, x\<lparr>sub_instances := sub_instances x @ f x\<rparr>)) subs"

lemma in_with_instances:
  "(s, y) \<in> set (with_instances f subs) \<longleftrightarrow> (\<exists>x. (s, x) \<in> set subs \<and> y = x\<lparr>sub_instances := sub_instances x @ f x\<rparr>)"
  by (auto simp: with_instances_def intro: rev_image_eqI)

lemma fst_with_instances [simp]: "map fst (with_instances f subs) = map fst subs"
  by (auto simp: with_instances_def comp_def case_prod_beta')

lemma link_subs_iff:
  "er root0 = er root \<Longrightarrow> link_subs a subs root0 =
     (if \<forall>(s, x)\<in>set subs. decides root a x
      then Some (attach a (map fst (filter (\<lambda>(s, x). matching root a x) subs)) root0,
                 with_instances (\<lambda>x. if matching root a x then [a] else []) subs)
      else None)"
proof (induction subs arbitrary: root0)
  case (Cons p subs)
  obtain s x where p: "p = (s, x)" by (cases p)
  have m: "TokenChain_match root0 ch a = TokenChain_match root ch a" for ch a using match_er Cons.prems by blast
  have e: "er (addElementSubscription root0 (Some a) s False) = er root" using Cons.prems by simp
  note IH = Cons.IH [OF Cons.prems] Cons.IH [OF e]
  have "link_subs a (p # subs) root0 =
      (if decides root a x
       then do { (r, l) \<leftarrow> link_subs a subs (if matching root a x then addElementSubscription root0 (Some a) s False else root0);
                 Some (r, (s, if matching root a x then x\<lparr>sub_instances := sub_instances x @ [a]\<rparr> else x) # l) }
       else None)"
    using m by (cases "sub_tokens x"; cases "TokenChain_match root (Some (the (sub_tokens x))) (Some a)")
      (simp_all add: p matching_def [of root a x] decides_def [of root a x])
  then show ?case unfolding p using IH by (cases "matching root a x") (simp_all add: attach_def with_instances_def)
qed (simp add: attach_def with_instances_def)

lemma linked_attach:
  assumes "linked root subs" "shown a root" "subs_of a root = []"
  shows "linked (attach a (map fst (filter (\<lambda>(s, x). P x) subs)) root) (with_instances (\<lambda>x. if P x then [a] else []) subs)"
proof -
  let ?ss = "map fst (filter (\<lambda>(s, x). P x) subs)" and ?subs = "with_instances (\<lambda>x. if P x then [a] else []) subs"
  have subs: "subs_of b (attach a ?ss root) = subs_of b root @ (if b = a then ?ss else [])" for b
    using subs_of_attach shown_inside [OF assms(2)] by blast
  have sh: "shown b (attach a ?ss root) = shown b root" for b by (rule shown_er) simp
  have d: "distinct (map fst subs)" "map fst ?subs = map fst subs" using assms(1) by (simp_all add: linked_def)
  have a: "a \<notin> set (sub_instances x)" if "(s, x) \<in> set subs" for s x
    using assms(1,3) that unfolding linked_def by (metis (mono_tags, lifting) emptyE empty_set mem_Collect_eq)
  have in_subs: "(s, y) \<in> set ?subs \<longleftrightarrow> (\<exists>x. (s, x) \<in> set subs \<and> y = x\<lparr>sub_instances := sub_instances x @ (if P x then [a] else [])\<rparr>)" for s y
    by (rule in_with_instances)
  have "distinct (subs_of b (attach a ?ss root))" for b
    using assms(1,3) d(1) by (cases "b = a") (simp_all add: subs linked_def distinct_map_filter)
  moreover have "set (subs_of b (attach a ?ss root)) = {s. \<exists>x. (s, x) \<in> set ?subs \<and> b \<in> set (sub_instances x)}" for b
  proof -
    have "(\<exists>x. (s, x) \<in> set ?subs \<and> b \<in> set (sub_instances x)) \<longleftrightarrow>
        (\<exists>x. (s, x) \<in> set subs \<and> b \<in> set (sub_instances x @ (if P x then [a] else [])))" for s
      unfolding in_subs by fastforce
    then have "{s. \<exists>x. (s, x) \<in> set ?subs \<and> b \<in> set (sub_instances x)} =
        {s. \<exists>x. (s, x) \<in> set subs \<and> b \<in> set (sub_instances x)} \<union> (if b = a then set ?ss else {})" by (auto simp: image_iff)
    then show ?thesis using assms(1) by (simp add: subs linked_def)
  qed
  moreover have "\<forall>(s, x)\<in>set ?subs. distinct (sub_instances x) \<and> (\<forall>b\<in>set (sub_instances x). shown b (attach a ?ss root))"
    using linkedD(1,2) [OF assms(1)] assms(2) a by (auto simp: in_subs sh)
  ultimately show ?thesis unfolding linked_def d(2) using d(1) by blast
qed

lemma matching_instances [simp]:
  "matching root a (x\<lparr>sub_instances := l\<rparr>) = matching root a x" "decides root a (x\<lparr>sub_instances := l\<rparr>) = decides root a x"
  by (simp_all add: matching_def decides_def)

lemma with_instances_twice:
  "with_instances g (with_instances f subs) = with_instances (\<lambda>x. f x @ g (x\<lparr>sub_instances := sub_instances x @ f x\<rparr>)) subs"
  by (auto simp: with_instances_def)

lemma with_instances_nil [simp]: "with_instances (\<lambda>x. []) subs = subs"
  by (auto simp: with_instances_def intro: map_idI)

lemma link_each_ok:
  "linked root0 subs \<Longrightarrow> er root0 = er root \<Longrightarrow> distinct as \<Longrightarrow> \<forall>a\<in>set as. shown a root \<and> subs_of a root0 = [] \<Longrightarrow>
   (if \<forall>a\<in>set as. \<forall>(s, x)\<in>set subs. decides root a x
    then \<exists>root1. link_each as (root0, subs) = Some (root1, with_instances (\<lambda>x. filter (\<lambda>a. matching root a x) as) subs) \<and>
      er root1 = er root \<and> linked root1 (with_instances (\<lambda>x. filter (\<lambda>a. matching root a x) as) subs)
    else link_each as (root0, subs) = None)"
proof (induction as arbitrary: root0 subs)
  case (Cons a as)
  let ?root = "attach a (map fst (filter (\<lambda>(s, x). matching root a x) subs)) root0"
    and ?subs = "with_instances (\<lambda>x. if matching root a x then [a] else []) subs"
  have a: "shown a root0" "subs_of a root0 = []" "a \<in> set (addrs root0)"
    using Cons.prems(2,4) shown_er [of root0 root a] shown_inside [of a root0] by auto
  have "\<forall>b\<in>set as. shown b root \<and> subs_of b ?root = []" using Cons.prems(3,4) subs_of_attach [OF a(3)] by auto
  note IH = Cons.IH [OF linked_attach [OF Cons.prems(1) a(1,2)], of "matching root a", OF _ _ this]
  have w: "with_instances (\<lambda>x. filter (\<lambda>b. matching root b x) as) ?subs = with_instances (\<lambda>x. filter (\<lambda>b. matching root b x) (a # as)) subs"
    unfolding with_instances_twice by (rule arg_cong [of _ _ "\<lambda>f. with_instances f subs"]) auto
  have d: "(\<forall>b\<in>set as. \<forall>(s, x)\<in>set ?subs. decides root b x) \<longleftrightarrow> (\<forall>b\<in>set as. \<forall>(s, x)\<in>set subs. decides root b x)"
    by (simp add: with_instances_def case_prod_beta')
  show ?case using link_subs_iff [OF Cons.prems(2), of a subs] IH Cons.prems(2,3) unfolding w d by auto
qed simp

lemma fresh_visited: "ntype n \<noteq> RBUS_ELEMENT_TYPE_TABLE \<Longrightarrow> k \<in> set (fresh_nodes n) \<Longrightarrow> k \<in> set (visited n) \<and> typed k"
proof (induction n)
  case (Element a i ks)
  then obtain c where c: "c \<in> set ks" "k \<in> set (if typed c then [c] else fresh_nodes c)" by auto
  show ?case
  proof (cases "typed c")
    case True
    then show ?thesis using c by (auto simp: visited_children_iff)
  next
    case False
    then have "k \<in> set (visited c) \<and> typed k" using c Element.IH [OF c(1)] by (simp add: typed_def)
    then show ?thesis using c(1) Element.prems(1) by (auto simp: visited_children_iff)
  qed
qed

lemma fresh_addrs: "set (map eaddr (fresh_nodes n)) \<subseteq> set (addrs_all (echildren n))"
proof (induction n)
  case (Element a i ks)
  have "set (map eaddr (if typed k then [k] else fresh_nodes k)) \<subseteq> set (addrs k)" if "k \<in> set ks" for k
    using Element.IH [OF that] addrs_eq [of k] by auto
  then show ?case by fastforce
qed

lemma fresh_distinct: "distinct (addrs_all (echildren n)) \<Longrightarrow> distinct (map eaddr (fresh_nodes n))"
proof (induction n)
  case (Element a i ks)
  have "distinct (addrs_all ls) \<Longrightarrow> set ls \<subseteq> set ks \<Longrightarrow> distinct (map eaddr (concat (map (\<lambda>k. if typed k then [k] else fresh_nodes k) ls))) \<and>
    set (map eaddr (concat (map (\<lambda>k. if typed k then [k] else fresh_nodes k) ls))) \<subseteq> set (addrs_all ls)" for ls
  proof (induction ls)
    case (Cons l ls)
    have "distinct (map eaddr (fresh_nodes l))" using Element.IH [of l] Cons.prems addrs_eq [of l] by simp
    then have l: "distinct (map eaddr (if typed l then [l] else fresh_nodes l))"
      "set (map eaddr (if typed l then [l] else fresh_nodes l)) \<subseteq> set (addrs l)" using fresh_addrs [of l] addrs_eq [of l] by auto
    have "set (addrs l) \<inter> set (addrs_all ls) = {}" "distinct (addrs_all ls)" "set ls \<subseteq> set ks" using Cons.prems by auto
    then show ?case using l Cons.IH unfolding list.map concat.simps map_append distinct_append set_append by blast
  qed simp
  then show ?case using Element.prems by simp
qed

text \<open>The elements below a node that can be reached without entering a row template are visited.\<close>

lemma visited_below:
  "distinct (addrs n) \<Longrightarrow> node_of a n = Some x \<Longrightarrow> \<forall>y\<in>set (tl (chain_to a n)). nname y \<noteq> ''{i}'' \<Longrightarrow>
   k \<in> set (visited x) \<Longrightarrow> k \<in> set (visited n)"
proof (induction n)
  case (Element b i ks)
  let ?n = "Element b i ks"
  show ?case
  proof (cases "a = b")
    case True
    then show ?thesis using Element.prems(2,4) by (simp add: node_of_def)
  next
    case False
    obtain pre c post where c: "echildren ?n = pre @ c # post" "a \<in> set (addrs c)" "c \<in> set ks"
      using child_with [of a ?n] node_of_SomeD [OF Element.prems(2)] False by auto
    obtain cs where cs: "chain_to a c = c # cs" using chain_hd [OF c(2)] by blast
    have "nname c \<noteq> ''{i}''" "\<forall>y\<in>set (tl (chain_to a c)). nname y \<noteq> ''{i}''"
      using Element.prems(3) unfolding chain_to_child [OF Element.prems(1) c(1,2)] cs by simp_all
    moreover have "k \<in> set (visited c)" using calculation(2) Element.IH [OF c(3)] distinct_child [OF Element.prems(1)] c(3)
        node_of_child [OF Element.prems(1) c(1,2)] Element.prems(2,4) by simp
    ultimately show ?thesis using c(3) by (auto simp: visited_children_iff)
  qed
qed

section \<open>The elements of a deleted row\<close>

definition reg_linked :: "registry \<Rightarrow> bool" where
  "reg_linked r \<longleftrightarrow> (\<exists>root. eroot (rtree r) = Some root \<and> linked root (subList r))"

abbreviation same_but_instances :: "rbusSubscription \<Rightarrow> rbusSubscription \<Rightarrow> bool" where
  "same_but_instances x y \<equiv> x\<lparr>sub_instances := []\<rparr> = y\<lparr>sub_instances := []\<rparr>"

text \<open>What unlinking does to a registry: the tree stays the same but for subscriptions, of which some go or lose instances.\<close>

definition fewer :: "registry \<Rightarrow> registry \<Rightarrow> bool" where
  "fewer r r' \<longleftrightarrow> (\<exists>root root'. eroot (rtree r) = Some root \<and> rtree r' = (rtree r)\<lparr>eroot := Some root'\<rparr> \<and> er root' = er root) \<and>
     nextSub r' = nextSub r \<and>
     (\<forall>s y. (s, y) \<in> set (subList r') \<longrightarrow>
        (\<exists>x. (s, x) \<in> set (subList r) \<and> same_but_instances y x \<and> set (sub_instances y) \<subseteq> set (sub_instances x)))"

lemma fewerI:
  assumes "eroot (rtree r) = Some root" "rtree r' = (rtree r)\<lparr>eroot := Some root'\<rparr>" "er root' = er root" "nextSub r' = nextSub r"
    "\<And>s y. (s, y) \<in> set (subList r') \<Longrightarrow>
      \<exists>x. (s, x) \<in> set (subList r) \<and> same_but_instances y x \<and> set (sub_instances y) \<subseteq> set (sub_instances x)"
  shows "fewer r r'"
  unfolding fewer_def using assms by blast

lemma fewer_instance:
  assumes "fewer r r'" "(s, y) \<in> set (subList r')" "a \<in> set (sub_instances y)"
  obtains x where "(s, x) \<in> set (subList r)" "a \<in> set (sub_instances x)"
  using assms unfolding fewer_def by blast

lemma fewer_refl: "reg_linked r \<Longrightarrow> fewer r r"
  by (force simp: fewer_def reg_linked_def)

lemma fewer_trans: "fewer r r' \<Longrightarrow> fewer r' r'' \<Longrightarrow> fewer r r''"
  unfolding fewer_def by (elim conjE exE) (intro conjI; fastforce)

lemma remove_ok:
  assumes "reg_linked r"
  shows "\<exists>r'. rbusSubscriptions_removeSubscription r s = Some r' \<and> reg_linked r' \<and> fewer r r' \<and>
    subList r' = filter (\<lambda>(q, x). q \<noteq> s) (subList r)"
proof (cases "map_of (subList r) s")
  case None
  then have "filter (\<lambda>(q, x). q \<noteq> s) (subList r) = subList r" by (intro filter_True) (force simp: map_of_eq_None_iff)
  then show ?thesis using None assms fewer_refl by (simp add: rbusSubscriptions_removeSubscription_def)
next
  case (Some x)
  obtain root where r: "eroot (rtree r) = Some root" "linked root (subList r)" using assms by (auto simp: reg_linked_def)
  obtain root' where root': "subscriptionFree s x root = Some root'" "er root' = er root" "linked root' (filter (\<lambda>(q, y). q \<noteq> s) (subList r))"
    using linked_unsubscribe [OF r(2) Some] by blast
  let ?r = "r\<lparr>rtree := (rtree r)\<lparr>eroot := Some root'\<rparr>, subList := filter (\<lambda>(q, x). q \<noteq> s) (subList r)\<rparr>"
  have "fewer r ?r" by (rule fewerI [where root' = root', OF r(1)]) (use root'(2) in auto)
  then show ?thesis using Some r root' by (intro exI [of _ ?r]) (simp add: rbusSubscriptions_removeSubscription_def reg_linked_def)
qed

lemma in_upd_sub: "(q, y) \<in> set (upd_sub s f subs) \<longleftrightarrow> (\<exists>x. (q, x) \<in> set subs \<and> y = (if q = s then f x else x))"
  by (auto simp: upd_sub_def intro: rev_image_eqI)

lemma fst_upd_sub [simp]: "map fst (upd_sub s f subs) = map fst subs"
  by (auto simp: upd_sub_def comp_def case_prod_beta')

lemma linked_detach:
  assumes "linked root subs" "(s, x) \<in> set subs" "a \<in> set (sub_instances x)"
  shows "linked (removeElementSubscription root (Some a) s) (upd_sub s (\<lambda>x. x\<lparr>sub_instances := remove1 a (sub_instances x)\<rparr>) subs)"
    (is "linked ?root ?subs")
proof -
  have d: "distinct (map fst subs)" using assms(1) by (simp add: linked_def)
  have u: "y = x" if "(s, y) \<in> set subs" for y using eq_key_imp_eq_value [OF d that assms(2)] .
  have sh: "shown b ?root = shown b root" for b by (rule shown_er) simp
  have sets: "distinct (subs_of b root)" "set (subs_of b root) = {s. \<exists>x. (s, x) \<in> set subs \<and> b \<in> set (sub_instances x)}" for b
    using assms(1) by (simp_all add: linked_def)
  have "q \<in> set (subs_of b ?root) \<longleftrightarrow> (\<exists>y. (q, y) \<in> set ?subs \<and> b \<in> set (sub_instances y))" for b q
  proof (cases "q = s")
    case True
    have u': "(s, y) \<in> set subs \<longleftrightarrow> y = x" for y using u assms(2) by blast
    have "(\<exists>y. (s, y) \<in> set ?subs \<and> b \<in> set (sub_instances y)) \<longleftrightarrow> b \<in> set (remove1 a (sub_instances x))"
      unfolding in_upd_sub u' by simp
    moreover have "s \<in> set (subs_of b root) \<longleftrightarrow> b \<in> set (sub_instances x)" using sets(2) [of b] u' by simp
    ultimately show ?thesis using True sets(1) [of b] linkedD(1) [OF assms(1,2)] by (auto simp: subs_of_remove)
  next
    case False
    then show ?thesis using sets(2) [of b] unfolding in_upd_sub by (auto simp: subs_of_remove)
  qed
  moreover have "distinct (subs_of b ?root)" for b using sets by (simp add: subs_of_remove)
  moreover have "\<forall>(q, y)\<in>set ?subs. distinct (sub_instances y) \<and> (\<forall>b\<in>set (sub_instances y). shown b ?root)"
  proof clarify
    fix q y assume "(q, y) \<in> set ?subs"
    then obtain z where z: "(q, z) \<in> set subs" "y = (if q = s then z\<lparr>sub_instances := remove1 a (sub_instances z)\<rparr> else z)"
      unfolding in_upd_sub by blast
    then have "set (sub_instances y) \<subseteq> set (sub_instances z)" "distinct (sub_instances y)"
      using linkedD(1) [OF assms(1) z(1)] set_remove1_subset by simp_all
    then show "distinct (sub_instances y) \<and> (\<forall>b\<in>set (sub_instances y). shown b ?root)"
      using linkedD(2) [OF assms(1) z(1)] sh by blast
  qed
  ultimately show ?thesis using d unfolding linked_def fst_upd_sub by blast
qed

definition detached :: "addr \<Rightarrow> addr \<Rightarrow> elementNode \<Rightarrow> registry \<Rightarrow> registry" where
  "detached a s root r = r\<lparr>rtree := (rtree r)\<lparr>eroot := Some (removeElementSubscription root (Some a) s)\<rparr>,
     subList := upd_sub s (\<lambda>x. x\<lparr>sub_instances := remove1 a (sub_instances x)\<rparr>) (subList r)\<rparr>"

lemma detached_ok:
  assumes "eroot (rtree r) = Some root" "linked root (subList r)" "(s, x) \<in> set (subList r)" "a \<in> set (sub_instances x)"
  shows "reg_linked (detached a s root r)" "fewer r (detached a s root r)"
    "(s, y) \<in> set (subList (detached a s root r)) \<Longrightarrow> a \<notin> set (sub_instances y)"
proof -
  show "reg_linked (detached a s root r)" using linked_detach [OF assms(2-4)] by (simp add: reg_linked_def detached_def)
  have "\<exists>x. (q, x) \<in> set (subList r) \<and> same_but_instances y x \<and> set (sub_instances y) \<subseteq> set (sub_instances x)"
    if "(q, y) \<in> set (upd_sub s (\<lambda>x. x\<lparr>sub_instances := remove1 a (sub_instances x)\<rparr>) (subList r))" for q y
    using that set_remove1_subset unfolding in_upd_sub by (elim exE conjE) (fastforce split: if_splits)
  then show "fewer r (detached a s root r)"
    by (intro fewerI [where root' = "removeElementSubscription root (Some a) s", OF assms(1)]) (simp_all add: detached_def)
  assume "(s, y) \<in> set (subList (detached a s root r))"
  then obtain z where "(s, z) \<in> set (subList r)" "y = z\<lparr>sub_instances := remove1 a (sub_instances z)\<rparr>"
    by (auto simp: detached_def in_upd_sub)
  then show "a \<notin> set (sub_instances y)" using linkedD(1) [OF assms(2)] by simp
qed

lemma unlink_subs_step:
  assumes "unlink_subs mk a (s # ss) val r = Some r'" "eroot (rtree r) = Some root"
  obtains x r0 val' r1 where "(s, x) \<in> set (subList r)"
    "r0 = (if a \<in> set (sub_instances x) then detached a s root r else r)" "r1 = r0 \<or> (\<exists>q. rbusSubscriptions_removeSubscription r0 q = Some r1)"
    "unlink_subs mk a ss val' r1 = Some r'"
  using assms map_of_SomeD
  by (fastforce simp: Option.bind_eq_Some_conv detached_def [symmetric] split: if_splits option.splits)

lemma unlink_subs_ok:
  "unlink_subs mk a ss val r = Some r' \<Longrightarrow> reg_linked r \<Longrightarrow>
   \<forall>s x. (s, x) \<in> set (subList r) \<longrightarrow> a \<in> set (sub_instances x) \<longrightarrow> s \<in> set ss \<Longrightarrow>
   reg_linked r' \<and> fewer r r' \<and> (\<forall>s x. (s, x) \<in> set (subList r') \<longrightarrow> a \<notin> set (sub_instances x))"
proof (induction ss arbitrary: val r)
  case (Cons s ss)
  obtain root where r: "eroot (rtree r) = Some root" "linked root (subList r)" using Cons.prems(2) by (auto simp: reg_linked_def)
  obtain x r0 val' r1 where x: "(s, x) \<in> set (subList r)"
    "r0 = (if a \<in> set (sub_instances x) then detached a s root r else r)" "r1 = r0 \<or> (\<exists>q. rbusSubscriptions_removeSubscription r0 q = Some r1)"
    "unlink_subs mk a ss val' r1 = Some r'" using unlink_subs_step [OF Cons.prems(1) r(1)] by metis
  have "distinct (map fst (subList r))" using r(2) by (simp add: linked_def)
  then have "y = x" if "(s, y) \<in> set (subList r)" for y using eq_key_imp_eq_value that x(1) by metis
  then have r0: "reg_linked r0" "fewer r r0" "\<forall>y. (s, y) \<in> set (subList r0) \<longrightarrow> a \<notin> set (sub_instances y)"
    using detached_ok [OF r x(1)] Cons.prems(2) fewer_refl x(2) by auto
  have r1: "reg_linked r1" "fewer r0 r1"
    using x(3) r0(1) fewer_refl [OF r0(1)] remove_ok [OF r0(1)] by (metis option.inject)+
  have "q \<in> set ss" if q: "(q, y) \<in> set (subList r1)" "a \<in> set (sub_instances y)" for q y
  proof -
    obtain y0 where y0: "(q, y0) \<in> set (subList r0)" "a \<in> set (sub_instances y0)" using r1(2) q by (rule fewer_instance)
    moreover obtain y1 where "(q, y1) \<in> set (subList r)" "a \<in> set (sub_instances y1)" using r0(2) y0 by (rule fewer_instance)
    ultimately show ?thesis using r0(3) Cons.prems(3) by fastforce
  qed
  then show ?case using Cons.IH [OF x(4) r1(1)] fewer_trans [OF fewer_trans [OF r0(2) r1(2)]] by blast
qed (use fewer_refl in auto)

fun unlink_each :: "(rbusDateTime \<Rightarrow> int) \<Rightarrow> addr list \<Rightarrow> registry \<Rightarrow> registry run" where
  "unlink_each mk [] r = Some r"
| "unlink_each mk (a # as) r = do { r \<leftarrow> unlink_subs mk a (map fst (subList r)) False r; unlink_each mk as r }"

lemma unlink_each_append: "unlink_each mk (as @ bs) r = do { r \<leftarrow> unlink_each mk as r; unlink_each mk bs r }"
  by (induction as arbitrary: r) (auto split: bind_splits)

lemma onElementDeleted_iff:
  "onElementDeleted mk n r = unlink_each mk (map eaddr (filter typed (visited n))) r"
  "on_elements_deleted mk t ks r = unlink_each mk (map eaddr (filter typed (visited_children t ks))) r"
proof (induction mk n r and mk t ks r rule: onElementDeleted_on_elements_deleted.induct)
  case (3 mk t child ks r)
  show ?case
  proof (cases "typed child")
    case True
    then show ?thesis using 3 by (auto simp: typed_def unlink_each_append split: bind_splits)
  next
    case False
    then show ?thesis using 3 by (auto simp: typed_def unlink_each_append split: bind_splits)
  qed
qed simp_all

lemma unlink_each_ok:
  "unlink_each mk as r = Some r' \<Longrightarrow> reg_linked r \<Longrightarrow>
   reg_linked r' \<and> fewer r r' \<and> (\<forall>s x. (s, x) \<in> set (subList r') \<longrightarrow> set as \<inter> set (sub_instances x) = {})"
proof (induction as arbitrary: r)
  case (Cons a as)
  obtain r1 where r1: "unlink_subs mk a (map fst (subList r)) False r = Some r1" "unlink_each mk as r1 = Some r'"
    using Cons.prems(1) by (auto simp: Option.bind_eq_Some_conv)
  have "\<forall>s x. (s, x) \<in> set (subList r) \<longrightarrow> a \<in> set (sub_instances x) \<longrightarrow> s \<in> set (map fst (subList r))" by force
  note 1 = unlink_subs_ok [OF r1(1) Cons.prems(2) this]
  then have 2: "reg_linked r'" "fewer r1 r'" "\<forall>s x. (s, x) \<in> set (subList r') \<longrightarrow> set as \<inter> set (sub_instances x) = {}"
    using Cons.IH [OF r1(2)] by blast+
  have "a \<notin> set (sub_instances x)" if "(s, x) \<in> set (subList r')" for s x
    using fewer_instance [OF 2(2) that] 1 by blast
  then show ?case using 1 2 fewer_trans by auto
qed (use fewer_refl in auto)

text \<open>Elements outside the deleted row keep their place.\<close>

lemma visited_unlink:
  "distinct (addrs n) \<Longrightarrow> node_of a n = Some x \<Longrightarrow> a \<noteq> eaddr n \<Longrightarrow> k \<in> set (visited n) \<Longrightarrow>
   (\<exists>k'\<in>set (visited (unlink_node a n)). eaddr k' = eaddr k \<and> einfo k' = einfo k) \<or> k = x \<or> k \<in> set (visited x)"
proof (induction n)
  case (Element b i ks)
  let ?n = "Element b i ks"
  obtain c where c: "c \<in> set ks" "k = c \<or> k \<in> set (visited c) \<and> \<not> (etype i = RBUS_ELEMENT_TYPE_TABLE \<and> nname c = ''{i}'')"
    using Element.prems(4) by (auto simp: visited_children_iff)
  obtain pre post where e: "echildren ?n = pre @ c # post" using split_list [OF c(1)] by auto
  show ?case
  proof (cases "eaddr c = a")
    case True
    then have "x = c" using Element.prems(2) node_of_child [OF Element.prems(1) e, of a] by auto
    then show ?thesis using c(2) by blast
  next
    case False
    then have c': "unlink_node a c \<in> set (echildren (unlink_node a ?n))" using c(1) by auto
    have d: "distinct (addrs c)" using distinct_child [OF Element.prems(1)] c(1) by simp
    show ?thesis
    proof (cases "k = c")
      case True
      then show ?thesis using c' by (intro disjI1 bexI [of _ "unlink_node a c"]) (auto simp: visited_iff [of _ "unlink_node a ?n"] simp del: unlink_node.simps)
    next
      case False
      then have k: "k \<in> set (visited c)" "\<not> (etype i = RBUS_ELEMENT_TYPE_TABLE \<and> nname c = ''{i}'')" using c(2) by auto
      have "(\<exists>k'\<in>set (visited (unlink_node a c)). eaddr k' = eaddr k \<and> einfo k' = einfo k) \<or> k = x \<or> k \<in> set (visited x)"
      proof (cases "a \<in> set (addrs c)")
        case True
        then show ?thesis using Element.IH [OF c(1) d] node_of_child [OF Element.prems(1) e] Element.prems(2) \<open>eaddr c \<noteq> a\<close> k(1) by auto
      next
        case False
        then show ?thesis using unlink_outside k(1) by auto
      qed
      moreover have "k' \<in> set (visited (unlink_node a ?n))" if "k' \<in> set (visited (unlink_node a c))" for k'
        unfolding visited_iff [of _ "unlink_node a ?n"] using that c' k(2) by (intro bexI [of _ "unlink_node a c"]) auto
      ultimately show ?thesis by blast
    qed
  qed
qed

lemma infos_unlink: "q \<in> set (infos (unlink_node a n)) \<Longrightarrow> q \<in> set (infos n)"
  by (induction n) auto

lemma addrs_unlink_row:
  "distinct (addrs n) \<Longrightarrow> node_of a n = Some x \<Longrightarrow> a \<noteq> eaddr n \<Longrightarrow>
   set (addrs (unlink_node a n)) \<inter> set (addrs x) = {} \<and>
   (\<forall>q\<in>set (infos n). fst q \<notin> set (addrs x) \<longrightarrow> q \<in> set (infos (unlink_node a n)))"
proof (induction n)
  case (Element b i ks)
  let ?n = "Element b i ks"
  obtain pre c post where c: "echildren ?n = pre @ c # post" "a \<in> set (addrs c)" "c \<in> set ks"
    using child_with [of a ?n] node_of_SomeD [OF Element.prems(2)] Element.prems(3) by auto
  have x: "node_of a c = Some x" "distinct (addrs c)"
    using Element.prems(2) node_of_child [OF Element.prems(1) c(1,2)] distinct_child [OF Element.prems(1)] c(3) by auto
  have u: "unlink_node a ?n = with_children (pre @ (if eaddr c = a then [] else [unlink_node a c]) @ post) ?n"
    using unlink_child [OF Element.prems(1) c(1,2)] .
  have ks: "ks = pre @ c # post" using c(1) by simp
  obtain ps qs where "addrs c = ps @ addrs x @ qs" using upd_node_context [OF x(2,1)] by blast
  then have sub: "set (addrs x) \<subseteq> set (addrs c)" by auto
  have out: "set (addrs c) \<inter> (insert b (set (addrs_all (pre @ post)))) = {}" using Element.prems(1) ks by auto
  define M where "M = (if eaddr c = a then [] else [unlink_node a c])"
  have ua: "set (addrs (unlink_node a ?n)) = insert b (set (addrs_all (pre @ post))) \<union> set (addrs_all M)"
    and ui: "set (infos (unlink_node a ?n)) = insert (b, i) (set (concat (map infos (pre @ post)))) \<union> set (concat (map infos M))"
    and ni: "set (infos ?n) = insert (b, i) (set (concat (map infos (pre @ post)))) \<union> set (infos c)"
    unfolding u M_def [symmetric] using ks by (auto simp: with_children_def)
  have "set (addrs_all M) \<inter> set (addrs x) = {} \<and> (\<forall>q\<in>set (infos c). fst q \<notin> set (addrs x) \<longrightarrow> q \<in> set (concat (map infos M)))"
  proof (cases "eaddr c = a")
    case True
    then have "x = c" using x(1) by auto
    moreover have "fst q \<in> set (addrs c)" if "q \<in> set (infos c)" for q using that fst_infos [of c] by (metis image_eqI set_map)
    ultimately show ?thesis using True by (simp add: M_def)
  next
    case False
    then show ?thesis using Element.IH [OF c(3) x(2,1)] by (simp add: M_def)
  qed
  then show ?case unfolding ua ui ni using sub out by blast
qed

lemma linked_unlink:
  assumes "linked root subs" "distinct (addrs root)" "node_of a root = Some x" "a \<noteq> eaddr root"
    "\<And>s y. (s, y) \<in> set subs \<Longrightarrow> set (sub_instances y) \<inter> set (addrs x) = {}"
  shows "linked (unlink_node a root) subs"
proof -
  note row = addrs_unlink_row [OF assms(2-4)]
  have d: "distinct (addrs (unlink_node a root))" using addrs_unlink(2) [OF assms(2)] .
  have "subs_of b (unlink_node a root) = subs_of b root" for b
  proof (cases "b \<in> set (addrs x)")
    case True
    have "set (subs_of b root) = {s. \<exists>x. (s, x) \<in> set subs \<and> b \<in> set (sub_instances x)}" using assms(1) by (simp add: linked_def)
    moreover have "b \<notin> set (sub_instances y)" if "(s, y) \<in> set subs" for s y using assms(5) [OF that] True by blast
    ultimately have "set (subs_of b root) = {}" by simp
    then have "subs_of b root = []" by simp
    moreover have "info_of b (unlink_node a root) = None" using True row info_of_inside [of b "unlink_node a root"] by blast
    ultimately show ?thesis by (simp add: subs_of_def [of b "unlink_node a root"])
  next
    case False
    then have "(b, i) \<in> set (infos (unlink_node a root)) \<longleftrightarrow> (b, i) \<in> set (infos root)" for i
      using conjunct2 [OF row] infos_unlink [of "(b, i)" a root] by auto
    then have "info_of b (unlink_node a root) = info_of b root"
      using info_of_iff [OF assms(2)] info_of_iff [OF d] by (metis not_None_eq)
    then show ?thesis by (simp add: subs_of_def)
  qed
  moreover have "shown b (unlink_node a root)" if b: "(s, y) \<in> set subs" "b \<in> set (sub_instances y)" for s y b
  proof -
    obtain k where k: "k \<in> set (visited root)" "eaddr k = b" "typed k" using linkedD(2) [OF assms(1) b] by (auto simp: shown_def)
    have "k \<noteq> x" "k \<notin> set (visited x)" using assms(5) [OF b(1)] b(2) k(2) visited_addrs(1) [of x] addrs_eq [of x] by auto
    then show ?thesis using visited_unlink [OF assms(2-4) k(1)] k(2,3) by (auto simp: shown_def typed_def)
  qed
  ultimately show ?thesis using assms(1) by (auto simp: linked_def)
qed

section \<open>What a provider does\<close>

lemma obj_rows_er: "er root = er root' \<Longrightarrow> obj_rows root = obj_rows root'"
proof -
  have "obj_rows (er n) = obj_rows n" for n by (induction n) auto
  then show "er root = er root' \<Longrightarrow> ?thesis" by metis
qed

lemma obj_rows_unlink: "obj_rows n \<Longrightarrow> obj_rows (unlink_node a n)"
  by (induction n) auto

definition reg_inv :: "registry \<Rightarrow> bool" where
  "reg_inv r \<longleftrightarrow> tree_inv (rtree r) \<and> (\<forall>s\<in>fst ` set (subList r). s < nextSub r) \<and>
     (\<exists>root. eroot (rtree r) = Some root \<and> obj_rows root \<and> linked root (subList r))"

lemma reg_invD:
  assumes "reg_inv r" "eroot (rtree r) = Some root"
  shows "tree_inv (rtree r)" "obj_rows root" "linked root (subList r)" "distinct (addrs root)" "ntype root = RBUS_ELEMENT_TYPE_OBJECT"
    "reg_linked r"
  using assms by (auto simp: reg_inv_def tree_inv_def reg_linked_def)

lemma reg_inv_er:
  assumes "reg_inv r" "eroot (rtree r) = Some root" "er root' = er root" "linked root' subs" "\<forall>s\<in>fst ` set subs. s < nx"
    "rtree r' = (rtree r)\<lparr>eroot := Some root'\<rparr>" "subList r' = subs" "nextSub r' = nx"
  shows "reg_inv r'"
  using assms tree_inv_er [OF reg_invD(1) [OF assms(1,2)] assms(2,3)] obj_rows_er [OF assms(3)] reg_invD(2) [OF assms(1,2)]
  by (auto simp: reg_inv_def)

lemma reg_inv_fewer: "reg_inv r \<Longrightarrow> reg_linked r' \<Longrightarrow> fewer r r' \<Longrightarrow> reg_inv r'"
proof -
  assume r: "reg_inv r" "reg_linked r'" "fewer r r'"
  obtain root root' where t: "eroot (rtree r) = Some root" "rtree r' = (rtree r)\<lparr>eroot := Some root'\<rparr>" "er root' = er root"
    using r(3) by (auto simp: fewer_def)
  have "\<forall>s\<in>fst ` set (subList r'). s < nextSub r'" using r(1,3) by (fastforce simp: fewer_def reg_inv_def)
  then show ?thesis using reg_inv_er [OF r(1) t(1,3), of "subList r'" "nextSub r'" r'] r(2) t(2) by (simp add: reg_linked_def)
qed

lemma addSubscription_iff:
  assumes "eroot (rtree r) = Some root" "TokenChain_create root (Some ev) el = Some (Some ch)"
  defines "hs \<equiv> hits root (Some ch) (visited root)"
  shows "rbusSubscriptions_addSubscription r li ev c f iv du ap el raw =
    (if decided root (Some ch) (visited root)
     then Some (Some (nextSub r), r\<lparr>rtree := (rtree r)\<lparr>eroot := Some (link_all (nextSub r) hs root)\<rparr>,
       subList := subList r @ [(nextSub r, \<lparr>sub_listener = li, sub_eventName = ev, sub_componentId = c,
         sub_filter = f, sub_interval = iv, sub_duration = du, sub_autoPublish = ap, sub_tokens = Some ch, sub_element = el,
         sub_instances = hs, sub_rawData = raw, sub_subscriptionId = nextSubscriptionId r\<rparr>)],
       nextSub := nextSub r + 1, nextSubscriptionId := nextSubscriptionId r + 1\<rparr>)
     else None)"
  using assms created_iff(1) [of root root "nextSub r" "Some ch" root "[]"]
  by (simp add: rbusSubscriptions_addSubscription_def Let_def)

lemma reg_inv_subscribe:
  assumes "reg_inv r" "rbusSubscriptions_addSubscription r li ev c f iv du ap el raw = Some (res, r')"
  shows "reg_inv r'"
proof -
  obtain root where root: "eroot (rtree r) = Some root" using assms(1) by (auto simp: reg_inv_def)
  note inv = reg_invD [OF assms(1) root]
  obtain tokens where t: "TokenChain_create root (Some ev) el = Some tokens"
    using assms(2) root by (auto simp: rbusSubscriptions_addSubscription_def Option.bind_eq_Some_conv)
  show ?thesis
  proof (cases tokens)
    case None
    then show ?thesis using assms t root by (simp add: rbusSubscriptions_addSubscription_def)
  next
    case (Some ch)
    let ?hs = "hits root (Some ch) (visited root)"
    have "\<forall>s\<in>fst ` set (subList r). s < nextSub r" using assms(1) by (simp add: reg_inv_def)
    then have new: "nextSub r \<notin> fst ` set (subList r)" by blast
    have "\<exists>x. sub_instances x = ?hs \<and> r' = r\<lparr>rtree := (rtree r)\<lparr>eroot := Some (link_all (nextSub r) ?hs root)\<rparr>,
        subList := subList r @ [(nextSub r, x)], nextSub := nextSub r + 1, nextSubscriptionId := nextSubscriptionId r + 1\<rparr>"
      using assms(2) unfolding addSubscription_iff [OF root t [unfolded Some]] by (force split: if_splits)
    then obtain x where x: "sub_instances x = ?hs" "r' = r\<lparr>rtree := (rtree r)\<lparr>eroot := Some (link_all (nextSub r) ?hs root)\<rparr>,
        subList := subList r @ [(nextSub r, x)], nextSub := nextSub r + 1, nextSubscriptionId := nextSubscriptionId r + 1\<rparr>" by blast
    have "linked (link_all (nextSub r) ?hs root) (subList r @ [(nextSub r, x)])"
      using linked_subscribe [OF inv(3) new hits_distinct [OF inv(4)] _ x(1)] hits_shown by blast
    then show ?thesis unfolding x(2)
      by (rule reg_inv_er [OF assms(1) root er_link_all]) (use assms(1) in \<open>auto simp: reg_inv_def\<close>)
  qed
qed

lemma reg_inv_grows:
  assumes "reg_inv r" "eroot (rtree r) = Some root" "tree_inv t'" "eroot t' = Some root'" "grows root root'"
  shows "reg_inv (r\<lparr>rtree := t'\<rparr>)"
proof -
  note inv = reg_invD [OF assms(1,2)]
  have "distinct (addrs root')" using assms(3,4) by (simp add: tree_inv_def)
  then have "linked root' (subList r)" "obj_rows root'"
    using linked_grows [OF inv(3) assms(5) inv(4)] obj_rows_grows [OF assms(5) inv(2)] by blast+
  then show ?thesis using assms(1,3,4) by (auto simp: reg_inv_def)
qed

text \<open>The way to a new row.\<close>

lemma chain_snoc:
  "distinct (addrs t) \<Longrightarrow> node_of a t = Some T \<Longrightarrow> n \<in> set (echildren T) \<Longrightarrow> chain_to (eaddr n) t = chain_to a t @ [n]"
proof (induction t)
  case (Element b i ks)
  let ?t = "Element b i ks"
  show ?case
  proof (cases "a = b")
    case True
    then have "T = ?t" using Element.prems(2) by (simp add: node_of_def)
    moreover then obtain pre post where "echildren ?t = pre @ n # post" using split_list Element.prems(3) by fastforce
    ultimately show ?thesis using chain_to_child [OF Element.prems(1), of pre n post "eaddr n"] True by simp
  next
    case False
    obtain pre k post where k: "echildren ?t = pre @ k # post" "a \<in> set (addrs k)" "k \<in> set ks"
      using child_with [of a ?t] node_of_SomeD [OF Element.prems(2)] False by auto
    have IH: "chain_to (eaddr n) k = chain_to a k @ [n]"
      using Element.IH [OF k(3)] distinct_child [OF Element.prems(1)] k(3) node_of_child [OF Element.prems(1) k(1,2)] Element.prems(2,3) by simp
    then have "eaddr n \<in> set (addrs k)" using chain_to_outside(1) [of "eaddr n" k] by auto
    then show ?thesis using chain_to_child [OF Element.prems(1) k(1)] k(2) IH by simp
  qed
qed

lemma chain_upd:
  "distinct (addrs t) \<Longrightarrow> node_of a t = Some T \<Longrightarrow>
   node_of a (upd_node a (with_children ks) t) = Some (with_children ks T) \<and>
   map einfo (chain_to a (upd_node a (with_children ks) t)) = map einfo (chain_to a t)"
proof (induction t)
  case (Element b i ls)
  let ?t = "Element b i ls"
  show ?case
  proof (cases "a = b")
    case True
    then have T: "T = ?t" using Element.prems(2) by (simp add: node_of_def)
    show ?thesis unfolding T using True by (simp add: node_of_def with_children_def)
  next
    case False
    obtain pre k post where k: "echildren ?t = pre @ k # post" "a \<in> set (addrs k)" "k \<in> set ls"
      using child_with [of a ?t] node_of_SomeD [OF Element.prems(2)] False by auto
    let ?k = "upd_node a (with_children ks) k"
    have IH: "node_of a ?k = Some (with_children ks T)" "map einfo (chain_to a ?k) = map einfo (chain_to a k)"
      using Element.IH [OF k(3)] distinct_child [OF Element.prems(1)] k(3) node_of_child [OF Element.prems(1) k(1,2)] Element.prems(2) by simp_all
    have "a \<notin> set (addrs_all pre)" using Element.prems(1) k(1,2) by auto
    then have "chain_among a (pre @ ?k # post) = chain_to a ?k" using chain_among_middle node_of_SomeD [OF IH(1)] by blast
    moreover obtain cs where "chain_to a ?k = ?k # cs" using chain_hd [OF node_of_SomeD [OF IH(1)]] by blast
    ultimately have "chain_to a (with_children (pre @ ?k # post) ?t) = with_children (pre @ ?k # post) ?t # chain_to a ?k"
      using False by (simp add: with_children_def)
    then show ?thesis unfolding upd_node_child [OF Element.prems(1) k(1,2)] chain_to_child [OF Element.prems(1) k(1,2)]
      using IH \<open>chain_to a ?k = ?k # cs\<close> by (simp add: node_of_def)
  qed
qed

lemma reg_inv_row_added:
  assumes "reg_inv r" "eroot (rtree r) = Some root" "node_of a root = Some T" "ntype T = RBUS_ELEMENT_TYPE_TABLE"
    "\<forall>x\<in>set (tl (chain_to a root)). nname x \<noteq> ''{i}''"
    "instantiateTableRow (rtree r) (Some a) num al = Some (Some row, t')"
    "rbusSubscriptions_onTableRowAdded (r\<lparr>rtree := t'\<rparr>) row = Some r'"
  shows "reg_inv r'"
proof -
  note inv = reg_invD [OF assms(1,2)]
  obtain n root1 where n: "eaddr n = row" "tree_inv t'" "eroot t' = Some root1" "root1 = upd_node a (with_children (echildren T @ [n])) root"
    "enext (rtree r) \<le> eaddr n" "nname n = take 31 (decimal (unat num))"
    using instantiate_inv [OF inv(1) assms(2-5), of num al] assms(6) by auto
  have g: "grows root root1" using grows_row [OF assms(6,2) inv(4) n(3) inv(2)] .
  let ?r = "r\<lparr>rtree := t'\<rparr>"
  have r1: "reg_inv ?r" using reg_inv_grows [OF assms(1,2) n(2,3) g] .
  have inv1: "obj_rows root1" "linked root1 (subList r)" "distinct (addrs root1)" using reg_invD [OF r1, of root1] n(3) by simp_all
  let ?T = "with_children (echildren T @ [n]) T"
  have T: "node_of a root1 = Some ?T" "map einfo (chain_to a root1) = map einfo (chain_to a root)"
    using chain_upd [OF inv(4) assms(3)] n(4) by blast+
  have ch: "chain_to row root1 = chain_to a root1 @ [n]" using chain_snoc [OF inv1(3) T(1), of n] n(1) by simp
  have names: "\<forall>y\<in>set (tl (chain_to row root1)). nname y \<noteq> ''{i}''"
  proof -
    have "map nname (tl (chain_to a root1)) = map nname (tl (chain_to a root))"
      using arg_cong [OF T(2), of "\<lambda>l. map ename (tl l)"] by (simp add: map_tl comp_def)
    then have "set (map nname (tl (chain_to a root1))) = set (map nname (tl (chain_to a root)))" by (rule arg_cong)
    then have eq: "nname ` set (tl (chain_to a root1)) = nname ` set (tl (chain_to a root))" unfolding set_map .
    have "''{i}'' \<notin> nname ` set (tl (chain_to a root))" using assms(5) by (auto simp: image_iff)
    then have "''{i}'' \<notin> nname ` set (tl (chain_to a root1))" unfolding eq .
    then have "\<forall>y\<in>set (tl (chain_to a root1)). nname y \<noteq> ''{i}''" by (intro ballI notI) (metis imageI)
    moreover have "chain_to a root1 \<noteq> []" using T(1) by (auto simp: node_of_def)
    ultimately show ?thesis unfolding ch using n(6) row_name by auto
  qed
  have nn: "node_of row root1 = Some n" using node_of_last [OF ch] .
  have "obj_rows ?T" using obj_rows_chain [OF inv1(1) node_of_chain [OF T(1)]] .
  then have nt: "ntype n \<noteq> RBUS_ELEMENT_TYPE_TABLE" using assms(4) obj_rows_iff [of ?T] by auto
  obtain ps qs where pq: "addrs root = ps @ addrs T @ qs" "addrs root1 = ps @ addrs ?T @ qs"
    using upd_node_context [OF inv(4) assms(3)] n(4) by blast
  have d: "distinct (addrs n)" "set (addrs n) \<inter> set (addrs root) = {}" using inv1(3) unfolding pq by (auto simp: addrs_eq [of T])
  have new: "shown b root1 \<and> subs_of b root1 = []" if b: "b \<in> set (map eaddr (fresh_nodes n))" for b
  proof -
    obtain k where k: "k \<in> set (fresh_nodes n)" "eaddr k = b" using b by auto
    then have "shown b root1" using fresh_visited [OF nt k(1)] visited_below [OF inv1(3) nn names] by (auto simp: shown_def)
    moreover have "b \<notin> set (addrs root)" using fresh_addrs [of n] addrs_eq [of n] d(2) b by auto
    ultimately show ?thesis using subs_of_grows [OF g inv(4) inv1(3), of b] info_of_inside [of b root] by (simp add: subs_of_def)
  qed
  have "distinct (map eaddr (fresh_nodes n))" using fresh_distinct d(1) addrs_eq [of n] by simp
  note link = link_each_ok [OF inv1(2) refl this]
  obtain root2 subs where l: "link_each (map eaddr (fresh_nodes n)) (root1, subList r) = Some (root2, subs)"
    "r' = r\<lparr>rtree := t'\<lparr>eroot := Some root2\<rparr>, subList := subs\<rparr>"
    using assms(7) n(3) nn by (auto simp: rbusSubscriptions_onTableRowAdded_def onElementCreated_iff Option.bind_eq_Some_conv)
  obtain f where "er root2 = er root1" "linked root2 subs" "subs = with_instances f (subList r)"
    using link new l(1) by (auto split: if_splits)
  moreover then have "map fst subs = map fst (subList r)" by simp
  then have "fst ` set subs = fst ` set (subList r)" by (metis set_map)
  ultimately show ?thesis using reg_inv_er [OF r1, of root1 root2 subs "nextSub r" r'] n(3) l(2) assms(1) by (simp add: reg_inv_def)
qed

lemma chain_parent: "chain_to a t = qs @ [P, x] \<Longrightarrow> x \<in> set (echildren P)"
proof (induction t arbitrary: qs)
  case (Element b i ks)
  have "\<exists>k\<in>set ls. chain_to a k = c # cs" if "chain_among a ls = c # cs" for c cs ls
    using that by (induction ls) (auto split: list.splits)
  moreover obtain c cs where c: "chain_among a ks = c # cs" "Element b i ks # c # cs = qs @ [P, x]"
    using Element.prems by (auto split: if_splits list.splits)
  ultimately obtain k where k: "k \<in> set ks" "chain_to a k = c # cs" by blast
  show ?case
  proof (cases qs)
    case Nil
    then show ?thesis using c(2) k chain_singleton [of a k x] by auto
  next
    case (Cons q qs')
    then show ?thesis using c(2) k Element.IH by simp
  qed
qed

lemma reg_inv_row_deleted:
  assumes "reg_inv r" "eroot (rtree r) = Some root" "row_chain (chain_to a root)"
    "rbusSubscriptions_onTableRowRemoved mk r a = Some r1" "deleteTableRow (rtree r1) (Some a) = Some t'"
  shows "reg_inv (r1\<lparr>rtree := t'\<rparr>)"
proof -
  note inv = reg_invD [OF assms(1,2)]
  obtain x where x: "node_of a root = Some x" "unlink_each mk (map eaddr (filter typed (visited x))) r = Some r1"
    using assms(2,4) by (auto simp: rbusSubscriptions_onTableRowRemoved_def onElementDeleted_iff Option.bind_eq_Some_conv)
  note r1 = unlink_each_ok [OF x(2) inv(6)]
  then have inv1: "reg_inv r1" using reg_inv_fewer [OF assms(1)] by blast
  obtain root1 where root1: "eroot (rtree r1) = Some root1" "er root1 = er root" using r1 assms(2) by (auto simp: fewer_def)
  note inv1' = reg_invD [OF inv1 root1(1)]
  have keys: "map er (chain_to a root1) = map er (chain_to a root)" using chain_er(1) [of a root1] chain_er(1) [of a root] root1(2) by simp
  obtain qs P where ch: "chain_to a root = qs @ [P, x]" "ntype P = RBUS_ELEMENT_TYPE_TABLE" "nname x \<noteq> ''{i}''"
    using assms(3) node_of_last x(1) unfolding row_chain_def by (metis append.assoc append_Cons append_Nil option.inject)
  obtain qs1 P1 x1 where ch1: "chain_to a root1 = qs1 @ [P1, x1]" "er P1 = er P" "er x1 = er x"
    using keys unfolding ch(1) by (auto simp: map_eq_append_conv map_eq_Cons_conv)
  have e: "ntype P1 = ntype P" "nname x1 = nname x" "ntype x1 = ntype x"
    using arg_cong [OF ch1(2), of ntype] arg_cong [OF ch1(3), of nname] arg_cong [OF ch1(3), of ntype] by simp_all
  then have row1: "row_chain (chain_to a root1)" unfolding row_chain_def using ch1(1) ch(2,3) by metis
  have x1: "node_of a root1 = Some x1" "a \<noteq> eaddr root1"
    using node_of_last [of a root1 "qs1 @ [P1]" x1] ch1(1) row_chain_inside [OF row1] by simp_all
  have "x1 \<in> set (echildren P1)" "obj_rows P1" using chain_parent [OF ch1(1)] obj_rows_chain [OF inv1'(2), of P1 a] ch1(1) by simp_all
  then have obj: "\<not> typed x1" using e(1) ch(2) obj_rows_iff [of P1] by (simp add: typed_def)
  have "map eaddr (filter typed (visited (er n))) = map eaddr (filter typed (visited n))" for n
    by (simp add: visited_er filter_map comp_def typed_def [abs_def])
  then have vis: "map eaddr (filter typed (visited x1)) = map eaddr (filter typed (visited x))" using ch1(3) by metis
  have "b \<notin> set (addrs x1)" if y: "(s, y) \<in> set (subList r1)" "b \<in> set (sub_instances y)" for s y b
  proof
    assume b: "b \<in> set (addrs x1)"
    obtain k where k: "k \<in> set (visited root1)" "eaddr k = b" "typed k" using linkedD(2) [OF inv1'(3) y] by (auto simp: shown_def)
    have "eaddr k' \<noteq> b" if "k' \<in> set (visited (unlink_node a root1))" for k'
      using that visited_addrs(1) [of "unlink_node a root1"] addrs_eq [of "unlink_node a root1"] addrs_unlink_row [OF inv1'(4) x1] b by auto
    then have "k \<in> set (visited x1)" using visited_unlink [OF inv1'(4) x1 k(1)] k obj by auto
    then have "b \<in> set (map eaddr (filter typed (visited x)))" unfolding vis [symmetric] using k(2,3) by auto
    then show False using r1 y by blast
  qed
  then have "set (sub_instances y) \<inter> set (addrs x1) = {}" if "(s, y) \<in> set (subList r1)" for s y using that by blast
  then have "linked (unlink_node a root1) (subList r1)" using linked_unlink [OF inv1'(3,4) x1] by blast
  moreover have "tree_inv t'" "eroot t' = Some (unlink_node a root1)" using delete_inv [OF inv1'(1) root1(1) row1] assms(5) by auto
  ultimately show ?thesis using inv1 obj_rows_unlink [OF inv1'(2)] by (simp add: reg_inv_def)
qed

text \<open>
  A provider registers elements under new names, adds and removes subscriptions, adds rows and deletes
  rows, each with the calls \<open>registerTableRow\<close> and \<open>unregisterTableRow\<close> make.
\<close>

inductive reg_step :: "(rbusDateTime \<Rightarrow> int) \<Rightarrow> registry \<Rightarrow> registry \<Rightarrow> bool" for mk where
  reg_element: "eroot (rtree r) = Some root \<Longrightarrow> new_path (element_tokens e) root \<Longrightarrow>
    insertElement (rtree r) (Some e) = Some (res, t') \<Longrightarrow> reg_step mk r (r\<lparr>rtree := t'\<rparr>)"
| reg_subscribe: "rbusSubscriptions_addSubscription r li ev c f iv du ap el raw = Some (res, r') \<Longrightarrow> reg_step mk r r'"
| reg_unsubscribe: "rbusSubscriptions_removeSubscription r s = Some r' \<Longrightarrow> reg_step mk r r'"
| reg_row_added: "eroot (rtree r) = Some root \<Longrightarrow> node_of a root = Some T \<Longrightarrow> ntype T = RBUS_ELEMENT_TYPE_TABLE \<Longrightarrow>
    \<forall>x\<in>set (tl (chain_to a root)). nname x \<noteq> ''{i}'' \<Longrightarrow>
    instantiateTableRow (rtree r) (Some a) num al = Some (Some row, t') \<Longrightarrow>
    rbusSubscriptions_onTableRowAdded (r\<lparr>rtree := t'\<rparr>) row = Some r' \<Longrightarrow> reg_step mk r r'"
| reg_row_deleted: "eroot (rtree r) = Some root \<Longrightarrow> row_chain (chain_to a root) \<Longrightarrow>
    rbusSubscriptions_onTableRowRemoved mk r a = Some r1 \<Longrightarrow> deleteTableRow (rtree r1) (Some a) = Some t' \<Longrightarrow>
    reg_step mk r (r1\<lparr>rtree := t'\<rparr>)"
| reg_noted: "eroot (rtree r) = Some root \<Longrightarrow>
    reg_step mk r (r\<lparr>rtree := (rtree r)\<lparr>eroot := Some (upd_node a (upd_info (\<lambda>i. i\<lparr>changeComp := by_comp, changeTime := now\<rparr>)) root)\<rparr>\<rparr>)"

text \<open>A subscription as it is loaded from the cache of the provider's last run: not yet tied to any element.\<close>

definition loaded :: "rbusSubscription \<Rightarrow> bool" where
  "loaded x \<longleftrightarrow> sub_tokens x = None \<and> sub_element x = None \<and> sub_instances x = []"

text \<open>A provider starts with the root of the tree and the subscriptions of its last run.\<close>

inductive reg_reachable :: "(rbusDateTime \<Rightarrow> int) \<Rightarrow> registry \<Rightarrow> bool" for mk where
  reg_created: "distinct (map fst subs) \<Longrightarrow> (\<And>q x. (q, x) \<in> set subs \<Longrightarrow> q < s \<and> loaded x) \<Longrightarrow>
    reg_reachable mk \<lparr>rtree = \<lparr>eroot = Some (upd_info (\<lambda>i. i\<lparr>ename := component\<rparr>) (getEmptyElementNode a)),
      pruneNode = [], enext = a + 1\<rparr>, subList = subs, offList = [], nextSub = s, nextSubscriptionId = 3\<rparr>"
| reg_stepped: "reg_reachable mk r \<Longrightarrow> reg_step mk r r' \<Longrightarrow> reg_reachable mk r'"

lemma reg_step_inv: "reg_step mk r r' \<Longrightarrow> reg_inv r \<Longrightarrow> reg_inv r'"
proof (induction rule: reg_step.induct)
  case (reg_element r root e res t')
  note inv = reg_invD [OF reg_element(4,1)]
  obtain root' where t': "tree_inv t'" "eroot t' = Some root'" using insert_inv [OF inv(1) reg_element(1,2)] reg_element(3) by auto
  then show ?case using reg_inv_grows [OF reg_element(4,1) t'] grows_insertElement [OF inv(1) reg_element(1-3) t'(2) inv(2)] by blast
next
  case (reg_unsubscribe r s r')
  then obtain root where "eroot (rtree r) = Some root" by (auto simp: reg_inv_def)
  then have "reg_linked r" using reg_invD(6) reg_unsubscribe(2) by blast
  then show ?case using remove_ok [of r s] reg_unsubscribe reg_inv_fewer by (metis option.inject)
next
  case (reg_subscribe r li ev c f iv du ap el raw res r')
  then show ?case using reg_inv_subscribe by blast
next
  case (reg_row_added r root a T num al row t' r')
  show ?case by (rule reg_inv_row_added [OF reg_row_added(7,1-6)])
next
  case (reg_row_deleted r root a r1 t')
  show ?case by (rule reg_inv_row_deleted [OF reg_row_deleted(5,1-4)])
next
  case (reg_noted r root a now by_comp)
  let ?root = "upd_node a (upd_info (\<lambda>i. i\<lparr>changeComp := by_comp, changeTime := now\<rparr>)) root"
  have er: "er ?root = er root" by (rule er_upd) simp
  have "subs_of b ?root = subs_of b root" for b
    by (cases "info_of a root") (auto simp: subs_of_def info_of_upd split: option.split)
  then have "linked ?root (subList r)"
    using reg_invD(3) [OF reg_noted(2,1)] shown_er [OF er] er_addrs [OF er] by (simp add: linked_def)
  moreover have "\<forall>s\<in>fst ` set (subList r). s < nextSub r" using reg_noted(2) by (simp add: reg_inv_def)
  ultimately show ?case by (rule reg_inv_er [OF reg_noted(2,1) er]) simp_all
qed

lemma reg_reachable_inv: "reg_reachable mk r \<Longrightarrow> reg_inv r"
proof (induction rule: reg_reachable.induct)
  case (reg_created subs s component a)
  then show ?case by (auto simp: reg_inv_def tree_inv_def linked_def loaded_def subs_of_def upd_info_def getEmptyElementNode_def)
qed (use reg_step_inv in blast)

text \<open>
  Whatever elements a provider registers under new names, whoever subscribes and unsubscribes and
  whatever rows are added and deleted, in any order: every instance element a subscription lists is in
  the tree, has a type and lists the subscription, no element is listed twice, every
  subscription an element lists is registered and lists the element, and a subscription can always be
  removed. So none of the pointers between elements and subscriptions dangles.
\<close>

lemma reg_links:
  assumes "reg_reachable mk r" "eroot (rtree r) = Some root"
  shows "(\<forall>s x a. (s, x) \<in> set (subList r) \<longrightarrow> distinct (sub_instances x) \<and>
      (a \<in> set (sub_instances x) \<longrightarrow> s \<in> set (subs_of a root) \<and>
        (\<exists>n. node_of a root = Some n \<and> ntype n \<noteq> RBUS_ELEMENT_TYPE_OBJECT))) \<and>
    (\<forall>s a. s \<in> set (subs_of a root) \<longrightarrow> (\<exists>x. map_of (subList r) s = Some x \<and> a \<in> set (sub_instances x))) \<and>
    (\<forall>s. \<exists>r'. rbusSubscriptions_removeSubscription r s = Some r')"
proof -
  note inv = reg_invD [OF reg_reachable_inv [OF assms(1)] assms(2)]
  have "\<exists>n. node_of a root = Some n \<and> ntype n \<noteq> RBUS_ELEMENT_TYPE_OBJECT" if "shown a root" for a
  proof -
    obtain k where k: "k \<in> set (visited root)" "eaddr k = a" "typed k" using \<open>shown a root\<close> by (auto simp: shown_def)
    then have "(a, einfo k) \<in> set (infos root)" using visited_nodes(1) [OF k(1)] by (cases root) auto
    then have "info_of a root = Some (einfo k)" using info_of_iff [OF inv(4)] by blast
    then show ?thesis using k(3) by (auto simp: info_of_node typed_def)
  qed
  moreover have "\<exists>x. map_of (subList r) s = Some x \<and> a \<in> set (sub_instances x)" if "s \<in> set (subs_of a root)" for s a
  proof -
    have d: "distinct (map fst (subList r))" "set (subs_of a root) = {s. \<exists>x. (s, x) \<in> set (subList r) \<and> a \<in> set (sub_instances x)}"
      using inv(3) by (simp_all add: linked_def)
    then show ?thesis using that map_of_eq_Some_iff [OF d(1)] by blast
  qed
  ultimately show ?thesis using linkedD [OF inv(3)] remove_ok [OF inv(6)] by blast
qed

section \<open>Examples\<close>

definition demo_reg :: "element_tree \<Rightarrow> registry" where
  "demo_reg t = \<lparr>rtree = t, subList = [], offList = [], nextSub = 0, nextSubscriptionId = 3\<rparr>"

definition after_reg :: "('a \<times> registry) run \<Rightarrow> registry" where
  "after_reg r = (case r of None \<Rightarrow> demo_reg demo0 | Some (x, r) \<Rightarrow> r)"

text \<open>A subscription to a property of all rows, and a row that is added afterwards.\<close>

definition demo_subscribed :: registry where
  "demo_subscribed = after_reg (rbusSubscriptions_addSubscription (demo_reg demo3) ''client.1'' ''A.T.*.P'' 1 NullF 0 0 True (Some 5) False)"

definition demo_tree :: element_tree where
  "demo_tree = after (instantiateTableRow (rtree demo_subscribed) (Some 2) 2 None)"

definition demo_row :: registry where
  "demo_row = after_reg (map_option (Pair ()) (rbusSubscriptions_onTableRowAdded (demo_subscribed\<lparr>rtree := demo_tree\<rparr>) 7))"

lemma demo_reg_element:
  assumes "reg_reachable mk (demo_reg t)" "eroot t = Some root" "new_path (element_tokens e) root" "insertElement t (Some e) = Some (res, t')"
  shows "reg_reachable mk (demo_reg t')"
proof -
  have "reg_step mk (demo_reg t) ((demo_reg t)\<lparr>rtree := t'\<rparr>)" using assms(2-4) by (intro reg_element) (simp_all add: demo_reg_def)
  then show ?thesis using reg_stepped [OF assms(1)] by (simp add: demo_reg_def)
qed

lemma demo_reg_computed:
  "rtree (demo_reg t) = t" "(demo_reg t)\<lparr>rtree := t'\<rparr> = demo_reg t'"
  "rbusSubscriptions_onTableRowAdded (demo_reg demo2) 4 = Some (demo_reg demo2)"
  "rbusSubscriptions_addSubscription (demo_reg demo3) ''client.1'' ''A.T.*.P'' 1 NullF 0 0 True (Some 5) False = Some (Some 0, demo_subscribed)"
  "eroot (rtree demo_subscribed) = Some (the (eroot (rtree demo_subscribed)))"
  "map_option ntype (node_of 2 (the (eroot (rtree demo_subscribed)))) = Some RBUS_ELEMENT_TYPE_TABLE"
  "\<forall>x\<in>set (tl (chain_to 2 (the (eroot (rtree demo_subscribed))))). nname x \<noteq> ''{i}''"
  by (simp add: demo_reg_def, simp add: demo_reg_def, code_simp+)

lemma demo_row_computed:
  "map (\<lambda>(s, x). (s, sub_instances x)) (subList demo_row) = [(0, [6, 8])]"
  "eroot (rtree demo_row) = Some (the (eroot (rtree demo_row)))"
  "instantiateTableRow (rtree demo_subscribed) (Some 2) 2 None = Some (Some 7, demo_tree)"
  "rbusSubscriptions_onTableRowAdded (demo_subscribed\<lparr>rtree := demo_tree\<rparr>) 7 = Some demo_row"
  by code_simp+

lemma demo_row_reachable: "reg_reachable mk demo_row"
proof -
  have 0: "reg_reachable mk (demo_reg demo0)" using reg_created [of "[]" 0 mk "''prov''" 0] by (simp add: demo_reg_def demo0_def)
  have 1: "reg_reachable mk (demo_reg demo1)" using demo_reg_element [OF 0 demo_computed(1,4,6)] .
  obtain T where T: "node_of 2 (the (eroot demo1)) = Some T" "ntype T = RBUS_ELEMENT_TYPE_TABLE" using demo_computed(9) by auto
  have "reg_step mk (demo_reg demo1) (demo_reg demo2)"
    using reg_row_added [of "demo_reg demo1", unfolded demo_reg_computed(1,2), OF demo_computed(2) T demo_computed(10,7) demo_reg_computed(3)] .
  then have 2: "reg_reachable mk (demo_reg demo2)" using reg_stepped [OF 1] by blast
  have 3: "reg_reachable mk (demo_reg demo3)" using demo_reg_element [OF 2 demo_computed(3,5,8)] .
  have 4: "reg_reachable mk demo_subscribed" using reg_stepped [OF 3 reg_subscribe [OF demo_reg_computed(4)]] .
  obtain T where T: "node_of 2 (the (eroot (rtree demo_subscribed))) = Some T" "ntype T = RBUS_ELEMENT_TYPE_TABLE" using demo_reg_computed(6) by auto
  have "reg_step mk demo_subscribed demo_row"
    using reg_row_added [OF demo_reg_computed(5) T demo_reg_computed(7) demo_row_computed(3,4)] .
  then show ?thesis using reg_stepped [OF 4] by blast
qed

text \<open>The element of the row that was added later is linked both ways.\<close>

lemma added_row_linked:
  "\<exists>x n. map_of (subList demo_row) 0 = Some x \<and> sub_instances x = [6, 8] \<and>
     node_of 8 (the (eroot (rtree demo_row))) = Some n \<and> ntype n \<noteq> RBUS_ELEMENT_TYPE_OBJECT \<and>
     0 \<in> set (subs_of 8 (the (eroot (rtree demo_row))))"
proof -
  obtain x where x: "subList demo_row = [(0, x)]" "sub_instances x = [6, 8]" using demo_row_computed(1) by auto
  then have "(0, x) \<in> set (subList demo_row)" "8 \<in> set (sub_instances x)" by simp_all
  then show ?thesis using reg_links [OF demo_row_reachable [of "\<lambda>_. 0"] demo_row_computed(2)] x by fastforce
qed

text \<open>
  Deleting one row removes the subscription to all rows: the element 6 of the other row, which the
  subscription listed and which still is there, has no subscription any more.
\<close>

theorem Wildcard_subscription_lost:
  "\<exists>r. rbusSubscriptions_onTableRowRemoved (\<lambda>_. 0) demo_row 7 = Some r \<and> subList r = [] \<and>
     map_option nname (node_of 6 (the (eroot (rtree r)))) = Some ''P'' \<and>
     subs_of 6 (the (eroot (rtree demo_row))) = [0] \<and> subs_of 6 (the (eroot (rtree r))) = []"
proof -
  let ?r = "after_reg (map_option (Pair ()) (rbusSubscriptions_onTableRowRemoved (\<lambda>_. 0) demo_row 7))"
  show ?thesis by (rule exI [of _ ?r]) code_simp
qed

text \<open>
  The variable \<open>val\<close> is not reset for each subscription: the subscription to an element of another
  row goes as well, because it comes after one to the deleted row.
\<close>

definition demo_other :: registry where
  "demo_other = after_reg (rbusSubscriptions_addSubscription demo_row ''client.2'' ''A.T.1.P'' 2 NullF 0 0 True (Some 5) False)"

theorem Other_subscription_lost:
  "\<exists>r. map (\<lambda>(s, x). (sub_eventName x, sub_instances x)) (subList demo_other) = [(''A.T.*.P'', [6, 8]), (''A.T.1.P'', [6])] \<and>
     map_option nname (node_of 7 (the (eroot (rtree demo_other)))) = Some ''2'' \<and>
     rbusSubscriptions_onTableRowRemoved (\<lambda>_. 0) demo_other 7 = Some r \<and> subList r = []"
proof -
  let ?r = "after_reg (map_option (Pair ()) (rbusSubscriptions_onTableRowRemoved (\<lambda>_. 0) demo_other 7))"
  show ?thesis by (rule exI [of _ ?r]) code_simp
qed

end
