(* ===== verification/RB_Events.thy ===== *)
theory RB_Events
  imports RB_SubscriptionLinks
begin

text \<open>
  A provider at work: publishing events (\<open>rbusEvent_Publish\<close>, \<^verbatim>\<open>src/src/rbus/rbus.c\<close>) and detecting value
  changes (\<^verbatim>\<open>src/src/rbus/rbus_valuechange.c\<close>). The first theorem says who is told of an event, the second
  that a polling round reports the changes, all of them and no others.

  The state is that of one handle. The handlers of the provider, what sending a message returns and
  the clock are arguments. Locks are not modelled: a step runs from one unlocking to the next locking.
\<close>

section \<open>Events\<close>

datatype rbusEventType_t =
  RBUS_EVENT_OBJECT_CREATED | RBUS_EVENT_OBJECT_DELETED | RBUS_EVENT_VALUE_CHANGED | RBUS_EVENT_GENERAL
| RBUS_EVENT_INITIAL_VALUE | RBUS_EVENT_INTERVAL | RBUS_EVENT_DURATION_COMPLETE

text \<open>
  The data of an event is the list of named values the object stands for, in the order of its properties
  (the theory of objects proves that setting a value by name is this update). Values that the library
  itself makes for an event are given by what they hold.
\<close>

datatype event_value = GivenV rbusValue_t | TextV string | NumberV u32 | FlagV bool

type_synonym event_data = "(string \<times> event_value) list"

record rbusEvent_t =
  ev_name :: string
  ev_type :: rbusEventType_t
  ev_data :: "event_data option"

fun event_SetValue :: "event_data \<Rightarrow> string \<Rightarrow> event_value \<Rightarrow> event_data" where
  "event_SetValue [] name v = (if v = GivenV NullV then [] else [(name, v)])"
| "event_SetValue ((n, w) # d) name v =
     (if v = GivenV NullV then (n, w) # d
      else if n = name then (n, v) # d else (n, w) # event_SetValue d name v)"

definition event_GetValue :: "event_data \<Rightarrow> string \<Rightarrow> rbusValue_t" where
  "event_GetValue d name = (case map_of d name of Some (GivenV v) \<Rightarrow> v | _ \<Rightarrow> NullV)"

text \<open>A message to a subscriber, as \<open>rbusEventData_appendToMessage\<close> fills it and \<open>rbus_publishSubscriberEvent\<close> sends it.\<close>

record subscriber_message =
  to_event :: string
  to_listener :: string
  to_payload :: rbusEvent_t
  to_filter :: rbusFilter_t
  to_interval :: int
  to_duration :: int
  to_componentId :: int
  to_subscriptionId :: u32
  to_rawData :: bool

section \<open>The state of a provider\<close>

record ValueChangeRecord =
  vc_node :: addr
  vc_name :: "string option"
  vc_value :: rbusValue_t

record ValueChangeDetector =
  vc_running :: bool
  vc_params :: "ValueChangeRecord list"

record sRecord =
  sr_node :: addr
  sr_sub :: addr

record provider =
  componentName :: string
  reg :: registry
  gVC :: "ValueChangeDetector option"
  gRecord :: "sRecord list"
  outbox :: "subscriber_message list"
  published :: "rbusEvent_t list"

text \<open>
  Code of the provider and the world: the get handler (result and the value it put into the property),
  the subscription handler (result and \<open>autoPublish\<close>), the result of sending a message, the clock in
  milliseconds, and \<open>mktime\<close>.
\<close>

record provider_code =
  get_handler :: "addr \<Rightarrow> string option \<Rightarrow> int \<times> rbusValue_t"
  sub_handler :: "addr \<Rightarrow> bool \<Rightarrow> string \<Rightarrow> rbusFilter_t \<Rightarrow> int \<Rightarrow> bool \<Rightarrow> int \<times> bool"
  send_message :: "subscriber_message \<Rightarrow> int"
  clock :: int
  mktime :: "rbusDateTime \<Rightarrow> int"

abbreviation element_root :: "provider \<Rightarrow> elementNode option" where
  "element_root p \<equiv> eroot (rtree (reg p))"

section \<open>Publishing\<close>

text \<open>
  Each subscription of the element in turn. With a filter a value change is published only when the
  filter starts or stops to match; the data then says which, also to the subscribers that follow.
\<close>

fun publish_loop :: "provider_code \<Rightarrow> (addr \<times> rbusSubscription) list \<Rightarrow> rbusValue_t \<Rightarrow> rbusValue_t \<Rightarrow> addr list \<Rightarrow>
    rbusEvent_t \<Rightarrow> int \<Rightarrow> (int \<times> rbusEvent_t \<times> subscriber_message list) run" where
  "publish_loop env subs newVal oldVal [] ev errOut = Some (errOut, ev, [])"
| "publish_loop env subs newVal oldVal (s # ss) ev errOut =
     do { sub \<leftarrow> map_of subs s;
          (publish, ev) \<leftarrow>
            (if ev_type ev = RBUS_EVENT_VALUE_CHANGED \<and> sub_filter sub \<noteq> NullF
             then do { newResult \<leftarrow> rbusFilter_Apply (mktime env) (sub_filter sub) newVal;
                       oldResult \<leftarrow> rbusFilter_Apply (mktime env) (sub_filter sub) oldVal;
                       Some (if newResult \<noteq> oldResult
                             then (True, ev\<lparr>ev_data := map_option (\<lambda>d. event_SetValue d ''filter'' (FlagV newResult)) (ev_data ev)\<rparr>)
                             else (False, ev)) }
             else Some (True, ev));
          let msgs = (if publish \<and> \<not> sub_rawData sub
            then [\<lparr>to_event = sub_eventName sub, to_listener = sub_listener sub, to_payload = ev, to_filter = sub_filter sub,
                   to_interval = sub_interval sub, to_duration = sub_duration sub, to_componentId = sub_componentId sub,
                   to_subscriptionId = sub_subscriptionId sub, to_rawData = sub_rawData sub\<rparr>]
            else []);
          let errOut = fold (\<lambda>m e. if send_message env m \<noteq> 0 \<and> e = 0 then send_message env m else e) msgs errOut;
          (errOut, ev, rest) \<leftarrow> publish_loop env subs newVal oldVal ss ev errOut;
          Some (errOut, ev, msgs @ rest) }"

definition rbusEvent_Publish :: "provider_code \<Rightarrow> provider \<Rightarrow> rbusEvent_t \<Rightarrow> (int \<times> provider) run" where
  "rbusEvent_Publish env p eventData =
     (let p = p\<lparr>published := published p @ [eventData]\<rparr>
      in case retrieveInstanceElement (rtree (reg p)) (ev_name eventData) of
           None \<Rightarrow> Some (RBUS_ERROR_ELEMENT_DOES_NOT_EXIST, p)
         | Some a \<Rightarrow>
             do { root \<leftarrow> element_root p;
                  el \<leftarrow> node_of a root;
                  case subscriptions (einfo el) of
                    None \<Rightarrow> Some (RBUS_ERROR_NOSUBSCRIBERS, p)
                  | Some l \<Rightarrow>
                      let newVal = (case ev_data eventData of None \<Rightarrow> NullV | Some d \<Rightarrow> event_GetValue d ''value'');
                          oldVal = (case ev_data eventData of None \<Rightarrow> NullV | Some d \<Rightarrow> event_GetValue d ''oldValue'')
                      in if ev_type eventData = RBUS_EVENT_VALUE_CHANGED \<and> (newVal = NullV \<or> oldVal = NullV)
                         then Some (RBUS_ERROR_INVALID_INPUT, p)
                         else do { (errOut, _, msgs) \<leftarrow> publish_loop env (subList (reg p)) newVal oldVal l eventData 0;
                                   Some (if errOut = 0 then RBUS_ERROR_SUCCESS else RBUS_ERROR_BUS_ERROR,
                                         p\<lparr>outbox := outbox p @ msgs\<rparr>) } })"

section \<open>Value changes\<close>

definition RBUS_VALUECHANGE_PERIOD :: int where "RBUS_VALUECHANGE_PERIOD = 2000"

definition vcParams_Find :: "ValueChangeDetector \<Rightarrow> addr \<Rightarrow> ValueChangeRecord option" where
  "vcParams_Find vc paramNode = find (\<lambda>rec. vc_node rec = paramNode) (vc_params vc)"

text \<open>The assertions on the node are on.\<close>

definition rbusValueChange_AddPropertyNode :: "provider_code \<Rightarrow> provider \<Rightarrow> addr \<Rightarrow> provider run" where
  "rbusValueChange_AddPropertyNode env p propNode =
     do { let vc = (case gVC p of None \<Rightarrow> \<lparr>vc_running = False, vc_params = []\<rparr> | Some vc \<Rightarrow> vc);
          root \<leftarrow> element_root p;
          n \<leftarrow> node_of propNode root;
          if ntype n \<noteq> RBUS_ELEMENT_TYPE_PROPERTY then None
          else do {
            h \<leftarrow> getHandler (cbTable (einfo n));
            case vcParams_Find vc propNode of
              Some rec \<Rightarrow> Some (p\<lparr>gVC := Some vc\<rparr>)
            | None \<Rightarrow>
                let (result, value) = get_handler env h (efullName (einfo n))
                in if result \<noteq> RBUS_ERROR_SUCCESS then Some (p\<lparr>gVC := Some vc\<rparr>)
                   else Some (p\<lparr>gVC := Some \<lparr>vc_running = True,
                     vc_params = vc_params vc @ [\<lparr>vc_node = propNode, vc_name = efullName (einfo n), vc_value = value\<rparr>]\<rparr>\<rparr>) } }"

definition rbusValueChange_RemovePropertyNode :: "provider \<Rightarrow> addr \<Rightarrow> provider" where
  "rbusValueChange_RemovePropertyNode p propNode =
     (case gVC p of
        None \<Rightarrow> p
      | Some vc \<Rightarrow>
          (case vcParams_Find vc propNode of
             None \<Rightarrow> p
           | Some rec \<Rightarrow>
               let params = remove1 rec (vc_params vc)
               in p\<lparr>gVC := Some \<lparr>vc_running = vc_running vc \<and> params \<noteq> [], vc_params = params\<rparr>\<rparr>))"

definition setPropertyChangeComponent :: "provider_code \<Rightarrow> provider \<Rightarrow> addr \<Rightarrow> provider run" where
  "setPropertyChangeComponent env p a =
     do { root \<leftarrow> element_root p;
          Some (p\<lparr>reg := (reg p)\<lparr>rtree := (rtree (reg p))\<lparr>eroot := Some
            (upd_node a (upd_info (\<lambda>i. i\<lparr>changeComp := Some (componentName p), changeTime := clock env\<rparr>)) root)\<rparr>\<rparr>\<rparr>) }"

text \<open>One round of the polling thread over the records.\<close>

definition poll_record :: "provider_code \<Rightarrow> provider \<Rightarrow> ValueChangeRecord \<Rightarrow> (ValueChangeRecord \<times> provider) run" where
  "poll_record env p rec =
     do { root \<leftarrow> element_root p;
          n \<leftarrow> node_of (vc_node rec) root;
          case getHandler (cbTable (einfo n)) of
            None \<Rightarrow> Some (rec, p)
          | Some h \<Rightarrow>
              let (result, newVal) = get_handler env h (vc_name rec); oldVal = vc_value rec
              in if result \<noteq> RBUS_ERROR_SUCCESS then Some (rec, p)
                 else do {
                   c \<leftarrow> rbusValue_Compare (mktime env) newVal oldVal;
                   if c = 0 then Some (rec, p)
                   else do {
                     p \<leftarrow> (case changeComp (einfo n) of
                             None \<Rightarrow> setPropertyChangeComponent env p (vc_node rec)
                           | Some by_comp \<Rightarrow>
                               if clock env - changeTime (einfo n) \<ge> RBUS_VALUECHANGE_PERIOD \<and> strcmp (componentName p) by_comp = 0
                               then setPropertyChangeComponent env p (vc_node rec) else Some p);
                     root \<leftarrow> element_root p;
                     n \<leftarrow> node_of (vc_node rec) root;
                     by_comp \<leftarrow> changeComp (einfo n);
                     name \<leftarrow> vc_name rec;
                     let event = \<lparr>ev_name = name, ev_type = RBUS_EVENT_VALUE_CHANGED, ev_data = Some
                       (event_SetValue (event_SetValue (event_SetValue [] ''value'' (GivenV newVal))
                         ''oldValue'' (GivenV oldVal)) ''by'' (TextV by_comp))\<rparr>;
                     (rc, p) \<leftarrow> rbusEvent_Publish env p event;
                     Some (rec\<lparr>vc_value := newVal\<rparr>, p) } } }"

fun poll_loop :: "provider_code \<Rightarrow> ValueChangeRecord list \<Rightarrow> provider \<Rightarrow> (ValueChangeRecord list \<times> provider) run" where
  "poll_loop env [] p = Some ([], p)"
| "poll_loop env (rec # recs) p =
     do { (rec, p) \<leftarrow> poll_record env p rec; (recs, p) \<leftarrow> poll_loop env recs p; Some (rec # recs, p) }"

definition rbusValueChange_poll :: "provider_code \<Rightarrow> provider \<Rightarrow> provider run" where
  "rbusValueChange_poll env p =
     (case gVC p of
        None \<Rightarrow> Some p
      | Some vc \<Rightarrow>
          if \<not> vc_running vc then Some p
          else do { (recs, p) \<leftarrow> poll_loop env (vc_params vc) p; Some (p\<lparr>gVC := Some (vc\<lparr>vc_params := recs\<rparr>)\<rparr>) })"

section \<open>Who is told\<close>

lemma find_instance_child: "find_instance tok cur = Some (pre, c, post) \<Longrightarrow> echildren cur = pre @ c # post"
  by (auto simp: find_instance_def extract_Some_iff split: list.splits if_splits option.splits)

lemma instance_walk_inside:
  "instance_walk (\<lambda>_ n. n) False w toks cur = (cur', Some x) \<Longrightarrow> eaddr x \<in> set (addrs cur)"
proof (induction "length toks" arbitrary: w toks cur cur')
  case 0
  then show ?case by auto
next
  case (Suc k)
  then obtain tok toks' where toks: "toks = tok # toks'" "length toks' = k" by (cases toks) auto
  then obtain pre c post where c: "find_instance tok cur = Some (pre, c, post)" using Suc.prems by (auto split: option.splits)
  obtain c' r where r: "instance_walk (\<lambda>_ n. n) False (fst (instance_token w c toks')) (snd (instance_token w c toks')) c = (c', r)" "r = Some x"
    using Suc.prems toks(1) c by (auto simp: Let_def split: prod.splits)
  then have "eaddr x \<in> set (addrs c)" using Suc.hyps(1) [of "snd (instance_token w c toks')"] toks(2) by auto
  then show ?case using find_instance_child [OF c] addrs_eq [of cur] by simp
qed

lemma retrieveInstance_inside:
  assumes "retrieveInstanceElement t name = Some a" "eroot t = Some root"
  obtains n where "node_of a root = Some n"
proof -
  have "a \<in> set (addrs root)"
    using assms instance_walk_inside
    by (auto simp: retrieveInstanceElement_def retrieveInstanceElementEx_def Let_def simp del: instance_walk.simps
        split: list.splits prod.splits)
  then show thesis using that chain_to_inside(1) [of a root] by (cases "chain_to a root") (auto simp: node_of_def)
qed

text \<open>Whether an event goes to a subscription: raw data goes another way, and a filter must start or stop to match.\<close>

definition notified :: "provider_code \<Rightarrow> rbusEventType_t \<Rightarrow> rbusValue_t \<Rightarrow> rbusValue_t \<Rightarrow> rbusSubscription \<Rightarrow> bool" where
  "notified env ty newVal oldVal sub \<longleftrightarrow> \<not> sub_rawData sub \<and>
     (ty = RBUS_EVENT_VALUE_CHANGED \<and> sub_filter sub \<noteq> NullF \<longrightarrow>
       rbusFilter_Apply (mktime env) (sub_filter sub) newVal \<noteq> rbusFilter_Apply (mktime env) (sub_filter sub) oldVal)"

definition filters_run :: "provider_code \<Rightarrow> rbusValue_t \<Rightarrow> rbusValue_t \<Rightarrow> rbusSubscription \<Rightarrow> bool" where
  "filters_run env newVal oldVal sub \<longleftrightarrow> rbusFilter_Apply (mktime env) (sub_filter sub) newVal \<noteq> None \<and>
     rbusFilter_Apply (mktime env) (sub_filter sub) oldVal \<noteq> None"

text \<open>The message for a subscription: the event as it was published, but for the mark of a filter.\<close>

definition carries :: "rbusEvent_t \<Rightarrow> rbusEvent_t \<Rightarrow> bool" where
  "carries ev ev' \<longleftrightarrow> ev_name ev' = ev_name ev \<and> ev_type ev' = ev_type ev \<and>
     (case (ev_data ev, ev_data ev') of
        (None, None) \<Rightarrow> True
      | (Some d, Some d') \<Rightarrow> \<forall>k. k \<noteq> ''filter'' \<longrightarrow> map_of d' k = map_of d k
      | _ \<Rightarrow> False)"

definition addressed :: "provider_code \<Rightarrow> rbusEvent_t \<Rightarrow> rbusValue_t \<Rightarrow> subscriber_message \<Rightarrow> rbusSubscription \<Rightarrow> bool" where
  "addressed env ev newVal m sub \<longleftrightarrow> to_event m = sub_eventName sub \<and> to_listener m = sub_listener sub \<and>
     to_componentId m = sub_componentId sub \<and> to_subscriptionId m = sub_subscriptionId sub \<and> carries ev (to_payload m) \<and>
     (ev_type ev = RBUS_EVENT_VALUE_CHANGED \<and> sub_filter sub \<noteq> NullF \<longrightarrow>
       (\<exists>d b. ev_data (to_payload m) = Some d \<and> map_of d ''filter'' = Some (FlagV b) \<and>
          rbusFilter_Apply (mktime env) (sub_filter sub) newVal = Some b))"

lemma map_of_event_SetValue:
  "map_of (event_SetValue d k v) j = (if j = k \<and> v \<noteq> GivenV NullV then Some v else map_of d j)"
  by (induction d k v rule: event_SetValue.induct) auto

lemma carries_refl [simp]: "carries ev ev"
  by (simp add: carries_def split: option.split)

lemma carries_flag: "carries ev ev' \<Longrightarrow> carries ev (ev'\<lparr>ev_data := map_option (\<lambda>d. event_SetValue d ''filter'' (FlagV b)) (ev_data ev')\<rparr>)"
  by (auto simp: carries_def map_of_event_SetValue split: option.splits)

lemma publish_loop_ok:
  "\<forall>s\<in>set ss. \<exists>sub. map_of subs s = Some sub \<and> filters_run env newVal oldVal sub \<Longrightarrow>
   ev_type ev = RBUS_EVENT_VALUE_CHANGED \<longrightarrow> ev_data ev \<noteq> None \<Longrightarrow> carries ev ev0 \<Longrightarrow>
   \<exists>err ev' msgs. publish_loop env subs newVal oldVal ss ev0 e = Some (err, ev', msgs) \<and>
     list_all2 (addressed env ev newVal) msgs (filter (notified env (ev_type ev) newVal oldVal) (map (\<lambda>s. the (map_of subs s)) ss)) \<and>
     (err = 0 \<longleftrightarrow> e = 0 \<and> (\<forall>m\<in>set msgs. send_message env m = 0))"
proof (induction ss arbitrary: ev0 e)
  case (Cons s ss)
  obtain sub where sub: "map_of subs s = Some sub" "filters_run env newVal oldVal sub" using Cons.prems(1) by auto
  have ty: "ev_type ev0 = ev_type ev" using Cons.prems(3) by (simp add: carries_def)
  let ?vc = "ev_type ev = RBUS_EVENT_VALUE_CHANGED \<and> sub_filter sub \<noteq> NullF"
  obtain newR oldR where R: "rbusFilter_Apply (mktime env) (sub_filter sub) newVal = Some newR"
    "rbusFilter_Apply (mktime env) (sub_filter sub) oldVal = Some oldR" using sub(2) by (auto simp: filters_run_def)
  define pub where "pub \<longleftrightarrow> \<not> ?vc \<or> newR \<noteq> oldR"
  define ev1 where "ev1 = (if ?vc \<and> newR \<noteq> oldR
    then ev0\<lparr>ev_data := map_option (\<lambda>d. event_SetValue d ''filter'' (FlagV newR)) (ev_data ev0)\<rparr> else ev0)"
  define msg where "msg = \<lparr>to_event = sub_eventName sub, to_listener = sub_listener sub, to_payload = ev1, to_filter = sub_filter sub,
    to_interval = sub_interval sub, to_duration = sub_duration sub, to_componentId = sub_componentId sub,
    to_subscriptionId = sub_subscriptionId sub, to_rawData = sub_rawData sub\<rparr>"
  define msgs where "msgs = (if pub \<and> \<not> sub_rawData sub then [msg] else [])"
  define e1 where "e1 = fold (\<lambda>m e. if send_message env m \<noteq> 0 \<and> e = 0 then send_message env m else e) msgs e"
  have c1: "carries ev ev1" using Cons.prems(3) carries_flag by (simp add: ev1_def)
  obtain err ev' rest where IH: "publish_loop env subs newVal oldVal ss ev1 e1 = Some (err, ev', rest)"
    "list_all2 (addressed env ev newVal) rest (filter (notified env (ev_type ev) newVal oldVal) (map (\<lambda>s. the (map_of subs s)) ss))"
    "err = 0 \<longleftrightarrow> e1 = 0 \<and> (\<forall>m\<in>set rest. send_message env m = 0)"
  proof -
    have "\<forall>s\<in>set ss. \<exists>sub. map_of subs s = Some sub \<and> filters_run env newVal oldVal sub" using Cons.prems(1) by simp
    then show thesis using that Cons.IH [OF _ Cons.prems(2) c1, of e1] by blast
  qed
  have "publish_loop env subs newVal oldVal (s # ss) ev0 e = Some (err, ev', msgs @ rest)"
    using sub(1) R ty IH(1) by (auto simp: msgs_def msg_def e1_def ev1_def pub_def Let_def)
  moreover have n: "notified env (ev_type ev) newVal oldVal sub \<longleftrightarrow> pub \<and> \<not> sub_rawData sub" using R by (auto simp: notified_def pub_def)
  moreover have "addressed env ev newVal msg sub" if pub
  proof -
    have "\<exists>d. ev_data ev0 = Some d" if ?vc using Cons.prems(2,3) that by (auto simp: carries_def split: option.splits)
    then show ?thesis using c1 R(1) \<open>pub\<close> by (auto simp: addressed_def msg_def ev1_def pub_def map_of_event_SetValue)
  qed
  moreover have "e1 = 0 \<longleftrightarrow> e = 0 \<and> (\<forall>m\<in>set msgs. send_message env m = 0)" by (simp add: e1_def msgs_def)
  ultimately show ?case using IH(2,3) sub(1) by (auto simp: msgs_def)
qed simp

lemma publish_addressed:
  assumes "reg_reachable mk (reg p)" "element_root p = Some root"
    and "retrieveInstanceElement (rtree (reg p)) (ev_name ev) = Some a" "subs_of a root \<noteq> []"
    and "ev_type ev = RBUS_EVENT_VALUE_CHANGED \<longrightarrow> ev_data ev \<noteq> None \<and> newVal \<noteq> NullV \<and> oldVal \<noteq> NullV"
    and "newVal = (case ev_data ev of None \<Rightarrow> NullV | Some d \<Rightarrow> event_GetValue d ''value'')"
    and "oldVal = (case ev_data ev of None \<Rightarrow> NullV | Some d \<Rightarrow> event_GetValue d ''oldValue'')"
    and "\<forall>(s, sub)\<in>set (subList (reg p)). filters_run env newVal oldVal sub"
  shows "\<exists>rc p' msgs. rbusEvent_Publish env p ev = Some (rc, p') \<and> outbox p' = outbox p @ msgs \<and> reg p' = reg p \<and>
    list_all2 (addressed env ev newVal) msgs
      (filter (notified env (ev_type ev) newVal oldVal) (map (\<lambda>s. the (map_of (subList (reg p)) s)) (subs_of a root))) \<and>
    (rc = RBUS_ERROR_SUCCESS \<longleftrightarrow> (\<forall>m\<in>set msgs. send_message env m = 0))"
proof -
  obtain n where n: "node_of a root = Some n" using retrieveInstance_inside [OF assms(3,2)] .
  obtain l where l: "subscriptions (einfo n) = Some l" "subs_of a root = l"
    using n assms(4) by (auto simp: subs_of_def info_of_node split: option.splits)
  note inv = reg_invD [OF reg_reachable_inv [OF assms(1)] assms(2)]
  have "\<forall>s\<in>set l. \<exists>sub. map_of (subList (reg p)) s = Some sub \<and> filters_run env newVal oldVal sub"
  proof
    fix s assume "s \<in> set l"
    then obtain x where "(s, x) \<in> set (subList (reg p))" using inv(3) l(2) by (auto simp: linked_def)
    moreover then obtain y where "map_of (subList (reg p)) s = Some y" using weak_map_of_SomeI by metis
    ultimately show "\<exists>sub. map_of (subList (reg p)) s = Some sub \<and> filters_run env newVal oldVal sub"
      using assms(8) map_of_SomeD by fastforce
  qed
  note loop = publish_loop_ok [OF this, of ev ev 0]
  obtain err ev' msgs where m: "publish_loop env (subList (reg p)) newVal oldVal l ev 0 = Some (err, ev', msgs)"
    "list_all2 (addressed env ev newVal) msgs (filter (notified env (ev_type ev) newVal oldVal) (map (\<lambda>s. the (map_of (subList (reg p)) s)) l))"
    "err = 0 \<longleftrightarrow> (\<forall>m\<in>set msgs. send_message env m = 0)"
    using loop assms(5) by auto
  let ?p = "p\<lparr>published := published p @ [ev], outbox := outbox p @ msgs\<rparr>"
  let ?rc = "if err = 0 then RBUS_ERROR_SUCCESS else RBUS_ERROR_BUS_ERROR"
  have "rbusEvent_Publish env p ev = Some (?rc, ?p)"
    using assms(2,3,5) n l(1) m(1) unfolding assms(6,7) by (auto simp: rbusEvent_Publish_def Let_def)
  then show ?thesis using m(2,3) l(2) by (intro exI [of _ ?rc] exI [of _ ?p] exI [of _ msgs]) (auto simp: RBUS_ERROR_SUCCESS_def RBUS_ERROR_BUS_ERROR_def)
qed

text \<open>
  C13. Publishing an event for an element of a provider that has subscriptions returns and sends one message to each of
  the subscriptions of the element that are to be told, in their order: all that are not for raw data, and
  of those with a filter for a value change just the ones whose filter starts or stops to match. The
  message has the name the subscriber used, its listener and identifier, and the event as it was
  published, with the new state of the filter for those that have one. The result is success just when every message
  could be sent, and the registry is as before.
\<close>

theorem Publish_delivers:
  assumes "reg_reachable mk (reg p)" "element_root p = Some root"
    and "retrieveInstanceElement (rtree (reg p)) (ev_name ev) = Some a" "subs_of a root \<noteq> []"
    and "ev_type ev = RBUS_EVENT_VALUE_CHANGED \<longrightarrow> ev_data ev \<noteq> None \<and> newVal \<noteq> NullV \<and> oldVal \<noteq> NullV"
    and "newVal = (case ev_data ev of None \<Rightarrow> NullV | Some d \<Rightarrow> event_GetValue d ''value'')"
    and "oldVal = (case ev_data ev of None \<Rightarrow> NullV | Some d \<Rightarrow> event_GetValue d ''oldValue'')"
    and "\<forall>(s, sub)\<in>set (subList (reg p)). filters_run env newVal oldVal sub"
  shows "\<exists>rc p' msgs. rbusEvent_Publish env p ev = Some (rc, p') \<and> outbox p' = outbox p @ msgs \<and> reg p' = reg p \<and>
    list_all2 (addressed env ev newVal) msgs
      (filter (notified env (ev_type ev) newVal oldVal) (map (\<lambda>s. the (map_of (subList (reg p)) s)) (subs_of a root))) \<and>
    (rc = RBUS_ERROR_SUCCESS \<longleftrightarrow> (\<forall>m\<in>set msgs. send_message env m = 0))"
  using assms by (rule publish_addressed)

section \<open>Value changes are reported\<close>

text \<open>What the get handler of a record yields, and the new value if it differs from the one seen last.\<close>

definition reading :: "provider_code \<Rightarrow> elementNode \<Rightarrow> ValueChangeRecord \<Rightarrow> rbusValue_t option" where
  "reading env root rec =
     (case info_of (vc_node rec) root of
        None \<Rightarrow> None
      | Some i \<Rightarrow>
          (case getHandler (cbTable i) of
             None \<Rightarrow> None
           | Some h \<Rightarrow> (case get_handler env h (vc_name rec) of (result, v) \<Rightarrow> if result = RBUS_ERROR_SUCCESS then Some v else None)))"

definition change :: "provider_code \<Rightarrow> elementNode \<Rightarrow> ValueChangeRecord \<Rightarrow> rbusValue_t option" where
  "change env root rec =
     (case reading env root rec of
        None \<Rightarrow> None
      | Some v \<Rightarrow> if rbusValue_Compare (mktime env) v (vc_value rec) = Some 0 then None else Some v)"

definition refreshed :: "provider_code \<Rightarrow> elementNode \<Rightarrow> ValueChangeRecord \<Rightarrow> ValueChangeRecord" where
  "refreshed env root rec = (case change env root rec of None \<Rightarrow> rec | Some v \<Rightarrow> rec\<lparr>vc_value := v\<rparr>)"

definition change_report :: "provider_code \<Rightarrow> elementNode \<Rightarrow> ValueChangeRecord \<Rightarrow> (string \<times> rbusValue_t \<times> rbusValue_t) list" where
  "change_report env root rec = (case change env root rec of None \<Rightarrow> [] | Some v \<Rightarrow> [(the (vc_name rec), v, vc_value rec)])"

definition reported :: "rbusEvent_t \<Rightarrow> string \<times> rbusValue_t \<times> rbusValue_t" where
  "reported ev = (ev_name ev, event_GetValue (the (ev_data ev)) ''value'', event_GetValue (the (ev_data ev)) ''oldValue'')"

text \<open>Trees that differ in the component that made the last change only.\<close>

definition alike :: "elementNode \<Rightarrow> elementNode \<Rightarrow> bool" where
  "alike root root' \<longleftrightarrow> (\<forall>a. map_option (\<lambda>i. (cbTable i, subscriptions i)) (info_of a root') = map_option (\<lambda>i. (cbTable i, subscriptions i)) (info_of a root))"

lemma alike_upd: "alike root root0 \<Longrightarrow> (\<And>i. cbTable (f i) = cbTable i \<and> subscriptions (f i) = subscriptions i) \<Longrightarrow>
    alike root (upd_node a (upd_info f) root0)"
  by (simp add: alike_def info_of_upd option.map_comp comp_def)

lemma alike_inside: "alike root root' \<Longrightarrow> info_of a root' = None \<longleftrightarrow> info_of a root = None"
  unfolding alike_def by (drule spec [of _ a]) (auto simp: map_option_case split: option.splits)

lemma alike_subs: "alike root root' \<Longrightarrow> subs_of a root' = subs_of a root"
  unfolding alike_def subs_of_def by (drule spec [of _ a]) (auto simp: map_option_case split: option.splits)

lemma alike_reading: "alike root root' \<Longrightarrow> reading env root' rec = reading env root rec"
  unfolding alike_def reading_def by (drule spec [of _ "vc_node rec"]) (auto simp: map_option_case split: option.splits)

definition known_subs :: "registry \<Rightarrow> elementNode \<Rightarrow> bool" where
  "known_subs r root \<longleftrightarrow> (\<forall>a. \<forall>s\<in>set (subs_of a root). map_of (subList r) s \<noteq> None)"

lemma Publish_returns:
  assumes "element_root p = Some root" "known_subs (reg p) root" "ev_data ev = Some d"
    "\<forall>(s, sub)\<in>set (subList (reg p)). filters_run env (event_GetValue d ''value'') (event_GetValue d ''oldValue'') sub"
  shows "\<exists>rc p'. rbusEvent_Publish env p ev = Some (rc, p') \<and> reg p' = reg p \<and> gVC p' = gVC p \<and> componentName p' = componentName p \<and>
    published p' = published p @ [ev]"
proof (cases "retrieveInstanceElement (rtree (reg p)) (ev_name ev)")
  case None
  then show ?thesis by (simp add: rbusEvent_Publish_def Let_def)
next
  case (Some a)
  obtain n where n: "node_of a root = Some n" using retrieveInstance_inside [OF Some assms(1)] .
  show ?thesis
  proof (cases "subscriptions (einfo n)")
    case None
    then show ?thesis using Some n assms(1) by (simp add: rbusEvent_Publish_def Let_def)
  next
    case (Some l)
    have "subs_of a root = l" using n Some by (simp add: subs_of_def info_of_node)
    then have "\<forall>s\<in>set l. \<exists>sub. map_of (subList (reg p)) s = Some sub \<and> filters_run env (event_GetValue d ''value'') (event_GetValue d ''oldValue'') sub"
      using assms(2,4) map_of_SomeD unfolding known_subs_def by fastforce
    note loop = publish_loop_ok [OF this, of ev ev 0]
    obtain err ev' msgs where "publish_loop env (subList (reg p)) (event_GetValue d ''value'') (event_GetValue d ''oldValue'') l ev 0 = Some (err, ev', msgs)"
      using loop assms(3) by auto
    then show ?thesis using Some \<open>retrieveInstanceElement _ _ = Some a\<close> n assms(1,3) by (simp add: rbusEvent_Publish_def Let_def)
  qed
qed

text \<open>Noting the component that made the change.\<close>

definition note_change :: "provider_code \<Rightarrow> provider \<Rightarrow> addr \<Rightarrow> elementNode \<Rightarrow> provider run" where
  "note_change env p a n =
     (case changeComp (einfo n) of
        None \<Rightarrow> setPropertyChangeComponent env p a
      | Some by_comp \<Rightarrow>
          if clock env - changeTime (einfo n) \<ge> RBUS_VALUECHANGE_PERIOD \<and> strcmp (componentName p) by_comp = 0
          then setPropertyChangeComponent env p a else Some p)"

lemma note_change_ok:
  assumes "element_root p = Some root0" "alike root root0" "node_of a root0 = Some n"
  shows "\<exists>p1 root1 n1 c. note_change env p a n = Some p1 \<and> element_root p1 = Some root1 \<and> alike root root1 \<and>
    node_of a root1 = Some n1 \<and> changeComp (einfo n1) = Some c \<and> subList (reg p1) = subList (reg p) \<and> published p1 = published p"
proof -
  let ?f = "\<lambda>i. i\<lparr>changeComp := Some (componentName p), changeTime := clock env\<rparr>"
  let ?root = "upd_node a (upd_info ?f) root0"
  let ?p = "p\<lparr>reg := (reg p)\<lparr>rtree := (rtree (reg p))\<lparr>eroot := Some ?root\<rparr>\<rparr>\<rparr>"
  have i: "info_of a root0 = Some (einfo n)" using assms(3) by (simp add: info_of_node)
  have "info_of a ?root = Some (?f (einfo n))" using i by (simp add: info_of_upd)
  then obtain n1 where n1: "node_of a ?root = Some n1" "einfo n1 = ?f (einfo n)" by (auto simp: info_of_node)
  have "setPropertyChangeComponent env p a = Some ?p" using assms(1) by (simp add: setPropertyChangeComponent_def)
  moreover have "alike root ?root" using alike_upd [OF assms(2), of ?f a] by simp
  ultimately have set: "\<exists>p1 root1 n1 c. setPropertyChangeComponent env p a = Some p1 \<and> element_root p1 = Some root1 \<and> alike root root1 \<and>
      node_of a root1 = Some n1 \<and> changeComp (einfo n1) = Some c \<and> subList (reg p1) = subList (reg p) \<and> published p1 = published p"
    using n1 by simp
  show ?thesis using set assms by (cases "changeComp (einfo n)") (auto simp: note_change_def)
qed

lemma poll_record_ok:
  assumes "element_root p = Some root0" "alike root root0" "known_subs (reg p) root" "info_of (vc_node rec) root \<noteq> None"
    "vc_name rec \<noteq> None"
    "\<And>v. reading env root rec = Some v \<Longrightarrow> rbusValue_Compare (mktime env) v (vc_value rec) \<noteq> None \<and>
       (\<forall>(s, sub)\<in>set (subList (reg p)). filters_run env v (vc_value rec) sub)"
  shows "\<exists>p' root1 evs. poll_record env p rec = Some (refreshed env root rec, p') \<and> element_root p' = Some root1 \<and> alike root root1 \<and>
    subList (reg p') = subList (reg p) \<and> published p' = published p @ evs \<and> map reported evs = change_report env root rec \<and>
    (\<forall>ev\<in>set evs. ev_type ev = RBUS_EVENT_VALUE_CHANGED)"
proof -
  have r: "reading env root0 rec = reading env root rec" using alike_reading [OF assms(2)] .
  obtain n where n: "node_of (vc_node rec) root0 = Some n"
  proof -
    have "info_of (vc_node rec) root0 \<noteq> None" using alike_inside [OF assms(2), of "vc_node rec"] assms(4) by simp
    then show thesis using that by (auto simp: info_of_node)
  qed
  have rd: "reading env root0 rec = (case getHandler (cbTable (einfo n)) of None \<Rightarrow> None
      | Some h \<Rightarrow> (case get_handler env h (vc_name rec) of (result, v) \<Rightarrow> if result = RBUS_ERROR_SUCCESS then Some v else None))"
    using n by (simp add: reading_def info_of_node)
  show ?thesis
  proof (cases "change env root rec")
    case None
    have "poll_record env p rec = Some (rec, p)"
    proof (cases "reading env root rec")
      case None
      then show ?thesis using rd [unfolded r] assms(1) n by (auto simp: poll_record_def split: option.splits prod.splits if_splits)
    next
      case (Some v)
      then obtain h where "getHandler (cbTable (einfo n)) = Some h" "get_handler env h (vc_name rec) = (RBUS_ERROR_SUCCESS, v)"
        using rd [unfolded r] by (auto split: option.splits prod.splits if_splits)
      moreover have "rbusValue_Compare (mktime env) v (vc_value rec) = Some 0"
        using Some \<open>change env root rec = None\<close> by (simp add: change_def split: if_splits)
      ultimately show ?thesis using assms(1) n by (simp add: poll_record_def)
    qed
    then show ?thesis using None assms(1,2) by (auto simp: refreshed_def change_report_def)
  next
    case (Some v)
    obtain h c where h: "getHandler (cbTable (einfo n)) = Some h" "get_handler env h (vc_name rec) = (RBUS_ERROR_SUCCESS, v)"
      "rbusValue_Compare (mktime env) v (vc_value rec) = Some c" "c \<noteq> 0" "reading env root rec = Some v"
      using Some assms(6) r rd by (auto simp: change_def split: option.splits if_splits prod.splits)
    obtain name where name: "vc_name rec = Some name" using assms(5) by blast
    obtain p1 root1 n1 c1 where p1: "note_change env p (vc_node rec) n = Some p1" "element_root p1 = Some root1" "alike root root1"
      "node_of (vc_node rec) root1 = Some n1" "changeComp (einfo n1) = Some c1" "subList (reg p1) = subList (reg p)" "published p1 = published p"
      using note_change_ok [OF assms(1,2) n] by blast
    define d where "d = event_SetValue (event_SetValue (event_SetValue [] ''value'' (GivenV v)) ''oldValue'' (GivenV (vc_value rec))) ''by'' (TextV c1)"
    define ev where "ev = \<lparr>ev_name = name, ev_type = RBUS_EVENT_VALUE_CHANGED, ev_data = Some d\<rparr>"
    have d: "event_GetValue d ''value'' = v" "event_GetValue d ''oldValue'' = vc_value rec"
      by (simp_all add: d_def event_GetValue_def map_of_event_SetValue del: event_SetValue.simps split: rbusValue_t.split)
    have "known_subs (reg p1) root1" using assms(3) alike_subs [OF p1(3)] p1(6) by (simp add: known_subs_def)
    moreover have "\<forall>(s, sub)\<in>set (subList (reg p1)). filters_run env v (vc_value rec) sub" using assms(6) [OF h(5)] p1(6) by simp
    ultimately obtain rc p2 where p2: "rbusEvent_Publish env p1 ev = Some (rc, p2)" "reg p2 = reg p1" "published p2 = published p1 @ [ev]"
      using Publish_returns [OF p1(2), of ev d env] d by (auto simp: ev_def)
    have "poll_record env p rec = Some (rec\<lparr>vc_value := v\<rparr>, p2)"
      using assms(1) n h p1 name p2(1) by (simp add: poll_record_def note_change_def [symmetric] Let_def ev_def d_def)
    moreover have "map reported [ev] = change_report env root rec" using d name Some by (simp add: reported_def ev_def change_report_def)
    ultimately show ?thesis using Some p1(2,3,6,7) p2(2,3)
      by (intro exI [of _ p2] exI [of _ root1] exI [of _ "[ev]"]) (simp add: refreshed_def ev_def)
  qed
qed

lemma poll_loop_ok:
  assumes "element_root p = Some root0" "alike root root0" "known_subs (reg p) root"
    "\<And>rec. rec \<in> set recs \<Longrightarrow> info_of (vc_node rec) root \<noteq> None \<and> vc_name rec \<noteq> None"
    "\<And>rec v. rec \<in> set recs \<Longrightarrow> reading env root rec = Some v \<Longrightarrow> rbusValue_Compare (mktime env) v (vc_value rec) \<noteq> None \<and>
       (\<forall>(s, sub)\<in>set (subList (reg p)). filters_run env v (vc_value rec) sub)"
  shows "\<exists>p' evs. poll_loop env recs p = Some (map (refreshed env root) recs, p') \<and>
    subList (reg p') = subList (reg p) \<and> published p' = published p @ evs \<and>
    map reported evs = concat (map (change_report env root) recs) \<and> (\<forall>ev\<in>set evs. ev_type ev = RBUS_EVENT_VALUE_CHANGED)"
  using assms
proof (induction recs arbitrary: p root0)
  case (Cons rec recs)
  obtain p1 root1 evs where p1: "poll_record env p rec = Some (refreshed env root rec, p1)" "element_root p1 = Some root1" "alike root root1"
    "subList (reg p1) = subList (reg p)" "published p1 = published p @ evs" "map reported evs = change_report env root rec"
    "\<forall>ev\<in>set evs. ev_type ev = RBUS_EVENT_VALUE_CHANGED"
    using poll_record_ok [OF Cons.prems(1-3), of rec env] Cons.prems(4,5) [of rec] by auto
  have k: "known_subs (reg p1) root" using Cons.prems(3) p1(4) by (simp add: known_subs_def)
  obtain p2 evs2 where p2: "poll_loop env recs p1 = Some (map (refreshed env root) recs, p2)" "subList (reg p2) = subList (reg p1)"
    "published p2 = published p1 @ evs2" "map reported evs2 = concat (map (change_report env root) recs)"
    "\<forall>ev\<in>set evs2. ev_type ev = RBUS_EVENT_VALUE_CHANGED"
    using Cons.IH [OF p1(2,3) k] Cons.prems(4,5) p1(4) by auto
  show ?case using p1 p2 by (intro exI [of _ p2] exI [of _ "evs @ evs2"]) auto
qed simp

text \<open>
  C14. When the polling thread of a provider runs over its records, and their elements are still there and all values can be compared
  and filtered, it finishes the round; it publishes one value change for each record whose element
  now has another value, in order, with the new and the old value, and no other event; and afterwards every
  record holds the value just read, or an equal one.
\<close>

theorem Poll_reports_changes:
  assumes "reg_reachable mk (reg p)" "element_root p = Some root" "gVC p = Some vc" "vc_running vc"
    and "\<forall>rec\<in>set (vc_params vc). node_of (vc_node rec) root \<noteq> None \<and> vc_name rec \<noteq> None"
    and "\<forall>rec\<in>set (vc_params vc). \<forall>v. reading env root rec = Some v \<longrightarrow>
      rbusValue_Compare (mktime env) v (vc_value rec) \<noteq> None \<and> (\<forall>(s, sub)\<in>set (subList (reg p)). filters_run env v (vc_value rec) sub)"
  shows "\<exists>p' evs. rbusValueChange_poll env p = Some p' \<and>
    gVC p' = Some (vc\<lparr>vc_params := map (refreshed env root) (vc_params vc)\<rparr>) \<and>
    published p' = published p @ evs \<and> (\<forall>ev\<in>set evs. ev_type ev = RBUS_EVENT_VALUE_CHANGED) \<and>
    map reported evs = concat (map (change_report env root) (vc_params vc))"
proof -
  note inv = reg_invD [OF reg_reachable_inv [OF assms(1)] assms(2)]
  have "known_subs (reg p) root"
    unfolding known_subs_def using inv(3) by (fastforce simp: linked_def map_of_eq_None_iff image_iff)
  moreover have "alike root root" by (simp add: alike_def)
  moreover have "info_of (vc_node rec) root \<noteq> None \<and> vc_name rec \<noteq> None" if "rec \<in> set (vc_params vc)" for rec
    using assms(5) that by (auto simp: info_of_node)
  ultimately obtain p1 evs where "poll_loop env (vc_params vc) p = Some (map (refreshed env root) (vc_params vc), p1)"
    "published p1 = published p @ evs" "map reported evs = concat (map (change_report env root) (vc_params vc))"
    "\<forall>ev\<in>set evs. ev_type ev = RBUS_EVENT_VALUE_CHANGED"
    using poll_loop_ok [OF assms(2), of root "vc_params vc" env] assms(6) by blast
  then show ?thesis using assms(3,4) by (simp add: rbusValueChange_poll_def)
qed

section \<open>Examples\<close>

definition demo_value :: "addr \<Rightarrow> u32 \<Rightarrow> rbusValue_t" where
  "demo_value a x = Value a (DInt32 x)"

text \<open>A provider whose property has the given value now, and which saw the value 1 last.\<close>

definition demo_code :: "rbusValue_t \<Rightarrow> provider_code" where
  "demo_code v = \<lparr>get_handler = (\<lambda>h name. (0, v)), sub_handler = (\<lambda>h added name f iv ap. (0, ap)), send_message = (\<lambda>m. 0),
     clock = 5000, mktime = (\<lambda>t. 0)\<rparr>"

definition demo_provider :: provider where
  "demo_provider = \<lparr>componentName = ''prov'', reg = demo_row,
     gVC = Some \<lparr>vc_running = True, vc_params = [\<lparr>vc_node = 6, vc_name = Some ''A.T.1.P'', vc_value = demo_value 1 1\<rparr>]\<rparr>,
     gRecord = [], outbox = [], published = []\<rparr>"

definition demo_event :: rbusEvent_t where
  "demo_event = \<lparr>ev_name = ''A.T.1.P'', ev_type = RBUS_EVENT_VALUE_CHANGED,
     ev_data = Some [(''value'', GivenV (demo_value 2 5)), (''oldValue'', GivenV (demo_value 1 1))]\<rparr>"

theorem Publish_delivers_witness:
  "\<exists>rc p' m. rbusEvent_Publish (demo_code NullV) demo_provider demo_event = Some (rc, p') \<and> outbox p' = [m] \<and>
     to_listener m = ''client.1'' \<and> to_event m = ''A.T.*.P'' \<and> ev_name (to_payload m) = ''A.T.1.P'' \<and> rc = RBUS_ERROR_SUCCESS"
proof -
  let ?root = "the (element_root demo_provider)" and ?old = "demo_value 1 1" and ?new = "demo_value 2 5" and ?env = "demo_code NullV"
  have r: "reg_reachable (\<lambda>_. 0) (reg demo_provider)" using demo_row_reachable by (simp add: demo_provider_def)
  have c: "element_root demo_provider = Some ?root" "retrieveInstanceElement (rtree (reg demo_provider)) (ev_name demo_event) = Some 6"
    "subs_of 6 ?root = [0]" "subs_of 6 ?root \<noteq> []"
    "ev_type demo_event = RBUS_EVENT_VALUE_CHANGED \<longrightarrow> ev_data demo_event \<noteq> None \<and> ?new \<noteq> NullV \<and> ?old \<noteq> NullV"
    "?new = (case ev_data demo_event of None \<Rightarrow> NullV | Some d \<Rightarrow> event_GetValue d ''value'')"
    "?old = (case ev_data demo_event of None \<Rightarrow> NullV | Some d \<Rightarrow> event_GetValue d ''oldValue'')"
    "\<forall>(s, sub)\<in>set (subList (reg demo_provider)). filters_run ?env ?new ?old sub"
    "notified ?env (ev_type demo_event) ?new ?old (the (map_of (subList (reg demo_provider)) 0))"
    "sub_listener (the (map_of (subList (reg demo_provider)) 0)) = ''client.1''"
    "sub_eventName (the (map_of (subList (reg demo_provider)) 0)) = ''A.T.*.P''" "outbox demo_provider = []" "ev_name demo_event = ''A.T.1.P''"
    by code_simp+
  have sent: "send_message ?env = (\<lambda>m. 0)" by (simp add: demo_code_def)
  obtain rc p' msgs where p': "rbusEvent_Publish ?env demo_provider demo_event = Some (rc, p')" "outbox p' = outbox demo_provider @ msgs"
    "list_all2 (addressed ?env demo_event ?new) msgs
      (filter (notified ?env (ev_type demo_event) ?new ?old) (map (\<lambda>s. the (map_of (subList (reg demo_provider)) s)) (subs_of 6 ?root)))"
    "rc = RBUS_ERROR_SUCCESS \<longleftrightarrow> (\<forall>m\<in>set msgs. send_message ?env m = 0)"
    using Publish_delivers [OF r c(1,2,4-8)] by blast
  then obtain m where "msgs = [m]" "addressed ?env demo_event ?new m (the (map_of (subList (reg demo_provider)) 0))"
    using c(3,9) by (auto simp: list_all2_Cons2)
  then show ?thesis using p' c sent by (auto simp: addressed_def carries_def)
qed

theorem Poll_reports_changes_witness:
  "\<exists>p' evs. rbusValueChange_poll (demo_code (demo_value 2 5)) demo_provider = Some p' \<and>
     published p' = evs \<and> map reported evs = [(''A.T.1.P'', demo_value 2 5, demo_value 1 1)] \<and>
     map vc_value (vc_params (the (gVC p'))) = [demo_value 2 5]"
proof -
  let ?root = "the (element_root demo_provider)" and ?env = "demo_code (demo_value 2 5)" and ?vc = "the (gVC demo_provider)"
  have r: "reg_reachable (\<lambda>_. 0) (reg demo_provider)" using demo_row_reachable by (simp add: demo_provider_def)
  have c: "element_root demo_provider = Some ?root" "gVC demo_provider = Some ?vc" "vc_running ?vc"
    "\<forall>rec\<in>set (vc_params ?vc). node_of (vc_node rec) ?root \<noteq> None \<and> vc_name rec \<noteq> None"
    "map (reading ?env ?root) (vc_params ?vc) = [Some (demo_value 2 5)]"
    "\<forall>rec\<in>set (vc_params ?vc). rbusValue_Compare (mktime ?env) (demo_value 2 5) (vc_value rec) \<noteq> None \<and>
       (\<forall>(s, sub)\<in>set (subList (reg demo_provider)). filters_run ?env (demo_value 2 5) (vc_value rec) sub)"
    "concat (map (change_report ?env ?root) (vc_params ?vc)) = [(''A.T.1.P'', demo_value 2 5, demo_value 1 1)]"
    "map (vc_value \<circ> refreshed ?env ?root) (vc_params ?vc) = [demo_value 2 5]" "published demo_provider = []"
    by code_simp+
  have "\<forall>rec\<in>set (vc_params ?vc). \<forall>v. reading ?env ?root rec = Some v \<longrightarrow>
      rbusValue_Compare (mktime ?env) v (vc_value rec) \<noteq> None \<and>
      (\<forall>(s, sub)\<in>set (subList (reg demo_provider)). filters_run ?env v (vc_value rec) sub)"
    using c(5,6) by auto
  from Poll_reports_changes [OF r c(1-4) this] show ?thesis using c(7-9) by auto
qed

end
