(* ===== verification/RB_Provider.thy ===== *)
theory RB_Provider
  imports RB_Events
begin

text \<open>
  The handlers of a provider, \<^verbatim>\<open>src/src/rbus/rbus.c\<close>: subscribing and unsubscribing
  (\<open>subscribeHandlerImpl\<close>), adding and deleting rows (\<open>rbusTable_registerRow\<close>,
  \<open>rbusTable_unregisterRow\<close>), clients that go away; and the records of interval subscriptions,
  \<^verbatim>\<open>src/src/rbus/rbus_intervalsubscription.c\<close>. Each handler is the whole of its calls on the element
  tree, the subscriptions, the value change detector and the interval records, in their order.

  The theorem shows that all histories of a provider keep subscriptions and elements linked; the
  examples show where a record of the value change detector or of an interval outlives what it refers to.
\<close>

section \<open>Interval records\<close>

definition sub_find :: "provider \<Rightarrow> addr \<Rightarrow> sRecord option" where
  "sub_find p sub = find (\<lambda>rec. sr_sub rec = sub) (gRecord p)"

definition rbusInterval_AddSubscriptionRecord :: "provider \<Rightarrow> addr option \<Rightarrow> addr \<Rightarrow> (int \<times> provider) run" where
  "rbusInterval_AddSubscriptionRecord p propNode sub =
     (case propNode of
        None \<Rightarrow> Some (RBUS_ERROR_INVALID_INPUT, p)
      | Some a \<Rightarrow>
          do { root \<leftarrow> element_root p;
               n \<leftarrow> node_of a root;
               if ntype n \<noteq> RBUS_ELEMENT_TYPE_PROPERTY then Some (RBUS_ERROR_NOSUBSCRIBERS, p)
               else if getHandler (cbTable (einfo n)) = None then Some (RBUS_ERROR_ACCESS_NOT_ALLOWED, p)
               else Some (RBUS_ERROR_SUCCESS,
                 if sub_find p sub = None then p\<lparr>gRecord := gRecord p @ [\<lparr>sr_node = a, sr_sub = sub\<rparr>]\<rparr> else p) })"

definition rbusInterval_RemoveSubscriptionRecord :: "provider \<Rightarrow> addr \<Rightarrow> provider" where
  "rbusInterval_RemoveSubscriptionRecord p sub =
     (case sub_find p sub of None \<Rightarrow> p | Some rec \<Rightarrow> p\<lparr>gRecord := remove1 rec (gRecord p)\<rparr>)"

section \<open>Subscribing\<close>

text \<open>
  The instance elements of a subscription are handed to the value change detector, or the first of
  them to the interval thread. The result of the latter is only logged.
\<close>

fun instances_loop :: "provider_code \<Rightarrow> bool \<Rightarrow> addr \<Rightarrow> rbusSubscription \<Rightarrow> addr list \<Rightarrow> provider \<Rightarrow> provider run" where
  "instances_loop env added s sub [] p = Some p"
| "instances_loop env added s sub (a # as) p =
     do { root \<leftarrow> element_root p;
          n \<leftarrow> node_of a root;
          if sub_interval sub \<noteq> 0
          then (if added then map_option snd (rbusInterval_AddSubscriptionRecord p (Some a) s)
                else Some (rbusInterval_RemoveSubscriptionRecord p s))
          else do { other \<leftarrow> elementHasAutoPubSubscriptions (reg p) (Some a) (Some s);
                    p \<leftarrow> (if other then Some p
                         else if added then rbusValueChange_AddPropertyNode env p a
                         else Some (rbusValueChange_RemovePropertyNode p a));
                    instances_loop env added s sub as p } }"

text \<open>What follows once the subscription \<open>s\<close> was added or found; \<open>n\<close> is the element of the request.\<close>

definition settle :: "provider_code \<Rightarrow> bool \<Rightarrow> elementNode \<Rightarrow> bool \<Rightarrow> addr \<Rightarrow> provider \<Rightarrow> (int \<times> provider) run" where
  "settle env added n rawData s p =
     do { sub \<leftarrow> map_of (subList (reg p)) s;
          if rawData \<and> ntype n \<noteq> RBUS_ELEMENT_TYPE_EVENT then Some (RBUS_ERROR_INVALID_INPUT, p)
          else do { p \<leftarrow> (if ntype n = RBUS_ELEMENT_TYPE_PROPERTY \<and> sub_autoPublish sub
                         then instances_loop env added s sub (sub_instances sub) p else Some p);
                    r \<leftarrow> (if added then Some (reg p) else rbusSubscriptions_removeSubscription (reg p) s);
                    Some (RBUS_ERROR_SUCCESS, p\<lparr>reg := r\<rparr>) } }"

text \<open>
  Whether the library publishes the changes itself: the handler of the provider may decide, and may
  refuse (the first component).
\<close>

definition ask_provider :: "provider_code \<Rightarrow> bool \<Rightarrow> elementNode \<Rightarrow> string \<Rightarrow> rbusFilter_t \<Rightarrow> int \<Rightarrow> bool \<Rightarrow> int option \<times> bool" where
  "ask_provider env added n eventName filt interval rawData =
     (case eventSubHandler (cbTable (einfo n)) of
        None \<Rightarrow> (None, interval \<noteq> 0 \<or> \<not> rawData)
      | Some h \<Rightarrow>
          let (err, autoPublish) = sub_handler env h added eventName filt interval (\<not> rawData)
          in (if rawData \<and> autoPublish then Some RBUS_ERROR_INVALID_INPUT
              else if err \<noteq> RBUS_ERROR_SUCCESS then Some err else None, autoPublish))"

text \<open>
  The result, the identifier of a new subscription (\<open>None\<close> when it is not written), and the state.
  The last character of an empty name lies before the string.
\<close>

definition subscribeHandlerImpl :: "provider_code \<Rightarrow> provider \<Rightarrow> bool \<Rightarrow> addr option \<Rightarrow> string \<Rightarrow> string \<Rightarrow> int \<Rightarrow> int \<Rightarrow> int \<Rightarrow>
    rbusFilter_t \<Rightarrow> bool \<Rightarrow> (int \<times> u32 option \<times> provider) run" where
  "subscribeHandlerImpl env p added el eventName listener componentId interval duration filt rawData =
     (case el of
        None \<Rightarrow> Some (- 1, None, p)
      | Some e \<Rightarrow>
          do { root \<leftarrow> element_root p;
               n \<leftarrow> node_of e root;
               let (refused, autoPublish) = ask_provider env added n eventName filt interval rawData;
               case refused of
                 Some err \<Rightarrow> Some (err, None, p)
               | None \<Rightarrow>
                   if added \<and> interval \<noteq> 0 \<and> eventName = '''' then None
                   else if added \<and> interval \<noteq> 0 \<and> last eventName = CHR ''.'' then Some (RBUS_ERROR_INVALID_OPERATION, None, p)
                   else do {
                     found \<leftarrow> rbusSubscriptions_getSubscription (mktime env) (reg p) listener eventName componentId filt interval duration rawData;
                     case found of
                       None \<Rightarrow>
                         if \<not> added then Some (RBUS_ERROR_INVALID_INPUT, None, p)
                         else do {
                           (res, r) \<leftarrow> rbusSubscriptions_addSubscription (reg p) listener eventName componentId filt interval duration
                             autoPublish (Some e) rawData;
                           case res of
                             None \<Rightarrow> Some (RBUS_ERROR_INVALID_INPUT, None, p\<lparr>reg := r\<rparr>)
                           | Some s \<Rightarrow>
                               do { (rc, p) \<leftarrow> settle env True n rawData s (p\<lparr>reg := r\<rparr>);
                                    Some (rc, map_option sub_subscriptionId (map_of (subList (reg p)) s), p) } }
                     | Some s \<Rightarrow>
                         if added then Some (RBUS_ERROR_SUBSCRIPTION_ALREADY_EXIST, None, p)
                         else do { (rc, p) \<leftarrow> settle env False n rawData s p; Some (rc, None, p) } } })"

section \<open>Rows\<close>

text \<open>The properties of a row enter or leave the value change detector; the tree is only read.\<close>

fun valueChangeTableRowUpdate :: "provider_code \<Rightarrow> bool \<Rightarrow> elementNode \<Rightarrow> provider \<Rightarrow> provider run"
  and update_children :: "provider_code \<Rightarrow> bool \<Rightarrow> bool \<Rightarrow> elementNode list \<Rightarrow> provider \<Rightarrow> provider run" where
  "valueChangeTableRowUpdate env added (Element a i ks) p = update_children env added (etype i = RBUS_ELEMENT_TYPE_TABLE) ks p"
| "update_children env added in_tab [] p = Some p"
| "update_children env added in_tab (child # ks) p =
     do { p \<leftarrow> (if ntype child = RBUS_ELEMENT_TYPE_PROPERTY
               then do { b \<leftarrow> elementHasAutoPubSubscriptions (reg p) (Some (eaddr child)) None;
                         if \<not> b then Some p
                         else if added then rbusValueChange_AddPropertyNode env p (eaddr child)
                         else Some (rbusValueChange_RemovePropertyNode p (eaddr child)) }
               else Some p);
          p \<leftarrow> (if echildren child \<noteq> [] \<and> \<not> (in_tab \<and> nname child = ''{i}'')
               then valueChangeTableRowUpdate env added child p else Some p);
          update_children env added in_tab ks p }"

text \<open>
  After a row was added, the subscriptions whose name starts with the name of the row are made anew:
  each is taken off the list, subscribed again, and then freed. New ones come at the end and are not visited.
\<close>

definition resubscribe :: "provider_code \<Rightarrow> addr \<Rightarrow> addr \<Rightarrow> rbusSubscription \<Rightarrow> provider \<Rightarrow> provider run" where
  "resubscribe env el s sub p =
     do { let r = reg p;
          let p = p\<lparr>reg := r\<lparr>subList := filter (\<lambda>(q, x). q \<noteq> s) (subList r), offList := (s, sub) # offList r\<rparr>\<rparr>;
          (err, sid, p) \<leftarrow> subscribeHandlerImpl env p True (Some el) (sub_eventName sub) (sub_listener sub) (sub_componentId sub)
            (sub_interval sub) (sub_duration sub) (sub_filter sub) (sub_rawData sub);
          root \<leftarrow> element_root p;
          root \<leftarrow> subscriptionFree s sub root;
          Some (p\<lparr>reg := (reg p)\<lparr>rtree := (rtree (reg p))\<lparr>eroot := Some root\<rparr>,
            offList := filter (\<lambda>(q, x). q \<noteq> s) (offList (reg p))\<rparr>\<rparr>) }"

fun resubscribe_row_loop :: "provider_code \<Rightarrow> string \<Rightarrow> addr list \<Rightarrow> provider \<Rightarrow> provider run" where
  "resubscribe_row_loop env rowName [] p = Some p"
| "resubscribe_row_loop env rowName (s # ss) p =
     do { sub \<leftarrow> map_of (subList (reg p)) s;
          p \<leftarrow> (if take (length rowName) (sub_eventName sub) = rowName
               then (case retrieveInstanceElement (rtree (reg p)) (sub_eventName sub) of
                       None \<Rightarrow> Some p
                     | Some el \<Rightarrow> resubscribe env el s sub p)
               else Some p);
          resubscribe_row_loop env rowName ss p }"

definition rbusSubscriptions_resubscribeRowElementCache :: "provider_code \<Rightarrow> addr \<Rightarrow> provider \<Rightarrow> provider run" where
  "rbusSubscriptions_resubscribeRowElementCache env row p =
     do { root \<leftarrow> element_root p;
          n \<leftarrow> node_of row root;
          rowName \<leftarrow> efullName (einfo n);
          resubscribe_row_loop env rowName (map fst (subList (reg p))) p }"

definition registerTableRow :: "provider_code \<Rightarrow> provider \<Rightarrow> addr \<Rightarrow> string \<Rightarrow> string option \<Rightarrow> u32 \<Rightarrow> provider run" where
  "registerTableRow env p tableInst tableName aliasName instNum =
     do { (row, t) \<leftarrow> instantiateTableRow (rtree (reg p)) (Some tableInst) instNum aliasName;
          rowElem \<leftarrow> row;
          r \<leftarrow> rbusSubscriptions_onTableRowAdded ((reg p)\<lparr>rtree := t\<rparr>) rowElem;
          let p = p\<lparr>reg := r\<rparr>;
          root \<leftarrow> element_root p;
          n \<leftarrow> node_of rowElem root;
          p \<leftarrow> valueChangeTableRowUpdate env True n p;
          rowName \<leftarrow> efullName (einfo n);
          (respub, p) \<leftarrow> rbusEvent_Publish env p \<lparr>ev_name = tableName, ev_type = RBUS_EVENT_OBJECT_CREATED, ev_data = Some
            (event_SetValue (event_SetValue (event_SetValue [] ''rowName'' (TextV rowName)) ''instNum'' (NumberV instNum))
              ''alias'' (TextV (case aliasName of None \<Rightarrow> '''' | Some al \<Rightarrow> al)))\<rparr>;
          rbusSubscriptions_resubscribeRowElementCache env rowElem p }"

text \<open>The name of the table is cut to the size of its buffer.\<close>

definition unregisterTableRow :: "provider_code \<Rightarrow> provider \<Rightarrow> addr \<Rightarrow> provider run" where
  "unregisterTableRow env p row =
     do { root \<leftarrow> element_root p;
          n \<leftarrow> node_of row root;
          rowName \<leftarrow> efullName (einfo n);
          table \<leftarrow> (case rev (chain_to row root) of _ # parent # _ \<Rightarrow> Some (eaddr parent) | _ \<Rightarrow> None);
          p \<leftarrow> valueChangeTableRowUpdate env False n p;
          r \<leftarrow> rbusSubscriptions_onTableRowRemoved (mktime env) (reg p) row;
          t \<leftarrow> deleteTableRow (rtree r) (Some row);
          let p = p\<lparr>reg := r\<lparr>rtree := t\<rparr>\<rparr>;
          root \<leftarrow> element_root p;
          n \<leftarrow> node_of table root;
          tableName \<leftarrow> efullName (einfo n);
          (respub, p) \<leftarrow> rbusEvent_Publish env p \<lparr>ev_name = take (RBUS_MAX_NAME_LENGTH - 1) (tableName @ ''.''),
            ev_type = RBUS_EVENT_OBJECT_DELETED, ev_data = Some (event_SetValue [] ''rowName'' (TextV rowName))\<rparr>;
          Some p }"

text \<open>The number of a row is printed with \<^verbatim>\<open>%d\<close>, as a signed number.\<close>

definition signed_decimal :: "u32 \<Rightarrow> string" where
  "signed_decimal w = (if sint w < 0 then CHR ''-'' # decimal (nat (- sint w)) else decimal (nat (sint w)))"

definition rbusTable_registerRow :: "provider_code \<Rightarrow> provider \<Rightarrow> string \<Rightarrow> u32 \<Rightarrow> string option \<Rightarrow> (int \<times> provider) run" where
  "rbusTable_registerRow env p tableName instNum aliasName =
     (let rowName = tableName @ signed_decimal instNum
      in if length rowName \<ge> RBUS_MAX_NAME_LENGTH then Some (RBUS_ERROR_INVALID_INPUT, p)
         else if retrieveInstanceElement (rtree (reg p)) rowName \<noteq> None then Some (RBUS_ERROR_INVALID_INPUT, p)
         else case retrieveInstanceElement (rtree (reg p)) tableName of
                None \<Rightarrow> Some (RBUS_ERROR_INVALID_INPUT, p)
              | Some table \<Rightarrow> do { p \<leftarrow> registerTableRow env p table tableName aliasName instNum; Some (RBUS_ERROR_SUCCESS, p) })"

definition rbusTable_unregisterRow :: "provider_code \<Rightarrow> provider \<Rightarrow> string \<Rightarrow> (int \<times> provider) run" where
  "rbusTable_unregisterRow env p rowName =
     (case retrieveInstanceElement (rtree (reg p)) rowName of
        None \<Rightarrow> Some (RBUS_ERROR_INVALID_INPUT, p)
      | Some row \<Rightarrow> do { p \<leftarrow> unregisterTableRow env p row; Some (RBUS_ERROR_SUCCESS, p) })"

section \<open>Elements\<close>

text \<open>\<open>strcmp\<close> of an event name and an element name, where \<open>*\<close> stands for \<open>{i}\<close>.\<close>

fun compareEventNameToElemName :: "string \<Rightarrow> string \<Rightarrow> int" where
  "compareEventNameToElemName [] elem = (if elem = [] then 0 else 1)"
| "compareEventNameToElemName (c # event) elem =
     (case elem of
        [] \<Rightarrow> 1
      | d # ds \<Rightarrow>
          if c = d then compareEventNameToElemName event ds
          else if c = CHR ''*'' \<and> take 3 elem = ''{i}'' then compareEventNameToElemName event (drop 3 elem)
          else 1)"

text \<open>
  When an element is registered, the subscriptions of the provider's last run to it are made again. The
  loop also runs over the subscriptions it adds; these have an element, so it passes them by.
\<close>

fun resubscribe_loop :: "provider_code \<Rightarrow> string \<Rightarrow> addr \<Rightarrow> addr list \<Rightarrow> provider \<Rightarrow> provider run" where
  "resubscribe_loop env elementName el [] p = Some p"
| "resubscribe_loop env elementName el (s # ss) p =
     do { sub \<leftarrow> map_of (subList (reg p)) s;
          p \<leftarrow> (if sub_element sub = None \<and> sub_tokens sub = None \<and> compareEventNameToElemName (sub_eventName sub) elementName = 0
               then resubscribe env el s sub p else Some p);
          resubscribe_loop env elementName el ss p }"

definition rbusSubscriptions_resubscribeElementCache :: "provider_code \<Rightarrow> string \<Rightarrow> addr \<Rightarrow> provider \<Rightarrow> provider run" where
  "rbusSubscriptions_resubscribeElementCache env elementName el p = resubscribe_loop env elementName el (map fst (subList (reg p))) p"

text \<open>
  The part of \<open>rbus_regDataElements\<close> for one element whose name the core accepted: \<open>RBUS_ERROR_OUT_OF_RESOURCES\<close>
  when it cannot be inserted.
\<close>

definition RBUS_ERROR_OUT_OF_RESOURCES :: int where "RBUS_ERROR_OUT_OF_RESOURCES = 4"

definition register_element :: "provider_code \<Rightarrow> provider \<Rightarrow> rbusDataElement \<Rightarrow> (int \<times> provider) run" where
  "register_element env p e =
     do { (node, t) \<leftarrow> insertElement (rtree (reg p)) (Some e);
          let p = p\<lparr>reg := (reg p)\<lparr>rtree := t\<rparr>\<rparr>;
          case node of
            None \<Rightarrow> Some (RBUS_ERROR_OUT_OF_RESOURCES, p)
          | Some a \<Rightarrow> do { p \<leftarrow> rbusSubscriptions_resubscribeElementCache env (el_name e) a p; Some (RBUS_ERROR_SUCCESS, p) } }"

section \<open>Clients that go away\<close>

text \<open>The next subscription is looked up before the present one is handled.\<close>

fun disconnect_loop :: "provider_code \<Rightarrow> string \<Rightarrow> addr list \<Rightarrow> provider \<Rightarrow> provider run" where
  "disconnect_loop env listener [] p = Some p"
| "disconnect_loop env listener (s # ss) p =
     do { sub \<leftarrow> map_of (subList (reg p)) s;
          p \<leftarrow> (if sub_listener sub = listener \<and> retrieveInstanceElement (rtree (reg p)) (sub_eventName sub) \<noteq> None
               then do { (rc, sid, p) \<leftarrow> subscribeHandlerImpl env p False (sub_element sub) (sub_eventName sub) (sub_listener sub)
                           (sub_componentId sub) 0 0 NullF False;
                         Some p }
               else Some p);
          disconnect_loop env listener ss p }"

definition rbusSubscriptions_handleClientDisconnect :: "provider_code \<Rightarrow> string \<Rightarrow> provider \<Rightarrow> provider run" where
  "rbusSubscriptions_handleClientDisconnect env listener p = disconnect_loop env listener (map fst (subList (reg p))) p"

section \<open>What the handlers do to the registry\<close>

lemma AddPropertyNode_reg: "rbusValueChange_AddPropertyNode env p a = Some p' \<Longrightarrow> reg p' = reg p"
  by (auto simp: rbusValueChange_AddPropertyNode_def Let_def Option.bind_eq_Some_conv split: if_splits option.splits prod.splits)

lemma RemovePropertyNode_reg [simp]: "reg (rbusValueChange_RemovePropertyNode p a) = reg p"
  by (simp add: rbusValueChange_RemovePropertyNode_def Let_def split: option.split)

lemma AddSubscriptionRecord_reg: "rbusInterval_AddSubscriptionRecord p a s = Some (rc, p') \<Longrightarrow> reg p' = reg p"
  by (auto simp: rbusInterval_AddSubscriptionRecord_def Option.bind_eq_Some_conv split: if_splits option.splits)

lemma RemoveSubscriptionRecord_reg [simp]: "reg (rbusInterval_RemoveSubscriptionRecord p s) = reg p"
  by (simp add: rbusInterval_RemoveSubscriptionRecord_def split: option.split)

lemma Publish_reg: "rbusEvent_Publish env p ev = Some (rc, p') \<Longrightarrow> reg p' = reg p"
  by (auto simp: rbusEvent_Publish_def Let_def Option.bind_eq_Some_conv split: if_splits option.splits prod.splits)

lemma instances_loop_reg: "instances_loop env added s sub as p = Some p' \<Longrightarrow> reg p' = reg p"
  by (induction env added s sub as p rule: instances_loop.induct)
    (auto simp: Option.bind_eq_Some_conv dest: AddPropertyNode_reg AddSubscriptionRecord_reg split: if_splits)

lemma settle_reg:
  "settle env True n rawData s p = Some (rc, p') \<Longrightarrow> reg p' = reg p"
  "settle env False n rawData s p = Some (rc, p') \<Longrightarrow> reg p' = reg p \<or> rbusSubscriptions_removeSubscription (reg p) s = Some (reg p')"
  by (auto simp: settle_def Option.bind_eq_Some_conv dest: instances_loop_reg split: if_splits)

text \<open>A request changes the registry by at most one operation.\<close>

lemma subscribe_reg:
  assumes "subscribeHandlerImpl env p added el ev li c iv du f raw = Some (rc, sid, p')"
  shows "reg p' = reg p \<or> (added \<and> (\<exists>ap res. rbusSubscriptions_addSubscription (reg p) li ev c f iv du ap el raw = Some (res, reg p'))) \<or>
    (\<not> added \<and> (\<exists>s. rbusSubscriptions_removeSubscription (reg p) s = Some (reg p')))"
proof (cases el)
  case None
  then show ?thesis using assms by (simp add: subscribeHandlerImpl_def)
next
  case (Some e)
  obtain root n where n: "element_root p = Some root" "node_of e root = Some n"
    using assms Some by (auto simp: subscribeHandlerImpl_def Option.bind_eq_Some_conv)
  obtain refused ap where ask: "ask_provider env added n ev f iv raw = (refused, ap)" by force
  show ?thesis
  proof (cases "refused \<noteq> None \<or> added \<and> iv \<noteq> 0 \<and> (ev = '''' \<or> last ev = CHR ''.'')")
    case True
    then show ?thesis using assms Some n ask by (auto simp: subscribeHandlerImpl_def split: if_splits option.splits)
  next
    case False
    then obtain found where found: "rbusSubscriptions_getSubscription (mktime env) (reg p) li ev c f iv du raw = Some found"
      using assms Some n ask by (auto simp: subscribeHandlerImpl_def split: if_splits Option.bind_splits)
    show ?thesis using assms Some n ask False found
      by (cases found; cases added) (auto simp: subscribeHandlerImpl_def dest!: settle_reg split: if_splits option.splits Option.bind_splits)
  qed
qed

lemma update_property_reg:
  "do { b \<leftarrow> elementHasAutoPubSubscriptions (reg p) (Some a) None;
        if \<not> b then Some p
        else if added then rbusValueChange_AddPropertyNode env p a
        else Some (rbusValueChange_RemovePropertyNode p a) } = Some p' \<Longrightarrow> reg p' = reg p"
  by (auto dest: AddPropertyNode_reg split: if_splits Option.bind_splits)

lemma update_reg:
  "valueChangeTableRowUpdate env added n p = Some p' \<Longrightarrow> reg p' = reg p"
  "update_children env added b ks p = Some p' \<Longrightarrow> reg p' = reg p"
proof (induction env added n p and env added b ks p arbitrary: p' and p' rule: valueChangeTableRowUpdate_update_children.induct)
  case (3 env added in_tab child ks p)
  obtain p1 where p1: "(if ntype child = RBUS_ELEMENT_TYPE_PROPERTY
      then do { b \<leftarrow> elementHasAutoPubSubscriptions (reg p) (Some (eaddr child)) None;
                if \<not> b then Some p
                else if added then rbusValueChange_AddPropertyNode env p (eaddr child)
                else Some (rbusValueChange_RemovePropertyNode p (eaddr child)) }
      else Some p) = Some p1"
    using "3.prems" by (auto simp only: update_children.simps bind_eq_Some_conv)
  then obtain p2 where p2: "(if echildren child \<noteq> [] \<and> \<not> (in_tab \<and> nname child = ''{i}'')
      then valueChangeTableRowUpdate env added child p1 else Some p1) = Some p2" "update_children env added in_tab ks p2 = Some p'"
    using "3.prems" unfolding update_children.simps p1 Option.bind.bind_lunit bind_eq_Some_conv by blast
  have "reg p1 = reg p"
    using p1 update_property_reg [of p "eaddr child" added env p1]
    by (cases "ntype child = RBUS_ELEMENT_TYPE_PROPERTY") (simp_all only: simp_thms if_True if_False option.inject)
  moreover have "reg p2 = reg p1" using p2(1) "3.IH"(1) [OF p1] by (auto split: if_split_asm)
  ultimately show ?case using "3.IH"(2) [OF p1 p2(1,2)] by simp
qed simp_all

text \<open>Subscribing again and freeing the old subscription is the same as subscribing and then unsubscribing the old one.\<close>

definition made :: "element_tree \<Rightarrow> addr \<Rightarrow> u32 \<Rightarrow> string \<Rightarrow> string \<Rightarrow> int \<Rightarrow> rbusFilter_t \<Rightarrow> int \<Rightarrow> int \<Rightarrow> bool \<Rightarrow> addr option \<Rightarrow> bool \<Rightarrow>
    (elementNode \<times> rbusSubscription) option run" where
  "made t s sid li ev c f iv du ap el raw =
     do { root \<leftarrow> eroot t;
          tokens \<leftarrow> TokenChain_create root (Some ev) el;
          case tokens of
            None \<Rightarrow> Some None
          | Some ch \<Rightarrow>
              do { (root, insts) \<leftarrow> onSubscriptionCreated s (Some ch) root (root, []);
                   Some (Some (root, \<lparr>sub_listener = li, sub_eventName = ev, sub_componentId = c, sub_filter = f, sub_interval = iv,
                     sub_duration = du, sub_autoPublish = ap, sub_tokens = Some ch, sub_element = el, sub_instances = insts,
                     sub_rawData = raw, sub_subscriptionId = sid\<rparr>)) } }"

definition put_new :: "registry \<Rightarrow> elementNode \<Rightarrow> rbusSubscription \<Rightarrow> registry" where
  "put_new r root new = r\<lparr>rtree := (rtree r)\<lparr>eroot := Some root\<rparr>, subList := subList r @ [(nextSub r, new)],
     nextSub := nextSub r + 1, nextSubscriptionId := nextSubscriptionId r + 1\<rparr>"

lemma addSubscription_made:
  "rbusSubscriptions_addSubscription r li ev c f iv du ap el raw =
     map_option (\<lambda>m. case m of None \<Rightarrow> (None, r) | Some (root, new) \<Rightarrow> (Some (nextSub r), put_new r root new))
       (made (rtree r) (nextSub r) (nextSubscriptionId r) li ev c f iv du ap el raw)"
  by (auto simp: rbusSubscriptions_addSubscription_def made_def put_new_def Let_def split: option.split Option.bind_split prod.split)

lemma reg_reachable_addr: "reg_reachable mk r \<Longrightarrow> (s, x) \<in> set (subList r) \<Longrightarrow> s \<noteq> nextSub r"
  using reg_reachable_inv [of mk r] by (auto simp: reg_inv_def)

lemma resubscribe_reg:
  assumes "resubscribe env el s sub p = Some p'" "reg_reachable mk (reg p)" "map_of (subList (reg p)) s = Some sub" "offList (reg p) = []"
  shows "reg_reachable mk (reg p') \<and> offList (reg p') = []"
proof -
  define r where "r = reg p"
  define r0 where "r0 = r\<lparr>subList := filter (\<lambda>(q, x). q \<noteq> s) (subList r), offList := [(s, sub)]\<rparr>"
  obtain err sid p1 root root' where p1: "subscribeHandlerImpl env (p\<lparr>reg := r0\<rparr>) True (Some el) (sub_eventName sub) (sub_listener sub)
      (sub_componentId sub) (sub_interval sub) (sub_duration sub) (sub_filter sub) (sub_rawData sub) = Some (err, sid, p1)"
    "element_root p1 = Some root" "subscriptionFree s sub root = Some root'"
    "p' = p1\<lparr>reg := (reg p1)\<lparr>rtree := (rtree (reg p1))\<lparr>eroot := Some root'\<rparr>, offList := filter (\<lambda>(q, x). q \<noteq> s) (offList (reg p1))\<rparr>\<rparr>"
    using assms(1,4) by (auto simp: resubscribe_def r_def r0_def Let_def bind_eq_Some_conv)
  have "reg p1 = r0 \<or> (\<exists>root new. reg p1 = put_new r0 root new \<and> reg_reachable mk (put_new r root new))"
  proof (cases "reg p1 = r0")
    case False
    then obtain ap res where add: "rbusSubscriptions_addSubscription r0 (sub_listener sub) (sub_eventName sub) (sub_componentId sub) (sub_filter sub)
        (sub_interval sub) (sub_duration sub) ap (Some el) (sub_rawData sub) = Some (res, reg p1)"
      using subscribe_reg [OF p1(1)] by auto
    then obtain root new where m: "made (rtree r) (nextSub r) (nextSubscriptionId r) (sub_listener sub) (sub_eventName sub) (sub_componentId sub)
        (sub_filter sub) (sub_interval sub) (sub_duration sub) ap (Some el) (sub_rawData sub) = Some (Some (root, new))" "reg p1 = put_new r0 root new"
      using False by (auto simp: addSubscription_made r0_def split: option.splits)
    then have "rbusSubscriptions_addSubscription r (sub_listener sub) (sub_eventName sub) (sub_componentId sub) (sub_filter sub)
        (sub_interval sub) (sub_duration sub) ap (Some el) (sub_rawData sub) = Some (Some (nextSub r), put_new r root new)"
      by (simp add: addSubscription_made)
    then have "reg_reachable mk (put_new r root new)" using reg_stepped [OF assms(2) reg_subscribe] unfolding r_def by blast
    then show ?thesis using m(2) by blast
  qed simp
  then obtain r1 where r1: "reg_reachable mk r1" "reg p1 = r1\<lparr>subList := filter (\<lambda>(q, x). q \<noteq> s) (subList r1), offList := [(s, sub)]\<rparr>"
    "map_of (subList r1) s = Some sub" "offList r1 = []"
  proof (elim disjE exE conjE)
    assume "reg p1 = r0"
    then show thesis using that [of r] assms by (simp add: r0_def r_def)
  next
    fix root new
    assume a: "reg p1 = put_new r0 root new" "reg_reachable mk (put_new r root new)"
    have "s \<noteq> nextSub r" using reg_reachable_addr [OF assms(2)] assms(3) map_of_SomeD by (fastforce simp: r_def)
    then show thesis using that [of "put_new r root new"] a assms(3,4) by (simp add: put_new_def r0_def r_def map_add_Some_iff)
  qed
  have "rbusSubscriptions_removeSubscription r1 s = Some (reg p')"
    using r1 p1(2-4) by (simp add: rbusSubscriptions_removeSubscription_def)
  then show ?thesis using reg_stepped [OF r1(1) reg_unsubscribe] r1(2) p1(4) by auto
qed


abbreviation sound :: "(rbusDateTime \<Rightarrow> int) \<Rightarrow> provider \<Rightarrow> bool" where
  "sound mk p \<equiv> reg_reachable mk (reg p) \<and> offList (reg p) = []"

lemma resubscribe_row_loop_sound: "resubscribe_row_loop env name ss p = Some p' \<Longrightarrow> sound mk p \<Longrightarrow> sound mk p'"
proof (induction env name ss p rule: resubscribe_row_loop.induct)
  case (2 env name s ss p)
  obtain sub p1 where p1: "map_of (subList (reg p)) s = Some sub" "(if take (length name) (sub_eventName sub) = name
      then (case retrieveInstanceElement (rtree (reg p)) (sub_eventName sub) of None \<Rightarrow> Some p | Some el \<Rightarrow> resubscribe env el s sub p)
      else Some p) = Some p1" "resubscribe_row_loop env name ss p1 = Some p'"
    using "2.prems"(1) by (auto simp: bind_eq_Some_conv)
  have "sound mk p1" using p1(1,2) "2.prems"(2) resubscribe_reg by (fastforce split: if_splits option.splits)
  then show ?case using "2.IH" [OF p1] by blast
qed simp

lemma resubscribe_loop_sound: "resubscribe_loop env name el ss p = Some p' \<Longrightarrow> sound mk p \<Longrightarrow> sound mk p'"
proof (induction env name el ss p rule: resubscribe_loop.induct)
  case (2 env name el s ss p)
  obtain sub p1 where p1: "map_of (subList (reg p)) s = Some sub" "(if sub_element sub = None \<and> sub_tokens sub = None \<and>
      compareEventNameToElemName (sub_eventName sub) name = 0 then resubscribe env el s sub p else Some p) = Some p1"
      "resubscribe_loop env name el ss p1 = Some p'"
    using "2.prems"(1) by (auto simp: bind_eq_Some_conv)
  have "sound mk p1" using p1(1,2) "2.prems"(2) resubscribe_reg by (fastforce split: if_splits)
  then show ?case using "2.IH" [OF p1] by blast
qed simp

lemma add_offList: "rbusSubscriptions_addSubscription r li ev c f iv du ap el raw = Some (res, r') \<Longrightarrow> offList r' = offList r"
  by (auto simp: addSubscription_made put_new_def split: option.splits)

lemma remove_offList: "rbusSubscriptions_removeSubscription r s = Some r' \<Longrightarrow> offList r' = offList r"
  by (auto simp: rbusSubscriptions_removeSubscription_def split: option.splits Option.bind_splits)

lemma subscribe_sound:
  assumes "subscribeHandlerImpl env p added el ev li c iv du f raw = Some (rc, sid, p')" "sound mk p"
  shows "sound mk p'"
  using subscribe_reg [OF assms(1)] assms(2) reg_stepped [of mk "reg p" "reg p'"] reg_subscribe [of "reg p" li ev c f iv du _ el raw _ "reg p'" mk]
    reg_unsubscribe [of "reg p" _ "reg p'" mk] add_offList remove_offList
  by metis

lemma disconnect_sound: "disconnect_loop env li ss p = Some p' \<Longrightarrow> sound mk p \<Longrightarrow> sound mk p'"
proof (induction env li ss p rule: disconnect_loop.induct)
  case (2 env li s ss p)
  obtain sub p1 where p1: "map_of (subList (reg p)) s = Some sub" "(if sub_listener sub = li \<and> retrieveInstanceElement (rtree (reg p)) (sub_eventName sub) \<noteq> None
      then do { (rc, sid, p) \<leftarrow> subscribeHandlerImpl env p False (sub_element sub) (sub_eventName sub) (sub_listener sub)
                  (sub_componentId sub) 0 0 NullF False; Some p }
      else Some p) = Some p1" "disconnect_loop env li ss p1 = Some p'"
    using "2.prems"(1) by (auto simp: bind_eq_Some_conv)
  have "sound mk p1"
  proof (cases "p1 = p")
    case False
    then obtain rc sid where "subscribeHandlerImpl env p False (sub_element sub) (sub_eventName sub) (sub_listener sub)
        (sub_componentId sub) 0 0 NullF False = Some (rc, sid, p1)"
      using p1(2) by (auto simp: bind_eq_Some_conv split: if_splits)
    then show ?thesis using subscribe_sound "2.prems"(2) by blast
  qed (use "2.prems"(2) in simp)
  then show ?case using "2.IH" [OF p1] by blast
qed simp

lemma row_added_offList: "rbusSubscriptions_onTableRowAdded r row = Some r' \<Longrightarrow> offList r' = offList r"
  by (auto simp: rbusSubscriptions_onTableRowAdded_def split: Option.bind_splits prod.splits)

lemma unlink_subs_offList: "unlink_subs mk a ss val r = Some r' \<Longrightarrow> offList r' = offList r"
proof (induction mk a ss val r rule: unlink_subs.induct)
  case (2 mk a s ss val r)
  obtain sub root where sub: "map_of (subList r) s = Some sub" "eroot (rtree r) = Some root"
    using "2.prems" by (auto simp: bind_eq_Some_conv)
  obtain r1 v where r1: "(if a \<in> set (sub_instances sub)
      then (r\<lparr>rtree := (rtree r)\<lparr>eroot := Some (removeElementSubscription root (Some a) s)\<rparr>,
              subList := upd_sub s (\<lambda>x. x\<lparr>sub_instances := remove1 a (sub_instances x)\<rparr>) (subList r)\<rparr>, True)
      else (r, val)) = (r1, v)" by force
  have "\<exists>r2. (if v then do { found \<leftarrow> rbusSubscriptions_getSubscription mk r1 (sub_listener sub) (sub_eventName sub)
        (sub_componentId sub) (sub_filter sub) (sub_interval sub) (sub_duration sub) (sub_rawData sub);
        case found of None \<Rightarrow> Some r1 | Some q \<Rightarrow> rbusSubscriptions_removeSubscription r1 q } else Some r1) = Some r2 \<and>
      unlink_subs mk a ss v r2 = Some r'"
    using "2.prems" unfolding unlink_subs.simps sub Option.bind.bind_lunit Let_def r1 prod.case bind_eq_Some_conv .
  then obtain r2 where r2: "(if v then do { found \<leftarrow> rbusSubscriptions_getSubscription mk r1 (sub_listener sub) (sub_eventName sub)
        (sub_componentId sub) (sub_filter sub) (sub_interval sub) (sub_duration sub) (sub_rawData sub);
        case found of None \<Rightarrow> Some r1 | Some q \<Rightarrow> rbusSubscriptions_removeSubscription r1 q } else Some r1) = Some r2"
      "unlink_subs mk a ss v r2 = Some r'" by blast
  have "offList r1 = offList r" using r1 by (auto split: if_splits)
  moreover have "offList r2 = offList r1" using r2(1) remove_offList by (auto split: if_splits option.splits Option.bind_splits)
  ultimately show ?case using "2.IH" [OF sub refl r1 [symmetric] r2] by simp
qed simp

lemma deleted_offList:
  "onElementDeleted mk n r = Some r' \<Longrightarrow> offList r' = offList r"
  "on_elements_deleted mk b ks r = Some r' \<Longrightarrow> offList r' = offList r"
proof (induction mk n r and mk b ks r arbitrary: r' and r' rule: onElementDeleted_on_elements_deleted.induct)
  case (3 mk in_tab child ks r)
  then obtain r1 r2 where r1: "(if ntype child \<noteq> RBUS_ELEMENT_TYPE_OBJECT
      then unlink_subs mk (eaddr child) (map fst (subList r)) False r else Some r) = Some r1"
    "(if echildren child \<noteq> [] \<and> \<not> (in_tab \<and> nname child = ''{i}'') then onElementDeleted mk child r1 else Some r1) = Some r2"
    "on_elements_deleted mk in_tab ks r2 = Some r'"
    unfolding on_elements_deleted.simps bind_eq_Some_conv by blast
  have "offList r1 = offList r" using r1(1) unlink_subs_offList by (auto split: if_splits)
  moreover have "offList r2 = offList r1" using r1(2) "3.IH"(1) [OF r1(1)] by (auto split: if_splits)
  ultimately show ?case using "3.IH"(2) [OF r1] by simp
qed simp_all

text \<open>A table outside of all row templates, and a row of a table.\<close>

definition table_instance :: "provider \<Rightarrow> addr \<Rightarrow> bool" where
  "table_instance p a \<longleftrightarrow> (\<exists>root T. element_root p = Some root \<and> node_of a root = Some T \<and> ntype T = RBUS_ELEMENT_TYPE_TABLE \<and>
     (\<forall>x\<in>set (tl (chain_to a root)). nname x \<noteq> ''{i}''))"

definition row_instance :: "provider \<Rightarrow> addr \<Rightarrow> bool" where
  "row_instance p a \<longleftrightarrow> (\<exists>root. element_root p = Some root \<and> row_chain (chain_to a root))"

lemma registerTableRow_sound:
  assumes "registerTableRow env p a name al num = Some p'" "table_instance p a" "sound mk p"
  shows "sound mk p'"
proof -
  obtain row t r n p1 ev rc p2 where r: "instantiateTableRow (rtree (reg p)) (Some a) num al = Some (Some row, t)"
    "rbusSubscriptions_onTableRowAdded ((reg p)\<lparr>rtree := t\<rparr>) row = Some r"
    and p1: "valueChangeTableRowUpdate env True n (p\<lparr>reg := r\<rparr>) = Some p1" "rbusEvent_Publish env p1 ev = Some (rc, p2)"
    "rbusSubscriptions_resubscribeRowElementCache env row p2 = Some p'"
    using assms(1) unfolding registerTableRow_def Let_def bind_eq_Some_conv by clarify (unfold split_paired_Ex prod.case bind_eq_Some_conv, blast)
  have "reg_reachable mk r"
    using assms(2,3) reg_stepped [OF _ reg_row_added [OF _ _ _ _ r]] unfolding table_instance_def by blast
  moreover have "reg p2 = r" using update_reg(1) [OF p1(1)] Publish_reg [OF p1(2)] by simp
  moreover have "offList r = []" using row_added_offList [OF r(2)] assms(3) by simp
  ultimately have "sound mk p2" by simp
  then show ?thesis using p1(3) resubscribe_row_loop_sound
    by (auto simp: rbusSubscriptions_resubscribeRowElementCache_def bind_eq_Some_conv)
qed

lemma unregisterTableRow_sound:
  assumes "unregisterTableRow env p a = Some p'" "row_instance p a" "sound (mktime env) p"
  shows "sound (mktime env) p'"
proof -
  obtain n p1 r t ev rc where p1: "valueChangeTableRowUpdate env False n p = Some p1"
    "rbusSubscriptions_onTableRowRemoved (mktime env) (reg p1) a = Some r" "deleteTableRow (rtree r) (Some a) = Some t"
    "rbusEvent_Publish env (p1\<lparr>reg := r\<lparr>rtree := t\<rparr>\<rparr>) ev = Some (rc, p')"
    using assms(1) unfolding unregisterTableRow_def Let_def
    by (auto simp: bind_eq_Some_conv simp del: event_SetValue.simps)
  have eq: "reg p1 = reg p" "reg p' = r\<lparr>rtree := t\<rparr>" using update_reg(1) [OF p1(1)] Publish_reg [OF p1(4)] by simp_all
  have "reg_reachable (mktime env) (reg p')"
    using assms(2,3) reg_stepped [OF _ reg_row_deleted [OF _ _ p1(2,3)]] unfolding row_instance_def eq by blast
  moreover have "offList (reg p') = []"
    using p1(2) eq assms(3) deleted_offList(1) by (auto simp: rbusSubscriptions_onTableRowRemoved_def bind_eq_Some_conv)
  ultimately show ?thesis by blast
qed

lemma setPropertyChange_sound: "setPropertyChangeComponent env p a = Some p' \<Longrightarrow> sound mk p \<Longrightarrow> sound mk p'"
  using reg_stepped [OF _ reg_noted] by (auto simp: setPropertyChangeComponent_def bind_eq_Some_conv)

lemma poll_record_sound:
  assumes "poll_record env p rec = Some (rec', p')" "sound mk p"
  shows "sound mk p'"
proof -
  obtain root n where n: "element_root p = Some root" "node_of (vc_node rec) root = Some n"
    using assms(1) by (auto simp: poll_record_def bind_eq_Some_conv)
  have "p' = p \<or> (\<exists>p1 ev rc. note_change env p (vc_node rec) n = Some p1 \<and> rbusEvent_Publish env p1 ev = Some (rc, p'))"
    using assms(1) n unfolding poll_record_def Let_def note_change_def [symmetric]
    by (auto simp: bind_eq_Some_conv simp del: event_SetValue.simps split: option.splits if_splits prod.splits)
  moreover have "sound mk p1" if "note_change env p (vc_node rec) n = Some p1" for p1
    using that assms(2) setPropertyChange_sound by (auto simp: note_change_def split: option.splits if_splits)
  ultimately show ?thesis using assms(2) Publish_reg by fastforce
qed

lemma poll_loop_sound: "poll_loop env recs p = Some (recs', p') \<Longrightarrow> sound mk p \<Longrightarrow> sound mk p'"
proof (induction recs arbitrary: p recs')
  case (Cons rec recs)
  then obtain rec1 p1 recs1 where "poll_record env p rec = Some (rec1, p1)" "poll_loop env recs p1 = Some (recs1, p')"
    by (auto simp: bind_eq_Some_conv)
  then show ?case using Cons.IH poll_record_sound Cons.prems(2) by blast
qed simp

section \<open>Histories\<close>

text \<open>
  A provider starts with the subscriptions of its last run. Elements are registered under new names; rows are added to what is
  a table, and the name given for deletion is that of a row. Handlers, clock and what sending returns may
  differ from step to step; \<open>mktime\<close> is a function of the library.
\<close>

inductive provider_step :: "(rbusDateTime \<Rightarrow> int) \<Rightarrow> provider \<Rightarrow> provider \<Rightarrow> bool" for mk where
  ps_element: "element_root p = Some root \<Longrightarrow> new_path (element_tokens e) root \<Longrightarrow> register_element env p e = Some (rc, p') \<Longrightarrow>
    provider_step mk p p'"
| ps_subscribe: "subscribeHandlerImpl env p added el ev li c iv du f raw = Some (rc, sid, p') \<Longrightarrow> provider_step mk p p'"
| ps_row_added: "(\<And>a. retrieveInstanceElement (rtree (reg p)) name = Some a \<Longrightarrow> table_instance p a) \<Longrightarrow>
    rbusTable_registerRow env p name num al = Some (rc, p') \<Longrightarrow> provider_step mk p p'"
| ps_row_deleted: "(\<And>a. retrieveInstanceElement (rtree (reg p)) name = Some a \<Longrightarrow> row_instance p a) \<Longrightarrow> mktime env = mk \<Longrightarrow>
    rbusTable_unregisterRow env p name = Some (rc, p') \<Longrightarrow> provider_step mk p p'"
| ps_publish: "rbusEvent_Publish env p event = Some (rc, p') \<Longrightarrow> provider_step mk p p'"
| ps_poll: "rbusValueChange_poll env p = Some p' \<Longrightarrow> provider_step mk p p'"
| ps_disconnect: "rbusSubscriptions_handleClientDisconnect env li p = Some p' \<Longrightarrow> provider_step mk p p'"

inductive provider_reachable :: "(rbusDateTime \<Rightarrow> int) \<Rightarrow> provider \<Rightarrow> bool" for mk where
  provider_started: "distinct (map fst subs) \<Longrightarrow> (\<And>q x. (q, x) \<in> set subs \<Longrightarrow> q < s \<and> loaded x) \<Longrightarrow>
    provider_reachable mk \<lparr>componentName = component, reg = \<lparr>rtree = \<lparr>eroot = Some (upd_info (\<lambda>i. i\<lparr>ename := component\<rparr>) (getEmptyElementNode a)),
      pruneNode = [], enext = a + 1\<rparr>, subList = subs, offList = [], nextSub = s, nextSubscriptionId = 3\<rparr>,
      gVC = None, gRecord = [], outbox = [], published = []\<rparr>"
| provider_stepped: "provider_reachable mk p \<Longrightarrow> provider_step mk p p' \<Longrightarrow> provider_reachable mk p'"

lemma register_element_sound:
  assumes "register_element env p e = Some (rc, p')" "element_root p = Some root" "new_path (element_tokens e) root" "sound mk p"
  shows "sound mk p'"
proof -
  obtain res t where t: "insertElement (rtree (reg p)) (Some e) = Some (res, t)"
    using assms(1) by (auto simp: register_element_def bind_eq_Some_conv)
  have "sound mk (p\<lparr>reg := (reg p)\<lparr>rtree := t\<rparr>\<rparr>)" using reg_stepped [OF _ reg_element [OF assms(2,3) t]] assms(4) by simp
  then show ?thesis using assms(1) t resubscribe_loop_sound
    by (cases res) (auto simp: register_element_def rbusSubscriptions_resubscribeElementCache_def Let_def bind_eq_Some_conv)
qed

lemma provider_step_sound: "provider_step mk p p' \<Longrightarrow> sound mk p \<Longrightarrow> sound mk p'"
proof (induction rule: provider_step.induct)
  case (ps_element p root e env rc p')
  then show ?case using register_element_sound by blast
next
  case (ps_subscribe env p added el ev li c iv du f raw rc sid p')
  then show ?case using subscribe_sound by blast
next
  case (ps_row_added p name env num al rc p')
  then show ?case using registerTableRow_sound by (auto simp: rbusTable_registerRow_def Let_def bind_eq_Some_conv split: if_splits option.splits)
next
  case (ps_row_deleted p name env rc p')
  then show ?case using unregisterTableRow_sound by (auto simp: rbusTable_unregisterRow_def bind_eq_Some_conv split: option.splits)
next
  case (ps_publish env p event rc p')
  then show ?case using Publish_reg by auto
next
  case (ps_poll env p p')
  then show ?case using poll_loop_sound by (auto simp: rbusValueChange_poll_def bind_eq_Some_conv split: option.splits if_splits)
next
  case (ps_disconnect env li p p')
  then show ?case using disconnect_sound by (auto simp: rbusSubscriptions_handleClientDisconnect_def)
qed

lemma provider_reachable_sound: "provider_reachable mk p \<Longrightarrow> sound mk p"
proof (induction rule: provider_reachable.induct)
  case (provider_started subs s component a)
  then show ?case using reg_created [of subs s mk component a] by simp
qed (use provider_step_sound in blast)


section \<open>From the request to the message\<close>

lemma ask_refused: "ask_provider env added n ev f iv raw = (Some err, ap) \<Longrightarrow> err \<noteq> RBUS_ERROR_SUCCESS"
  by (auto simp: ask_provider_def RBUS_ERROR_SUCCESS_def RBUS_ERROR_INVALID_INPUT_def Let_def split: option.splits if_splits prod.splits)

lemma subscribed:
  assumes "subscribeHandlerImpl env p True (Some e) ev li c iv du f raw = Some (RBUS_ERROR_SUCCESS, sid, p')"
  shows "\<exists>ap root new. made (rtree (reg p)) (nextSub (reg p)) (nextSubscriptionId (reg p)) li ev c f iv du ap (Some e) raw = Some (Some (root, new)) \<and>
    reg p' = put_new (reg p) root new \<and> sid = map_option sub_subscriptionId (map_of (subList (reg p')) (nextSub (reg p)))"
proof -
  obtain root n where n: "element_root p = Some root" "node_of e root = Some n"
    using assms by (auto simp: subscribeHandlerImpl_def bind_eq_Some_conv)
  obtain refused ap where ask: "ask_provider env True n ev f iv raw = (refused, ap)" by force
  have "refused = None"
    using assms n ask ask_refused [of env True n ev f iv raw] by (cases refused) (auto simp: subscribeHandlerImpl_def)
  moreover obtain m where "made (rtree (reg p)) (nextSub (reg p)) (nextSubscriptionId (reg p)) li ev c f iv du ap (Some e) raw = Some m"
    using assms n ask calculation
    by (auto simp: subscribeHandlerImpl_def addSubscription_made RBUS_ERROR_SUCCESS_def RBUS_ERROR_INVALID_OPERATION_def
        RBUS_ERROR_SUBSCRIPTION_ALREADY_EXIST_def split: if_splits option.splits Option.bind_splits)
  ultimately show ?thesis using assms n ask settle_reg(1)
    by (fastforce simp: subscribeHandlerImpl_def addSubscription_made RBUS_ERROR_SUCCESS_def RBUS_ERROR_INVALID_OPERATION_def
        RBUS_ERROR_INVALID_INPUT_def RBUS_ERROR_SUBSCRIPTION_ALREADY_EXIST_def split: if_splits option.splits Option.bind_splits)
qed

lemma made_hits:
  assumes "made t s sid li ev c f iv du ap el raw = Some (Some (root', new))" "eroot t = Some root"
    "TokenChain_create root (Some ev) el = Some (Some ch)"
  shows "sub_instances new = hits root (Some ch) (visited root)" "sub_listener new = li" "sub_eventName new = ev" "sub_componentId new = c"
    "sub_filter new = f" "sub_rawData new = raw"
  using assms created_iff(1) [of root root s "Some ch" root "[]"] by (auto simp: made_def split: if_splits)


section \<open>Examples\<close>

text \<open>A provider with a table, a row and a property of the rows, and a client that subscribes to the property of all rows.\<close>

abbreviation demo_env :: provider_code where "demo_env \<equiv> demo_code (demo_value 2 5)"

definition demo_new :: provider where
  "demo_new = \<lparr>componentName = ''prov'', reg = demo_reg demo0, gVC = None, gRecord = [], outbox = [], published = []\<rparr>"

definition after_call :: "('a \<times> provider) run \<Rightarrow> provider" where
  "after_call r = (case r of None \<Rightarrow> demo_new | Some (x, p) \<Rightarrow> p)"

definition subscribed_as :: "provider \<Rightarrow> string \<Rightarrow> int \<Rightarrow> rbusFilter_t \<Rightarrow> provider" where
  "subscribed_as p ev iv f = after_call (map_option snd
     (subscribeHandlerImpl demo_env p True (retrieveInstanceElement (rtree (reg p)) ev) ev ''client.1'' 1 iv 0 f False))"

definition demo_table :: provider where
  "demo_table = after_call (register_element demo_env demo_new (demo_element ''A.T.{i}.'' RBUS_ELEMENT_TYPE_TABLE))"
definition demo_one :: provider where
  "demo_one = after_call (rbusTable_registerRow demo_env demo_table ''A.T.'' 1 None)"
definition demo_property :: provider where
  "demo_property = after_call (register_element demo_env demo_one (demo_element ''A.T.{i}.P'' RBUS_ELEMENT_TYPE_PROPERTY))"
definition demo_client :: provider where
  "demo_client = subscribed_as demo_property ''A.T.*.P'' 0 NullF"

lemma demo_steps:
  "register_element demo_env demo_new (demo_element ''A.T.{i}.'' RBUS_ELEMENT_TYPE_TABLE) = Some (RBUS_ERROR_SUCCESS, demo_table)"
  "rbusTable_registerRow demo_env demo_table ''A.T.'' 1 None = Some (RBUS_ERROR_SUCCESS, demo_one)"
  "register_element demo_env demo_one (demo_element ''A.T.{i}.P'' RBUS_ELEMENT_TYPE_PROPERTY) = Some (RBUS_ERROR_SUCCESS, demo_property)"
  "subscribeHandlerImpl demo_env demo_property True (Some 5) ''A.T.*.P'' ''client.1'' 1 0 0 NullF False = Some (RBUS_ERROR_SUCCESS, Some 3, demo_client)"
  by code_simp+

lemma demo_paths:
  "element_root demo_new = Some (the (element_root demo_new))" "element_root demo_table = Some (the (element_root demo_table))"
  "element_root demo_one = Some (the (element_root demo_one))"
  "new_path (element_tokens (demo_element ''A.T.{i}.'' RBUS_ELEMENT_TYPE_TABLE)) (the (element_root demo_new))"
  "new_path (element_tokens (demo_element ''A.T.{i}.P'' RBUS_ELEMENT_TYPE_PROPERTY)) (the (element_root demo_one))"
  "retrieveInstanceElement (rtree (reg demo_table)) ''A.T.'' = Some 2"
  "map_option ntype (node_of 2 (the (element_root demo_table))) = Some RBUS_ELEMENT_TYPE_TABLE"
  "\<forall>x\<in>set (tl (chain_to 2 (the (element_root demo_table)))). nname x \<noteq> ''{i}''"
  by code_simp+

lemma demo_property_reachable: "provider_reachable mk demo_property"
proof -
  have 0: "provider_reachable mk demo_new"
    using provider_started [of "[]" 0 mk "''prov''" 0] by (simp add: demo_new_def demo_reg_def demo0_def)
  have 1: "provider_reachable mk demo_table" using provider_stepped [OF 0 ps_element [OF demo_paths(1,4) demo_steps(1)]] .
  have "table_instance demo_table a" if "retrieveInstanceElement (rtree (reg demo_table)) ''A.T.'' = Some a" for a
    using that demo_paths(2,6-8) by (auto simp: table_instance_def)
  then have 2: "provider_reachable mk demo_one" using provider_stepped [OF 1 ps_row_added [OF _ demo_steps(2)]] by blast
  show ?thesis using provider_stepped [OF 2 ps_element [OF demo_paths(3,5) demo_steps(3)]] .
qed

lemma demo_client_reachable: "provider_reachable mk demo_client"
  using provider_stepped [OF demo_property_reachable ps_subscribe [OF demo_steps(4)]] .



text \<open>
  Deleting one row of a subscription to all rows removes the subscription, so that deleting the next row
  does not take its property out of the value change detector: the next poll reads the freed element.
\<close>

theorem Poll_reads_freed_element:
  "\<exists>p1 p2 p3. rbusTable_registerRow demo_env demo_client ''A.T.'' 2 None = Some (RBUS_ERROR_SUCCESS, p1) \<and>
     rbusTable_unregisterRow demo_env p1 ''A.T.2'' = Some (RBUS_ERROR_SUCCESS, p2) \<and>
     rbusTable_unregisterRow demo_env p2 ''A.T.1'' = Some (RBUS_ERROR_SUCCESS, p3) \<and>
     map vc_node (vc_params (the (gVC p3))) = [6] \<and> node_of 6 (the (element_root p3)) = None \<and> rbusValueChange_poll demo_env p3 = None"
proof -
  let ?p1 = "after_call (rbusTable_registerRow demo_env demo_client ''A.T.'' 2 None)"
  let ?p2 = "after_call (rbusTable_unregisterRow demo_env ?p1 ''A.T.2'')"
  let ?p3 = "after_call (rbusTable_unregisterRow demo_env ?p2 ''A.T.1'')"
  show ?thesis by (rule exI [of _ ?p1], rule exI [of _ ?p2], rule exI [of _ ?p3]) code_simp
qed

text \<open>A refused request for raw data of a property leaves the subscription behind.\<close>

theorem Refused_subscription_stays:
  "\<exists>p. subscribeHandlerImpl demo_env demo_property True (Some 5) ''A.T.*.P'' ''client.1'' 1 0 0 NullF True = Some (RBUS_ERROR_INVALID_INPUT, Some 3, p) \<and>
     map (\<lambda>(s, x). sub_eventName x) (subList (reg p)) = [''A.T.*.P'']"
proof -
  let ?p = "after_call (map_option snd (subscribeHandlerImpl demo_env demo_property True (Some 5) ''A.T.*.P'' ''client.1'' 1 0 0 NullF True))"
  show ?thesis by (rule exI [of _ ?p]) code_simp
qed

definition demo_interval :: provider where
  "demo_interval = subscribed_as demo_property ''A.T.1.P'' 5 NullF"

text \<open>
  When a client goes away, its interval subscription stays: it is looked up without its interval. (The same
  holds for its duration, its filter and raw data.)
\<close>

theorem Disconnected_subscription_stays:
  "\<exists>p. rbusSubscriptions_handleClientDisconnect demo_env ''client.1'' demo_interval = Some p \<and>
     map (\<lambda>(s, x). (sub_listener x, sub_interval x)) (subList (reg p)) = [(''client.1'', 5)] \<and> gRecord p = gRecord demo_interval \<and> gRecord p \<noteq> []"
proof -
  let ?p = "after_call (map_option (Pair ()) (rbusSubscriptions_handleClientDisconnect demo_env ''client.1'' demo_interval))"
  show ?thesis by (rule exI [of _ ?p]) code_simp
qed

text \<open>
  With a filtered and an unfiltered subscription to the same name, the first lookup removes the second, on
  which the loop already stands.
\<close>

definition demo_filter :: rbusFilter_t where
  "demo_filter = Relation RBUS_FILTER_OPERATOR_GREATER_THAN (demo_value 9 3)"

theorem Disconnect_reads_freed_subscription:
  "map (\<lambda>(s, x). sub_eventName x) (subList (reg (subscribed_as (subscribed_as demo_property ''A.T.1.P'' 0 demo_filter) ''A.T.1.P'' 0 NullF))) =
     [''A.T.1.P'', ''A.T.1.P''] \<and>
   rbusSubscriptions_handleClientDisconnect demo_env ''client.1''
     (subscribed_as (subscribed_as demo_property ''A.T.1.P'' 0 demo_filter) ''A.T.1.P'' 0 NullF) = None"
  by code_simp

text \<open>Deleting a row frees its interval subscription, but the record of the publishing thread still refers to it.\<close>

theorem Interval_record_dangling:
  "\<exists>p. rbusTable_unregisterRow demo_env demo_interval ''A.T.1'' = Some (RBUS_ERROR_SUCCESS, p) \<and>
     subList (reg p) = [] \<and> map sr_sub (gRecord p) = [0] \<and> map sr_sub (gRecord demo_interval) = map fst (subList (reg demo_interval))"
proof -
  let ?p = "after_call (rbusTable_unregisterRow demo_env demo_interval ''A.T.1'')"
  show ?thesis by (rule exI [of _ ?p]) code_simp
qed

text \<open>
  The name of an added row is compared as a mere prefix: adding row 2 subscribes a client of row 20 anew. It gets
  a new identifier it does not know, and its first record dangles.
\<close>

definition demo_twenty :: provider where
  "demo_twenty = subscribed_as (after_call (rbusTable_registerRow demo_env demo_property ''A.T.'' 20 None)) ''A.T.20.P'' 5 NullF"

theorem Other_row_resubscribed:
  "\<exists>p. map (\<lambda>(s, x). (s, sub_eventName x, sub_subscriptionId x)) (subList (reg demo_twenty)) = [(0, ''A.T.20.P'', 3)] \<and>
     rbusTable_registerRow demo_env demo_twenty ''A.T.'' 2 None = Some (RBUS_ERROR_SUCCESS, p) \<and>
     map (\<lambda>(s, x). (s, sub_eventName x, sub_subscriptionId x)) (subList (reg p)) = [(1, ''A.T.20.P'', 4)] \<and>
     map sr_sub (gRecord p) = [0, 1]"
proof -
  let ?p = "after_call (rbusTable_registerRow demo_env demo_twenty ''A.T.'' 2 None)"
  show ?thesis by (rule exI [of _ ?p]) code_simp
qed

text \<open>Any element can be deleted as if it were a row.\<close>

theorem Property_deleted_as_row:
  "\<exists>p. rbusTable_unregisterRow demo_env demo_property ''A.T.1.P'' = Some (RBUS_ERROR_SUCCESS, p) \<and>
     retrieveInstanceElement (rtree (reg demo_property)) ''A.T.1.P'' = Some 6 \<and> retrieveInstanceElement (rtree (reg p)) ''A.T.1.P'' = None"
proof -
  let ?p = "after_call (rbusTable_unregisterRow demo_env demo_property ''A.T.1.P'')"
  show ?thesis by (rule exI [of _ ?p]) code_simp
qed

text \<open>A subscription to a property without get handler stops the provider at an assertion; with an interval it is accepted and nothing is ever sent.\<close>

definition demo_write_only :: provider where
  "demo_write_only = after_call (register_element demo_env demo_one
     \<lparr>el_name = ''A.T.{i}.P'', el_type = RBUS_ELEMENT_TYPE_PROPERTY, el_cbTable = no_handlers\<lparr>cb_setHandler := Some 8\<rparr>\<rparr>)"

theorem Write_only_subscription:
  "subscribeHandlerImpl demo_env demo_write_only True (Some 5) ''A.T.*.P'' ''client.1'' 1 0 0 NullF False = None \<and>
   (\<exists>p. subscribeHandlerImpl demo_env demo_write_only True (Some 5) ''A.T.*.P'' ''client.1'' 1 5 0 NullF False = Some (RBUS_ERROR_SUCCESS, Some 3, p) \<and>
     gRecord p = [])"
proof -
  let ?p = "subscribed_as demo_write_only ''A.T.*.P'' 5 NullF"
  show ?thesis by (rule conjI, code_simp, rule exI [of _ ?p]) code_simp
qed

end
