(* ===== verification/RB_Cache.thy ===== *)
theory RB_Cache
  imports RB_SubscriptionLinks
begin

text \<open>
  The cache file of the subscriptions, \<^verbatim>\<open>src/src/rbus/rbus_subscriptions.c\<close>: a provider writes its
  subscriptions to a file after each change (\<open>rbusSubscriptions_saveCache\<close>), and when it starts again reads
  those whose listener is still there (\<open>rbusSubscriptions_loadCache\<close>).

  The contents of the file are like a block of memory (padding bytes of a value are written as they are), \<open>None\<close> when there is no file. Opening, reading and
  writing succeed. The theorem shows that what is read is what was written.
\<close>

section \<open>Names in memory\<close>

definition byte_of :: "char \<Rightarrow> u8" where "byte_of c = word_of_nat (of_char c)"

definition char_at :: "u8 \<Rightarrow> char" where "char_at w = char_of (unat w)"

definition text_image :: "string \<Rightarrow> mem" where
  "text_image s = map Some (map byte_of s @ [0])"

definition text_at :: "mem \<Rightarrow> string run" where
  "text_at m = map_option (map char_at) (cstr m)"

section \<open>Writing\<close>

definition int_of_bool :: "bool \<Rightarrow> u32" where "int_of_bool b = (if b then 1 else 0)"

definition save_sub :: "rbusBuffer \<Rightarrow> rbusSubscription \<Rightarrow> rbusBuffer run" where
  "save_sub buff sub =
     do { buff \<leftarrow> rbusBuffer_WriteStringTLV buff (Some (text_image (sub_listener sub))) (int (length (sub_listener sub)) + 1);
          buff \<leftarrow> rbusBuffer_WriteStringTLV buff (Some (text_image (sub_eventName sub))) (int (length (sub_eventName sub)) + 1);
          buff \<leftarrow> rbusBuffer_WriteInt32TLV buff (word_of_int (sub_componentId sub));
          buff \<leftarrow> rbusBuffer_WriteInt32TLV buff (word_of_int (sub_interval sub));
          buff \<leftarrow> rbusBuffer_WriteInt32TLV buff (word_of_int (sub_duration sub));
          buff \<leftarrow> rbusBuffer_WriteInt32TLV buff (int_of_bool (sub_autoPublish sub));
          buff \<leftarrow> rbusBuffer_WriteInt32TLV buff (sub_subscriptionId sub);
          buff \<leftarrow> rbusBuffer_WriteInt32TLV buff (int_of_bool (sub_rawData sub));
          buff \<leftarrow> rbusBuffer_WriteInt32TLV buff (if sub_filter sub \<noteq> NullF then 1 else 0);
          if sub_filter sub \<noteq> NullF then rbusFilter_Encode buff (sub_filter sub) else Some buff }"

text \<open>Without subscriptions the file is removed.\<close>

definition rbusSubscriptions_saveCache :: "rbusSubscription list \<Rightarrow> mem option run" where
  "rbusSubscriptions_saveCache subs =
     (if subs = [] then Some None
      else do { buff \<leftarrow> put_all save_sub rbusBuffer_Create subs;
                u \<leftarrow> rbusBuffer_Destroy buff;
                Some (Some (written buff)) })"

section \<open>Reading\<close>

text \<open>
  A field is \<open>None\<close> when the file is taken for corrupted. A name is copied out of the block without
  regard to the write position; an integer passes if its type or its length is right.
\<close>

definition read_header :: "rbusBuffer \<Rightarrow> ((u16 \<times> u16) option \<times> rbusBuffer) run" where
  "read_header buff =
     do { (rc, ty, buff) \<leftarrow> rbusBuffer_ReadUInt16 buff;
          if rc < 0 then Some (None, buff)
          else do { (rc, len, buff) \<leftarrow> rbusBuffer_ReadUInt16 buff;
                    if rc < 0 then Some (None, buff)
                    else do { ty \<leftarrow> ty; len \<leftarrow> len; Some (Some (ty, len), buff) } } }"

definition read_name :: "rbusBuffer \<Rightarrow> (mem option \<times> rbusBuffer) run" where
  "read_name buff =
     do { (h, buff) \<leftarrow> read_header buff;
          case h of
            None \<Rightarrow> Some (None, buff)
          | Some (ty, len) \<Rightarrow>
              if uint ty \<noteq> vtype_code RBUS_STRING \<or> unat len \<ge> RBUS_MAX_NAME_LENGTH then Some (None, buff)
              else do { bs \<leftarrow> mem_read (data buff) (posRead buff) (uint len);
                        p \<leftarrow> cint (posRead buff + uint len);
                        Some (Some bs, buff\<lparr>posRead := p\<rparr>) } }"

definition read_int :: "rbusBuffer \<Rightarrow> (u32 option \<times> rbusBuffer) run" where
  "read_int buff =
     do { (h, buff) \<leftarrow> read_header buff;
          case h of
            None \<Rightarrow> Some (None, buff)
          | Some (ty, len) \<Rightarrow>
              if uint ty \<noteq> vtype_code RBUS_INT32 \<and> len \<noteq> 4 then Some (None, buff)
              else do { (rc, x, buff) \<leftarrow> rbusBuffer_ReadInt32 buff;
                        if rc < 0 then Some (None, buff) else do { x \<leftarrow> x; Some (Some x, buff) } } }"

fun read_ints :: "nat \<Rightarrow> rbusBuffer \<Rightarrow> (u32 list option \<times> rbusBuffer) run" where
  "read_ints 0 buff = Some (Some [], buff)"
| "read_ints (Suc n) buff =
     do { (x, buff) \<leftarrow> read_int buff;
          case x of
            None \<Rightarrow> Some (None, buff)
          | Some x \<Rightarrow> do { (xs, buff) \<leftarrow> read_ints n buff; Some (map_option ((#) x) xs, buff) } }"

text \<open>
  A record of the file: the memory of its two names, the seven integers (component, interval, duration,
  automatic publishing, identifier, raw data, whether there is a filter) and the filter.
\<close>

record cached =
  ca_listener :: mem
  ca_eventName :: mem
  ca_ints :: "u32 list"
  ca_filter :: rbusFilter_t

definition load_sub :: "addr \<Rightarrow> rbusBuffer \<Rightarrow> (cached option \<times> addr \<times> rbusBuffer) run" where
  "load_sub a buff =
     do { (listener, buff) \<leftarrow> read_name buff;
          case listener of
            None \<Rightarrow> Some (None, a, buff)
          | Some listener \<Rightarrow>
              do { (eventName, buff) \<leftarrow> read_name buff;
                   case eventName of
                     None \<Rightarrow> Some (None, a, buff)
                   | Some eventName \<Rightarrow>
                       do { (ints, buff) \<leftarrow> read_ints 7 buff;
                            case ints of
                              None \<Rightarrow> Some (None, a, buff)
                            | Some ints \<Rightarrow>
                                if last ints \<noteq> 0
                                then do { (rc, f, buff, a) \<leftarrow> rbusFilter_Decode a buff;
                                          if rc < 0 then Some (None, a, buff)
                                          else do { f \<leftarrow> f;
                                                    Some (Some \<lparr>ca_listener = listener, ca_eventName = eventName,
                                                      ca_ints = ints, ca_filter = f\<rparr>, a, buff) } }
                                else Some (Some \<lparr>ca_listener = listener, ca_eventName = eventName,
                                       ca_ints = ints, ca_filter = NullF\<rparr>, a, buff) } } }"

text \<open>
  An integer is stored through a pointer to the \<open>bool\<close> fields: its low byte is the value, and must be
  that of a \<open>bool\<close>.
\<close>

definition bool_at :: "u32 \<Rightarrow> bool run" where
  "bool_at w = conv_bool [ucast w]"

definition loaded_sub :: "cached \<Rightarrow> rbusSubscription run" where
  "loaded_sub c =
     do { listener \<leftarrow> text_at (ca_listener c);
          eventName \<leftarrow> text_at (ca_eventName c);
          autoPublish \<leftarrow> bool_at (ca_ints c ! 3);
          rawData \<leftarrow> bool_at (ca_ints c ! 5);
          Some \<lparr>sub_listener = listener, sub_eventName = eventName, sub_componentId = sint (ca_ints c ! 0), sub_filter = ca_filter c,
            sub_interval = sint (ca_ints c ! 1), sub_duration = sint (ca_ints c ! 2), sub_autoPublish = autoPublish,
            sub_tokens = None, sub_element = None, sub_instances = [], sub_rawData = rawData, sub_subscriptionId = ca_ints c ! 4\<rparr> }"

section \<open>Listeners that are gone\<close>

text \<open>What calls of the operating system return: \<open>kill\<close> with signal 0 for a process, and \<open>access\<close> for a file.\<close>

record system =
  kill :: "int \<Rightarrow> int"
  access :: "string \<Rightarrow> int"

text \<open>
  The number behind the last dot of the listener; without a dot, behind its first character. For an empty name the
  search starts before the string.
\<close>

definition rbusSubscriptions_getListenerPid :: "string \<Rightarrow> int run" where
  "rbusSubscriptions_getListenerPid listener =
     (if listener = '''' then None
      else atoi (if CHR ''.'' \<in> set listener then rev (takeWhile (\<lambda>c. c \<noteq> CHR ''.'') (rev listener)) else tl listener))"

definition rbusSubscriptions_isProcessRunning :: "system \<Rightarrow> int \<Rightarrow> bool" where
  "rbusSubscriptions_isProcessRunning os pid \<longleftrightarrow> kill os pid = 0"

definition rbusSubscriptions_isListenerRunning :: "system \<Rightarrow> string \<Rightarrow> bool run" where
  "rbusSubscriptions_isListenerRunning os listener =
     do { pid \<leftarrow> rbusSubscriptions_getListenerPid listener; Some (if pid > 0 then rbusSubscriptions_isProcessRunning os pid else True) }"

definition print_int :: "int \<Rightarrow> string" where
  "print_int i = (if i < 0 then CHR ''-'' # decimal (nat (- i)) else decimal (nat i))"

definition listener_kept :: "system \<Rightarrow> string \<Rightarrow> int \<Rightarrow> bool run" where
  "listener_kept os listener componentId =
     do { running \<leftarrow> rbusSubscriptions_isListenerRunning os listener;
          if \<not> running then Some False
          else do { pid \<leftarrow> rbusSubscriptions_getListenerPid listener;
                    Some (access os (''/tmp/.rbus/'' @ print_int pid @ ''_'' @ print_int componentId) = 0) } }"

section \<open>Loading\<close>

text \<open>
  The loop over the records: whether the end was reached without a corrupted record, whether a record was
  dropped, and the subscriptions loaded, also in front of a corrupted record.
\<close>

partial_function (option) load_loop :: "system \<Rightarrow> addr \<Rightarrow> rbusBuffer \<Rightarrow> (bool \<times> bool \<times> rbusSubscription list) run" where
  "load_loop os a buff =
     (if \<not> posRead buff < posWrite buff then Some (True, False, [])
      else do { (c, a, buff) \<leftarrow> load_sub a buff;
                case c of
                  None \<Rightarrow> Some (False, False, [])
                | Some c \<Rightarrow>
                    do { listener \<leftarrow> text_at (ca_listener c);
                         kept \<leftarrow> listener_kept os listener (sint (ca_ints c ! 0));
                         if kept
                         then do { sub \<leftarrow> loaded_sub c; (good, needSave, subs) \<leftarrow> load_loop os a buff; Some (good, needSave, sub # subs) }
                         else do { (good, needSave, subs) \<leftarrow> load_loop os a buff; Some (good, True, subs) } } })"

declare load_loop.simps [code]

text \<open>
  The subscriptions and the file afterwards: an empty or corrupted file is removed, and the file is written again
  when records were dropped. A size that is no \<open>int\<close> does not fit the parameter of \<open>rbusBuffer_Reserve\<close>.
\<close>

definition rbusSubscriptions_loadCache :: "system \<Rightarrow> addr \<Rightarrow> mem option \<Rightarrow> (rbusSubscription list \<times> mem option) run" where
  "rbusSubscriptions_loadCache os a file =
     (case file of
        None \<Rightarrow> Some ([], None)
      | Some bs \<Rightarrow>
          if bs = [] then Some ([], None)
          else do { size \<leftarrow> cint (int (length bs));
                    buff \<leftarrow> rbusBuffer_Reserve rbusBuffer_Create size;
                    d \<leftarrow> mem_write (data buff) 0 bs;
                    (good, needSave, subs) \<leftarrow> load_loop os a (buff\<lparr>data := d, posWrite := size\<rparr>);
                    u \<leftarrow> rbusBuffer_Destroy buff;
                    file \<leftarrow> (if \<not> good then Some None else if needSave then rbusSubscriptions_saveCache subs else Some (Some bs));
                    Some (subs, file) })"

section \<open>The image of a subscription\<close>

definition text_ok :: "string \<Rightarrow> bool" where
  "text_ok s \<longleftrightarrow> CHR 0x00 \<notin> set s \<and> length s + 1 < RBUS_MAX_NAME_LENGTH"

definition sub_ints :: "rbusSubscription \<Rightarrow> u32 list" where
  "sub_ints x = [word_of_int (sub_componentId x), word_of_int (sub_interval x), word_of_int (sub_duration x), int_of_bool (sub_autoPublish x),
     sub_subscriptionId x, int_of_bool (sub_rawData x), if sub_filter x \<noteq> NullF then 1 else 0]"

definition wire_ints :: "u32 list \<Rightarrow> mem" where
  "wire_ints ws = concat (map (\<lambda>w. tlv RBUS_INT32 (bytes32 w)) ws)"

definition wire_sub :: "rbusSubscription \<Rightarrow> mem" where
  "wire_sub x = tlv RBUS_STRING (text_image (sub_listener x)) @ tlv RBUS_STRING (text_image (sub_eventName x)) @
     wire_ints (sub_ints x) @ wire_filter (sub_filter x)"

text \<open>What a subscription needs to survive: names that fit, \<open>int\<close>s, and a filter that can be decoded.\<close>

definition wf_sub :: "rbusSubscription \<Rightarrow> bool" where
  "wf_sub x \<longleftrightarrow> text_ok (sub_listener x) \<and> text_ok (sub_eventName x) \<and> int_range (sub_componentId x) \<and> int_range (sub_interval x) \<and>
     int_range (sub_duration x) \<and> (sub_filter x = NullF \<or> wf_filter (sub_filter x))"

definition same_sub :: "rbusSubscription \<Rightarrow> rbusSubscription \<Rightarrow> bool" where
  "same_sub x y \<longleftrightarrow> sub_listener y = sub_listener x \<and> sub_eventName y = sub_eventName x \<and> sub_componentId y = sub_componentId x \<and>
     sub_interval y = sub_interval x \<and> sub_duration y = sub_duration x \<and> sub_autoPublish y = sub_autoPublish x \<and>
     sub_rawData y = sub_rawData x \<and> sub_subscriptionId y = sub_subscriptionId x \<and> same_filter (sub_filter x) (sub_filter y) \<and> loaded y"

lemma length_text_image [simp]: "length (text_image s) = length s + 1"
  by (simp add: text_image_def)

lemma length_wire_ints [simp]: "length (wire_ints ws) = 8 * length ws"
  by (induction ws) (simp_all add: wire_ints_def)

lemma char_at_byte_of [simp]: "char_at (byte_of c) = c"
proof -
  have "(of_char c :: nat) < 2 ^ LENGTH(8)" using nat_of_char_less_256 [of c] by simp
  then show ?thesis by (simp add: char_at_def byte_of_def unsigned_of_nat take_bit_nat_eq_self)
qed

lemma byte_of_zero: "byte_of c = 0 \<Longrightarrow> c = CHR 0x00"
proof -
  assume "byte_of c = 0"
  then have "c = char_at 0" using char_at_byte_of [of c] by simp
  moreover have "char_at 0 = CHR 0x00" by code_simp
  ultimately show ?thesis by simp
qed

lemma text_at_image: "text_ok s \<Longrightarrow> text_at (text_image s) = Some s"
proof -
  assume "text_ok s"
  then have "0 \<notin> set (map byte_of s)" using byte_of_zero by (fastforce simp: text_ok_def)
  then show ?thesis using cstr_terminated [of "map byte_of s" "[]"] by (simp add: text_at_def text_image_def comp_def)
qed

section \<open>Saving\<close>

lemma WriteStringTLV_writes:
  assumes "text_ok s" "buf_inv b" "room (5 + length s) b"
  shows "writes b (tlv RBUS_STRING (text_image s)) (rbusBuffer_WriteStringTLV b (Some (text_image s)) (int (length s) + 1))"
  unfolding rbusBuffer_WriteStringTLV_def
  by (rule WriteTLV_ok) (use assms in \<open>simp_all add: text_ok_def RBUS_MAX_NAME_LENGTH_def add.commute\<close>)

lemma WriteInt32TLV_writes:
  "buf_inv b \<Longrightarrow> room 8 b \<Longrightarrow> writes b (tlv RBUS_INT32 (bytes32 w)) (rbusBuffer_WriteInt32TLV b w)"
  unfolding rbusBuffer_WriteInt32TLV_def by (rule WriteTLV_ok) simp_all

lemma save_sub_writes:
  assumes "wf_sub x" "buf_inv b" "room (length (wire_sub x)) b"
  shows "writes b (wire_sub x) (save_sub b x)"
proof -
  have f: "writes b' (wire_filter (sub_filter x)) (if sub_filter x \<noteq> NullF then rbusFilter_Encode b' (sub_filter x) else Some b')"
    if "buf_inv b'" "room (length (wire_filter (sub_filter x))) b'" for b'
    using that assms(1) Filter_Encode_writes [of b' "sub_filter x"] writes_Nil by (auto simp: wf_sub_def)
  show ?thesis
    unfolding save_sub_def wire_sub_def wire_ints_def sub_ints_def list.map concat.simps append_assoc append_Nil
    by (intro writes_bind WriteStringTLV_writes WriteInt32TLV_writes f)
      (use assms in \<open>auto simp: wf_sub_def wire_sub_def sub_ints_def appended_inv appended_room intro: room_mono\<close>)
qed

section \<open>Loading what was saved\<close>

lemma read_header_ok:
  assumes "buf_inv b" "not_full b" "unread b = tlv ty img @ rest"
  shows "read_header b = Some (Some (word_of_int (vtype_code ty), word_of_nat (length img)), advance 4 b)"
  using tlv_header [OF assms] by (simp add: read_header_def)

lemma read_name_ok:
  assumes "buf_inv b" "not_full b" "unread b = tlv RBUS_STRING (text_image s) @ rest" "text_ok s"
  shows "read_name b = Some (Some (text_image s), advance (length (tlv RBUS_STRING (text_image s))) b)"
proof -
  note h = tlv_header [OF assms(1-3)]
  have n: "length s + 1 < 256" using assms(4) by (simp add: text_ok_def RBUS_MAX_NAME_LENGTH_def)
  have w: "unat (word_of_nat (length s + 1) :: u16) = length s + 1" "uint (word_of_nat (length s + 1) :: u16) = int (length s + 1)"
    using n by (simp_all add: unsigned_of_nat take_bit_nat_eq_self del: of_nat_add of_nat_Suc)
  have m: "mem_read (data (advance 4 b)) (posRead (advance 4 b)) (int (length s + 1)) = Some (text_image s)"
    using unread_split(2) [OF h(3,4)] by (simp add: text_image_def)
  have "int_range (posRead (advance 4 b) + int (length s + 1))" using read_ptr_unread(3) [OF h(3,4)] by simp
  moreover have "uint (word_of_int (vtype_code RBUS_STRING) :: u16) = vtype_code RBUS_STRING" by code_simp
  ultimately show ?thesis using read_header_ok [OF assms(1-3)] w m n
    by (simp add: read_name_def RBUS_MAX_NAME_LENGTH_def advance_def add.commute add.left_commute)
qed

lemma read_int_ok:
  assumes "buf_inv b" "not_full b" "unread b = tlv RBUS_INT32 (bytes32 w) @ rest"
  shows "read_int b = Some (Some w, advance 8 b)"
proof -
  note h = tlv_header [OF assms]
  have nf: "not_full (advance 4 b)" using assms(2) by simp
  have "rbusBuffer_ReadInt32 (advance 4 b) = Some (0, Some w, advance 8 b)"
    using ReadUInt32_ok [OF h(3) nf h(4)] by (simp add: rbusBuffer_ReadInt32_def rbusBuffer_ReadUInt32_def)
  then show ?thesis using read_header_ok [OF assms] by (simp add: read_int_def)
qed

lemma read_ints_ok:
  "buf_inv b \<Longrightarrow> not_full b \<Longrightarrow> unread b = wire_ints ws @ rest \<Longrightarrow>
   read_ints (length ws) b = Some (Some ws, advance (8 * length ws) b)"
proof (induction ws arbitrary: b)
  case (Cons w ws)
  have u: "unread b = tlv RBUS_INT32 (bytes32 w) @ wire_ints ws @ rest" using Cons.prems(3) by (simp add: wire_ints_def)
  have "buf_inv (advance 8 b)" "unread (advance 8 b) = wire_ints ws @ rest"
    using advance_inv [OF Cons.prems(1) u] unread_split(3) [OF Cons.prems(1) u] by simp_all
  then show ?case using read_int_ok [OF Cons.prems(1,2) u] Cons.IH [of "advance 8 b"] Cons.prems(2) by simp
qed simp

lemma load_sub_ok:
  assumes "wf_sub x" "buf_inv b" "not_full b" "unread b = wire_sub x @ rest"
  shows "\<exists>c a'. load_sub a b = Some (Some c, a', advance (length (wire_sub x)) b) \<and> ca_listener c = text_image (sub_listener x) \<and>
    ca_eventName c = text_image (sub_eventName x) \<and> ca_ints c = sub_ints x \<and> same_filter (sub_filter x) (ca_filter c)"
proof -
  let ?l = "tlv RBUS_STRING (text_image (sub_listener x))" and ?e = "tlv RBUS_STRING (text_image (sub_eventName x))"
  let ?i = "wire_ints (sub_ints x)" and ?f = "wire_filter (sub_filter x)"
  have t: "text_ok (sub_listener x)" "text_ok (sub_eventName x)" using assms(1) by (simp_all add: wf_sub_def)
  have 1: "unread b = ?l @ ?e @ ?i @ ?f @ rest" using assms(4) by (simp add: wire_sub_def)
  let ?b1 = "advance (length ?l) b"
  have 2: "buf_inv ?b1" "unread ?b1 = ?e @ ?i @ ?f @ rest" using advance_inv [OF assms(2) 1] unread_split(3) [OF assms(2) 1] by simp_all
  let ?b2 = "advance (length ?e) ?b1"
  have 3: "buf_inv ?b2" "unread ?b2 = ?i @ ?f @ rest" using advance_inv [OF 2] unread_split(3) [OF 2] by simp_all
  let ?b3 = "advance (8 * length (sub_ints x)) ?b2"
  have i: "length (sub_ints x) = 7" "last (sub_ints x) \<noteq> 0 \<longleftrightarrow> sub_filter x \<noteq> NullF" by (simp_all add: sub_ints_def)
  have ne: "?i \<noteq> []" using i(1) length_wire_ints [of "sub_ints x"] by (metis length_0_conv mult_is_0 zero_neq_numeral)
  have 4: "buf_inv ?b3" "unread ?b3 = ?f @ rest" using advance_inv [OF 3] unread_split(3) [OF 3 ne] by simp_all
  note r = read_name_ok [OF assms(2,3) 1 t(1)] read_name_ok [OF 2(1) _ 2(2) t(2)] read_ints_ok [OF 3(1) _ 3(2)]
  have nf: "not_full ?b1" "not_full ?b2" "not_full ?b3" using assms(3) by simp_all
  have r': "read_name b = Some (Some (text_image (sub_listener x)), ?b1)" "read_name ?b1 = Some (Some (text_image (sub_eventName x)), ?b2)"
    "read_ints 7 ?b2 = Some (Some (sub_ints x), ?b3)"
    using r(1) r(2) [OF nf(1)] r(3) [OF nf(2)] i(1) by simp_all
  show ?thesis
  proof (cases "sub_filter x = NullF")
    case True
    then show ?thesis using r' i(2) by (simp add: load_sub_def wire_sub_def sub_ints_def add.commute add.left_commute)
  next
    case False
    then obtain g a' where "rbusFilter_Decode a ?b3 = Some (0, Some g, advance (length ?f) ?b3, a')" "same_filter (sub_filter x) g"
      using Filter_Decode_reads [OF _ 4(1) nf(3) 4(2), of a] assms(1) unfolding wf_sub_def by blast
    then show ?thesis using r' i(2) False by (simp add: load_sub_def wire_sub_def sub_ints_def add.commute add.left_commute)
  qed
qed

lemma bool_at_int [simp]: "bool_at (int_of_bool v) = Some v"
  by (simp add: bool_at_def int_of_bool_def conv_bool_def)

lemma sint_of_int: "int_range i \<Longrightarrow> sint (word_of_int i :: u32) = i"
  by (simp add: signed_of_int signed_take_bit_int_eq_self int_range_def)

lemma loaded_sub_ok:
  assumes "wf_sub x" "ca_listener c = text_image (sub_listener x)" "ca_eventName c = text_image (sub_eventName x)" "ca_ints c = sub_ints x"
    "same_filter (sub_filter x) (ca_filter c)"
  shows "\<exists>y. loaded_sub c = Some y \<and> same_sub x y"
  using assms text_at_image sint_of_int by (simp add: loaded_sub_def wf_sub_def same_sub_def loaded_def sub_ints_def)

text \<open>Whether a subscription is still wanted, and whether the process number in its listener is an \<open>int\<close>.\<close>

definition wanted :: "system \<Rightarrow> rbusSubscription \<Rightarrow> bool" where
  "wanted os x \<longleftrightarrow> listener_kept os (sub_listener x) (sub_componentId x) = Some True"

definition decidable_listener :: "system \<Rightarrow> rbusSubscription \<Rightarrow> bool" where
  "decidable_listener os x \<longleftrightarrow> listener_kept os (sub_listener x) (sub_componentId x) \<noteq> None"

lemma load_loop_ok:
  "\<forall>x\<in>set xs. wf_sub x \<and> decidable_listener os x \<Longrightarrow> buf_inv b \<Longrightarrow> not_full b \<Longrightarrow> unread b = concat (map wire_sub xs) \<Longrightarrow>
   \<exists>ys. load_loop os a b = Some (True, \<not> list_all (wanted os) xs, ys) \<and> list_all2 same_sub (filter (wanted os) xs) ys"
proof (induction xs arbitrary: a b)
  case Nil
  then have "\<not> posRead b < posWrite b" by (auto simp: unread_def written_def buf_inv_def)
  then show ?case by (subst load_loop.simps) simp
next
  case (Cons x xs)
  have wf: "wf_sub x" "decidable_listener os x" using Cons.prems(1) by simp_all
  have u: "unread b = wire_sub x @ concat (map wire_sub xs)" using Cons.prems(4) by simp
  have ne: "wire_sub x \<noteq> []" by (simp add: wire_sub_def)
  have p: "posRead b < posWrite b" using unread_split(1) [OF Cons.prems(2) u] ne by (auto simp: length_greater_0_conv [symmetric] simp del: length_greater_0_conv)
  let ?b = "advance (length (wire_sub x)) b"
  have b: "buf_inv ?b" "not_full ?b" "unread ?b = concat (map wire_sub xs)"
    using advance_inv [OF Cons.prems(2) u] Cons.prems(3) unread_split(3) [OF Cons.prems(2) u ne] by simp_all
  obtain c a' where c: "load_sub a b = Some (Some c, a', ?b)" "ca_listener c = text_image (sub_listener x)"
    "ca_eventName c = text_image (sub_eventName x)" "ca_ints c = sub_ints x" "same_filter (sub_filter x) (ca_filter c)"
    using load_sub_ok [OF wf(1) Cons.prems(2,3) u, of a] by blast
  obtain y where y: "loaded_sub c = Some y" "same_sub x y" using loaded_sub_ok [OF wf(1) c(2-5)] by blast
  obtain ys where ys: "load_loop os a' ?b = Some (True, \<not> list_all (wanted os) xs, ys)" "list_all2 same_sub (filter (wanted os) xs) ys"
    using Cons.IH [OF _ b, of a'] Cons.prems(1) by auto
  have "text_at (ca_listener c) = Some (sub_listener x)" "sint (ca_ints c ! 0) = sub_componentId x"
    using wf(1) c(2,4) text_at_image sint_of_int by (simp_all add: wf_sub_def sub_ints_def)
  then show ?case using p c(1) y ys wf(2)
    by (subst load_loop.simps) (auto simp: wanted_def decidable_listener_def)
qed

text \<open>Records are a wire format like values and filters.\<close>

definition get_sub :: "addr \<Rightarrow> rbusBuffer \<Rightarrow> (rbusSubscription \<times> rbusBuffer) run" where
  "get_sub a b = do { (c, a, b) \<leftarrow> load_sub a b; c \<leftarrow> c; y \<leftarrow> loaded_sub c; Some (y, b) }"

interpretation cache_codec: wire_format wire_sub wf_sub save_sub "get_sub a" same_sub
  for a
proof (unfold_locales, goal_cases)
  case (1 x b)
  then show ?case by (rule save_sub_writes)
next
  case (2 x b rest)
  then show ?case using load_sub_ok [OF 2, of a] loaded_sub_ok [OF 2(1)] by (fastforce simp: get_sub_def)
next
  case (3 x)
  show ?case by (simp add: wire_sub_def)
qed

lemma length_wire_sub: "66 \<le> length (wire_sub x)"
  by (simp add: wire_sub_def sub_ints_def)

text \<open>The buffer a file is read into; a file with a record never fills its block.\<close>

lemma file_buffer:
  assumes "64 < length bs" "length bs \<le> MAX_BLOCK"
  obtains b d where "rbusBuffer_Reserve rbusBuffer_Create (int (length bs)) = Some b" "rbusBuffer_Destroy b = Some ()"
    "mem_write (data b) 0 bs = Some d" "buf_inv (b\<lparr>data := d, posWrite := int (length bs)\<rparr>)"
    "not_full (b\<lparr>data := d, posWrite := int (length bs)\<rparr>)" "unread (b\<lparr>data := d, posWrite := int (length bs)\<rparr>) = bs"
proof -
  have l: "posWrite rbusBuffer_Create + int (length bs) \<le> 2147483583" "lenAlloc rbusBuffer_Create < posWrite rbusBuffer_Create + int (length bs)"
    using assms by (simp_all add: MAX_BLOCK_def rbusBuffer_Create_def BUFFER_BLOCK_SIZE_def)
  obtain b where b: "rbusBuffer_Reserve rbusBuffer_Create (int (length bs)) = Some b" "buf_inv b" "posRead b = 0" "int (length bs) < lenAlloc b"
    using Reserve_ok [OF buf_inv_Create _ l(1)] l(2) by auto
  then have d: "length bs \<le> length (data b)" by (auto simp: buf_inv_def)
  show thesis
    by (rule that [OF b(1) Destroy_ok [OF b(2)], of "bs @ drop (length bs) (data b)"])
      (use b d in \<open>auto simp: mem_write_def buf_inv_def not_full_def unread_def written_def\<close>)
qed

lemma loadCache_result:
  assumes "64 < length bs" "length bs \<le> MAX_BLOCK" "rbusBuffer_Reserve rbusBuffer_Create (int (length bs)) = Some b"
    "rbusBuffer_Destroy b = Some ()" "mem_write (data b) 0 bs = Some d"
    "load_loop os a (b\<lparr>data := d, posWrite := int (length bs)\<rparr>) = Some (True, dropped, ys)"
  shows "rbusSubscriptions_loadCache os a (Some bs) = map_option (Pair ys) (if dropped then rbusSubscriptions_saveCache ys else Some (Some bs))"
proof -
  have "bs \<noteq> []" "int_range (int (length bs))" using assms(1,2) by (auto simp: MAX_BLOCK_def int_range_def)
  then show ?thesis using assms(3-6) by (cases "rbusSubscriptions_saveCache ys") (auto simp: rbusSubscriptions_loadCache_def)
qed

text \<open>
  C21. The subscriptions a provider saves when it changes them are what it starts with next time: reading the file that was
  written for a list of subscriptions yields, in order, those whose listener is still there, with the
  same names, component, interval, duration, modes, identifier and filter, and not tied to any element yet;
  no read goes past the block. The file stays as it is, or is written anew when subscriptions were dropped.
\<close>

theorem Cache_roundtrip:
  assumes "xs \<noteq> []" "\<forall>x\<in>set xs. wf_sub x \<and> decidable_listener os x" "length (concat (map wire_sub xs)) \<le> MAX_BLOCK"
  shows "\<exists>file ys. rbusSubscriptions_saveCache xs = Some (Some file) \<and> list_all2 same_sub (filter (wanted os) xs) ys \<and>
    rbusSubscriptions_loadCache os a (Some file) =
      map_option (Pair ys) (if list_all (wanted os) xs then Some (Some file) else rbusSubscriptions_saveCache ys)"
proof -
  let ?w = "concat (map wire_sub xs)"
  have "room (length ?w) rbusBuffer_Create" using assms(3) by (simp add: room_def MAX_BLOCK_def)
  then obtain b where b: "put_all save_sub rbusBuffer_Create xs = Some b" "buf_inv b" "written b = ?w"
    using cache_codec.put_all_writes [OF _ buf_inv_Create, of xs] assms(2) by (auto simp: writes_def appended_def)
  then have save: "rbusSubscriptions_saveCache xs = Some (Some ?w)"
    using assms(1) Destroy_ok by (simp add: rbusSubscriptions_saveCache_def)
  obtain x xs' where x: "xs = x # xs'" using assms(1) by (cases xs) auto
  then have long: "64 < length ?w" using length_wire_sub [of x] by simp
  obtain f d where f: "rbusBuffer_Reserve rbusBuffer_Create (int (length ?w)) = Some f" "rbusBuffer_Destroy f = Some ()"
    "mem_write (data f) 0 ?w = Some d" "buf_inv (f\<lparr>data := d, posWrite := int (length ?w)\<rparr>)"
    "not_full (f\<lparr>data := d, posWrite := int (length ?w)\<rparr>)" "unread (f\<lparr>data := d, posWrite := int (length ?w)\<rparr>) = ?w"
    using file_buffer [OF long assms(3)] .
  obtain ys where ys: "load_loop os a (f\<lparr>data := d, posWrite := int (length ?w)\<rparr>) = Some (True, \<not> list_all (wanted os) xs, ys)"
    "list_all2 same_sub (filter (wanted os) xs) ys" using load_loop_ok [OF assms(2) f(4-6)] by blast
  have "rbusSubscriptions_loadCache os a (Some ?w) =
      map_option (Pair ys) (if list_all (wanted os) xs then Some (Some ?w) else rbusSubscriptions_saveCache ys)"
    using loadCache_result [OF long assms(3) f(1-3) ys(1)] by simp
  then show ?thesis using save ys(2) by blast
qed

section \<open>Examples\<close>

definition demo_system :: system where
  "demo_system = \<lparr>kill = (\<lambda>pid. if pid = 7 then 0 else - 1), access = (\<lambda>f. if f = ''/tmp/.rbus/7_1'' then 0 else - 1)\<rparr>"

definition demo_saved :: "string \<Rightarrow> rbusSubscription" where
  "demo_saved listener = \<lparr>sub_listener = listener, sub_eventName = ''A.P'', sub_componentId = 1,
     sub_filter = Relation RBUS_FILTER_OPERATOR_LESS_THAN (Value 3 (DInt32 5)), sub_interval = 0, sub_duration = 0, sub_autoPublish = True,
     sub_tokens = None, sub_element = Some 4, sub_instances = [4], sub_rawData = False, sub_subscriptionId = 3\<rparr>"

text \<open>Of two clients one is gone.\<close>

theorem Cache_roundtrip_witness:
  "\<exists>file y. rbusSubscriptions_saveCache [demo_saved ''c.7'', demo_saved ''c.8''] = Some (Some file) \<and> same_sub (demo_saved ''c.7'') y \<and>
     rbusSubscriptions_loadCache demo_system 9 (Some file) = map_option (Pair [y]) (rbusSubscriptions_saveCache [y])"
proof -
  let ?xs = "[demo_saved ''c.7'', demo_saved ''c.8'']"
  have c: "?xs \<noteq> []" "\<forall>x\<in>set ?xs. wf_sub x \<and> decidable_listener demo_system x"
    "filter (wanted demo_system) ?xs = [demo_saved ''c.7'']" "list_all (wanted demo_system) ?xs = False"
    by code_simp+
  have l: "length (concat (map wire_sub ?xs)) \<le> MAX_BLOCK"
    by (simp add: wire_sub_def sub_ints_def demo_saved_def wire_value_def MAX_BLOCK_def)
  obtain bs ys where f: "rbusSubscriptions_saveCache ?xs = Some (Some bs)" "list_all2 same_sub (filter (wanted demo_system) ?xs) ys"
    "rbusSubscriptions_loadCache demo_system 9 (Some bs) =
      map_option (Pair ys) (if list_all (wanted demo_system) ?xs then Some (Some bs) else rbusSubscriptions_saveCache ys)"
    using Cache_roundtrip [OF c(1,2) l, of 9] by blast
  then obtain y where "ys = [y]" "same_sub (demo_saved ''c.7'') y" unfolding c(3) by (auto simp: list_all2_Cons1)
  then show ?thesis using f(1,3) unfolding c(4) by auto
qed

text \<open>A name that is longer than the rest of the file is copied all the same, here from behind the block.\<close>

theorem Cache_overread:
  "rbusSubscriptions_loadCache demo_system 9 (Some (bytes16 (word_of_int (vtype_code RBUS_STRING)) @ bytes16 100 @ text_image ''c.7'')) = None"
  by code_simp

text \<open>A field with the type of a string is taken for an integer if its length is 4.\<close>

definition demo_mistyped :: mem where
  "demo_mistyped = (let x = (demo_saved ''c.7'')\<lparr>sub_filter := NullF\<rparr>
     in tlv RBUS_STRING (text_image ''c.7'') @ tlv RBUS_STRING (text_image ''A.P'') @
        concat (map (\<lambda>w. tlv RBUS_STRING (bytes32 w)) (sub_ints x)))"

theorem Cache_mistyped_accepted:
  "map_option (\<lambda>(subs, file). (map sub_listener subs, file = Some demo_mistyped))
     (rbusSubscriptions_loadCache demo_system 9 (Some demo_mistyped)) = Some ([''c.7''], True)"
  by code_simp

end
