(* ===== verification/Spec2Isabelle.thy ===== *)
theory Spec2Isabelle
  imports RB_Filter RT_Base64 RT_HashMap RT_Routing RB_Session RB_Provider RB_Cache
begin

text \<open>
  A verification development of RBus, the message bus of the Reference Design Kit (RDK), on the
  C sources under \<^verbatim>\<open>src/\<close>.

  \<^bold>\<open>The program and its parts.\<close> RBus lets components of a device share data elements (properties, tables with
  rows, events, methods) under dotted names. A \<^emph>\<open>provider\<close> registers elements; they form a tree. A
  \<^emph>\<open>consumer\<close> subscribes to names, which may have wildcards or aliases in place of row numbers; the provider matches them
  against its tree, keeps the subscription, and sends a message for each event, for each change of a
  value its polling thread detects, or in intervals. Messages are made of values, properties and objects, which are
  reference counted; values and filters are encoded into byte buffers. Below, the library \<^verbatim>\<open>rtmessage\<close> frames
  messages and routes them: its daemon keeps a tree of topics with the routes to the components that
  registered them. A session manager hands out one session at a time. The code is in
  \<^verbatim>\<open>src/src/rbus\<close> (the API), \<^verbatim>\<open>src/src/core\<close> (the core over rtMessage), \<^verbatim>\<open>src/src/rtmessage\<close> (transport and
  containers) and \<^verbatim>\<open>src/src/session_manager\<close>.

  \<^bold>\<open>How the code is modelled.\<close> A function becomes a HOL function of the same name where the names do not clash. A call that may abort or
  run into undefined behaviour returns in the type \<open>'a run\<close>, an option whose \<open>None\<close> stands for that:
  failed assertions, reads of freed or indeterminate memory, reads outside a block, overflow of \<open>int\<close>. All
  theorems that say what an operation does say that it returns. Structs are records, enumerations datatypes or,
  where the code keeps unknown numbers, machine words; pointers are addresses into an explicit
  heap where aliasing matters (reference-counted cells, list items, element nodes and subscriptions) and
  copies of what they point to elsewhere. Loops are recursive functions; loops whose end depends on the
  input are partial functions into option, and the theorems show that they return.

  \<^bold>\<open>The theories.\<close>
  \<^item> \<open>RB_Prelude\<close>: machine types, the partiality monad, memory with indeterminate bytes, byte orders, C strings, error codes.
  \<^item> \<open>RB_Buffer\<close> (\<^verbatim>\<open>rbus_buffer.c\<close>): the growable buffer \<open>rbusBuffer\<close>, its TLV writers and typed readers; the locale
    \<open>wire_format\<close>, the contract of a codec, interpreted here for integers and in later theories for values, filters and
    cached subscriptions.
  \<^item> \<open>RB_Value\<close> (\<^verbatim>\<open>rbus_value.c\<close>, \<^verbatim>\<open>rbus_object.c\<close>, \<^verbatim>\<open>rbus_property.c\<close>): values as snapshots, setters, getters, copying, comparison of
    values, properties and objects. Comparison orders integers and strings as meant, objects compare equal just when they hold the same data, and
    copying yields the same data.
  \<^item> \<open>RB_ValueCodec\<close>: encoding and decoding of values. What is encoded is decoded again; on arbitrary input, decoded
    values have the announced type; where the reader of the buffer refuses the last bytes of a block.
  \<^item> \<open>RB_Filter\<close> (\<^verbatim>\<open>rbus_filter.c\<close>): filters, their evaluation, comparison and codec; negation does not survive the codec.
  \<^item> \<open>RB_Heap\<close>, \<open>RB_Objects\<close>, \<open>RB_ObjectMap\<close> (\<^verbatim>\<open>rtRetainable.c\<close>, \<^verbatim>\<open>rbus_property.c\<close>, \<^verbatim>\<open>rbus_object.c\<close>): reference counts on a heap of
    cells, all operations on properties and objects, the locale \<open>counted_field\<close> for a counted pointer in a cell (interpreted for its five
    kinds). Clients that pass handles they hold never touch freed cells and leak nothing; setting a property is a map update.
  \<^item> \<open>RB_Session\<close> (\<^verbatim>\<open>session_manager.c\<close>): the method handler, on that heap; it refines a lock.
  \<^item> \<open>RB_Element\<close>, \<open>RB_ElementTree\<close>, \<open>RB_Registry\<close> (\<^verbatim>\<open>rbus_element.c\<close>): the element tree, registration, lookup, rows. Rows always
    offer what their table's template offers, and registered names are found.
  \<^item> \<open>RB_TokenChain\<close> (\<^verbatim>\<open>rbus_tokenchain.c\<close>): subscribed names cut into tokens and matched against elements.
  \<^item> \<open>RB_Subscriptions\<close>, \<open>RB_ElementWalk\<close>, \<open>RB_SubscriptionLinks\<close> (\<^verbatim>\<open>rbus_subscriptions.c\<close>): the registry of subscriptions
    and its links to the element tree, in both directions, along every sequence of operations.
  \<^item> \<open>RB_Cache\<close> (\<^verbatim>\<open>rbus_subscriptions.c\<close>): the file in which a provider keeps its subscriptions over a restart; it reads back what it wrote.
  \<^item> \<open>RB_Events\<close> (\<^verbatim>\<open>rbus.c\<close>, \<^verbatim>\<open>rbus_valuechange.c\<close>): publishing and value change detection: who gets which message.
  \<^item> \<open>RB_Provider\<close> (\<^verbatim>\<open>rbus.c\<close>, \<^verbatim>\<open>rbus_intervalsubscription.c\<close>): the handlers of a provider, composed of all of the above, and its histories:
    subscribing, unsubscribing, registering elements, adding and deleting rows, publishing, polling, clients that go away. The links hold
    along all of them, and a subscriber is told.
  \<^item> \<open>RT_Vector\<close>, \<open>RT_List\<close>, \<open>RT_HashMap\<close> (\<^verbatim>\<open>rtVector.c\<close>, \<^verbatim>\<open>rtList.c\<close>, \<^verbatim>\<open>rtHashMap.c\<close>): the containers, on their blocks and items; the locales
    \<open>collection\<close> and \<open>sequence\<close> (vector, list) and \<open>key_value_map\<close> (hash map) state what clients rely on, and are
    interpreted on the models.
  \<^item> \<open>RT_RoutingTree\<close>, \<open>RT_Routing\<close> (\<^verbatim>\<open>rtRoutingTree.c\<close>): the topic tree of the routing daemon; adding, looking up and
    removing topics and routes are updates of a table of routes, and no topic keeps a freed route.
  \<^item> \<open>RT_Header\<close> (\<^verbatim>\<open>rtMessageHeader.c\<close>, \<^verbatim>\<open>rtEncoder.c\<close>) and \<open>RT_Base64\<close> (\<^verbatim>\<open>rtBase64.c\<close>): message headers, with the locale \<open>cursor_codec\<close> for their
    fields, and base64.

  The properties carry the marks C1, C2, ... in the text before them. Theorems without a mark that are about single inputs show defects of the
  code: what it does on them is proved by evaluation. Among them: deleting one row ends the subscription to all
  rows; the polling thread then reads a freed element; records of interval threads outlive their subscriptions; clients that
  disconnect leave subscriptions behind; the cache is read past its end.

  \<^bold>\<open>Assumptions.\<close> A 64-bit little-endian machine with 32-bit \<open>int\<close> and signed \<open>char\<close>; assertions are enabled; debugging
  options (\<^verbatim>\<open>RT_LIST_ERROR_CHECKING\<close>, \<^verbatim>\<open>MSG_ROUNDTRIP_TIME\<close> and the like) are off. Allocation
  succeeds, but for the vector, where failure is an argument. Addresses of freed cells are not used again, reference counts do not overflow, the
  hash of a key wraps around. Locks are not modelled: steps of a history are whole handlers, or, for the polling thread, whole rounds. Names contain no zero byte. Handlers of the
  provider, the table synchronisation handler, sending of messages, the clock, \<open>mktime\<close> and calls of the operating system are arguments of the definitions. Histories of a
  provider register elements under new names and add and delete rows where there are tables and rows; the theorems
  on single inputs show what happens otherwise. Event data are lists of names and values (the theory of objects shows that setting a
  value by name is the update used), and the lists and vectors of subscriptions and records are HOL lists (the container theories relate them).

  \<^bold>\<open>Bounds.\<close> Sizes of buffers and strings are bounded by \<open>MAX_BLOCK\<close>, the largest for which the computation of the
  next size stays within \<open>int\<close>; names of cached subscriptions by \<open>RBUS_MAX_NAME_LENGTH\<close>, as the reader demands; routing
  expressions by the static arrays of the tokenizer. No definition uses fuel.

  \<^bold>\<open>Not modelled.\<close> The message layer (\<^verbatim>\<open>rbus_message.c\<close>, \<^verbatim>\<open>rbuscore_message.c\<close>, \<^verbatim>\<open>rtMessage.c\<close>) wraps the libraries msgpack and cJSON,
  which are not in the sources, and the handlers for get, set, methods and table requests in \<^verbatim>\<open>rbus.c\<close> consist of
  calls to it. The core, connections and sockets, the event loop of the routing daemon, the retry thread of
  asynchronous subscriptions, the sleeping and the sending of the interval threads, logging, clocks, thread pools and the cipher are
  input and output, timing and operating system calls. Opening and closing handles, destroying containers, printing and text conversion of values,
  \<open>removeElement\<close> (which nothing calls), command line tools, samples, generators and tests are left out.
\<close>

end
